(* ===== verification/VL_Prelude.thy ===== *)
theory VL_Prelude
  imports Main "HOL-Library.Word"
begin

text \<open>
  Shared material of the development: the model's base types, the collections of
  facts the component theories feed, generic lemmas on 64-bit words, function updates
  and lists, and the interface \<open>monotone_shared\<close> through which every component
  states what the other threads may do to the shared state between two atomic
  accesses of an operation.
\<close>

unbundle bit_operations_syntax

section \<open>Base types\<close>

text \<open>
  \<open>size_t\<close> values and log entries are 64-bit words. Addresses of objects are natural
  numbers with 0 for the null pointer, so that allocation never runs out; where the
  code packs an address into a word (\<open>of_nat\<close>) the theorems carry the bound of 48 bits
  that the code relies on.
\<close>

type_synonym u64 = "64 word"
type_synonym addr = nat

abbreviation (input) nullptr :: addr where
  "nullptr \<equiv> 0"

named_theorems word_layout \<open>bit layouts of tagged words\<close>
named_theorems shared_mono \<open>an operation only extends the shared state\<close>

section \<open>Bits of 64-bit words\<close>

lemma mask_48_value: "(mask 48 :: u64) = 281474976710655"
  by (simp add: mask_eq_exp_minus_1)

lemma and_not_mask_push_drop:
  "(x :: 'a::len word) AND NOT (mask n) = push_bit n (drop_bit n x)"
  by (rule bit_word_eqI) (auto simp: bit_simps)

lemma unat_push_drop:
  "unat (push_bit n (drop_bit n (x :: 'a::len word))) = unat x div 2 ^ n * 2 ^ n"
proof -
  have "x = push_bit n (drop_bit n x) OR take_bit n x"
    by (rule bit_word_eqI) (auto simp: bit_simps)
  moreover have "push_bit n (drop_bit n x) = x - take_bit n x"
    by (metis add_diff_cancel_right' bits_ident)
  moreover have "unat (take_bit n x) = unat x mod 2 ^ n"
    by (simp only: unsigned_take_bit_eq) (simp only: take_bit_eq_mod)
  moreover have "take_bit n x \<le> x"
    by (simp add: word_le_nat_alt calculation(3))
  ultimately show ?thesis
    by (simp add: unat_sub minus_mod_eq_div_mult)
qed

lemma unat_take_bit_mod: "unat (take_bit n (x :: 'a::len word)) = unat x mod 2 ^ n"
  by (simp only: unsigned_take_bit_eq) (simp only: take_bit_eq_mod)

lemma take_bit_small:
  assumes "unat (x :: 'a::len word) < 2 ^ n"
  shows "take_bit n x = x"
proof -
  have "unat (take_bit n x) = unat x"
    using assms by (simp only: unat_take_bit_mod mod_less)
  then show ?thesis by (simp only: word_unat_eq_iff)
qed

lemma small_word_bits:
  assumes "unat (x :: 'a::len word) < 2 ^ n" "bit x i"
  shows "i < n"
  by (metis assms bit_take_bit_iff take_bit_small)

lemma bit_push_one: "bit (push_bit k (1 :: u64)) n \<longleftrightarrow> n = k \<and> k < 64"
  by (auto simp: bit_simps)

lemma unat_of_nat_small: "n < 2 ^ LENGTH('a) \<Longrightarrow> unat (of_nat n :: 'a::len word) = n"
  by (simp add: unat_of_nat)

lemma unat_of_addr:
  assumes "p < 2 ^ 48"
  shows "unat (of_nat p :: u64) = p"
  by (rule unat_of_nat_small) (use assms in simp)

lemma of_addr_nonzero:
  assumes "0 < p" "p < 2 ^ 48"
  shows "(of_nat p :: u64) \<noteq> 0"
  using unat_of_addr [OF assms(2)] assms(1) by auto

section \<open>Interference of other threads\<close>

text \<open>
  An operation on shared memory is a sequence of atomic accesses. What the other
  threads do between two of them is an argument \<open>env\<close> of the operation's model:
  \<open>env i s\<close> is the shared state the operation finds at its \<open>i\<close>-th access when it left
  \<open>s\<close> at the previous one. A component states what its threads guarantee, and so what
  each of them may rely on, as a preorder \<open>le\<close> on its shared state with a
  well-formedness invariant \<open>wf\<close>.
\<close>

locale monotone_shared =
  fixes le :: "'s \<Rightarrow> 's \<Rightarrow> bool"
    and wf :: "'s \<Rightarrow> bool"
  assumes le_refl: "le s s"
    and le_trans: "le s t \<Longrightarrow> le t u \<Longrightarrow> le s u"
begin

definition evolves :: "'s \<Rightarrow> 's \<Rightarrow> bool" where
  "evolves s t \<longleftrightarrow> le s t \<and> (wf s \<longrightarrow> wf t)"

definition rely :: "(nat \<Rightarrow> 's \<Rightarrow> 's) \<Rightarrow> bool" where
  "rely env \<longleftrightarrow> (\<forall>i s. evolves s (env i s))"

fun run_steps :: "('s \<Rightarrow> 's) list \<Rightarrow> 's \<Rightarrow> 's" where
  "run_steps [] s = s"
| "run_steps (f # fs) s = run_steps fs (f s)"

lemma evolves_refl [simp]: "evolves s s"
  by (simp add: evolves_def le_refl)

lemma evolves_trans: "evolves s t \<Longrightarrow> evolves t u \<Longrightarrow> evolves s u"
  by (auto simp: evolves_def intro: le_trans)

lemma rely_idle [simp]: "rely (\<lambda>i s. s)"
  by (simp add: rely_def)

lemma relyD: "rely env \<Longrightarrow> evolves s (env i s)"
  by (simp add: rely_def)

lemma evolves_wf: "evolves s t \<Longrightarrow> wf s \<Longrightarrow> wf t"
  by (simp add: evolves_def)

lemma run_steps_evolves:
  assumes "\<And>f s. f \<in> set fs \<Longrightarrow> evolves s (f s)"
  shows "evolves s (run_steps fs s)"
  using assms
proof (induction fs arbitrary: s)
  case (Cons f fs)
  then have "evolves s (f s)" and "evolves (f s) (run_steps fs (f s))"
    by simp_all
  then show ?case
    by (auto intro: evolves_trans)
qed simp

lemma stable_along:
  assumes stable: "\<And>s t. P s \<Longrightarrow> evolves s t \<Longrightarrow> P t"
    and "P s" and "\<And>f s. f \<in> set fs \<Longrightarrow> evolves s (f s)"
  shows "P (run_steps fs s)"
  using assms run_steps_evolves by blast

end

end
