(* ===== verification/Flock_Log.thy ===== *)
theory Flock_Log
  imports VL_Prelude
begin

text \<open>
  The idempotence log of the lock-free locks, \<^verbatim>\<open>include/flock/lf_log.h\<close>. Every thunk
  run under a lock has a log, a chain of arrays of \<open>Log_Len\<close> entries; all threads that
  help the thunk commit the values they depend on to the same positions, and whoever
  commits first decides the value. The theory models the log arrays as a memory of
  arrays, the thread-local cursor \<open>Log\<close> as a record and each routine as a state
  transformer with the interference of the other helpers between its atomic accesses
  as an argument. The results are that a committed entry is never overwritten, that
  every helper gets the committed value, and that whole thunks replay to one result.
\<close>

unbundle bit_operations_syntax

section \<open>Log arrays and the cursor\<close>

text \<open>A log entry of zero means that nothing has been committed there.\<close>

abbreviation (input) uncommitted :: u64 where
  "uncommitted \<equiv> 0"

definition Log_Len :: nat where
  "Log_Len = 8"

lemma Log_Len_pos [simp]: "0 < Log_Len"
  by (simp add: Log_Len_def)

record log_array =
  log_entries :: "u64 list"
  next_arr :: addr

text \<open>
  The memory of log arrays: what is stored at each address (storage that the pool
  hands out again still holds its old contents) and which addresses hold live arrays.
\<close>

record log_mem =
  la_at :: "addr \<Rightarrow> log_array"
  la_live :: "addr set"

record Log =
  vals :: addr
  count :: nat

text \<open>
  The state an operation under a lock sees: the thread's cursor \<open>lg\<close>, the log arrays
  and the rest of the memory.
\<close>

record 'm fstate =
  lg :: Log
  logs :: log_mem
  mem :: 'm

definition empty_Log :: Log where
  "empty_Log = \<lparr>vals = nullptr, count = 0\<rparr>"

definition log_array_init :: "log_array \<Rightarrow> log_array" where
  "log_array_init la =
     \<lparr>log_entries = map (\<lambda>e. if e \<noteq> uncommitted then uncommitted else e) (log_entries la),
      next_arr = (if next_arr la \<noteq> nullptr then nullptr else next_arr la)\<rparr>"

definition entry :: "log_mem \<Rightarrow> addr \<Rightarrow> nat \<Rightarrow> u64" where
  "entry H a i = log_entries (la_at H a) ! i"

definition set_entry :: "log_mem \<Rightarrow> addr \<Rightarrow> nat \<Rightarrow> u64 \<Rightarrow> log_mem" where
  "set_entry H a i v =
     H\<lparr>la_at := (la_at H)(a := (la_at H a)\<lparr>log_entries := (log_entries (la_at H a))[i := v]\<rparr>)\<rparr>"

definition set_next :: "log_mem \<Rightarrow> addr \<Rightarrow> addr \<Rightarrow> log_mem" where
  "set_next H a b = H\<lparr>la_at := (la_at H)(a := (la_at H a)\<lparr>next_arr := b\<rparr>)\<rparr>"

definition is_empty :: "Log \<Rightarrow> bool" where
  "is_empty L \<longleftrightarrow> vals L = nullptr"

text \<open>
  \<open>new_obj\<close> of the pool of log arrays picks an address (\<open>alloc\<close>); \<open>init\<close> clears what the
  storage held; \<open>destruct\<close> gives the address back.
\<close>

definition new_log_array :: "(log_mem \<Rightarrow> addr) \<Rightarrow> log_mem \<Rightarrow> addr \<times> log_mem" where
  "new_log_array alloc H =
     (let a = alloc H
      in (a, \<lparr>la_at = (la_at H)(a := log_array_init (la_at H a)), la_live = insert a (la_live H)\<rparr>))"

definition destruct_log_array :: "addr \<Rightarrow> log_mem \<Rightarrow> log_mem" where
  "destruct_log_array a H = H\<lparr>la_live := la_live H - {a}\<rparr>"

text \<open>
  \<open>next_entry\<close>: the cell the cursor moves to. When the array is full the cursor follows
  \<open>next\<close>; if that is null, a new array is allocated and installed by a compare-exchange,
  and handed back if another helper (\<open>env\<close>) installed one in between.
\<close>

definition next_entry ::
  "(log_mem \<Rightarrow> log_mem) \<Rightarrow> (log_mem \<Rightarrow> addr) \<Rightarrow> Log \<Rightarrow> log_mem \<Rightarrow> (addr \<times> nat) \<times> Log \<times> log_mem"
where
  "next_entry env alloc L H =
     (if count L = Log_Len then
        let next_log_array = next_arr (la_at H (vals L)) in
        if next_log_array \<noteq> nullptr
        then ((next_log_array, 0), \<lparr>vals = next_log_array, count = 1\<rparr>, H)
        else
          let (new_arr, H1) = new_log_array alloc (env H);
              cur = next_arr (la_at H1 (vals L))
          in if cur = nullptr
             then ((new_arr, 0), \<lparr>vals = new_arr, count = 1\<rparr>, set_next H1 (vals L) new_arr)
             else ((cur, 0), \<lparr>vals = cur, count = 1\<rparr>, destruct_log_array new_arr H1)
      else ((vals L, count L), L\<lparr>count := count L + 1\<rparr>, H))"

definition current_entry :: "Log \<Rightarrow> addr \<times> nat" where
  "current_entry L = (vals L, count L - 1)"

section \<open>Committing to the log\<close>

text \<open>
  The load of an entry and the compare-exchange on it are two accesses (\<open>env 1\<close> lies
  between them); \<open>env 0\<close> is the interference inside \<open>next_entry\<close>.
\<close>

definition commit_value ::
  "(nat \<Rightarrow> log_mem \<Rightarrow> log_mem) \<Rightarrow> (log_mem \<Rightarrow> addr) \<Rightarrow> Log \<Rightarrow> u64 \<Rightarrow> log_mem
   \<Rightarrow> (u64 \<times> bool) \<times> Log \<times> log_mem"
where
  "commit_value env alloc L newv H =
     (if is_empty L then ((newv, True), L, H)
      else
        let ((a, i), L', H1) = next_entry (env 0) alloc L H;
            oldv = entry H1 a i
        in if oldv = uncommitted
           then let H2 = env 1 H1; cur = entry H2 a i
                in if cur = uncommitted then ((newv, True), L', set_entry H2 a i newv)
                   else ((cur, False), L', H2)
           else ((oldv, False), L', H1))"

definition set_bit48 :: u64 where
  "set_bit48 = push_bit 48 1"

definition commit_value_safe ::
  "(nat \<Rightarrow> log_mem \<Rightarrow> log_mem) \<Rightarrow> (log_mem \<Rightarrow> addr) \<Rightarrow> Log \<Rightarrow> u64 \<Rightarrow> log_mem
   \<Rightarrow> (u64 \<times> bool) \<times> Log \<times> log_mem"
where
  "commit_value_safe env alloc L val H =
     (if is_empty L then ((val, True), L, H)
      else
        let ((a, i), L', H1) = next_entry (env 0) alloc L H;
            oldv = entry H1 a i;
            newv = val OR set_bit48
        in if oldv = uncommitted
           then let H2 = env 1 H1; cur = entry H2 a i
                in if cur = uncommitted then ((val, True), L', set_entry H2 a i newv)
                   else ((cur AND NOT set_bit48, False), L', H2)
           else ((oldv AND NOT set_bit48, False), L', H1))"

definition log_check_synchronized ::
  "(nat \<Rightarrow> log_mem \<Rightarrow> log_mem) \<Rightarrow> (log_mem \<Rightarrow> addr) \<Rightarrow> Log \<Rightarrow> u64 \<Rightarrow> log_mem
   \<Rightarrow> bool \<times> Log \<times> log_mem"
where
  "log_check_synchronized env alloc L i H =
     (if is_empty L then (True, L, H)
      else let ((v, _), L', H') = commit_value env alloc L i H in (v = i, L', H'))"

section \<open>Running code with a log\<close>

definition with_log :: "Log \<Rightarrow> ('m fstate \<Rightarrow> 'r \<times> 'm fstate) \<Rightarrow> 'm fstate \<Rightarrow> 'r \<times> 'm fstate" where
  "with_log newlg f s =
     (let holdlg = lg s; (r, s1) = f (s\<lparr>lg := newlg\<rparr>) in (r, s1\<lparr>lg := holdlg\<rparr>))"

definition with_empty_log :: "('m fstate \<Rightarrow> 'r \<times> 'm fstate) \<Rightarrow> 'm fstate \<Rightarrow> 'r \<times> 'm fstate" where
  "with_empty_log f s = with_log empty_Log f s"

definition skip_if_done_no_log ::
  "(log_mem \<Rightarrow> log_mem) \<Rightarrow> (log_mem \<Rightarrow> addr) \<Rightarrow> ('m fstate \<Rightarrow> 'm fstate) \<Rightarrow> 'm fstate
   \<Rightarrow> bool \<times> 'm fstate"
where
  "skip_if_done_no_log env alloc f s =
     (if is_empty (lg s) then (True, f s)
      else
        let ((a, i), L', H1) = next_entry env alloc (lg s) (logs s);
            s1 = s\<lparr>lg := L', logs := H1\<rparr>
        in if entry H1 a i = uncommitted
           then let s2 = f s1 in (True, s2\<lparr>logs := set_entry (logs s2) a i 1\<rparr>)
           else (False, s1))"

definition pack_Log :: "Log \<Rightarrow> u64" where
  "pack_Log L = push_bit 48 (of_nat (count L)) OR of_nat (vals L)"

definition unpack_Log :: "u64 \<Rightarrow> Log" where
  "unpack_Log x = \<lparr>vals = unat (x AND (push_bit 48 1 - 1)), count = unat (drop_bit 48 x)\<rparr>"

definition skip_if_done ::
  "(log_mem \<Rightarrow> log_mem) \<Rightarrow> (log_mem \<Rightarrow> addr) \<Rightarrow> ('m fstate \<Rightarrow> 'm fstate) \<Rightarrow> 'm fstate
   \<Rightarrow> bool \<times> 'm fstate"
where
  "skip_if_done env alloc f s =
     (if is_empty (lg s) then (True, f s)
      else
        let ((a, i), L', H1) = next_entry env alloc (lg s) (logs s);
            s1 = s\<lparr>lg := L', logs := H1\<rparr>;
            v = entry H1 a i
        in if v = uncommitted
           then let s2 = f s1
                in (True, s2\<lparr>logs := set_entry (logs s2) a i (pack_Log (lg s2))\<rparr>)
           else (False, s1\<lparr>lg := unpack_Log v\<rparr>))"

definition read_only ::
  "(nat \<Rightarrow> log_mem \<Rightarrow> log_mem) \<Rightarrow> (log_mem \<Rightarrow> addr) \<Rightarrow> ('m fstate \<Rightarrow> u64 \<times> 'm fstate)
   \<Rightarrow> 'm fstate \<Rightarrow> u64 \<times> 'm fstate"
where
  "read_only env alloc f s =
     (let (r, s1) = with_log empty_Log f s;
          ((v, _), L', H') = commit_value_safe env alloc (lg s1) r (logs s1)
      in (v, s1\<lparr>lg := L', logs := H'\<rparr>))"

section \<open>What the helpers of a log guarantee\<close>

definition wf_log :: "log_mem \<Rightarrow> bool" where
  "wf_log H \<longleftrightarrow>
     (\<forall>a. length (log_entries (la_at H a)) = Log_Len) \<and> finite (la_live H) \<and> nullptr \<notin> la_live H \<and>
     (\<forall>a\<in>la_live H. next_arr (la_at H a) \<noteq> nullptr \<longrightarrow> next_arr (la_at H a) \<in> la_live H)"

definition log_le :: "log_mem \<Rightarrow> log_mem \<Rightarrow> bool" where
  "log_le H H' \<longleftrightarrow> la_live H \<subseteq> la_live H' \<and>
     (\<forall>a\<in>la_live H.
        (next_arr (la_at H a) \<noteq> nullptr \<longrightarrow> next_arr (la_at H' a) = next_arr (la_at H a)) \<and>
        (\<forall>i<Log_Len. entry H a i \<noteq> uncommitted \<longrightarrow> entry H' a i = entry H a i))"

interpretation llog: monotone_shared log_le wf_log
proof
  fix s t u
  show "log_le s s"
    by (simp add: log_le_def)
  assume st: "log_le s t" and tu: "log_le t u"
  show "log_le s u"
    unfolding log_le_def
  proof (intro conjI ballI allI impI)
    from st tu show "la_live s \<subseteq> la_live u"
      unfolding log_le_def by blast
  next
    fix a assume "a \<in> la_live s" "next_arr (la_at s a) \<noteq> nullptr"
    with st tu show "next_arr (la_at u a) = next_arr (la_at s a)"
      unfolding log_le_def by (metis subsetD)
  next
    fix a i assume "a \<in> la_live s" "i < Log_Len" "entry s a i \<noteq> uncommitted"
    with st tu show "entry u a i = entry s a i"
      unfolding log_le_def by (metis subsetD)
  qed
qed

text \<open>What the pool promises: an address that is not null and not in use.\<close>

definition alloc_ok :: "(log_mem \<Rightarrow> addr) \<Rightarrow> bool" where
  "alloc_ok alloc \<longleftrightarrow> (\<forall>H. finite (la_live H) \<longrightarrow> alloc H \<notin> la_live H \<and> alloc H \<noteq> nullptr)"

text \<open>A cursor into a log: on a live array, at most at its end.\<close>

definition wf_cursor :: "Log \<Rightarrow> log_mem \<Rightarrow> bool" where
  "wf_cursor L H \<longleftrightarrow> vals L \<in> la_live H \<and> count L \<le> Log_Len"

section \<open>Properties of the cursor\<close>

text \<open>
  The cell a cursor moves to and the cursor it becomes, read off a log in which the
  position exists already.
\<close>

definition cell_of :: "log_mem \<Rightarrow> Log \<Rightarrow> addr \<times> nat" where
  "cell_of F L =
     (if count L = Log_Len then (next_arr (la_at F (vals L)), 0) else (vals L, count L))"

definition cursor_after :: "log_mem \<Rightarrow> Log \<Rightarrow> Log" where
  "cursor_after F L =
     (if count L = Log_Len then \<lparr>vals = next_arr (la_at F (vals L)), count = 1\<rparr>
      else L\<lparr>count := count L + 1\<rparr>)"

definition has_cell :: "log_mem \<Rightarrow> Log \<Rightarrow> bool" where
  "has_cell F L \<longleftrightarrow> wf_cursor L F \<and>
     (count L = Log_Len \<longrightarrow> next_arr (la_at F (vals L)) \<noteq> nullptr)"

lemma set_entry_simps [simp]:
  "la_live (set_entry H a i v) = la_live H"
  "next_arr (la_at (set_entry H a i v) b) = next_arr (la_at H b)"
  by (simp_all add: set_entry_def)

lemma entry_set_entry:
  assumes "wf_log H" "i < Log_Len"
  shows "entry (set_entry H a i v) b j = (if b = a \<and> j = i then v else entry H b j)"
  using assms by (auto simp: entry_def set_entry_def wf_log_def nth_list_update)

lemma wf_log_set_entry [simp]: "wf_log H \<Longrightarrow> wf_log (set_entry H a i v)"
  by (auto simp: wf_log_def set_entry_def)

lemma log_le_set_entry:
  assumes "wf_log H" "i < Log_Len" "entry H a i = uncommitted"
  shows "log_le H (set_entry H a i v)"
  using assms by (auto simp: log_le_def entry_set_entry)

lemma log_le_cell:
  assumes "log_le H F" "has_cell H L"
  shows "has_cell F L" "cell_of F L = cell_of H L" "cursor_after F L = cursor_after H L"
  using assms by (auto simp: has_cell_def wf_cursor_def log_le_def cell_of_def cursor_after_def)

lemma has_cell_live:
  assumes "wf_log H" "has_cell H L" "cell_of H L = (a, i)"
  shows "a \<in> la_live H" "i < Log_Len" "wf_cursor (cursor_after H L) H"
  using assms
  by (auto simp: has_cell_def wf_cursor_def wf_log_def cell_of_def cursor_after_def Log_Len_def
      split: if_splits)

lemma log_le_entry:
  assumes "log_le H F" "wf_log H" "has_cell H L" "cell_of H L = (a, i)"
    and "entry H a i \<noteq> uncommitted"
  shows "entry F a i = entry H a i"
  using assms has_cell_live [OF assms(2-4)] by (auto simp: log_le_def)

lemma new_log_array_step:
  assumes "alloc_ok alloc" "wf_log H" "new_log_array alloc H = (a, H1)"
  shows "wf_log H1" "log_le H H1" "a \<notin> la_live H" "a \<noteq> nullptr"
    "la_live H1 = insert a (la_live H)" "next_arr (la_at H1 a) = nullptr"
    "b \<noteq> a \<Longrightarrow> la_at H1 b = la_at H b"
proof -
  from assms have a: "a = alloc H"
    and H1: "H1 = \<lparr>la_at = (la_at H)(a := log_array_init (la_at H a)), la_live = insert a (la_live H)\<rparr>"
    by (auto simp: new_log_array_def Let_def)
  from assms(1,2) a show fresh: "a \<notin> la_live H" "a \<noteq> nullptr"
    by (auto simp: alloc_ok_def wf_log_def)
  from H1 show "la_live H1 = insert a (la_live H)" "next_arr (la_at H1 a) = nullptr"
    "b \<noteq> a \<Longrightarrow> la_at H1 b = la_at H b"
    by (auto simp: log_array_init_def)
  from assms(2) fresh H1 show "wf_log H1"
    by (auto simp: wf_log_def log_array_init_def)
  from fresh H1 show "log_le H H1"
    by (auto simp: log_le_def entry_def)
qed

lemma next_entry_step:
  assumes al: "alloc_ok alloc" and wf: "wf_log H" and L: "wf_cursor L H"
    and env: "llog.evolves H (env H)"
    and ne: "next_entry env alloc L H = (c, L', H')"
  shows "wf_log H' \<and> log_le H H' \<and> has_cell H' L \<and> cell_of H' L = c \<and> L' = cursor_after H' L"
proof (cases "count L = Log_Len \<and> next_arr (la_at H (vals L)) = nullptr")
  case False
  with ne wf L show ?thesis
    by (auto simp: next_entry_def cell_of_def cursor_after_def has_cell_def Let_def llog.le_refl
        split: if_splits)
next
  case True
  obtain n H1 where n: "new_log_array alloc (env H) = (n, H1)"
    by (cases "new_log_array alloc (env H)")
  from env wf have wf0: "wf_log (env H)" and le0: "log_le H (env H)"
    by (simp_all add: llog.evolves_def)
  note new = new_log_array_step [OF al wf0 n]
  from L le0 have v: "vals L \<in> la_live (env H)"
    by (auto simp: wf_cursor_def log_le_def)
  with new(3) have vn: "vals L \<noteq> n" by auto
  from le0 new(2) have le1: "log_le H H1" by (rule llog.le_trans)
  show ?thesis
  proof (cases "next_arr (la_at H1 (vals L)) = nullptr")
    case null: True
    with True ne n have H': "H' = set_next H1 (vals L) n" and c: "c = (n, 0)"
      and L': "L' = \<lparr>vals = n, count = 1\<rparr>"
      by (auto simp: next_entry_def Let_def)
    have "wf_log H'"
      using new(1,4,5) v unfolding H' by (auto simp: wf_log_def set_next_def)
    moreover have "log_le H1 H'"
      using null unfolding H' by (auto simp: log_le_def set_next_def entry_def)
    then have "log_le H H'"
      using le1 llog.le_trans by blast
    ultimately show ?thesis
      using True L v new(4,5) unfolding H' c L'
      by (auto simp: has_cell_def wf_cursor_def cell_of_def cursor_after_def set_next_def)
  next
    case other: False
    with True ne n have H': "H' = destruct_log_array n H1"
      and c: "c = (next_arr (la_at H1 (vals L)), 0)"
      and L': "L' = \<lparr>vals = next_arr (la_at H1 (vals L)), count = 1\<rparr>"
      by (auto simp: next_entry_def Let_def)
    have same: "la_at H1 b = la_at (env H) b" if "b \<in> la_live (env H)" for b
      using that new(3,7) by metis
    have live: "la_live H' = la_live (env H)" "la_at H' = la_at H1"
      using new(3,5) by (auto simp: H' destruct_log_array_def)
    have "wf_log H'"
      using new(1) wf0 same unfolding wf_log_def live by simp
    moreover have "log_le (env H) H'"
      using same unfolding log_le_def live entry_def by simp
    then have "log_le H H'"
      using le0 llog.le_trans by blast
    ultimately show ?thesis
      using True L v vn new(5) other unfolding H' c L'
      by (auto simp: has_cell_def wf_cursor_def cell_of_def cursor_after_def destruct_log_array_def)
  qed
qed

section \<open>Agreement on committed values\<close>

text \<open>One lemma for both commit routines: \<open>enc\<close> is what goes into the entry.\<close>

definition commit_outcome :: "Log \<Rightarrow> log_mem \<Rightarrow> u64 \<Rightarrow> Log \<Rightarrow> log_mem \<Rightarrow> bool" where
  "commit_outcome L H e L' H' \<longleftrightarrow>
     wf_log H' \<and> log_le H H' \<and> has_cell H' L \<and> L' = cursor_after H' L \<and>
     e \<noteq> uncommitted \<and> (case cell_of H' L of (a, i) \<Rightarrow> entry H' a i = e)"

lemma commit_outcome_after_next:
  assumes wf: "wf_log H1" and le: "log_le H H1" and cell: "has_cell H1 L" "cell_of H1 L = (a, i)"
    and env: "llog.evolves H1 (env H1)" and "newv \<noteq> uncommitted"
  shows "entry H1 a i \<noteq> uncommitted \<Longrightarrow> commit_outcome L H (entry H1 a i) (cursor_after H1 L) H1"
    and "entry (env H1) a i \<noteq> uncommitted \<Longrightarrow>
      commit_outcome L H (entry (env H1) a i) (cursor_after H1 L) (env H1)"
    and "entry (env H1) a i = uncommitted \<Longrightarrow>
      commit_outcome L H newv (cursor_after H1 L) (set_entry (env H1) a i newv)"
proof -
  show "commit_outcome L H (entry H1 a i) (cursor_after H1 L) H1"
    if "entry H1 a i \<noteq> uncommitted"
    using that assms by (simp add: commit_outcome_def)
  from env wf have wf2: "wf_log (env H1)" and le2: "log_le H1 (env H1)"
    by (simp_all add: llog.evolves_def)
  note c2 = log_le_cell [OF le2 cell(1)]
  have le02: "log_le H (env H1)" using le le2 by (rule llog.le_trans)
  show "commit_outcome L H (entry (env H1) a i) (cursor_after H1 L) (env H1)"
    if "entry (env H1) a i \<noteq> uncommitted"
    using that wf2 le02 c2 cell(2) by (simp add: commit_outcome_def)
  show "commit_outcome L H newv (cursor_after H1 L) (set_entry (env H1) a i newv)"
    if un: "entry (env H1) a i = uncommitted"
  proof -
    have i: "i < Log_Len" by (rule has_cell_live(2) [OF wf2 c2(1)]) (simp add: c2 cell)
    have le3: "log_le (env H1) (set_entry (env H1) a i newv)"
      by (rule log_le_set_entry [OF wf2 i un])
    note c3 = log_le_cell [OF le3 c2(1)]
    show ?thesis
      using wf2 i c2 c3 cell(2) assms(6) llog.le_trans [OF le02 le3]
      by (simp add: commit_outcome_def entry_set_entry)
  qed
qed

lemma is_empty_cursor: "wf_cursor L H \<Longrightarrow> wf_log H \<Longrightarrow> \<not> is_empty L"
  unfolding wf_cursor_def wf_log_def is_empty_def by metis

lemma commit_value_outcome:
  assumes "alloc_ok alloc" "wf_log H" "wf_cursor L H" "llog.rely env" "newv \<noteq> uncommitted"
    and cv: "commit_value env alloc L newv H = ((v, b), L', H')"
  shows "commit_outcome L H v L' H'" "b \<Longrightarrow> v = newv"
proof -
  obtain a i L1 H1 where ne: "next_entry (env 0) alloc L H = ((a, i), L1, H1)"
    by (metis prod.exhaust)
  note st = next_entry_step [OF assms(1-3) llog.relyD [OF assms(4)] ne]
  then have cell: "cell_of H1 L = (a, i)" by simp
  note out = commit_outcome_after_next
    [where env = "env 1" and H = H and L = L, OF _ _ _ cell llog.relyD [OF assms(4)] assms(5)]
  show "commit_outcome L H v L' H'" "b \<Longrightarrow> v = newv"
    using cv st out is_empty_cursor [OF assms(3,2)]
    by (auto simp: commit_value_def ne Let_def simp del: One_nat_def split: if_splits)
qed

lemma commit_value_safe_outcome:
  assumes "alloc_ok alloc" "wf_log H" "wf_cursor L H" "llog.rely env"
    and cv: "commit_value_safe env alloc L val H = ((v, b), L', H')"
  shows "\<exists>e. commit_outcome L H e L' H' \<and>
    (if b then e = val OR set_bit48 \<and> v = val else v = e AND NOT set_bit48)"
proof -
  obtain a i L1 H1 where ne: "next_entry (env 0) alloc L H = ((a, i), L1, H1)"
    by (metis prod.exhaust)
  have nz: "val OR set_bit48 \<noteq> uncommitted"
  proof
    assume "val OR set_bit48 = uncommitted"
    then have "bit (val OR set_bit48) 48 = bit (0 :: u64) 48" by simp
    then show False by (simp add: set_bit48_def bit_simps)
  qed
  note st = next_entry_step [OF assms(1-3) llog.relyD [OF assms(4)] ne]
  then have cell: "cell_of H1 L = (a, i)" by simp
  note out = commit_outcome_after_next
    [where env = "env 1" and H = H and L = L, OF _ _ _ cell llog.relyD [OF assms(4)] nz]
  show ?thesis
    using cv st out is_empty_cursor [OF assms(3,2)]
    by (auto simp: commit_value_safe_def ne Let_def simp del: One_nat_def split: if_splits)
qed

lemma commit_outcome_unique:
  assumes "commit_outcome L H1 e1 L1 F1" "commit_outcome L H2 e2 L2 F2"
    and "log_le F1 F" "log_le F2 F"
  shows "e1 = e2 \<and> L1 = L2"
proof -
  obtain a i where ai: "cell_of F L = (a, i)" by (cases "cell_of F L")
  have "entry F a i = e \<and> Lx = cursor_after F L" if "commit_outcome L H e Lx Fx" "log_le Fx F" for e H Lx Fx
  proof -
    from that have c: "has_cell Fx L" "wf_log Fx" "e \<noteq> uncommitted" "Lx = cursor_after Fx L"
      and en: "case cell_of Fx L of (a, i) \<Rightarrow> entry Fx a i = e"
      by (auto simp: commit_outcome_def)
    note cl = log_le_cell [OF that(2) c(1)]
    from cl(2) ai have "cell_of Fx L = (a, i)" by simp
    with en c cl(3) log_le_entry [OF that(2) c(2,1), of a i] show ?thesis by simp
  qed
  from this [OF assms(1,3)] this [OF assms(2,4)] show ?thesis by simp
qed

lemma commit_value_late:
  assumes "alloc_ok alloc" "wf_log H2" "llog.rely env"
    and first: "commit_outcome L H1 e L1 F1" and later: "log_le F1 H2"
    and cv: "commit_value env alloc L newv H2 = ((v, b), L2, F2)"
  shows "v = e \<and> \<not> b"
proof -
  from first have c: "has_cell F1 L" "wf_log F1" "e \<noteq> uncommitted"
    and en: "case cell_of F1 L of (a, i) \<Rightarrow> entry F1 a i = e"
    by (auto simp: commit_outcome_def)
  note c2 = log_le_cell [OF later c(1)]
  then have cur: "wf_cursor L H2" by (simp add: has_cell_def)
  obtain a i Lx Hx where ne: "next_entry (env 0) alloc L H2 = ((a, i), Lx, Hx)"
    by (metis prod.exhaust)
  note st = next_entry_step [OF assms(1,2) cur llog.relyD [OF assms(3)] ne]
  then have "log_le H2 Hx" by simp
  then have le: "log_le F1 Hx" using later llog.le_trans by blast
  from st log_le_cell(2) [OF le c(1)] have ai: "cell_of F1 L = (a, i)" by simp
  with en c log_le_entry [OF le c(2,1) ai] have "entry Hx a i = e" by simp
  with cv c(3) is_empty_cursor [OF cur assms(2)] show ?thesis
    by (auto simp: commit_value_def ne Let_def)
qed

section \<open>Whole thunks\<close>

text \<open>
  A thunk run under a lock is a computation whose dependence on shared memory goes
  through the log: it proposes a value computed from the memory it sees, continues with
  the committed one, and may write memory in between.
\<close>

datatype ('m, 'r) thunk =
    Return 'r
  | Commit "'m \<Rightarrow> u64" "u64 \<Rightarrow> ('m, 'r) thunk"
  | Write "'m \<Rightarrow> 'm" "('m, 'r) thunk"

text \<open>
  One helper's run: \<open>le n\<close> is the interference on the log during its \<open>n\<close>-th step and
  \<open>me n\<close> what happens to the rest of the memory before that step.
\<close>

primrec run_thunk ::
  "(nat \<Rightarrow> nat \<Rightarrow> log_mem \<Rightarrow> log_mem) \<Rightarrow> (nat \<Rightarrow> 'm \<Rightarrow> 'm) \<Rightarrow> (log_mem \<Rightarrow> addr)
   \<Rightarrow> ('m, 'r) thunk \<Rightarrow> nat \<Rightarrow> 'm fstate \<Rightarrow> 'r \<times> 'm fstate"
where
  "run_thunk le me alloc (Return r) n s = (r, s)"
| "run_thunk le me alloc (Commit p k) n s =
     (let m = me n (mem s);
          ((v, _), L', H') = commit_value (le n) alloc (lg s) (p m) (logs s)
      in run_thunk le me alloc (k v) (Suc n) \<lparr>lg = L', logs = H', mem = m\<rparr>)"
| "run_thunk le me alloc (Write f k) n s =
     run_thunk le me alloc k (Suc n) (s\<lparr>mem := f (me n (mem s))\<rparr>)"

primrec safe_thunk :: "('m, 'r) thunk \<Rightarrow> bool" where
  "safe_thunk (Return r) \<longleftrightarrow> True"
| "safe_thunk (Commit p k) \<longleftrightarrow> (\<forall>m. p m \<noteq> 0) \<and> (\<forall>v. safe_thunk (k v))"
| "safe_thunk (Write f k) \<longleftrightarrow> safe_thunk k"

text \<open>The result a finished log determines.\<close>

primrec replay :: "log_mem \<Rightarrow> ('m, 'r) thunk \<Rightarrow> Log \<Rightarrow> 'r" where
  "replay F (Return r) L = r"
| "replay F (Commit p k) L =
     (case cell_of F L of (a, i) \<Rightarrow> replay F (k (entry F a i)) (cursor_after F L))"
| "replay F (Write f k) L = replay F k L"

lemma run_thunk_replay:
  assumes "alloc_ok alloc" and rely: "\<And>n. llog.rely (le n)"
    and "safe_thunk t" "wf_log (logs s)" "wf_cursor (lg s) (logs s)"
    and "run_thunk le me alloc t n s = (r, s')"
  shows "wf_log (logs s') \<and> log_le (logs s) (logs s') \<and>
    (\<forall>F. log_le (logs s') F \<longrightarrow> replay F t (lg s) = r)"
  using assms(3-6)
proof (induction t arbitrary: n s)
  case (Return x)
  then show ?case by (simp add: llog.le_refl)
next
  case (Write f k)
  then show ?case
    using Write.IH [of "s\<lparr>mem := f (me n (mem s))\<rparr>" "Suc n"] by simp
next
  case (Commit p k)
  obtain v b L1 H1 where
    cv: "commit_value (le n) alloc (lg s) (p (me n (mem s))) (logs s) = ((v, b), L1, H1)"
    by (metis prod.exhaust)
  let ?s1 = "\<lparr>lg = L1, logs = H1, mem = me n (mem s)\<rparr>"
  have nz: "p (me n (mem s)) \<noteq> uncommitted" using Commit.prems(1) by simp
  have out: "commit_outcome (lg s) (logs s) v L1 H1"
    by (rule commit_value_outcome(1) [OF assms(1) Commit.prems(2,3) rely nz cv])
  then have o: "wf_log H1" "log_le (logs s) H1" "has_cell H1 (lg s)" "L1 = cursor_after H1 (lg s)"
    "v \<noteq> uncommitted" and en: "case cell_of H1 (lg s) of (a, i) \<Rightarrow> entry H1 a i = v"
    by (auto simp: commit_outcome_def)
  have cur: "wf_cursor L1 H1"
    using has_cell_live(3) [OF o(1,3)] o(4) by (metis prod.exhaust)
  from Commit.prems(4) have run: "run_thunk le me alloc (k v) (Suc n) ?s1 = (r, s')"
    by (simp add: cv Let_def)
  from Commit.prems(1) have safe: "safe_thunk (k v)" by simp
  from Commit.IH [OF rangeI safe _ _ run] o(1) cur
  have IH: "wf_log (logs s') \<and> log_le H1 (logs s') \<and>
      (\<forall>F. log_le (logs s') F \<longrightarrow> replay F (k v) L1 = r)"
    by simp
  have "replay F (Commit p k) (lg s) = r" if F: "log_le (logs s') F" for F
  proof -
    have le: "log_le H1 F" using IH F llog.le_trans by blast
    obtain a i where ai: "cell_of H1 (lg s) = (a, i)" by (cases "cell_of H1 (lg s)")
    from en ai o(5) log_le_entry [OF le o(1,3) ai] have "entry F a i = v" by simp
    with IH F log_le_cell [OF le o(3)] o(4) ai show ?thesis by simp
  qed
  with IH o(2) llog.le_trans show ?case by blast
qed

section \<open>Properties of the log\<close>

text \<open>Two helpers that commit at the same log position, under any interference of further
  helpers, get the same value and move to the same position, whatever each of them
  proposed; the log \<open>F\<close> is any later state of the log that both have contributed to.\<close>

theorem commit_value_agree:
  assumes "alloc_ok alloc" "llog.rely env1" "llog.rely env2"
    and "wf_log H1" "wf_cursor L H1" "wf_log H2" "wf_cursor L H2"
    and "v1 \<noteq> uncommitted" "v2 \<noteq> uncommitted"
    and "commit_value env1 alloc L v1 H1 = ((r1, b1), L1, F1)"
    and "commit_value env2 alloc L v2 H2 = ((r2, b2), L2, F2)"
    and "log_le F1 F" "log_le F2 F"
  shows "r1 = r2 \<and> L1 = L2 \<and> (b1 \<longrightarrow> r1 = v1) \<and> (log_le F1 H2 \<longrightarrow> \<not> b2)"
proof -
  note o1 = commit_value_outcome [OF assms(1,4,5,2,8,10)]
  note o2 = commit_value_outcome [OF assms(1,6,7,3,9,11)]
  from commit_outcome_unique [OF o1(1) o2(1) assms(12,13)]
    commit_value_late [OF assms(1,6,3) o1(1) _ assms(11)] o1(2)
  show ?thesis by blast
qed

definition demo_mem :: log_mem where
  "demo_mem = \<lparr>la_at = (\<lambda>_. \<lparr>log_entries = replicate 8 0, next_arr = nullptr\<rparr>), la_live = {1}\<rparr>"

definition demo_alloc :: "log_mem \<Rightarrow> addr" where
  "demo_alloc H = Suc (Max (insert 0 (la_live H)))"

lemma demo_alloc_ok: "alloc_ok demo_alloc"
proof -
  have "Suc (Max (insert 0 A)) \<notin> A" if "finite A" for A :: "nat set"
  proof
    assume "Suc (Max (insert 0 A)) \<in> A"
    with that have "Suc (Max (insert 0 A)) \<le> Max (insert 0 A)"
      by (intro Max_ge) simp_all
    then show False by simp
  qed
  then show ?thesis
    by (simp add: alloc_ok_def demo_alloc_def)
qed

lemma demo_mem_wf: "wf_log demo_mem" "wf_cursor \<lparr>vals = 1, count = 0\<rparr> demo_mem"
  by (simp_all add: demo_mem_def wf_log_def wf_cursor_def Log_Len_def)

lemmas log_eval = commit_value_def commit_value_safe_def next_entry_def is_empty_def Let_def
  entry_def set_entry_def demo_mem_def Log_Len_def

text \<open>The second helper proposes 7 after the first committed 5, and gets 5.\<close>

lemma commit_value_agree_witness:
  "(case commit_value (\<lambda>_ H. H) demo_alloc \<lparr>vals = 1, count = 0\<rparr> 5 demo_mem of
     ((r1, b1), L1, F1) \<Rightarrow>
       (case commit_value (\<lambda>_ H. H) demo_alloc \<lparr>vals = 1, count = 0\<rparr> 7 F1 of
          ((r2, b2), L2, F2) \<Rightarrow> r1 = r2 \<and> L1 = L2 \<and> b1 \<and> r1 = 5 \<and> \<not> b2))"
proof -
  let ?L = "\<lparr>vals = 1, count = 0\<rparr>"
  obtain r1 b1 L1 F1 where c1: "commit_value (\<lambda>_ H. H) demo_alloc ?L 5 demo_mem = ((r1, b1), L1, F1)"
    by (metis prod.exhaust)
  obtain r2 b2 L2 F2 where c2: "commit_value (\<lambda>_ H. H) demo_alloc ?L 7 F1 = ((r2, b2), L2, F2)"
    by (metis prod.exhaust)
  have F1: "F1 = set_entry demo_mem 1 0 5" and b1: "b1"
    using c1 by (auto simp: log_eval)
  have wf1: "wf_log F1" "wf_cursor ?L F1"
    using demo_mem_wf by (simp_all add: F1 wf_cursor_def)
  have F2: "F2 = F1"
    using c2 by (auto simp: F1 log_eval)
  from commit_value_agree [OF demo_alloc_ok llog.rely_idle llog.rely_idle demo_mem_wf wf1 _ _ c1 c2,
      of F1] F2 llog.le_refl [of F1] b1
  show ?thesis by (auto simp add: c1 c2 simp del: One_nat_def)
qed

text \<open>C1: Helpers of one thunk agree on its result. Each helper starts the thunk on a log at the
  same position and runs it to the end with arbitrary interference, reading its own
  proposals from whatever memory it sees; if a later log \<open>F\<close> extends what both left
  behind, both return the result that \<open>F\<close> determines. The runs may overlap in any way.\<close>

theorem helpers_agree:
  assumes "alloc_ok alloc" "\<And>n. llog.rely (le1 n)" "\<And>n. llog.rely (le2 n)" "safe_thunk t"
    and "lg s1 = lg s2" "wf_log (logs s1)" "wf_cursor (lg s1) (logs s1)"
    and "wf_log (logs s2)" "wf_cursor (lg s2) (logs s2)"
    and "run_thunk le1 me1 alloc t n1 s1 = (r1, s1')"
    and "run_thunk le2 me2 alloc t n2 s2 = (r2, s2')"
    and "log_le (logs s1') F" "log_le (logs s2') F"
  shows "r1 = r2"
  using run_thunk_replay [OF assms(1,2,4,6,7,10)] run_thunk_replay [OF assms(1,3,4,8,9,11)]
    assms(5,12,13) by auto

definition demo_thunk :: "(u64, u64) thunk" where
  "demo_thunk = Commit (\<lambda>m. m OR 1) (\<lambda>v. Write (\<lambda>m. m + v) (Commit (\<lambda>m. m OR 1) (\<lambda>w. Return (v + w))))"

text \<open>Two helpers that see different memories (4 and 64) both return 10.\<close>

lemma helpers_agree_witness:
  "\<exists>s1 s2. run_thunk (\<lambda>_ _ H. H) (\<lambda>_ m. m) demo_alloc demo_thunk 0
       \<lparr>lg = \<lparr>vals = 1, count = 0\<rparr>, logs = demo_mem, mem = 4\<rparr> = (14, s1) \<and>
     run_thunk (\<lambda>_ _ H. H) (\<lambda>_ m. m) demo_alloc demo_thunk 0
       \<lparr>lg = \<lparr>vals = 1, count = 0\<rparr>, logs = logs s1, mem = 64\<rparr> = (14, s2)"
proof -
  let ?s1 = "\<lparr>lg = \<lparr>vals = 1, count = 0\<rparr>, logs = demo_mem, mem = 4\<rparr> :: u64 fstate"
  have nz: "x OR 1 \<noteq> (0::u64)" for x
  proof
    assume "x OR 1 = (0::u64)"
    then have "bit (x OR 1) 0 = bit (0::u64) 0" by simp
    then show False by (simp add: bit_simps)
  qed
  have safe: "safe_thunk demo_thunk" by (simp add: demo_thunk_def nz)
  obtain s1 where r1: "run_thunk (\<lambda>_ _ H. H) (\<lambda>_ m. m) demo_alloc demo_thunk 0 ?s1 = (14, s1)"
    by (simp add: demo_thunk_def log_eval)
  let ?s2 = "\<lparr>lg = \<lparr>vals = 1, count = 0\<rparr>, logs = logs s1, mem = 64\<rparr>"
  obtain r2 s2 where r2: "run_thunk (\<lambda>_ _ H. H) (\<lambda>_ m. m) demo_alloc demo_thunk 0 ?s2 = (r2, s2)"
    by (metis prod.exhaust)
  have wf1: "wf_log (logs ?s1)" "wf_cursor (lg ?s1) (logs ?s1)"
    using demo_mem_wf by simp_all
  from run_thunk_replay [OF demo_alloc_ok _ safe wf1 r1]
  have l1: "wf_log (logs s1)" "log_le demo_mem (logs s1)" by simp_all
  with demo_mem_wf have wf2: "wf_log (logs ?s2)" "wf_cursor (lg ?s2) (logs ?s2)"
    by (auto simp: wf_cursor_def log_le_def)
  from run_thunk_replay [OF demo_alloc_ok _ safe wf2 r2] have "log_le (logs s1) (logs s2)"
    by simp
  from helpers_agree [OF demo_alloc_ok _ _ safe _ wf1 wf2 r1 r2 this llog.le_refl]
  have "r2 = 14" by simp
  with r1 r2 show ?thesis by blast
qed

lemma bit_set_bit48: "bit set_bit48 n \<longleftrightarrow> n = 48"
  unfolding set_bit48_def bit_push_one by simp

lemma set_bit48_clear:
  assumes "unat v < 2 ^ 48"
  shows "(v OR set_bit48) AND NOT set_bit48 = v"
proof (rule bit_word_eqI)
  fix n assume "n < LENGTH(64)"
  then show "bit ((v OR set_bit48) AND NOT set_bit48) n = bit v n"
    using small_word_bits [OF assms, of n] by (auto simp: bit_set_bit48 bit_simps)
qed

lemma unpack_pack_Log:
  assumes "vals L < 2 ^ 48" "count L < 2 ^ 16"
  shows "unpack_Log (pack_Log L) = L"
proof -
  let ?c = "of_nat (count L) :: u64" and ?v = "of_nat (vals L) :: u64"
  have uc: "unat ?c = count L" and uv: "unat ?v = vals L"
    by (rule unat_of_nat_small, use assms in simp)+
  have c: "n < 16" if "bit ?c n" for n
    by (rule small_word_bits [OF _ that]) (use assms uc in simp)
  have v: "n < 48" if "bit ?v n" for n
    by (rule small_word_bits [OF _ that]) (use assms uv in simp)
  have "bit (pack_Log L) n \<longleftrightarrow> n < 64 \<and> (if n < 48 then bit ?v n else bit ?c (n - 48))" for n
    using c v [of n] by (auto simp: pack_Log_def bit_or_iff bit_push_bit_iff)
  then have "pack_Log L AND mask 48 = ?v" "drop_bit 48 (pack_Log L) = ?c"
    using v c by (fastforce simp: bit_eq_iff bit_and_iff bit_mask_iff bit_drop_bit_eq)+
  then show ?thesis
    using uc uv by (simp add: unpack_Log_def mask_eq_exp_minus_1)
qed

lemma has_cell_set_entry [simp]:
  "has_cell (set_entry H a i v) L = has_cell H L"
  "cell_of (set_entry H a i v) L = cell_of H L"
  by (simp_all add: has_cell_def wf_cursor_def cell_of_def)

lemma pack_Log_nonzero:
  assumes "vals L < 2 ^ 48" "count L < 2 ^ 16" "vals L \<noteq> nullptr"
  shows "pack_Log L \<noteq> uncommitted"
proof
  assume "pack_Log L = uncommitted"
  then have "vals (unpack_Log (pack_Log L)) = 0" by (simp add: unpack_Log_def)
  with assms unpack_pack_Log [of L] show False by simp
qed

text \<open>A helper that ran the code of a \<open>skip_if_done\<close> leaves the packed cursor in the cell.\<close>

lemma skip_if_done_first:
  assumes "alloc_ok alloc" "wf_log (logs s)" "wf_cursor (lg s) (logs s)"
    and "llog.evolves (logs s) (env (logs s))" "\<And>t. llog.evolves (logs t) (logs (f t))"
    and run: "skip_if_done env alloc f s = (True, s')"
  shows "wf_log (logs s') \<and> has_cell (logs s') (lg s) \<and>
    (case cell_of (logs s') (lg s) of (a, i) \<Rightarrow> entry (logs s') a i = pack_Log (lg s'))"
proof -
  obtain a i L1 H1 where ne: "next_entry env alloc (lg s) (logs s) = ((a, i), L1, H1)"
    by (metis prod.exhaust)
  note st = next_entry_step [OF assms(1-4) ne]
  let ?t = "f (s\<lparr>lg := L1, logs := H1\<rparr>)"
  from run is_empty_cursor [OF assms(3,2)] ne
  have s': "s' = ?t\<lparr>logs := set_entry (logs ?t) a i (pack_Log (lg ?t))\<rparr>"
    by (auto simp: skip_if_done_def Let_def split: if_splits)
  from assms(5) [of "s\<lparr>lg := L1, logs := H1\<rparr>"] st
  have wf: "wf_log (logs ?t)" and le: "log_le H1 (logs ?t)"
    by (auto simp: llog.evolves_def)
  from st log_le_cell [OF le] have c: "has_cell (logs ?t) (lg s)" "cell_of (logs ?t) (lg s) = (a, i)"
    by auto
  from has_cell_live(2) [OF wf c] wf c show ?thesis
    by (simp add: s' entry_set_entry)
qed

text \<open>C2: A helper that reaches a \<open>skip_if_done\<close> another helper has completed does not run the
  code again: it leaves the memory alone and its cursor moves to where the first helper's
  cursor was after the code, although the code may have used any number of log entries
  and arrays in between.\<close>

theorem skip_if_done_fast_forward:
  assumes "alloc_ok alloc" "wf_log (logs s1)" "wf_cursor (lg s1) (logs s1)"
    and "llog.evolves (logs s1) (env1 (logs s1))" "\<And>t. llog.evolves (logs t) (logs (f t))"
    and "skip_if_done env1 alloc f s1 = (True, s1')"
    and "vals (lg s1') < 2 ^ 48" "count (lg s1') \<le> Log_Len" "vals (lg s1') \<noteq> nullptr"
    and "lg s2 = lg s1" "log_le (logs s1') (logs s2)" "wf_log (logs s2)"
    and "llog.evolves (logs s2) (env2 (logs s2))"
  shows "\<exists>s2'. skip_if_done env2 alloc g s2 = (False, s2') \<and> lg s2' = lg s1' \<and> mem s2' = mem s2"
proof -
  note first = skip_if_done_first [OF assms(1-6)]
  then have f: "wf_log (logs s1')" "has_cell (logs s1') (lg s2)"
    using assms(10) by simp_all
  obtain a i L1 H1 where ne: "next_entry env2 alloc (lg s2) (logs s2) = ((a, i), L1, H1)"
    by (metis prod.exhaust)
  have cur: "wf_cursor (lg s2) (logs s2)"
    using log_le_cell(1) [OF assms(11) f(2)] by (simp add: has_cell_def)
  note st = next_entry_step [OF assms(1,12) cur assms(13) ne]
  then have "log_le (logs s2) H1" by simp
  then have le: "log_le (logs s1') H1" using assms(11) llog.le_trans by blast
  have c: "count (lg s1') < 2 ^ 16" using assms(8) by (simp add: Log_Len_def)
  have ai: "cell_of (logs s1') (lg s2) = (a, i)" using st log_le_cell(2) [OF le f(2)] by simp
  with first assms(10) have "entry (logs s1') a i = pack_Log (lg s1')" by simp
  then have "entry H1 a i = pack_Log (lg s1')"
    using log_le_entry [OF le f ai] pack_Log_nonzero [OF assms(7) c assms(9)] by simp
  then show ?thesis
    using is_empty_cursor [OF cur assms(12)] pack_Log_nonzero [OF assms(7) c assms(9)]
      unpack_pack_Log [OF assms(7) c]
    by (simp add: skip_if_done_def ne Let_def)
qed

lemma skip_if_done_fast_forward_witness:
  "(case skip_if_done (\<lambda>H. H) demo_alloc (\<lambda>t. t\<lparr>mem := mem t + 1\<rparr>)
       \<lparr>lg = \<lparr>vals = 1, count = 0\<rparr>, logs = demo_mem, mem = 0 :: nat\<rparr> of
     (b, s1) \<Rightarrow> b \<and> mem s1 = 1 \<and>
       (\<exists>s2. skip_if_done (\<lambda>H. H) demo_alloc (\<lambda>t. t\<lparr>mem := mem t + 1\<rparr>)
          \<lparr>lg = \<lparr>vals = 1, count = 0\<rparr>, logs = logs s1, mem = mem s1\<rparr> = (False, s2) \<and>
          lg s2 = lg s1 \<and> mem s2 = 1))"
proof -
  let ?f = "\<lambda>t :: nat fstate. t\<lparr>mem := mem t + 1\<rparr>"
  let ?s = "\<lparr>lg = \<lparr>vals = 1, count = 0\<rparr>, logs = demo_mem, mem = 0 :: nat\<rparr>"
  obtain b s1 where r: "skip_if_done (\<lambda>H. H) demo_alloc ?f ?s = (b, s1)"
    by fastforce
  have "next_entry (\<lambda>H. H) demo_alloc \<lparr>vals = 1, count = 0\<rparr> demo_mem = ((1, 0), \<lparr>vals = 1, count = 1\<rparr>, demo_mem)"
    "entry demo_mem 1 0 = uncommitted"
    by (simp_all add: next_entry_def Log_Len_def entry_def demo_mem_def)
  with r have b: "b" and s1: "s1 = \<lparr>lg = \<lparr>vals = 1, count = 1\<rparr>,
      logs = set_entry demo_mem 1 0 (pack_Log \<lparr>vals = 1, count = 1\<rparr>), mem = 1\<rparr>"
    by (auto simp: skip_if_done_def is_empty_def Let_def)
  with r have r1: "skip_if_done (\<lambda>H. H) demo_alloc ?f ?s = (True, s1)" by simp
  have "\<exists>s2. skip_if_done (\<lambda>H. H) demo_alloc ?f
          \<lparr>lg = \<lparr>vals = 1, count = 0\<rparr>, logs = logs s1, mem = mem s1\<rparr> = (False, s2) \<and>
          lg s2 = lg s1 \<and> mem s2 = mem \<lparr>lg = \<lparr>vals = 1, count = 0\<rparr>, logs = logs s1, mem = mem s1\<rparr>"
    by (rule skip_if_done_fast_forward [OF demo_alloc_ok _ _ _ _ r1])
      (use demo_mem_wf in \<open>simp_all add: s1 llog.le_refl Log_Len_def\<close>)
  with b r s1 show ?thesis by simp
qed

end
