(* ===== verification/Flock_Tagged.thy ===== *)
theory Flock_Tagged
  imports Flock_Log
begin

text \<open>
  Tagged values, \<^verbatim>\<open>include/flock/tagged.h\<close> and \<^verbatim>\<open>include/flock/no_tagged.h\<close>: a 64-bit word
  holds 48 bits of data, a panic bit (48) and a 15-bit count (49 to 63). Every
  compare-and-swap of a location takes a new tag; tags are announced while they are in
  use, so that a tag is not reused while a slow thread still holds it. The theory models
  the tag arithmetic on words, the announcement array and the tagged compare-and-swap,
  and shows the round trip of the data bits, that a new tag differs from the old one,
  that the search for an unannounced tag ends, and when its result is unannounced.
\<close>

unbundle bit_operations_syntax

section \<open>Layout of a tagged word\<close>

definition tag_bits :: nat where
  "tag_bits = 16"

definition top_bit :: u64 where
  "top_bit = push_bit 63 1"

definition cnt_bit :: u64 where
  "cnt_bit = push_bit (64 - tag_bits + 1) 1"

definition panic_bit :: u64 where
  "panic_bit = push_bit (64 - tag_bits) 1"

definition data_mask :: u64 where
  "data_mask = panic_bit - 1"

definition cnt_mask :: u64 where
  "cnt_mask = NOT data_mask"

definition add_tag :: "u64 \<Rightarrow> u64 \<Rightarrow> u64" where
  "add_tag oldv newv = newv OR (oldv AND cnt_mask)"

definition inc_tag :: "u64 \<Rightarrow> u64" where
  "inc_tag oldv =
     (let new_count = (oldv AND cnt_mask) + cnt_bit
      in if new_count = 0 then cnt_bit else new_count)"

text \<open>The two-argument \<open>next\<close>, which does not handle overflow.\<close>

definition next_plain :: "u64 \<Rightarrow> u64 \<Rightarrow> u64" where
  "next_plain oldv newv = newv OR inc_tag oldv"

definition tagged_init :: "u64 \<Rightarrow> u64" where
  "tagged_init v = cnt_bit OR v"

definition tagged_value :: "u64 \<Rightarrow> u64" where
  "tagged_value v = v AND data_mask"

definition get_tag :: "u64 \<Rightarrow> u64" where
  "get_tag v = v AND cnt_mask"

section \<open>The announcement array\<close>

text \<open>
  One word per worker, \<open>stride\<close> entries apart. Cells are the atomic locations of the
  program, by address.
\<close>

definition stride :: nat where
  "stride = 16"

record fmem =
  cells :: "addr \<Rightarrow> u64"
  announcements :: "nat \<Rightarrow> u64"

definition announce_scan :: "nat \<Rightarrow> fmem \<Rightarrow> u64 list" where
  "announce_scan workers m = map (\<lambda>i. announcements m (i * stride)) [0..<workers]"

definition announce_set :: "nat \<Rightarrow> u64 \<Rightarrow> fmem \<Rightarrow> fmem" where
  "announce_set wid v m = m\<lparr>announcements := (announcements m)(wid * stride := v)\<rparr>"

definition announce_clear :: "nat \<Rightarrow> fmem \<Rightarrow> fmem" where
  "announce_clear wid m = m\<lparr>announcements := (announcements m)(wid * stride := 0)\<rparr>"

section \<open>Choosing the next tag\<close>

text \<open>The test on one announcement that makes \<open>next\<close> panic.\<close>

definition panics_on :: "u64 \<Rightarrow> u64 \<Rightarrow> u64 \<Rightarrow> bool" where
  "panics_on addr new_count ann \<longleftrightarrow>
     ann AND data_mask = addr AND data_mask \<and>
     ann AND top_bit = new_count AND top_bit \<and>
     new_count AND cnt_mask AND NOT panic_bit \<le> ann AND cnt_mask"

definition announced_on :: "u64 \<Rightarrow> u64 \<Rightarrow> u64 \<Rightarrow> bool" where
  "announced_on addr new_count ann \<longleftrightarrow>
     ann AND data_mask = addr AND data_mask \<and> ann AND cnt_mask = new_count"

text \<open>
  The \<open>while (true)\<close> loop that looks for a count nobody announced. It has no bound in the
  code; the model gives it fuel and returns \<open>None\<close> when that runs out.
\<close>

fun next_unannounced :: "nat \<Rightarrow> u64 \<Rightarrow> u64 \<Rightarrow> u64 \<Rightarrow> u64 list \<Rightarrow> u64 option" where
  "next_unannounced 0 newv new_count addr anns = None"
| "next_unannounced (Suc fuel) newv new_count addr anns =
     (if list_ex (announced_on addr new_count) anns
      then next_unannounced fuel newv (inc_tag new_count) addr anns
      else Some (newv OR (new_count OR panic_bit)))"

text \<open>
  The three-argument \<open>next\<close>. \<open>scan1\<close> and \<open>scan2\<close> are what the two scans of the
  announcement array return, which may differ.
\<close>

definition tagged_next ::
  "nat \<Rightarrow> u64 \<Rightarrow> u64 \<Rightarrow> u64 \<Rightarrow> u64 list \<Rightarrow> u64 list \<Rightarrow> u64 option"
where
  "tagged_next fuel oldv newv addr scan1 scan2 =
     (let new_count = inc_tag oldv;
          panic = (oldv AND top_bit \<noteq> new_count AND top_bit \<or> oldv AND panic_bit \<noteq> 0) \<and>
                  list_ex (panics_on addr new_count) scan1
      in if panic then next_unannounced fuel newv new_count addr scan2
         else Some (newv OR (new_count AND NOT panic_bit)))"

section \<open>Compare-and-swap\<close>

definition compare_exchange :: "addr \<Rightarrow> u64 \<Rightarrow> u64 \<Rightarrow> fmem \<Rightarrow> bool \<times> fmem" where
  "compare_exchange loc oldv newv m =
     (if cells m loc = oldv then (True, m\<lparr>cells := (cells m)(loc := newv)\<rparr>) else (False, m))"

text \<open>
  \<open>cas_tagged_\<close>: inside a lock the old tag is announced, and the exchange is skipped when
  another helper has completed it. \<open>menv\<close> is what other threads do to the memory before
  the exchange, \<open>lenv\<close> what they do to the log.
\<close>

definition cas_tagged ::
  "nat \<Rightarrow> (fmem \<Rightarrow> fmem) \<Rightarrow> (log_mem \<Rightarrow> log_mem) \<Rightarrow> (log_mem \<Rightarrow> addr) \<Rightarrow> addr \<Rightarrow> u64 \<Rightarrow> u64 \<Rightarrow> bool
   \<Rightarrow> fmem fstate \<Rightarrow> bool \<times> fmem fstate"
where
  "cas_tagged wid menv lenv alloc loc oldv newv aba_free s =
     (if is_empty (lg s) \<or> aba_free
      then let (r, m) = compare_exchange loc oldv newv (menv (mem s)) in (r, s\<lparr>mem := m\<rparr>)
      else
        let m1 = announce_set wid (add_tag oldv (of_nat loc)) (mem s);
            (r, m2) = compare_exchange loc oldv newv (menv m1);
            (ran, s2) = skip_if_done_no_log lenv alloc (\<lambda>t. t\<lparr>mem := m2\<rparr>) (s\<lparr>mem := m1\<rparr>)
        in (ran \<and> r, s2\<lparr>mem := announce_clear wid (mem s2)\<rparr>))"

definition tagged_cas ::
  "nat \<Rightarrow> nat \<Rightarrow> (fmem \<Rightarrow> fmem) \<Rightarrow> (fmem \<Rightarrow> fmem) \<Rightarrow> (log_mem \<Rightarrow> log_mem) \<Rightarrow> (log_mem \<Rightarrow> addr)
   \<Rightarrow> addr \<Rightarrow> u64 \<Rightarrow> u64 \<Rightarrow> bool \<Rightarrow> fmem fstate \<Rightarrow> (bool \<times> fmem fstate) option"
where
  "tagged_cas workers wid scanenv menv lenv alloc loc oldv v aba_free s =
     (case tagged_next (Suc workers) oldv v (of_nat loc)
             (announce_scan workers (mem s)) (announce_scan workers (scanenv (mem s))) of
        None \<Rightarrow> None
      | Some newv \<Rightarrow> Some (cas_tagged wid menv lenv alloc loc oldv newv aba_free s))"

definition cas_with_same_tag ::
  "nat \<Rightarrow> (fmem \<Rightarrow> fmem) \<Rightarrow> (log_mem \<Rightarrow> log_mem) \<Rightarrow> (log_mem \<Rightarrow> addr) \<Rightarrow> addr \<Rightarrow> u64 \<Rightarrow> u64 \<Rightarrow> bool
   \<Rightarrow> fmem fstate \<Rightarrow> bool \<times> fmem fstate"
where
  "cas_with_same_tag wid menv lenv alloc loc oldv v aba_free s =
     cas_tagged wid menv lenv alloc loc oldv (add_tag oldv v) aba_free s"

text \<open>The wrapper used when no tag is needed (\<^verbatim>\<open>no_tagged.h\<close>).\<close>

definition no_tagged_init :: "u64 \<Rightarrow> u64" where
  "no_tagged_init v = v"

definition no_tagged_value :: "u64 \<Rightarrow> u64" where
  "no_tagged_value v = v"

definition no_tagged_get_tag :: "u64 \<Rightarrow> u64" where
  "no_tagged_get_tag v = 0"

definition no_tagged_cas :: "addr \<Rightarrow> u64 \<Rightarrow> u64 \<Rightarrow> fmem \<Rightarrow> bool \<times> fmem" where
  "no_tagged_cas loc oldv v m = compare_exchange loc oldv v m"

section \<open>Bits and counts\<close>

lemma data_mask_eq: "data_mask = mask 48" and cnt_mask_eq: "cnt_mask = NOT (mask 48)"
  by (simp_all add: data_mask_def cnt_mask_def panic_bit_def tag_bits_def mask_eq_exp_minus_1)

lemma bit_top_bit [word_layout]: "bit top_bit n \<longleftrightarrow> n = 63"
  unfolding top_bit_def bit_push_one by simp

lemma bit_cnt_bit [word_layout]: "bit cnt_bit n \<longleftrightarrow> n = 49"
  unfolding cnt_bit_def bit_push_one tag_bits_def by simp

lemma bit_panic_bit [word_layout]: "bit panic_bit n \<longleftrightarrow> n = 48"
  unfolding panic_bit_def bit_push_one tag_bits_def by simp

lemma bit_data_mask [word_layout]: "bit data_mask n \<longleftrightarrow> n < 48"
  by (auto simp: data_mask_eq bit_mask_iff)

lemma bit_cnt_mask [word_layout]: "bit cnt_mask n \<longleftrightarrow> 48 \<le> n \<and> n < 64"
  by (auto simp: cnt_mask_eq bit_not_iff bit_mask_iff)

text \<open>The 16 tag bits as a number: the panic bit is its lowest bit.\<close>

definition tag16 :: "u64 \<Rightarrow> nat" where
  "tag16 v = unat v div 2 ^ 48"

definition inc16 :: "nat \<Rightarrow> nat" where
  "inc16 t = (if (t + 2) mod 65536 = 0 then 2 else (t + 2) mod 65536)"

lemma tag16_drop_bit: "tag16 v = unat (drop_bit 48 v)"
  unfolding tag16_def unat_drop_bit_eq by (simp only: drop_bit_eq_div)

lemma tag16_bound: "tag16 v < 65536"
proof -
  have "unat v < 2 ^ 64" using unsigned_less [of v] by simp
  then show ?thesis by (simp add: tag16_def less_mult_imp_div_less)
qed

lemma unat_get_tag: "unat (get_tag v) = tag16 v * 2 ^ 48"
  by (simp only: get_tag_def cnt_mask_eq and_not_mask_push_drop unat_push_drop tag16_def)

lemma get_tag_eq_iff: "get_tag v = get_tag w \<longleftrightarrow> tag16 v = tag16 w"
  by (simp add: word_unat_eq_iff unat_get_tag)

lemma inc16_bound: "0 < inc16 t" "inc16 t < 65536"
  by (simp_all add: inc16_def)

lemma unat_inc_tag: "unat (inc_tag v) = inc16 (tag16 v) * 2 ^ 48"
proof -
  let ?c = "(v AND cnt_mask) + cnt_bit"
  have cb: "unat cnt_bit = 2 * 2 ^ 48"
    by (simp add: cnt_bit_def tag_bits_def)
  have "unat ?c = (tag16 v * 2 ^ 48 + 2 * 2 ^ 48) mod (65536 * 2 ^ 48)"
    using unat_get_tag [of v] cb by (simp add: unat_word_ariths get_tag_def)
  also have "\<dots> = (tag16 v + 2) mod 65536 * 2 ^ 48"
    by (simp only: add_mult_distrib [symmetric] mod_mult_mult2)
  finally have c: "unat ?c = (tag16 v + 2) mod 65536 * 2 ^ 48" .
  then have "?c = 0 \<longleftrightarrow> (tag16 v + 2) mod 65536 = 0"
    by (simp add: word_unat_eq_iff)
  with c cb show ?thesis by (simp add: inc_tag_def inc16_def Let_def)
qed

lemma tag16_inc_tag [simp]: "tag16 (inc_tag v) = inc16 (tag16 v)"
  by (simp only: tag16_def [of "inc_tag v"] unat_inc_tag) simp

lemma inc_tag_low: "inc_tag v AND cnt_mask = inc_tag v"
proof -
  have "unat (inc_tag v AND cnt_mask) = unat (inc_tag v)"
    using unat_get_tag [of "inc_tag v"] by (simp add: get_tag_def unat_inc_tag)
  then show ?thesis by (simp only: word_unat_eq_iff)
qed

lemma inc_tag_bits: "bit (inc_tag v) n \<Longrightarrow> 48 \<le> n"
  by (metis bit_and_iff bit_cnt_mask inc_tag_low)

lemma unat_and_not_one: "unat ((x :: u64) AND NOT 1) = unat x div 2 * 2"
  using and_not_mask_push_drop [of x 1] unat_push_drop [of 1 x] by simp

lemma tag16_plain:
  assumes "unat v < 2 ^ 48"
  shows "tag16 (v OR (c AND NOT panic_bit)) = tag16 c div 2 * 2"
proof -
  have "drop_bit 48 (v OR (c AND NOT panic_bit)) = drop_bit 48 c AND NOT 1"
    by (rule bit_word_eqI) (auto simp: bit_simps word_layout dest: small_word_bits [OF assms] bit_imp_le_length)
  then show ?thesis by (simp only: tag16_drop_bit unat_and_not_one)
qed

lemma tag16_panic:
  assumes "unat v < 2 ^ 48"
  shows "tag16 (v OR (c OR panic_bit)) = tag16 c div 2 * 2 + 1"
proof -
  let ?d = "drop_bit 48 c"
  have "drop_bit 48 (v OR (c OR panic_bit)) = (?d AND NOT 1) OR 1"
    by (rule bit_word_eqI) (auto simp: bit_simps word_layout dest: small_word_bits [OF assms] bit_imp_le_length)
  also have "\<dots> = (?d AND NOT 1) + 1"
    by (simp add: or_one_eq even_and_iff)
  finally have "tag16 (v OR (c OR panic_bit)) = unat ((?d AND NOT 1) + 1)"
    by (simp only: tag16_drop_bit)
  moreover have even: "unat (?d AND NOT 1) = tag16 c div 2 * 2"
    by (simp only: unat_and_not_one tag16_drop_bit)
  have "tag16 c div 2 * 2 + 1 < 2 ^ 64"
    using tag16_bound [of c] by simp
  then have "unat (?d AND NOT 1) + 1 < 2 ^ 64"
    by (simp only: even)
  then have "unat ((?d AND NOT 1) + 1) = unat (?d AND NOT 1) + 1"
    by (simp only: unat_word_ariths) simp
  ultimately show ?thesis using even by linarith
qed

section \<open>The orbit of the count\<close>

lemma inc16_odd: "c < 32768 \<Longrightarrow> inc16 (2 * c + 1) = 2 * ((c + 1) mod 32768) + 1"
  by (cases "c = 32767") (simp_all add: inc16_def)

lemma inc16_even: "0 < c \<Longrightarrow> c \<le> 32767 \<Longrightarrow> inc16 (2 * c) = 2 * (c mod 32767 + 1)"
  by (cases "c = 32767") (simp_all add: inc16_def)

lemma inc16_iter_odd:
  "c < 32768 \<Longrightarrow> (inc16 ^^ n) (2 * c + 1) = 2 * ((c + n) mod 32768) + 1"
proof (induction n)
  case (Suc n)
  have "inc16 (2 * ((c + n) mod 32768) + 1) = 2 * (((c + n) mod 32768 + 1) mod 32768) + 1"
    by (rule inc16_odd) simp
  with Suc show ?case by (simp add: mod_Suc_eq)
qed simp

lemma inc16_iter_even:
  "0 < c \<Longrightarrow> c \<le> 32767 \<Longrightarrow> (inc16 ^^ n) (2 * c) = 2 * ((c - 1 + n) mod 32767 + 1)"
proof (induction n)
  case (Suc n)
  let ?m = "(c - 1 + n) mod 32767"
  have "?m < 32767" by simp
  then have "inc16 (2 * (?m + 1)) = 2 * ((?m + 1) mod 32767 + 1)"
    by (intro inc16_even) simp_all
  with Suc show ?case by (simp add: mod_Suc_eq)
qed simp

lemma mod_shift_eq:
  assumes "(a + i) mod m = (a + j) mod m" "i < m" "j < m"
  shows "i = (j :: nat)"
  using assms
proof (induction i j rule: linorder_wlog)
  case (le i j)
  then have "m dvd (a + j) - (a + i)"
    by (metis add_left_mono mod_eq_dvd_iff_nat)
  with le show ?case by (auto dest: dvd_imp_le)
next
  case (sym i j)
  then show ?case by simp
qed

lemma inc16_iter_inj:
  assumes "0 < t" "t < 65536" "i < 32767" "j < 32767" "(inc16 ^^ i) t = (inc16 ^^ j) t"
  shows "i = j"
proof (cases "even t")
  case True
  then obtain c where "t = 2 * c" by (elim evenE)
  with assms inc16_iter_even [of c] show ?thesis
    using mod_shift_eq [of "c - 1" i 32767 j] by simp
next
  case False
  then obtain c where "t = 2 * c + 1" by (elim oddE)
  with assms inc16_iter_odd [of c] show ?thesis
    using mod_shift_eq [of c i 32768 j] by simp
qed

lemma inc16_parity: "even (inc16 t) = even t"
proof -
  have "even ((t + 2) mod 65536) = even t"
    by (simp add: dvd_mod_iff)
  then show ?thesis by (auto simp: inc16_def)
qed

lemma tag16_iter: "tag16 ((inc_tag ^^ n) v) = (inc16 ^^ n) (tag16 v)"
  by (induction n) simp_all

section \<open>The search for an unannounced count\<close>

lemma next_unannounced_Some:
  "next_unannounced fuel newv nc addr anns = Some r \<Longrightarrow>
     \<exists>j<fuel. r = newv OR ((inc_tag ^^ j) nc OR panic_bit) \<and>
       (\<forall>ann\<in>set anns. \<not> announced_on addr ((inc_tag ^^ j) nc) ann)"
proof (induction fuel arbitrary: nc)
  case (Suc fuel)
  show ?case
  proof (cases "list_ex (announced_on addr nc) anns")
    case True
    with Suc obtain j where "j < fuel" "r = newv OR ((inc_tag ^^ j) (inc_tag nc) OR panic_bit)"
      "\<forall>ann\<in>set anns. \<not> announced_on addr ((inc_tag ^^ j) (inc_tag nc)) ann"
      by auto
    then show ?thesis
      by (intro exI [of _ "Suc j"]) (simp add: funpow_swap1)
  next
    case False
    with Suc.prems show ?thesis
      by (intro exI [of _ 0]) (auto simp: list_ex_iff)
  qed
qed simp

lemma next_unannounced_None:
  "next_unannounced fuel newv nc addr anns = None \<Longrightarrow> j < fuel \<Longrightarrow>
     \<exists>ann\<in>set anns. announced_on addr ((inc_tag ^^ j) nc) ann"
proof (induction fuel arbitrary: nc j)
  case (Suc fuel)
  then have ex: "list_ex (announced_on addr nc) anns"
    and rec: "next_unannounced fuel newv (inc_tag nc) addr anns = None"
    by (auto split: if_splits)
  show ?case
  proof (cases j)
    case 0
    with ex show ?thesis by (auto simp: list_ex_iff)
  next
    case (Suc i)
    with Suc.prems rec Suc.IH [of "inc_tag nc" i] show ?thesis
      by (simp add: funpow_swap1)
  qed
qed simp

lemma next_unannounced_total:
  assumes "length anns < fuel" "fuel \<le> 32767" "0 < tag16 nc"
  shows "next_unannounced fuel newv nc addr anns \<noteq> None"
proof
  assume none: "next_unannounced fuel newv nc addr anns = None"
  let ?f = "\<lambda>j. (inc_tag ^^ j) nc" and ?T = "(\<lambda>ann. ann AND cnt_mask) ` set anns"
  have "?f ` {..<fuel} \<subseteq> ?T"
  proof
    fix c assume "c \<in> ?f ` {..<fuel}"
    then obtain j where "j < fuel" "c = ?f j" by auto
    with next_unannounced_None [OF none this(1)] show "c \<in> ?T"
      by (metis announced_on_def image_eqI)
  qed
  moreover have "inj_on ?f {..<fuel}"
  proof (rule inj_onI)
    fix i j assume "i \<in> {..<fuel}" "j \<in> {..<fuel}" and eq: "?f i = ?f j"
    then have "i < 32767" "j < 32767" using assms(2) by auto
    moreover have "(inc16 ^^ i) (tag16 nc) = (inc16 ^^ j) (tag16 nc)"
      using eq tag16_iter by metis
    ultimately show "i = j"
      using inc16_iter_inj [OF assms(3) tag16_bound] by blast
  qed
  ultimately have "card {..<fuel} \<le> card ?T"
    by (intro card_inj_on_le) simp_all
  also have "\<dots> \<le> length anns"
    by (meson card_image_le card_length finite_set le_trans)
  finally show False using assms(1) by simp
qed

lemma inc16_iter_parity: "even ((inc16 ^^ n) t) = even t"
  by (induction n) (simp_all add: inc16_parity)

lemma inc16_iter_neq:
  assumes "0 < n" "n < 32767" "t < 65536"
  shows "(inc16 ^^ n) t \<noteq> t"
proof (cases "t = 0")
  case True
  from assms(1) obtain m where "n = Suc m" by (cases n) auto
  with True inc16_bound(1) show ?thesis by simp
next
  case False
  with assms inc16_iter_inj [of t n 0] show ?thesis by auto
qed

lemma div2_odd: "odd (t :: nat) \<Longrightarrow> t div 2 * 2 + 1 = t"
  by (metis odd_two_times_div_two_succ mult.commute)

text \<open>Both outcomes of \<open>next\<close>, in terms of the 16 tag bits.\<close>

lemma tagged_next_cases:
  assumes "length scan2 < fuel" "fuel < 32767"
  obtains (plain) "tagged_next fuel oldv v addr scan1 scan2
        = Some (v OR (inc_tag oldv AND NOT panic_bit))"
      "oldv AND panic_bit \<noteq> 0 \<Longrightarrow> \<not> list_ex (panics_on addr (inc_tag oldv)) scan1"
  | (panicked) j where "j < fuel" "tagged_next fuel oldv v addr scan1 scan2
        = Some (v OR ((inc_tag ^^ Suc j) oldv OR panic_bit))"
      "\<forall>ann\<in>set scan2. \<not> announced_on addr ((inc_tag ^^ Suc j) oldv) ann"
proof (cases "(oldv AND top_bit \<noteq> inc_tag oldv AND top_bit \<or> oldv AND panic_bit \<noteq> 0) \<and>
    list_ex (panics_on addr (inc_tag oldv)) scan1")
  case False
  with plain show ?thesis by (auto simp: tagged_next_def Let_def)
next
  case True
  have "0 < tag16 (inc_tag oldv)" by (simp add: inc16_bound)
  with next_unannounced_total [OF assms(1), of "inc_tag oldv" v addr] assms(2)
  obtain r where r: "next_unannounced fuel v (inc_tag oldv) addr scan2 = Some r"
    by auto
  with True have t: "tagged_next fuel oldv v addr scan1 scan2 = Some r"
    by (simp add: tagged_next_def Let_def)
  from next_unannounced_Some [OF r] obtain j where "j < fuel"
    "r = v OR ((inc_tag ^^ j) (inc_tag oldv) OR panic_bit)"
    "\<forall>ann\<in>set scan2. \<not> announced_on addr ((inc_tag ^^ j) (inc_tag oldv)) ann"
    by blast
  with t show ?thesis by (intro panicked [of j]) (simp_all add: funpow_swap1)
qed

lemma panic_bit_iff: "v AND panic_bit \<noteq> 0 \<longleftrightarrow> odd (tag16 v)"
proof -
  have "v AND panic_bit = 0 \<longleftrightarrow> \<not> bit v 48"
  proof
    assume "v AND panic_bit = 0"
    then have "\<not> bit (v AND panic_bit) 48" by simp
    then show "\<not> bit v 48" by (simp add: bit_and_iff bit_panic_bit)
  next
    assume "\<not> bit v 48"
    then show "v AND panic_bit = 0"
      by (intro bit_word_eqI) (auto simp: bit_and_iff bit_panic_bit)
  qed
  moreover have "bit (unat (drop_bit 48 v)) 0 = bit v 48"
    by (simp only: bit_unsigned_iff bit_drop_bit_eq comp_def) simp
  ultimately show ?thesis by (simp add: tag16_drop_bit bit_0)
qed

lemma tagged_value_or:
  assumes "unat v < 2 ^ 48" "\<And>n. bit c n \<Longrightarrow> 48 \<le> n"
  shows "tagged_value (v OR c) = v"
  by (rule bit_word_eqI)
    (auto simp: tagged_value_def bit_simps word_layout dest: small_word_bits [OF assms(1)] assms(2))

lemma iter_inc_tag_bits: "bit ((inc_tag ^^ Suc j) v) n \<Longrightarrow> 48 \<le> n"
  by (simp add: inc_tag_bits)

section \<open>Properties of tagged values\<close>

text \<open>Storing a value of 48 bits never loses it: every way the code puts a tag on a value
  (\<open>init\<close>, \<open>next\<close> without overflow handling, \<open>add_tag\<close>) gives the value back.\<close>

theorem tagged_value_roundtrip:
  assumes "unat v < 2 ^ 48"
  shows "tagged_value (tagged_init v) = v \<and> tagged_value (next_plain oldv v) = v \<and>
    tagged_value (add_tag oldv v) = v \<and> get_tag (add_tag oldv v) = get_tag oldv"
proof (intro conjI)
  show "tagged_value (tagged_init v) = v"
    using tagged_value_or [OF assms, of cnt_bit] by (simp add: tagged_init_def bit_cnt_bit or.commute)
  show "tagged_value (next_plain oldv v) = v"
    using tagged_value_or [OF assms] inc_tag_bits by (simp add: next_plain_def)
  show "tagged_value (add_tag oldv v) = v"
    unfolding add_tag_def by (rule tagged_value_or [OF assms]) (simp add: bit_and_iff bit_cnt_mask)
  show "get_tag (add_tag oldv v) = get_tag oldv"
    by (rule bit_word_eqI)
      (auto simp: get_tag_def add_tag_def bit_simps word_layout dest: small_word_bits [OF assms])
qed

lemma tagged_value_roundtrip_witness:
  "unat (5 :: u64) < 2 ^ 48 \<and> tagged_value (tagged_init 5) = 5 \<and>
   tagged_value (add_tag (tagged_init 9) 5) = 5"
  using tagged_value_roundtrip [of 5 "tagged_init 9"] by simp

text \<open>C4: \<open>next\<close> returns a word that carries the new value and a tag different from the old one,
  and its loop over announced counts ends, as long as there are fewer announcements than
  counts: so a compare-and-swap to the same value still changes the word, and a second
  compare-and-swap on the same old word fails.\<close>

theorem tagged_next_new_tag:
  assumes "unat v < 2 ^ 48" "length scan2 < fuel" "fuel < 32767"
  shows "\<exists>n. tagged_next fuel oldv v addr scan1 scan2 = Some n \<and> tagged_value n = v \<and>
    get_tag n \<noteq> get_tag oldv"
proof (rule tagged_next_cases [OF assms(2,3), of oldv v addr scan1])
  let ?t = "tag16 oldv"
  let ?n = "v OR (inc_tag oldv AND NOT panic_bit)"
  assume "tagged_next fuel oldv v addr scan1 scan2 = Some ?n"
  moreover have "tagged_value ?n = v"
    by (rule tagged_value_or [OF assms(1)]) (auto simp: bit_and_iff dest: inc_tag_bits)
  moreover have "tag16 ?n \<noteq> ?t"
  proof (cases "even ?t")
    case True
    with inc16_iter_neq [of 1 ?t] tag16_bound [of oldv] inc16_parity [of ?t] show ?thesis
      by (simp add: tag16_plain [OF assms(1)])
  next
    case False
    moreover have "even (tag16 ?n)" by (simp add: tag16_plain [OF assms(1)])
    ultimately show ?thesis by metis
  qed
  ultimately show ?thesis by (simp add: get_tag_eq_iff)
next
  fix j assume j: "j < fuel"
  let ?t = "tag16 oldv"
  let ?n = "v OR ((inc_tag ^^ Suc j) oldv OR panic_bit)"
  assume "tagged_next fuel oldv v addr scan1 scan2 = Some ?n"
  moreover have "tagged_value ?n = v"
    by (rule tagged_value_or [OF assms(1)])
      (use iter_inc_tag_bits [of j oldv] in \<open>auto simp: bit_or_iff bit_panic_bit\<close>)
  moreover have tag: "tag16 ?n = (inc16 ^^ Suc j) ?t div 2 * 2 + 1"
    by (simp only: tag16_panic [OF assms(1)] tag16_iter)
  have "tag16 ?n \<noteq> ?t"
  proof (cases "even ?t")
    case True
    moreover have "odd (tag16 ?n)" unfolding tag by simp
    ultimately show ?thesis by metis
  next
    case False
    then have "tag16 ?n = (inc16 ^^ Suc j) ?t"
      unfolding tag using inc16_iter_parity [of "Suc j" ?t] by (intro div2_odd) simp
    with inc16_iter_neq [of "Suc j" ?t] tag16_bound [of oldv] j assms(3) show ?thesis by simp
  qed
  ultimately show ?thesis by (simp only: get_tag_eq_iff) blast
qed

lemma tagged_next_new_tag_witness:
  "\<exists>n. tagged_next 3 (tagged_init 7) 7 64 [] [] = Some n \<and> tagged_value n = 7 \<and>
     get_tag n \<noteq> get_tag (tagged_init 7)"
  by (rule tagged_next_new_tag) simp_all

text \<open>While the panic bit of a location is set, the tag that \<open>next\<close> gives the new value is
  not the tag of any announcement on that location that both scans saw.\<close>

theorem tagged_next_unannounced:
  assumes "unat v < 2 ^ 48" "length scan < fuel" "fuel < 32767"
    and panic: "oldv AND panic_bit \<noteq> 0"
    and ann: "ann \<in> set scan" "ann AND data_mask = addr AND data_mask"
    and n: "tagged_next fuel oldv v addr scan scan = Some n"
  shows "get_tag n \<noteq> get_tag ann"
proof (rule tagged_next_cases [OF assms(2,3), of oldv v addr scan])
  let ?n = "v OR (inc_tag oldv AND NOT panic_bit)"
  assume "tagged_next fuel oldv v addr scan scan = Some ?n"
    and "oldv AND panic_bit \<noteq> 0 \<Longrightarrow> \<not> list_ex (panics_on addr (inc_tag oldv)) scan"
  with n panic ann have n': "n = ?n" and np: "\<not> panics_on addr (inc_tag oldv) ann"
    by (auto simp: list_ex_iff)
  have tag: "get_tag ?n = inc_tag oldv AND cnt_mask AND NOT panic_bit"
    by (rule bit_word_eqI)
      (auto simp: get_tag_def bit_simps word_layout dest: small_word_bits [OF assms(1)])
  show ?thesis
  proof
    assume eq: "get_tag n = get_tag ann"
    have top: "bit (get_tag x) 63 = bit x 63" for x
      by (simp add: get_tag_def bit_and_iff bit_cnt_mask)
    have "bit ann 63 = bit ?n 63"
      using top [of n] top [of ann] eq n' by simp
    also have "\<dots> = bit (inc_tag oldv) 63"
      using small_word_bits [OF assms(1), of 63] by (auto simp: bit_simps word_layout)
    finally have "ann AND top_bit = inc_tag oldv AND top_bit"
      by (intro bit_word_eqI) (auto simp: bit_simps word_layout)
    with np ann have "\<not> inc_tag oldv AND cnt_mask AND NOT panic_bit \<le> ann AND cnt_mask"
      by (simp add: panics_on_def)
    with eq tag n' show False by (simp add: get_tag_def)
  qed
next
  fix j assume "j < fuel"
  let ?c = "(inc_tag ^^ Suc j) oldv"
  let ?n = "v OR (?c OR panic_bit)"
  assume "tagged_next fuel oldv v addr scan scan = Some ?n"
    and un: "\<forall>ann\<in>set scan. \<not> announced_on addr ?c ann"
  with n have n': "n = ?n" by simp
  have odd: "odd (tag16 oldv)"
    using panic by (simp add: panic_bit_iff)
  have "tag16 ?n = tag16 ?c"
    using odd inc16_iter_parity [of "Suc j" "tag16 oldv"] div2_odd [of "tag16 ?c"]
    by (simp only: tag16_panic [OF assms(1)] tag16_iter) simp
  then have "get_tag ?n = get_tag ?c" by (simp only: get_tag_eq_iff)
  then have "get_tag n = ?c AND cnt_mask" by (simp only: n' get_tag_def)
  also have "\<dots> = ?c" by (simp add: inc_tag_low)
  finally show ?thesis using un ann by (auto simp: announced_on_def get_tag_def)
qed

lemma tagged_next_total:
  assumes "length scan2 < fuel" "fuel < 32767"
  shows "\<exists>n. tagged_next fuel oldv v addr scan1 scan2 = Some n"
  by (rule tagged_next_cases [OF assms, of oldv v addr scan1]) auto

lemma tagged_next_unannounced_witness:
  "(case tagged_next 3 (push_bit 48 32769 OR 9) 7 64
       [push_bit 48 32771 OR 64, 0] [push_bit 48 32771 OR 64, 0] of
      Some n \<Rightarrow> get_tag n \<noteq> get_tag (push_bit 48 32771 OR 64)
    | None \<Rightarrow> False)"
proof -
  let ?old = "push_bit 48 32769 OR 9 :: u64" and ?ann = "push_bit 48 32771 OR 64 :: u64"
  obtain n where n: "tagged_next 3 ?old 7 64 [?ann, 0] [?ann, 0] = Some n"
    using tagged_next_total [of "[?ann, 0]" 3 ?old 7 64 "[?ann, 0]"] by auto
  have "get_tag n \<noteq> get_tag ?ann"
    by (rule tagged_next_unannounced [OF _ _ _ _ _ _ n])
      (simp_all add: panic_bit_def data_mask_def tag_bits_def)
  with n show ?thesis by simp
qed

text \<open>The first value written in a panic may get an announced tag. At the overflow into the
  upper half of the counts the old word has no panic bit, so the loop compares the
  announced tags with a count without the panic bit, and then sets that bit in the result:
  an announcement of this count with the panic bit set is not recognised, and \<open>next\<close>
  returns exactly the tag that a concurrent compare-and-swap on the location holds.\<close>

theorem tagged_next_announced_tag:
  "(let ann = push_bit 48 32769 OR 64; oldv = push_bit 48 32766 OR 9
    in \<exists>n. tagged_next 3 oldv 7 64 [ann] [ann] = Some n \<and>
         ann AND data_mask = 64 AND data_mask \<and> get_tag n = get_tag ann)"
  by (simp add: tagged_next_def inc_tag_def panics_on_def announced_on_def get_tag_def Let_def
      cnt_mask_def data_mask_def panic_bit_def top_bit_def cnt_bit_def tag_bits_def
      numeral_3_eq_3)

text \<open>A tag can become zero. When the count of a word whose panic bit is set wraps around,
  the test against zero sees the panic bit, which is cleared afterwards: the null pointer
  then becomes the word 0, which the log takes for an entry that is not committed.\<close>

theorem tagged_next_zero_word:
  "tagged_next fuel (push_bit 48 65535) 0 addr [] scan2 = Some 0"
  by (simp add: tagged_next_def inc_tag_def Let_def cnt_mask_def data_mask_def panic_bit_def
      cnt_bit_def tag_bits_def)

section \<open>Compare-and-swap by several helpers\<close>

lemma cells_announce [simp]:
  "cells (announce_set w v m) = cells m" "cells (announce_clear w m) = cells m"
  by (simp_all add: announce_set_def announce_clear_def)

lemma skip_if_done_no_log_first:
  assumes "alloc_ok alloc" "wf_log (logs s)" "wf_cursor (lg s) (logs s)"
    and "llog.evolves (logs s) (env (logs s))" "\<And>t. logs (f t) = logs t"
    and run: "skip_if_done_no_log env alloc f s = (True, s')"
  shows "wf_log (logs s') \<and> has_cell (logs s') (lg s) \<and>
    (case cell_of (logs s') (lg s) of (a, i) \<Rightarrow> entry (logs s') a i = 1)"
proof -
  obtain a i L1 H1 where ne: "next_entry env alloc (lg s) (logs s) = ((a, i), L1, H1)"
    by (metis prod.exhaust)
  note st = next_entry_step [OF assms(1-4) ne]
  then have c: "wf_log H1" "has_cell H1 (lg s)" "cell_of H1 (lg s) = (a, i)" by simp_all
  from run is_empty_cursor [OF assms(3,2)] ne assms(5)
  have "logs s' = set_entry H1 a i 1"
    by (auto simp: skip_if_done_no_log_def Let_def split: if_splits)
  with has_cell_live(2) [OF c] c show ?thesis by (simp add: entry_set_entry)
qed

lemma skip_if_done_no_log_later:
  assumes "alloc_ok alloc" "wf_log (logs s2)" "llog.evolves (logs s2) (env (logs s2))"
    and "wf_log F1" "has_cell F1 (lg s2)" "case cell_of F1 (lg s2) of (a, i) \<Rightarrow> entry F1 a i = 1"
    and "log_le F1 (logs s2)"
  shows "\<exists>s2'. skip_if_done_no_log env alloc f s2 = (False, s2') \<and> mem s2' = mem s2"
proof -
  obtain a i L1 H1 where ne: "next_entry env alloc (lg s2) (logs s2) = ((a, i), L1, H1)"
    by (metis prod.exhaust)
  have cur: "wf_cursor (lg s2) (logs s2)"
    using log_le_cell(1) [OF assms(7,5)] by (simp add: has_cell_def)
  note st = next_entry_step [OF assms(1,2) cur assms(3) ne]
  then have "log_le (logs s2) H1" by simp
  then have le: "log_le F1 H1" using assms(7) llog.le_trans by blast
  have ai: "cell_of F1 (lg s2) = (a, i)" using st log_le_cell(2) [OF le assms(5)] by simp
  with assms(6) have "entry F1 a i = 1" by simp
  with log_le_entry [OF le assms(4,5) ai] have "entry H1 a i = 1" by simp
  then show ?thesis
    using is_empty_cursor [OF cur assms(2)] by (simp add: skip_if_done_no_log_def ne Let_def)
qed

text \<open>C3: Inside a lock a compare-and-swap takes effect once. A helper that repeats a
  compare-and-swap which another helper has completed at the same log position changes no
  location and reports failure, even if the location holds the expected word again.\<close>

theorem cas_tagged_once:
  assumes "alloc_ok alloc" "wf_log (logs s1)" "wf_cursor (lg s1) (logs s1)"
    and "llog.evolves (logs s1) (lenv1 (logs s1))"
    and "cas_tagged w1 menv1 lenv1 alloc loc oldv newv1 False s1 = (True, s1')"
    and "lg s2 = lg s1" "wf_log (logs s2)" "log_le (logs s1') (logs s2)"
    and "llog.evolves (logs s2) (lenv2 (logs s2))"
  shows "\<exists>s2'. cas_tagged w2 menv2 lenv2 alloc loc oldv newv2 False s2 = (False, s2') \<and>
    cells (mem s2') = cells (mem s2)"
proof -
  let ?m1 = "announce_set w1 (add_tag oldv (of_nat loc)) (mem s1)"
  obtain r m2 where ce: "compare_exchange loc oldv newv1 (menv1 ?m1) = (r, m2)"
    by (metis prod.exhaust)
  obtain ran t where sk: "skip_if_done_no_log lenv1 alloc (\<lambda>t. t\<lparr>mem := m2\<rparr>) (s1\<lparr>mem := ?m1\<rparr>) = (ran, t)"
    by (metis prod.exhaust)
  from assms(5) is_empty_cursor [OF assms(3,2)] have ran: "ran" and lt: "logs s1' = logs t"
    by (auto simp: cas_tagged_def ce sk Let_def)
  with sk have "skip_if_done_no_log lenv1 alloc (\<lambda>t. t\<lparr>mem := m2\<rparr>) (s1\<lparr>mem := ?m1\<rparr>) = (True, t)" by simp
  from skip_if_done_no_log_first [OF assms(1) _ _ _ _ this] assms(2-4,6)
  have f: "wf_log (logs s1')" "has_cell (logs s1') (lg s2)"
    "case cell_of (logs s1') (lg s2) of (a, i) \<Rightarrow> entry (logs s1') a i = 1"
    by (simp_all add: lt)
  have cur: "wf_cursor (lg s2) (logs s2)"
    using log_le_cell(1) [OF assms(8) f(2)] by (simp add: has_cell_def)
  let ?n1 = "announce_set w2 (add_tag oldv (of_nat loc)) (mem s2)"
  obtain r' n2 where ce': "compare_exchange loc oldv newv2 (menv2 ?n1) = (r', n2)"
    by (metis prod.exhaust)
  obtain u where "skip_if_done_no_log lenv2 alloc (\<lambda>t. t\<lparr>mem := n2\<rparr>) (s2\<lparr>mem := ?n1\<rparr>) = (False, u)"
    "mem u = ?n1"
    using skip_if_done_no_log_later [OF assms(1), of "s2\<lparr>mem := ?n1\<rparr>" lenv2 "logs s1'"] assms(7-9) f
    by auto
  then show ?thesis
    using is_empty_cursor [OF cur assms(7)]
    by (simp add: cas_tagged_def ce' Let_def)
qed

definition demo_fstate :: "fmem fstate" where
  "demo_fstate = \<lparr>lg = \<lparr>vals = 1, count = 0\<rparr>, logs = demo_mem,
     mem = \<lparr>cells = (\<lambda>_. tagged_init 5), announcements = (\<lambda>_. 0)\<rparr>\<rparr>"

text \<open>The second helper finds the expected word in the location and still leaves it alone.\<close>

lemma cas_tagged_once_witness:
  "\<exists>s1 s2. cas_tagged 0 (\<lambda>m. m) (\<lambda>H. H) demo_alloc 64 (tagged_init 5) 77 False demo_fstate = (True, s1) \<and>
     cas_tagged 1 (\<lambda>m. m) (\<lambda>H. H) demo_alloc 64 (tagged_init 5) 78 False
       (demo_fstate\<lparr>logs := logs s1\<rparr>) = (False, s2) \<and> cells (mem s2) 64 = tagged_init 5"
proof -
  obtain r s1 where c1: "cas_tagged 0 (\<lambda>m. m) (\<lambda>H. H) demo_alloc 64 (tagged_init 5) 77 False demo_fstate = (r, s1)"
    by (metis prod.exhaust)
  then have r: "r" and l1: "logs s1 = set_entry demo_mem 1 0 1"
    by (auto simp: cas_tagged_def skip_if_done_no_log_def demo_fstate_def compare_exchange_def
        announce_set_def log_eval)
  with c1 have c1': "cas_tagged 0 (\<lambda>m. m) (\<lambda>H. H) demo_alloc 64 (tagged_init 5) 77 False demo_fstate = (True, s1)"
    by simp
  have wf: "wf_log (logs demo_fstate)" "wf_cursor (lg demo_fstate) (logs demo_fstate)"
    using demo_mem_wf by (simp_all add: demo_fstate_def)
  obtain s2 where "cas_tagged 1 (\<lambda>m. m) (\<lambda>H. H) demo_alloc 64 (tagged_init 5) 78 False
       (demo_fstate\<lparr>logs := logs s1\<rparr>) = (False, s2)" "cells (mem s2) = cells (mem demo_fstate)"
    using cas_tagged_once [OF demo_alloc_ok wf _ c1', of "demo_fstate\<lparr>logs := logs s1\<rparr>" "\<lambda>H. H" 1 "\<lambda>m. m" 78]
      demo_mem_wf by (auto simp: l1 llog.le_refl)
  with c1' show ?thesis by (auto simp: demo_fstate_def)
qed

end
