(* ===== verification/Flock_Epoch.thy ===== *)
theory Flock_Epoch
  imports VL_Prelude
begin

text \<open>
  Epoch-based memory reclamation, \<^verbatim>\<open>include/flock/epoch.h\<close> and
  \<^verbatim>\<open>include/flock/acquired_pool.h\<close>. A thread announces the current epoch while it runs
  an operation; an object that is removed from a structure is put on a list of its pool
  and its storage is given back only when every thread that might still hold a reference
  to it has left its operation. The first part models each routine as a function on the
  state of one pool; the second part is a step relation whose steps are the single
  shared-memory accesses of these routines, run by any number of threads, and shows that
  no storage is given back while a thread still holds a reference to it.

  Epochs are integers (\<open>long\<close> in the code; the epoch grows by one in at least 20
  milliseconds, so that it does not overflow). The padding words that the debug build
  puts around every object are not modelled.
\<close>

section \<open>State\<close>

record Link =
  link_value :: addr
  link_skip :: bool

record old_current =
  old :: "Link list"
  current :: "Link list"
  pool_epoch :: int
  retire_count :: int
  pool_time :: int

text \<open>
  The announcement slots are indexed by worker; \<open>live\<close> is the set of addresses that the
  allocator has handed out and not got back.
\<close>

record epoch_state =
  current_epoch :: int
  last_announced :: "nat \<Rightarrow> int"
  pools :: "nat \<Rightarrow> old_current"
  live :: "addr set"

definition no_epoch :: int where
  "no_epoch = -1"

section \<open>Announcements\<close>

definition clear_announce :: "nat \<Rightarrow> 'z epoch_state_scheme \<Rightarrow> 'z epoch_state_scheme" where
  "clear_announce workers s =
     s\<lparr>last_announced := (\<lambda>i. if i < workers then no_epoch else last_announced s i)\<rparr>"

definition get_current :: "'z epoch_state_scheme \<Rightarrow> int" where
  "get_current s = current_epoch s"

definition get_my_epoch :: "nat \<Rightarrow> 'z epoch_state_scheme \<Rightarrow> int" where
  "get_my_epoch wid s = last_announced s wid"

definition set_my_epoch :: "nat \<Rightarrow> int \<Rightarrow> 'z epoch_state_scheme \<Rightarrow> 'z epoch_state_scheme" where
  "set_my_epoch wid e s = s\<lparr>last_announced := (last_announced s)(wid := e)\<rparr>"

text \<open>
  \<open>announce\<close> repeats until the epoch it stored is still current. \<open>env n\<close> is what the other
  threads do before the store and before the second read of round \<open>n\<close>; the fuel bounds the
  number of rounds.
\<close>

fun announce :: "(nat \<Rightarrow> 'z epoch_state_scheme \<Rightarrow> 'z epoch_state_scheme) \<Rightarrow> nat \<Rightarrow> nat
    \<Rightarrow> 'z epoch_state_scheme \<Rightarrow> 'z epoch_state_scheme option" where
  "announce env wid 0 s = None"
| "announce env wid (Suc fuel) s =
     (let current_e = get_current s;
          s1 = set_my_epoch wid current_e (env (2 * fuel + 1) s);
          s2 = env (2 * fuel) s1
      in if get_current s2 = current_e then Some s2 else announce env wid fuel s2)"

text \<open>\<open>unannounce\<close> fails its assertion when the worker is not announced.\<close>

definition unannounce :: "nat \<Rightarrow> 'z epoch_state_scheme \<Rightarrow> 'z epoch_state_scheme option" where
  "unannounce wid s =
     (if last_announced s wid \<noteq> no_epoch then Some (set_my_epoch wid no_epoch s) else None)"

definition with_epoch :: "(nat \<Rightarrow> 'z epoch_state_scheme \<Rightarrow> 'z epoch_state_scheme) \<Rightarrow> nat \<Rightarrow> nat
    \<Rightarrow> ('z epoch_state_scheme \<Rightarrow> 'r \<times> 'z epoch_state_scheme)
    \<Rightarrow> 'z epoch_state_scheme \<Rightarrow> ('r \<times> 'z epoch_state_scheme) option" where
  "with_epoch env wid fuel f s =
     (case announce env wid fuel s of
        None \<Rightarrow> None
      | Some s1 \<Rightarrow> (case f s1 of (v, s2) \<Rightarrow>
          (case unannounce wid s2 of None \<Rightarrow> None | Some s3 \<Rightarrow> Some (v, s3))))"

text \<open>The test \<open>update_epoch\<close> makes on one slot, and its loop over all slots.\<close>

definition lags_behind :: "int \<Rightarrow> int \<Rightarrow> bool" where
  "lags_behind current_e a \<longleftrightarrow> a \<noteq> no_epoch \<and> a < current_e"

definition all_there :: "nat \<Rightarrow> int \<Rightarrow> 'z epoch_state_scheme \<Rightarrow> bool" where
  "all_there workers current_e s \<longleftrightarrow>
     list_all (\<lambda>i. \<not> lags_behind current_e (last_announced s i)) [0..<workers]"

definition bump_epoch :: "int \<Rightarrow> 'z epoch_state_scheme \<Rightarrow> bool \<times> 'z epoch_state_scheme" where
  "bump_epoch current_e s =
     (if current_epoch s = current_e then (True, s\<lparr>current_epoch := current_e + 1\<rparr>) else (False, s))"

definition update_epoch ::
  "nat \<Rightarrow> ('z epoch_state_scheme \<Rightarrow> 'z epoch_state_scheme) list
   \<Rightarrow> ('z epoch_state_scheme \<Rightarrow> 'z epoch_state_scheme) list
   \<Rightarrow> 'z epoch_state_scheme \<Rightarrow> 'z epoch_state_scheme"
where
  "update_epoch workers before_epoch_hooks after_epoch_hooks s =
     (let current_e = get_current s
      in if all_there workers current_e s
         then let s1 = fold (\<lambda>h. h) before_epoch_hooks s;
                  (ok, s2) = bump_epoch current_e s1
              in if ok then fold (\<lambda>h. h) after_epoch_hooks s2 else s2
         else s)"

section \<open>Pools\<close>

definition undo_retire :: "Link \<Rightarrow> Link" where
  "undo_retire l = l\<lparr>link_skip := True\<rparr>"

definition undo_allocate :: "Link \<Rightarrow> Link" where
  "undo_allocate l = l\<lparr>link_skip := False\<rparr>"

definition new_obj :: "('z epoch_state_scheme \<Rightarrow> addr) \<Rightarrow> 'z epoch_state_scheme \<Rightarrow> addr \<times> 'z epoch_state_scheme" where
  "new_obj allocate_node s = (let a = allocate_node s in (a, s\<lparr>live := insert a (live s)\<rparr>))"

definition destruct :: "addr \<Rightarrow> 'z epoch_state_scheme \<Rightarrow> 'z epoch_state_scheme" where
  "destruct p s = s\<lparr>live := live s - {p}\<rparr>"

fun clear_list :: "Link list \<Rightarrow> 'z epoch_state_scheme \<Rightarrow> 'z epoch_state_scheme" where
  "clear_list [] s = s"
| "clear_list (l # ptr) s = clear_list ptr (if \<not> link_skip l then destruct (link_value l) s else s)"

definition size_of :: "Link list \<Rightarrow> int" where
  "size_of ptr = foldl (\<lambda>sum _. sum + 1) 0 ptr"

text \<open>Moving the current list to the old one, and pushing a link on the current one.\<close>

definition rotate_lists :: "int \<Rightarrow> old_current \<Rightarrow> old_current" where
  "rotate_lists e pid = pid\<lparr>old := current pid, current := [], pool_epoch := e\<rparr>"

definition push_link :: "addr \<Rightarrow> old_current \<Rightarrow> old_current" where
  "push_link p pid = pid\<lparr>current := \<lparr>link_value = p, link_skip = False\<rparr> # current pid\<rparr>"

definition set_pool :: "nat \<Rightarrow> old_current \<Rightarrow> 'z epoch_state_scheme \<Rightarrow> 'z epoch_state_scheme" where
  "set_pool i pid s = s\<lparr>pools := (pools s)(i := pid)\<rparr>"

definition update_threshold :: "nat \<Rightarrow> int" where
  "update_threshold workers = 10 * int workers"

text \<open>
  The heuristic for trying to advance the epoch: every \<open>update_threshold\<close> retires, or when
  more than \<open>20 * (1 + i / workers)\<close> milliseconds have passed (multiplied out here).
\<close>

definition update_due :: "nat \<Rightarrow> nat \<Rightarrow> int \<Rightarrow> old_current \<Rightarrow> bool" where
  "update_due workers i now pid \<longleftrightarrow>
     retire_count pid + 1 = update_threshold workers \<or>
     20 * (int workers + int i) < (now - pool_time pid) * int workers"

definition count_retire :: "nat \<Rightarrow> nat \<Rightarrow> int \<Rightarrow> old_current \<Rightarrow> old_current" where
  "count_retire workers i now pid =
     (if update_due workers i now pid then pid\<lparr>retire_count := 0, pool_time := now\<rparr>
      else pid\<lparr>retire_count := retire_count pid + 1\<rparr>)"

definition advance_epoch ::
  "nat \<Rightarrow> ('z epoch_state_scheme \<Rightarrow> 'z epoch_state_scheme) list
   \<Rightarrow> ('z epoch_state_scheme \<Rightarrow> 'z epoch_state_scheme) list
   \<Rightarrow> int \<Rightarrow> nat \<Rightarrow> 'z epoch_state_scheme \<Rightarrow> 'z epoch_state_scheme"
where
  "advance_epoch workers before after now i s =
     (let s1 = (if pool_epoch (pools s i) + 1 < get_current s
                then let s' = clear_list (old (pools s i)) s
                     in set_pool i (rotate_lists (get_current s') (pools s' i)) s'
                else s);
          due = update_due workers i now (pools s1 i);
          s2 = set_pool i (count_retire workers i now (pools s1 i)) s1
      in if due then update_epoch workers before after s2 else s2)"

definition add_to_current_list ::
  "nat \<Rightarrow> ('z epoch_state_scheme \<Rightarrow> 'z epoch_state_scheme) list
   \<Rightarrow> ('z epoch_state_scheme \<Rightarrow> 'z epoch_state_scheme) list
   \<Rightarrow> int \<Rightarrow> nat \<Rightarrow> addr \<Rightarrow> 'z epoch_state_scheme \<Rightarrow> 'z epoch_state_scheme"
where
  "add_to_current_list workers before after now i p s =
     (let s1 = advance_epoch workers before after now i s
      in set_pool i (push_link p (pools s1 i)) s1)"

definition retire :: "nat \<Rightarrow> ('z epoch_state_scheme \<Rightarrow> 'z epoch_state_scheme) list
   \<Rightarrow> ('z epoch_state_scheme \<Rightarrow> 'z epoch_state_scheme) list
   \<Rightarrow> int \<Rightarrow> nat \<Rightarrow> addr \<Rightarrow> 'z epoch_state_scheme \<Rightarrow> 'z epoch_state_scheme" where
  "retire workers before after now i p s = add_to_current_list workers before after now i p s"

definition clear_pool :: "nat \<Rightarrow> 'z epoch_state_scheme \<Rightarrow> 'z epoch_state_scheme" where
  "clear_pool i s =
     (let s1 = clear_list (current (pools s i)) (clear_list (old (pools s i)) s)
      in set_pool i ((pools s1 i)\<lparr>old := [], current := []\<rparr>) s1)"

definition pool_clear ::
  "nat \<Rightarrow> ('z epoch_state_scheme \<Rightarrow> 'z epoch_state_scheme) list
   \<Rightarrow> ('z epoch_state_scheme \<Rightarrow> 'z epoch_state_scheme) list
   \<Rightarrow> 'z epoch_state_scheme \<Rightarrow> 'z epoch_state_scheme"
where
  "pool_clear workers before after s =
     fold clear_pool [0..<workers] (update_epoch workers before after s)"

text \<open>A new epoch structure with a new pool; \<open>hash64\<close> and the clock belong to parlay and the system.\<close>

definition mem_pool_init :: "nat \<Rightarrow> (nat \<Rightarrow> int) \<Rightarrow> int \<Rightarrow> epoch_state" where
  "mem_pool_init workers hash64 now =
     \<lparr>current_epoch = 0, last_announced = (\<lambda>_. no_epoch),
      pools = (\<lambda>i. \<lparr>old = [], current = [], pool_epoch = 0,
                     retire_count = hash64 i mod update_threshold workers, pool_time = now\<rparr>),
      live = {}\<rparr>"

text \<open>Pools whose objects have an \<open>acquired\<close> flag (\<^verbatim>\<open>acquired_pool.h\<close>).\<close>

record acquired_state = epoch_state +
  acquired :: "addr \<Rightarrow> bool"

definition acquired_pool_acquire :: "addr \<Rightarrow> acquired_state \<Rightarrow> acquired_state" where
  "acquired_pool_acquire ptr s =
     (if \<not> acquired s ptr then s\<lparr>acquired := (acquired s)(ptr := True)\<rparr> else s)"

definition acquired_pool_retire :: "nat \<Rightarrow> (acquired_state \<Rightarrow> acquired_state) list
   \<Rightarrow> (acquired_state \<Rightarrow> acquired_state) list \<Rightarrow> int \<Rightarrow> nat \<Rightarrow> addr \<Rightarrow> acquired_state \<Rightarrow> acquired_state" where
  "acquired_pool_retire workers before after now i ptr s =
     (if \<not> acquired s ptr then destruct ptr s
      else retire workers before after now i ptr (s\<lparr>acquired := (acquired s)(ptr := False)\<rparr>))"

section \<open>What one worker's routines do\<close>

definition freed_by :: "Link list \<Rightarrow> addr set" where
  "freed_by ls = link_value ` {l \<in> set ls. \<not> link_skip l}"

lemma clear_list_frees: "clear_list ls s = s\<lparr>live := live s - freed_by ls\<rparr>"
proof (induction ls arbitrary: s)
  case (Cons l ls)
  have "freed_by (l # ls) = (if link_skip l then {} else {link_value l}) \<union> freed_by ls"
    by (auto simp: freed_by_def)
  then show ?case by (auto simp: Cons.IH destruct_def Diff_eq Int_assoc)
qed (simp add: freed_by_def)

lemma size_of_length: "size_of ls = int (length ls)"
proof -
  have "foldl (\<lambda>sum _. sum + 1) k ls = k + int (length ls)" for k
    by (induction ls arbitrary: k) simp_all
  then show ?thesis by (simp add: size_of_def)
qed

lemma set_pool_simps [simp]:
  "current_epoch (set_pool i p s) = current_epoch s"
  "last_announced (set_pool i p s) = last_announced s"
  "live (set_pool i p s) = live s"
  "pools (set_pool i p s) = (pools s)(i := p)"
  by (simp_all add: set_pool_def)

lemma rotate_lists_simps [simp]:
  "old (rotate_lists e p) = current p" "current (rotate_lists e p) = []"
  "pool_epoch (rotate_lists e p) = e"
  by (simp_all add: rotate_lists_def)

lemma push_link_simps [simp]:
  "old (push_link x p) = old p" "pool_epoch (push_link x p) = pool_epoch p"
  "current (push_link x p) = \<lparr>link_value = x, link_skip = False\<rparr> # current p"
  by (simp_all add: push_link_def)

lemma count_retire_simps [simp]:
  "old (count_retire w i now p) = old p" "current (count_retire w i now p) = current p"
  "pool_epoch (count_retire w i now p) = pool_epoch p"
  by (simp_all add: count_retire_def)

lemma update_epoch_simps [simp]:
  "pools (update_epoch w [] [] s) = pools s" "live (update_epoch w [] [] s) = live s"
  "last_announced (update_epoch w [] [] s) = last_announced s"
  by (simp_all add: update_epoch_def bump_epoch_def Let_def)

lemma update_epoch_current:
  "current_epoch (update_epoch w [] [] s) =
     (if all_there w (current_epoch s) s then current_epoch s + 1 else current_epoch s)"
  by (simp add: update_epoch_def bump_epoch_def get_current_def Let_def)

lemma retire_lists:
  "live (retire w [] [] now i p s) =
     (if pool_epoch (pools s i) + 1 < current_epoch s then live s - freed_by (old (pools s i)) else live s)"
  "old (pools (retire w [] [] now i p s) i) =
     (if pool_epoch (pools s i) + 1 < current_epoch s then current (pools s i) else old (pools s i))"
  "current (pools (retire w [] [] now i p s) i) =
     \<lparr>link_value = p, link_skip = False\<rparr> #
       (if pool_epoch (pools s i) + 1 < current_epoch s then [] else current (pools s i))"
  "pool_epoch (pools (retire w [] [] now i p s) i) =
     (if pool_epoch (pools s i) + 1 < current_epoch s then current_epoch s else pool_epoch (pools s i))"
  by (simp_all add: retire_def add_to_current_list_def advance_epoch_def clear_list_frees
      get_current_def Let_def)

section \<open>Threads interleaved\<close>

text \<open>
  The control point of a worker. \<open>Ann_loop\<close> to \<open>Ann_stored\<close> are the loop of \<open>announce\<close>, \<open>In_op\<close>
  is the body of an operation, the others are the accesses of \<open>retire\<close> of an object:
  \<open>Adv_test\<close> before the first read of the epoch in \<open>advance_epoch\<close>, \<open>Adv_clear\<close> inside
  \<open>clear_list\<close>, \<open>Adv_rotate\<close> before the second read, \<open>Adv_count\<close> before the heuristic,
  \<open>Upd_read\<close>, \<open>Upd_scan\<close> and \<open>Upd_cas\<close> in \<open>update_epoch\<close>, and \<open>Push\<close> before the link is added.
\<close>

datatype epc = Idle | Ann_loop | Ann_read int | Ann_stored int | In_op
  | Adv_test addr | Adv_clear addr "Link list" | Adv_rotate addr | Adv_count addr
  | Upd_read addr | Upd_scan addr int nat | Upd_cas addr int | Push addr

text \<open>
  Where an object is: in the structure, removed from it by an operation that has not
  retired it yet, being retired by a worker, or on a list of a worker.
\<close>

datatype place = Linked | Removed | Pending nat | Listed nat

record epoch_sys = epoch_state +
  pc :: "nat \<Rightarrow> epc"
  place_of :: "addr \<Rightarrow> place"
  refs :: "nat \<Rightarrow> addr set"

fun in_op :: "epc \<Rightarrow> bool" where
  "in_op Idle = False"
| "in_op Ann_loop = False"
| "in_op (Ann_read e) = False"
| "in_op (Ann_stored e) = False"
| "in_op _ = True"

definition goto :: "nat \<Rightarrow> epc \<Rightarrow> epoch_sys \<Rightarrow> epoch_sys" where
  "goto t c s = s\<lparr>pc := (pc s)(t := c)\<rparr>"

definition put_at :: "addr \<Rightarrow> place \<Rightarrow> epoch_sys \<Rightarrow> epoch_sys" where
  "put_at x p s = s\<lparr>place_of := (place_of s)(x := p)\<rparr>"

definition set_refs :: "nat \<Rightarrow> addr set \<Rightarrow> epoch_sys \<Rightarrow> epoch_sys" where
  "set_refs t R s = s\<lparr>refs := (refs s)(t := R)\<rparr>"

text \<open>
  One step of worker \<open>t\<close> of \<open>n\<close>. The client's steps are the first three of an operation:
  it allocates an object and links it in, reads a reference to a linked object, unlinks
  an object, or calls \<open>retire\<close> on one it has unlinked.
\<close>

inductive estep :: "nat \<Rightarrow> epoch_sys \<Rightarrow> epoch_sys \<Rightarrow> bool" for n :: nat where
  begin_op: "t < n \<Longrightarrow> pc s t = Idle \<Longrightarrow> estep n s (goto t Ann_loop s)"
| read_epoch: "t < n \<Longrightarrow> pc s t = Ann_loop \<Longrightarrow> estep n s (goto t (Ann_read (get_current s)) s)"
| store_epoch: "t < n \<Longrightarrow> pc s t = Ann_read e \<Longrightarrow> estep n s (goto t (Ann_stored e) (set_my_epoch t e s))"
| confirm: "t < n \<Longrightarrow> pc s t = Ann_stored e \<Longrightarrow> get_current s = e \<Longrightarrow>
    estep n s (goto t In_op (set_refs t {} s))"
| retry: "t < n \<Longrightarrow> pc s t = Ann_stored e \<Longrightarrow> get_current s \<noteq> e \<Longrightarrow> estep n s (goto t Ann_loop s)"
| end_op: "t < n \<Longrightarrow> pc s t = In_op \<Longrightarrow> estep n s (goto t Idle (set_my_epoch t no_epoch s))"
| link: "t < n \<Longrightarrow> pc s t = In_op \<Longrightarrow> x \<notin> live s \<Longrightarrow>
    estep n s (put_at x Linked (snd (new_obj (\<lambda>_. x) s)))"
| obtain_ref: "t < n \<Longrightarrow> pc s t = In_op \<Longrightarrow> x \<in> live s \<Longrightarrow> place_of s x = Linked \<Longrightarrow>
    estep n s (set_refs t (insert x (refs s t)) s)"
| unlink: "t < n \<Longrightarrow> pc s t = In_op \<Longrightarrow> x \<in> live s \<Longrightarrow> place_of s x = Linked \<Longrightarrow>
    estep n s (put_at x Removed s)"
| call_retire: "t < n \<Longrightarrow> pc s t = In_op \<Longrightarrow> x \<in> live s \<Longrightarrow> place_of s x = Removed \<Longrightarrow>
    estep n s (goto t (Adv_test x) (put_at x (Pending t) s))"
| adv_test: "t < n \<Longrightarrow> pc s t = Adv_test x \<Longrightarrow>
    estep n s (goto t (if pool_epoch (pools s t) + 1 < get_current s
                       then Adv_clear x (old (pools s t)) else Adv_count x) s)"
| adv_clear: "t < n \<Longrightarrow> pc s t = Adv_clear x (l # ls) \<Longrightarrow>
    estep n s (goto t (Adv_clear x ls) (clear_list [l] s))"
| adv_cleared: "t < n \<Longrightarrow> pc s t = Adv_clear x [] \<Longrightarrow> estep n s (goto t (Adv_rotate x) s)"
| adv_rotate: "t < n \<Longrightarrow> pc s t = Adv_rotate x \<Longrightarrow>
    estep n s (goto t (Adv_count x) (set_pool t (rotate_lists (get_current s) (pools s t)) s))"
| adv_count: "t < n \<Longrightarrow> pc s t = Adv_count x \<Longrightarrow>
    estep n s (goto t (if update_due n t now (pools s t) then Upd_read x else Push x)
                 (set_pool t (count_retire n t now (pools s t)) s))"
| upd_read: "t < n \<Longrightarrow> pc s t = Upd_read x \<Longrightarrow> estep n s (goto t (Upd_scan x (get_current s) 0) s)"
| upd_scan: "t < n \<Longrightarrow> pc s t = Upd_scan x e k \<Longrightarrow> k < n \<Longrightarrow>
    estep n s (goto t (if lags_behind e (last_announced s k) then Push x else Upd_scan x e (Suc k)) s)"
| upd_scanned: "t < n \<Longrightarrow> pc s t = Upd_scan x e n \<Longrightarrow> estep n s (goto t (Upd_cas x e) s)"
| upd_cas: "t < n \<Longrightarrow> pc s t = Upd_cas x e \<Longrightarrow> estep n s (goto t (Push x) (snd (bump_epoch e s)))"
| push: "t < n \<Longrightarrow> pc s t = Push x \<Longrightarrow>
    estep n s (goto t In_op (put_at x (Listed t) (set_pool t (push_link x (pools s t)) s)))"

definition epoch_start :: "nat \<Rightarrow> (nat \<Rightarrow> int) \<Rightarrow> int \<Rightarrow> epoch_sys" where
  "epoch_start n hash64 now =
     epoch_state.extend (mem_pool_init n hash64 now)
       \<lparr>pc = (\<lambda>_. Idle), place_of = (\<lambda>_. Linked), refs = (\<lambda>_. {})\<rparr>"

definition epoch_reachable :: "nat \<Rightarrow> epoch_sys \<Rightarrow> bool" where
  "epoch_reachable n s \<longleftrightarrow> (\<exists>hash64 now. (estep n)\<^sup>*\<^sup>* (epoch_start n hash64 now) s)"

lemma sys_simps [simp]:
  "pc (goto t c s) = (pc s)(t := c)" "pc (put_at x p s) = pc s" "pc (set_refs t R s) = pc s"
  "pc (set_my_epoch t e s) = pc s" "pc (set_pool t q s) = pc s"
  "place_of (goto t c s) = place_of s" "place_of (put_at x p s) = (place_of s)(x := p)"
  "place_of (set_refs t R s) = place_of s" "place_of (set_my_epoch t e s) = place_of s"
  "place_of (set_pool t q s) = place_of s"
  "refs (goto t c s) = refs s" "refs (put_at x p s) = refs s" "refs (set_refs t R s) = (refs s)(t := R)"
  "refs (set_my_epoch t e s) = refs s" "refs (set_pool t q s) = refs s"
  "current_epoch (goto t c s) = current_epoch s" "current_epoch (put_at x p s) = current_epoch s"
  "current_epoch (set_refs t R s) = current_epoch s" "current_epoch (set_my_epoch t e s') = current_epoch s'"
  "last_announced (goto t c s) = last_announced s" "last_announced (put_at x p s) = last_announced s"
  "last_announced (set_refs t R s) = last_announced s"
  "last_announced (set_my_epoch t e s') = (last_announced s')(t := e)"
  "pools (goto t c s) = pools s" "pools (put_at x p s) = pools s"
  "pools (set_refs t R s) = pools s" "pools (set_my_epoch t e s') = pools s'"
  "live (goto t c s) = live s" "live (put_at x p s) = live s"
  "live (set_refs t R s) = live s" "live (set_my_epoch t e s') = live s'"
  by (simp_all add: goto_def put_at_def set_refs_def set_my_epoch_def set_pool_def)

lemma new_obj_simps [simp]:
  "pc (snd (new_obj f s)) = pc s" "place_of (snd (new_obj f s)) = place_of s"
  "refs (snd (new_obj f s)) = refs s" "current_epoch (snd (new_obj f s')) = current_epoch s'"
  "last_announced (snd (new_obj f s')) = last_announced s'" "pools (snd (new_obj f s')) = pools s'"
  "live (snd (new_obj f s')) = insert (f s') (live s')"
  by (simp_all add: new_obj_def Let_def)

lemma bump_epoch_simps [simp]:
  "pc (snd (bump_epoch e s)) = pc s" "place_of (snd (bump_epoch e s)) = place_of s"
  "refs (snd (bump_epoch e s)) = refs s"
  "last_announced (snd (bump_epoch e s')) = last_announced s'" "pools (snd (bump_epoch e s')) = pools s'"
  "live (snd (bump_epoch e s')) = live s'"
  "current_epoch (snd (bump_epoch e s')) = (if current_epoch s' = e then e + 1 else current_epoch s')"
  by (simp_all add: bump_epoch_def)

lemma destruct_simps [simp]:
  "pc (destruct x s) = pc s" "place_of (destruct x s) = place_of s"
  "refs (destruct x s) = refs s" "current_epoch (destruct x s') = current_epoch s'"
  "last_announced (destruct x s') = last_announced s'" "pools (destruct x s') = pools s'"
  "live (destruct x s') = live s' - {x}"
  by (simp_all add: destruct_def)

lemma start_simps [simp]:
  "pc (epoch_start n h now) t = Idle" "refs (epoch_start n h now) t = {}"
  "current_epoch (epoch_start n h now) = 0" "live (epoch_start n h now) = {}"
  "last_announced (epoch_start n h now) t = no_epoch"
  "old (pools (epoch_start n h now) t) = []" "current (pools (epoch_start n h now) t) = []"
  "pool_epoch (pools (epoch_start n h now) t) = 0"
  by (simp_all add: epoch_start_def mem_pool_init_def epoch_state.defs)

text \<open>
  The epochs: a worker in an operation announced the current epoch or the one before, and
  the part of the slots that \<open>update_epoch\<close> has scanned holds nobody who lags behind.
\<close>

definition scanned :: "int \<Rightarrow> nat \<Rightarrow> epoch_sys \<Rightarrow> bool" where
  "scanned e k s \<longleftrightarrow> e \<le> current_epoch s \<and>
     (e = current_epoch s \<longrightarrow> (\<forall>j<k. in_op (pc s j) \<longrightarrow> e \<le> last_announced s j))"

definition pc_epoch_ok :: "nat \<Rightarrow> nat \<Rightarrow> epoch_sys \<Rightarrow> bool" where
  "pc_epoch_ok n t s \<longleftrightarrow>
     (case pc s t of
        Idle \<Rightarrow> True
      | Ann_loop \<Rightarrow> t < n
      | Ann_read e \<Rightarrow> t < n \<and> 0 \<le> e \<and> e \<le> current_epoch s
      | Ann_stored e \<Rightarrow> t < n \<and> 0 \<le> e \<and> e \<le> current_epoch s \<and> last_announced s t = e
      | Upd_scan x e k \<Rightarrow> t < n \<and> scanned e k s
      | Upd_cas x e \<Rightarrow> t < n \<and> scanned e n s
      | _ \<Rightarrow> t < n)"

definition announced_ok :: "nat \<Rightarrow> epoch_sys \<Rightarrow> bool" where
  "announced_ok t s \<longleftrightarrow> (in_op (pc s t) \<longrightarrow>
     0 \<le> last_announced s t \<and> last_announced s t \<le> current_epoch s \<and>
     current_epoch s \<le> last_announced s t + 1)"

definition epoch_inv :: "nat \<Rightarrow> epoch_sys \<Rightarrow> bool" where
  "epoch_inv n s \<longleftrightarrow> 0 \<le> current_epoch s \<and> (\<forall>t. announced_ok t s \<and> pc_epoch_ok n t s)"

lemma epoch_inv_start: "epoch_inv n (epoch_start n h now)"
  by (simp add: epoch_inv_def announced_ok_def pc_epoch_ok_def)

lemma epoch_invD:
  assumes "epoch_inv n s"
  shows "0 \<le> current_epoch s" "announced_ok t s" "pc_epoch_ok n t s"
  using assms by (simp_all add: epoch_inv_def)

lemma clear_one_simps [simp]:
  "pc (clear_list [l] s) = pc s" "place_of (clear_list [l] s) = place_of s"
  "refs (clear_list [l] s) = refs s" "current_epoch (clear_list [l] s') = current_epoch s'"
  "last_announced (clear_list [l] s') = last_announced s'" "pools (clear_list [l] s') = pools s'"
  by simp_all

lemma estep_epochs:
  assumes "estep n s s'" "epoch_inv n s"
  shows "current_epoch s \<le> current_epoch s' \<and>
    (\<forall>j. in_op (pc s' j) \<longrightarrow>
       last_announced s' j = last_announced s j \<and> (in_op (pc s j) \<or> last_announced s j = current_epoch s'))"
  using assms(1)
proof cases
  case (confirm t e)
  with epoch_invD(3) [OF assms(2), of t] show ?thesis
    by (auto simp: get_current_def pc_epoch_ok_def)
qed (auto simp: get_current_def split: if_splits)

lemma scanned_step:
  assumes "estep n s s'" "epoch_inv n s" "scanned e k s"
  shows "scanned e k s'"
  using estep_epochs [OF assms(1,2)] assms(3) by (fastforce simp: scanned_def)

lemma announced_step:
  assumes "estep n s s'" "epoch_inv n s"
  shows "announced_ok u s'"
proof -
  have "current_epoch s' \<le> last_announced s u + 1" if u: "in_op (pc s u)" "in_op (pc s' u)"
    using assms(1)
  proof cases
    case (upd_cas t x e)
    from epoch_invD(3) [OF assms(2), of t] upd_cas have "scanned e n s" by (simp add: pc_epoch_ok_def)
    moreover from epoch_invD(3) [OF assms(2), of u] u have "u < n"
      by (cases "pc s u") (auto simp: pc_epoch_ok_def)
    ultimately show ?thesis
      using u epoch_invD(2) [OF assms(2), of u] upd_cas by (auto simp: scanned_def announced_ok_def)
  qed (use u epoch_invD(2) [OF assms(2), of u] in \<open>auto simp: announced_ok_def\<close>)
  with estep_epochs [OF assms] epoch_invD(1) [OF assms(2)] epoch_invD(2) [OF assms(2), of u]
  show ?thesis by (force simp: announced_ok_def)
qed

text \<open>A worker's own control point is fixed by its steps; the others keep theirs.\<close>

lemma pc_epoch_other:
  assumes "estep n s s'" "epoch_inv n s" "pc s' u = pc s u" "last_announced s' u = last_announced s u"
  shows "pc_epoch_ok n u s'"
  using epoch_invD(3) [OF assms(2), of u] estep_epochs [OF assms(1,2)] assms(3,4)
    scanned_step [OF assms(1,2)]
  by (auto simp: pc_epoch_ok_def split: epc.splits)

lemma pc_epoch_own:
  assumes "estep n s s'" "epoch_inv n s" "pc s' u \<noteq> pc s u \<or> last_announced s' u \<noteq> last_announced s u"
  shows "pc_epoch_ok n u s'"
  using assms(1)
proof cases
  case (upd_scan t x e k)
  have ok: "scanned e k s" "announced_ok k s"
    using epoch_invD(3) [OF assms(2), of t] epoch_invD(2) [OF assms(2), of k] upd_scan
    by (simp_all add: pc_epoch_ok_def)
  then have "scanned e (Suc k) s" if "\<not> lags_behind e (last_announced s k)"
    using that by (auto simp: scanned_def announced_ok_def lags_behind_def no_epoch_def less_Suc_eq)
  with scanned_step [OF assms(1,2), of e "Suc k"] upd_scan assms(3) show ?thesis
    by (auto simp: pc_epoch_ok_def)
next
  case (upd_scanned t x e)
  with epoch_invD(3) [OF assms(2), of t] scanned_step [OF assms(1,2), of e n] assms(3) show ?thesis
    by (auto simp: pc_epoch_ok_def split: if_splits)
qed (use assms(3) epoch_invD(1) [OF assms(2)] epoch_invD(3) [OF assms(2), of u] in
      \<open>auto simp: pc_epoch_ok_def get_current_def scanned_def split: if_splits\<close>)

lemma epoch_inv_step:
  assumes "estep n s s'" "epoch_inv n s"
  shows "epoch_inv n s'"
  using announced_step [OF assms] pc_epoch_other [OF assms] pc_epoch_own [OF assms]
    estep_epochs [OF assms] epoch_invD(1) [OF assms(2)]
  by (fastforce simp: epoch_inv_def)

lemma epoch_inv_reachable: "epoch_reachable n s \<Longrightarrow> epoch_inv n s"
  unfolding epoch_reachable_def
proof clarify
  fix h now
  assume "(estep n)\<^sup>*\<^sup>* (epoch_start n h now) s"
  then show "epoch_inv n s"
    by (induction rule: rtranclp_induct) (auto intro: epoch_inv_start epoch_inv_step)
qed

text \<open>
  The lists: the links a worker still has to free (while it clears its old list, those it
  has not reached), the object it is retiring, and where each of them is.
\<close>

fun left_of :: "epc \<Rightarrow> Link list \<Rightarrow> Link list" where
  "left_of (Adv_clear x ls) ol = ls"
| "left_of (Adv_rotate x) ol = []"
| "left_of _ ol = ol"

definition waiting :: "nat \<Rightarrow> epoch_sys \<Rightarrow> Link list" where
  "waiting i s = left_of (pc s i) (old (pools s i))"

definition on_lists :: "nat \<Rightarrow> epoch_sys \<Rightarrow> Link list" where
  "on_lists i s = waiting i s @ current (pools s i)"

fun retiring :: "epc \<Rightarrow> addr option" where
  "retiring (Adv_test x) = Some x"
| "retiring (Adv_clear x ls) = Some x"
| "retiring (Adv_rotate x) = Some x"
| "retiring (Adv_count x) = Some x"
| "retiring (Upd_read x) = Some x"
| "retiring (Upd_scan x e k) = Some x"
| "retiring (Upd_cas x e) = Some x"
| "retiring (Push x) = Some x"
| "retiring _ = None"

definition lists_ok :: "nat \<Rightarrow> epoch_sys \<Rightarrow> bool" where
  "lists_ok i s \<longleftrightarrow>
     distinct (map link_value (on_lists i s)) \<and>
     (\<forall>l \<in> set (on_lists i s). \<not> link_skip l \<and> link_value l \<in> live s \<and> place_of s (link_value l) = Listed i) \<and>
     (\<forall>x. retiring (pc s i) = Some x \<longrightarrow> x \<in> live s \<and> place_of s x = Pending i)"

lemma lists_same:
  assumes "pc s' i = pc s i" "pools s' i = pools s i"
  shows "waiting i s' = waiting i s" "on_lists i s' = on_lists i s"
  using assms by (simp_all add: waiting_def on_lists_def)

lemma estep_on_lists:
  assumes "estep n s s'"
  shows "(\<exists>pre. on_lists i s = pre @ on_lists i s') \<or>
    (\<exists>x. pc s i = Push x \<and> on_lists i s = old (pools s i) @ current (pools s i) \<and>
       on_lists i s' = old (pools s i) @ \<lparr>link_value = x, link_skip = False\<rparr> # current (pools s i))"
  using assms by cases (auto simp: on_lists_def waiting_def split: if_splits)

text \<open>Steps leave the objects on the lists alone, except the one whose link goes.\<close>

lemma estep_listed:
  assumes "estep n s s'" "\<And>i. lists_ok i s" "l \<in> set (on_lists i s)" "l \<in> set (on_lists i s')"
  shows "link_value l \<in> live s' \<and> place_of s' (link_value l) = Listed i"
  using assms(1)
proof cases
  case (adv_clear t x l' ls)
  have on: "on_lists t s = l' # on_lists t s'" if "t = i"
    using adv_clear that by (simp add: on_lists_def waiting_def)
  have l': "l' \<in> set (on_lists t s)" using adv_clear by (simp add: on_lists_def waiting_def)
  have "link_value l \<noteq> link_value l'"
  proof (cases "t = i")
    case True
    then have "distinct (map link_value (l' # on_lists i s'))"
      using on assms(2) [of i] by (simp add: lists_ok_def)
    with assms(4) show ?thesis by (metis distinct.simps(2) imageI list.simps(9) set_map)
  next
    case False
    with l' assms(2) [of i] assms(2) [of t] assms(3) show ?thesis by (auto simp: lists_ok_def)
  qed
  with adv_clear assms(2) [of i] assms(3) show ?thesis by (auto simp: lists_ok_def)
next
  case (push t x)
  with assms(2) [of i] assms(2) [of t] assms(3) show ?thesis by (auto simp: lists_ok_def)
qed (use assms(2) [of i] assms(3) in \<open>auto simp: lists_ok_def split: if_splits\<close>)

lemma estep_retiring:
  assumes "estep n s s'" "\<And>i. lists_ok i s" "retiring (pc s' i) = Some x"
  shows "x \<in> live s' \<and> place_of s' x = Pending i"
  using assms(1)
proof cases
  case (adv_clear t y l' ls)
  then have "l' \<in> set (on_lists t s)" by (simp add: on_lists_def waiting_def)
  with adv_clear assms(2) [of t] assms(2) [of i] assms(3) show ?thesis
    by (auto simp: lists_ok_def split: if_splits)
next
  case (push t y)
  with assms(2) [of t] assms(2) [of i] assms(3) show ?thesis
    by (auto simp: lists_ok_def split: if_splits)
qed (use assms(2) [of i] assms(3) in \<open>auto simp: lists_ok_def split: if_splits\<close>)

lemma lists_ok_step:
  assumes "estep n s s'" "\<And>i. lists_ok i s"
  shows "lists_ok i s'"
proof -
  note ok = assms(2) [of i, unfolded lists_ok_def]
  consider (kept) pre where "on_lists i s = pre @ on_lists i s'"
    | (pushed) x where "pc s i = Push x" "on_lists i s = old (pools s i) @ current (pools s i)"
      "on_lists i s' = old (pools s i) @ \<lparr>link_value = x, link_skip = False\<rparr> # current (pools s i)"
    using estep_on_lists [OF assms(1), of i] by blast
  then show ?thesis
  proof cases
    case kept
    then have "set (on_lists i s') \<subseteq> set (on_lists i s)" "distinct (map link_value (on_lists i s'))"
      using ok by auto
    with ok estep_listed [OF assms] estep_retiring [OF assms] show ?thesis
      by (auto simp: lists_ok_def)
  next
    case pushed
    have x: "x \<in> live s" "place_of s x = Pending i" using ok pushed by auto
    with ok have "x \<notin> link_value ` set (on_lists i s)" by auto
    then have "distinct (map link_value (on_lists i s'))" using ok pushed by auto
    moreover have "x \<in> live s' \<and> place_of s' x = Listed i"
      using assms(1) by cases (use pushed x in \<open>auto simp: on_lists_def waiting_def split: if_splits\<close>)
    moreover have "\<not> link_skip l \<and> (link_value l = x \<or> l \<in> set (on_lists i s))"
      if "l \<in> set (on_lists i s')" for l
      using that ok pushed by auto
    ultimately show ?thesis
      using estep_listed [OF assms] estep_retiring [OF assms] by (fastforce simp: lists_ok_def)
  qed
qed

text \<open>
  The references: an operation holds references to live objects only, and it was announced
  before the epoch in which the worker last moved its lists, if it holds a reference to
  an object on the old list.
\<close>

definition refs_ok :: "nat \<Rightarrow> epoch_sys \<Rightarrow> bool" where
  "refs_ok t s \<longleftrightarrow> (in_op (pc s t) \<longrightarrow> refs s t \<subseteq> live s \<and>
     (\<forall>i. \<forall>l \<in> set (waiting i s). link_value l \<in> refs s t \<longrightarrow> last_announced s t \<le> pool_epoch (pools s i)))"

definition clearing_ok :: "nat \<Rightarrow> epoch_sys \<Rightarrow> bool" where
  "clearing_ok i s \<longleftrightarrow> (\<forall>x ls. pc s i = Adv_clear x ls \<longrightarrow> pool_epoch (pools s i) + 1 < current_epoch s)"

lemma clearing_ok_step:
  assumes "estep n s s'" "\<And>i. clearing_ok i s"
  shows "clearing_ok i s'"
  using assms(1)
  by cases (use assms(2) [of i] in \<open>auto simp: clearing_ok_def get_current_def split: if_splits\<close>)

lemma estep_waiting:
  assumes "estep n s s'"
  shows "set (waiting i s') \<subseteq> set (waiting i s) \<and> pool_epoch (pools s' i) = pool_epoch (pools s i) \<or>
    pool_epoch (pools s' i) = current_epoch s"
  using assms
  by cases (auto simp: waiting_def get_current_def split: if_splits)

lemma refs_ok_step:
  assumes "estep n s s'" "epoch_inv n s" "\<And>i. lists_ok i s" "\<And>i. clearing_ok i s" "\<And>u. refs_ok u s"
  shows "refs_ok u s'"
proof (cases "in_op (pc s u) \<and> in_op (pc s' u)")
  case False
  with assms(1) show ?thesis
    by cases (auto simp: refs_ok_def split: if_splits)
next
  case True
  with assms(5) [of u] have r: "refs s u \<subseteq> live s"
    "\<And>i l. l \<in> set (waiting i s) \<Longrightarrow> link_value l \<in> refs s u \<Longrightarrow>
       last_announced s u \<le> pool_epoch (pools s i)"
    by (auto simp: refs_ok_def)
  have e: "last_announced s u \<le> current_epoch s" "current_epoch s \<le> last_announced s u + 1"
    "last_announced s' u = last_announced s u"
    using epoch_invD(2) [OF assms(2), of u] estep_epochs [OF assms(1,2)] True
    by (auto simp: announced_ok_def)
  have live: "refs s u \<subseteq> live s'"
    using assms(1)
  proof cases
    case (adv_clear t x l ls)
    have "link_value l \<notin> refs s u"
      using r(2) [of l t] adv_clear assms(4) [of t] e by (auto simp: waiting_def clearing_ok_def)
    with adv_clear r show ?thesis by auto
  qed (use r in auto)
  have new: "x \<in> live s' \<and> (\<forall>i. \<forall>l \<in> set (waiting i s). link_value l \<noteq> x)"
    if "x \<in> refs s' u" "x \<notin> refs s u" for x
    using assms(1)
  proof cases
    case (obtain_ref t y)
    moreover have "link_value l \<noteq> x" if "l \<in> set (waiting i s)" for i l
      using that assms(3) [of i] obtain_ref \<open>x \<in> refs s' u\<close> \<open>x \<notin> refs s u\<close>
      by (auto simp: lists_ok_def on_lists_def split: if_splits)
    ultimately show ?thesis using that by (auto split: if_splits)
  qed (use that True in \<open>auto split: if_splits\<close>)
  have "last_announced s' u \<le> pool_epoch (pools s' i)"
    if "l \<in> set (waiting i s')" "link_value l \<in> refs s' u" for i l
    using estep_waiting [OF assms(1), of i] r(2) [of l i] new [of "link_value l"] e that by fastforce
  with live new show ?thesis by (auto simp: refs_ok_def)
qed

definition reclaim_inv :: "nat \<Rightarrow> epoch_sys \<Rightarrow> bool" where
  "reclaim_inv n s \<longleftrightarrow> epoch_inv n s \<and> (\<forall>i. lists_ok i s \<and> clearing_ok i s \<and> refs_ok i s)"

lemma reclaim_inv_reachable:
  assumes "epoch_reachable n s"
  shows "reclaim_inv n s"
proof -
  from assms obtain h now where "(estep n)\<^sup>*\<^sup>* (epoch_start n h now) s"
    by (auto simp: epoch_reachable_def)
  then show ?thesis
  proof (induction rule: rtranclp_induct)
    case base
    show ?case
      by (simp add: reclaim_inv_def epoch_inv_start lists_ok_def on_lists_def waiting_def
          clearing_ok_def refs_ok_def)
  next
    case (step s s')
    then have I: "epoch_inv n s" "\<And>i. lists_ok i s" "\<And>i. clearing_ok i s" "\<And>i. refs_ok i s"
      by (simp_all add: reclaim_inv_def)
    from epoch_inv_step [OF step(2) I(1)] lists_ok_step [OF step(2) I(2)]
      clearing_ok_step [OF step(2) I(3)] refs_ok_step [OF step(2) I]
    show ?case by (simp add: reclaim_inv_def)
  qed
qed

section \<open>Properties of the epochs and pools\<close>

text \<open>C5: Storage is reclaimed safely: in every state that any interleaving of the workers reaches,
  an object to which a running operation holds a reference has not been given back to the
  allocator, although other operations may have unlinked and retired it meanwhile.\<close>

theorem safe_reclamation:
  assumes "epoch_reachable n s" "in_op (pc s t)" "x \<in> refs s t"
  shows "x \<in> live s"
  using reclaim_inv_reachable [OF assms(1)] assms(2,3) by (auto simp: reclaim_inv_def refs_ok_def)

text \<open>A worker takes a reference to object 7, which is then unlinked and being retired.\<close>

definition demo_run :: "epoch_sys" where
  "demo_run =
     goto 0 (Adv_test 7) (put_at 7 (Pending 0) (put_at 7 Removed (set_refs 0 {7}
       (put_at 7 Linked (snd (new_obj (\<lambda>_. 7) (goto 0 In_op (set_refs 0 {} (goto 0 (Ann_stored 0)
         (set_my_epoch 0 0 (goto 0 (Ann_read 0) (goto 0 Ann_loop (epoch_start 1 (\<lambda>_. 0) 0)))))))))))))"

lemma demo_run_reachable: "epoch_reachable 1 demo_run"
proof -
  let ?s0 = "epoch_start 1 (\<lambda>_. 0) 0"
  let ?s3 = "goto 0 (Ann_stored 0) (set_my_epoch 0 0 (goto 0 (Ann_read 0) (goto 0 Ann_loop ?s0)))"
  let ?s5 = "put_at 7 Linked (snd (new_obj (\<lambda>_. 7) (goto 0 In_op (set_refs 0 {} ?s3))))"
  let ?s7 = "put_at 7 Removed (set_refs 0 {7} ?s5)"
  have "estep 1 ?s0 (goto 0 Ann_loop ?s0)"
    by (rule begin_op) simp_all
  moreover have "estep 1 (goto 0 Ann_loop ?s0) (goto 0 (Ann_read 0) (goto 0 Ann_loop ?s0))"
    using read_epoch [of 0 1 "goto 0 Ann_loop ?s0"] by (simp add: get_current_def)
  moreover have "estep 1 (goto 0 (Ann_read 0) (goto 0 Ann_loop ?s0)) ?s3"
    by (rule store_epoch) simp_all
  moreover have "estep 1 ?s3 (goto 0 In_op (set_refs 0 {} ?s3))"
    by (rule confirm) (simp_all add: get_current_def)
  moreover have "estep 1 (goto 0 In_op (set_refs 0 {} ?s3)) ?s5"
    using link [of 0 1 "goto 0 In_op (set_refs 0 {} ?s3)" 7] by simp
  moreover have "estep 1 ?s5 (set_refs 0 {7} ?s5)"
    using obtain_ref [of 0 1 ?s5 7] by simp
  moreover have "estep 1 (set_refs 0 {7} ?s5) ?s7"
    by (rule unlink [where t = 0]) simp_all
  moreover have "estep 1 ?s7 demo_run"
    using call_retire [of 0 1 ?s7 7] by (simp add: demo_run_def)
  ultimately have "(estep 1)\<^sup>*\<^sup>* ?s0 demo_run"
    by (meson rtranclp.rtrancl_into_rtrancl rtranclp.rtrancl_refl)
  then show ?thesis unfolding epoch_reachable_def by blast
qed

lemma safe_reclamation_witness:
  "epoch_reachable 1 demo_run \<and> 7 \<in> refs demo_run 0 \<and> place_of demo_run 7 = Pending 0 \<and> 7 \<in> live demo_run"
  using safe_reclamation [OF demo_run_reachable, of 0 7] demo_run_reachable
  by (simp add: demo_run_def)

text \<open>C6: The epoch never runs away from a running operation: while an operation runs, the current
  epoch is the one it announced or the next.\<close>

theorem epoch_lag:
  assumes "epoch_reachable n s" "in_op (pc s t)"
  shows "last_announced s t \<le> current_epoch s \<and> current_epoch s \<le> last_announced s t + 1"
  using epoch_invD(2) [OF epoch_inv_reachable [OF assms(1)], of t] assms(2)
  by (simp add: announced_ok_def)

lemma epoch_lag_witness:
  "in_op (pc demo_run 0) \<and> last_announced demo_run 0 \<le> current_epoch demo_run \<and>
   current_epoch demo_run \<le> last_announced demo_run 0 + 1"
  using epoch_lag [OF demo_run_reachable, of 0] by (simp add: demo_run_def)

text \<open>C7: Retired objects are reclaimed, and not too early: an object that a worker retires is kept
  when the worker next moves its lists, and is given back when it moves them again, two
  epochs later.\<close>

theorem retired_object_freed:
  assumes "s1 = retire w [] [] now i p s"
    and "pools s2 i = pools s1 i" "pool_epoch (pools s1 i) + 1 < current_epoch s2"
    and "s3 = retire w [] [] now' i q s2"
    and "pools s4 i = pools s3 i" "current_epoch s2 + 1 < current_epoch s4"
    and "p \<in> live s2" "p \<notin> freed_by (old (pools s1 i))"
  shows "p \<in> live s3 \<and> p \<notin> live (retire w [] [] now'' i r s4)"
proof -
  have "\<lparr>link_value = p, link_skip = False\<rparr> \<in> set (current (pools s1 i))"
    by (simp add: assms(1) retire_lists)
  then have "p \<in> freed_by (current (pools s1 i))"
    by (force simp: freed_by_def)
  moreover have "old (pools s4 i) = current (pools s1 i)" "pool_epoch (pools s4 i) = current_epoch s2"
    using assms(2,3,5) by (simp_all add: assms(4) retire_lists)
  ultimately show ?thesis
    using assms by (simp add: retire_lists)
qed

lemma retired_object_freed_witness:
  "(let s = (mem_pool_init 1 (\<lambda>_. 0) 0)\<lparr>live := {5, 6, 7}\<rparr>;
        s1 = retire 1 [] [] 0 0 5 s; s2 = s1\<lparr>current_epoch := 2\<rparr>;
        s3 = retire 1 [] [] 0 0 6 s2; s4 = s3\<lparr>current_epoch := 4\<rparr>
    in 5 \<in> live s3 \<and> 5 \<notin> live (retire 1 [] [] 0 0 7 s4))"
proof -
  let ?s = "(mem_pool_init 1 (\<lambda>_. 0) 0)\<lparr>live := {5, 6, 7}\<rparr>"
  let ?s1 = "retire 1 [] [] 0 0 5 ?s" and ?s2 = "retire 1 [] [] 0 0 5 ?s\<lparr>current_epoch := 2\<rparr>"
  let ?s3 = "retire 1 [] [] 0 0 6 ?s2"
  show ?thesis
    unfolding Let_def
    by (rule retired_object_freed [of ?s1 1 0 0 5 ?s ?s2 ?s3 0 6])
      (simp_all add: retire_lists mem_pool_init_def freed_by_def)
qed

text \<open>\<open>announce\<close> ends with the worker's slot holding the epoch that is current when it returns;
  one round is enough when the epoch does not change, and each further round needs another
  change of the epoch.\<close>

theorem announce_current:
  assumes "\<And>i s. last_announced (env i s) wid = last_announced s wid"
    and "\<And>i s. current_epoch (env i s) = (if i \<in> changes then current_epoch s + 1 else current_epoch s)"
    and "finite changes" "card changes < fuel"
  shows "\<exists>s'. announce env wid fuel s = Some s' \<and> last_announced s' wid = current_epoch s'"
proof -
  have "\<exists>s'. announce env wid fuel s = Some s' \<and> last_announced s' wid = current_epoch s'"
    if "finite C" "card C < fuel" "\<And>i. i < 2 * fuel \<Longrightarrow> i \<in> changes \<Longrightarrow> i \<in> C" for C fuel
    using that
  proof (induction fuel arbitrary: s C)
    case (Suc fuel)
    let ?s1 = "set_my_epoch wid (get_current s) (env (2 * fuel + 1) s)"
    show ?case
    proof (cases "2 * fuel + 1 \<in> changes \<or> 2 * fuel \<in> changes")
      case True
      then obtain i where i: "i \<in> changes" "2 * fuel \<le> i" "i < 2 * Suc fuel" by auto
      then have "i \<in> C" using Suc.prems(3) by auto
      then have "card (C - {i}) < fuel" using Suc.prems(1,2)
        by (metis One_nat_def Suc_less_eq card_Suc_Diff1)
      with Suc.IH [of "C - {i}" "env (2 * fuel) ?s1"] Suc.prems i
      show ?thesis using assms(1,2) True by (auto simp: get_current_def Let_def)
    next
      case False
      with assms(1,2) show ?thesis by (auto simp: get_current_def Let_def)
    qed
  qed simp
  from this [of changes fuel] assms(3,4) show ?thesis by blast
qed

lemma announce_current_witness:
  "\<exists>s'. announce (\<lambda>i s. if i = 4 then s\<lparr>current_epoch := current_epoch s + 1\<rparr> else s) 0 3
      (mem_pool_init 2 (\<lambda>_. 0) 0) = Some s' \<and> last_announced s' 0 = current_epoch s'"
  by (rule announce_current [where changes = "{4}"]) simp_all

text \<open>A descriptor of an \<open>acquired_pool\<close> that no helper has acquired is given back at once when
  it is retired; one that was acquired is kept, and its flag is reset.\<close>

theorem acquired_pool_retire_keeps:
  assumes "p \<in> live s" "p \<notin> freed_by (old (pools s i))"
  shows "p \<in> live (acquired_pool_retire w [] [] now i p (acquired_pool_acquire p s)) \<and>
    (\<not> acquired s p \<longrightarrow> live (acquired_pool_retire w [] [] now i p s) = live s - {p})"
proof -
  let ?s = "acquired_pool_acquire p s"
  have "acquired ?s p" "pools ?s = pools s" "live ?s = live s" "current_epoch ?s = current_epoch s"
    by (simp_all add: acquired_pool_acquire_def)
  with assms show ?thesis by (auto simp: acquired_pool_retire_def retire_lists destruct_def)
qed

lemma acquired_pool_retire_keeps_witness:
  "(let s = epoch_state.extend ((mem_pool_init 1 (\<lambda>_. 0) 0)\<lparr>live := {5}\<rparr>) \<lparr>acquired = (\<lambda>_. False)\<rparr>
    in 5 \<in> live (acquired_pool_retire 1 [] [] 0 0 5 (acquired_pool_acquire 5 s)) \<and>
       live (acquired_pool_retire 1 [] [] 0 0 5 s) = {})"
  unfolding Let_def
  using acquired_pool_retire_keeps [of 5 "epoch_state.extend ((mem_pool_init 1 (\<lambda>_. 0) 0)\<lparr>live := {5}\<rparr>)
      \<lparr>acquired = (\<lambda>_. False)\<rparr>" 0 1 0]
  by (simp add: mem_pool_init_def epoch_state.defs freed_by_def)

end
