(* ===== verification/Flock_Types.thy ===== *)
theory Flock_Types
  imports Flock_Tagged Flock_Epoch
begin

text \<open>
  The types that user code under a lock works with, \<^verbatim>\<open>include/flock/lf_types.h\<close> and the
  version of them for blocking locks, \<^verbatim>\<open>include/flock/lock_types.h\<close>: atomic locations
  with logged loads and tagged stores, double-word locations, locations without the ABA
  problem, write-once locations, and the pool whose allocation and destruction are
  idempotent. The lemmas show that a store or an allocation that several helpers run
  takes effect once, and the round trip of the result that a lock leaves in the log.
\<close>

unbundle bit_operations_syntax

datatype flock_error = Assertion_failed | No_tag

section \<open>Tagged atomic locations\<close>

definition atomic_init :: "addr \<Rightarrow> u64 \<Rightarrow> fmem \<Rightarrow> fmem" where
  "atomic_init loc vv m = m\<lparr>cells := (cells m)(loc := tagged_init vv)\<rparr>"

definition atomic_get_val ::
  "(nat \<Rightarrow> log_mem \<Rightarrow> log_mem) \<Rightarrow> (log_mem \<Rightarrow> addr) \<Rightarrow> addr \<Rightarrow> fmem fstate \<Rightarrow> u64 \<times> fmem fstate"
where
  "atomic_get_val lenv alloc loc s =
     (let ((x, _), L', H') = commit_value lenv alloc (lg s) (cells (mem s) loc) (logs s)
      in (x, s\<lparr>lg := L', logs := H'\<rparr>))"

definition atomic_load ::
  "(nat \<Rightarrow> log_mem \<Rightarrow> log_mem) \<Rightarrow> (log_mem \<Rightarrow> addr) \<Rightarrow> addr \<Rightarrow> fmem fstate \<Rightarrow> u64 \<times> fmem fstate"
where
  "atomic_load lenv alloc loc s =
     (let (x, s') = atomic_get_val lenv alloc loc s in (tagged_value x, s'))"

text \<open>\<open>load_ni\<close>, \<open>read\<close> and \<open>read_snapshot\<close> read the location without the log.\<close>

definition atomic_read :: "addr \<Rightarrow> fmem fstate \<Rightarrow> u64" where
  "atomic_read loc s = tagged_value (cells (mem s) loc)"

definition atomic_store ::
  "nat \<Rightarrow> nat \<Rightarrow> (nat \<Rightarrow> fmem \<Rightarrow> fmem) \<Rightarrow> (nat \<Rightarrow> log_mem \<Rightarrow> log_mem) \<Rightarrow> (log_mem \<Rightarrow> addr)
   \<Rightarrow> addr \<Rightarrow> u64 \<Rightarrow> fmem fstate \<Rightarrow> fmem fstate option"
where
  "atomic_store workers wid menv lenv alloc loc vv s =
     (let (old_t, s1) = atomic_get_val lenv alloc loc s
      in map_option snd
           (tagged_cas workers wid (menv 0) (menv 1) (lenv 2) alloc loc old_t vv False s1))"

definition atomic_cas_ni ::
  "nat \<Rightarrow> nat \<Rightarrow> (nat \<Rightarrow> fmem \<Rightarrow> fmem) \<Rightarrow> (log_mem \<Rightarrow> log_mem) \<Rightarrow> (log_mem \<Rightarrow> addr)
   \<Rightarrow> addr \<Rightarrow> u64 \<Rightarrow> u64 \<Rightarrow> fmem fstate \<Rightarrow> flock_error + (bool \<times> fmem fstate)"
where
  "atomic_cas_ni workers wid menv lenv alloc loc old_v new_v s =
     (let old_t = cells (mem s) loc
      in if tagged_value old_t = old_v
         then case tagged_cas workers wid (menv 0) (menv 1) lenv alloc loc old_t new_v True s of
                None \<Rightarrow> Inl No_tag | Some r \<Rightarrow> Inr r
         else Inr (False, s))"

definition atomic_cas ::
  "nat \<Rightarrow> nat \<Rightarrow> (nat \<Rightarrow> fmem \<Rightarrow> fmem) \<Rightarrow> (log_mem \<Rightarrow> log_mem) \<Rightarrow> (log_mem \<Rightarrow> addr)
   \<Rightarrow> addr \<Rightarrow> u64 \<Rightarrow> u64 \<Rightarrow> fmem fstate \<Rightarrow> flock_error + (bool \<times> fmem fstate)"
where
  "atomic_cas workers wid menv lenv alloc loc old_v new_v s =
     (if is_empty (lg s) then atomic_cas_ni workers wid menv lenv alloc loc old_v new_v s
      else Inl Assertion_failed)"

definition atomic_cam ::
  "nat \<Rightarrow> nat \<Rightarrow> (nat \<Rightarrow> fmem \<Rightarrow> fmem) \<Rightarrow> (nat \<Rightarrow> log_mem \<Rightarrow> log_mem) \<Rightarrow> (log_mem \<Rightarrow> addr)
   \<Rightarrow> addr \<Rightarrow> u64 \<Rightarrow> u64 \<Rightarrow> fmem fstate \<Rightarrow> fmem fstate option"
where
  "atomic_cam workers wid menv lenv alloc loc oldv newv s =
     (let (old_t, s1) = atomic_get_val lenv alloc loc s
      in if tagged_value old_t = oldv
         then map_option snd
                (tagged_cas workers wid (menv 0) (menv 1) (lenv 2) alloc loc old_t newv False s1)
         else Some s1)"

section \<open>Double-word locations\<close>

text \<open>A counter beside the value, exchanged together; \<open>load\<close> uses the log that accepts zero.\<close>

record dcell =
  dcount :: u64
  dval :: u64

definition atomic_double_cam :: "addr \<Rightarrow> dcell \<Rightarrow> dcell \<Rightarrow> (addr \<Rightarrow> dcell) \<Rightarrow> (addr \<Rightarrow> dcell)" where
  "atomic_double_cam loc oldv newv m = (if m loc = oldv then m(loc := newv) else m)"

definition atomic_double_load ::
  "(nat \<Rightarrow> log_mem \<Rightarrow> log_mem) \<Rightarrow> (log_mem \<Rightarrow> addr) \<Rightarrow> addr \<Rightarrow> (addr \<Rightarrow> dcell) fstate
   \<Rightarrow> u64 \<times> (addr \<Rightarrow> dcell) fstate"
where
  "atomic_double_load lenv alloc loc s =
     (let ((x, _), L', H') = commit_value_safe lenv alloc (lg s) (dval (mem s loc)) (logs s)
      in (x, s\<lparr>lg := L', logs := H'\<rparr>))"

definition atomic_double_store ::
  "((addr \<Rightarrow> dcell) \<Rightarrow> (addr \<Rightarrow> dcell)) \<Rightarrow> (nat \<Rightarrow> log_mem \<Rightarrow> log_mem) \<Rightarrow> (log_mem \<Rightarrow> addr)
   \<Rightarrow> addr \<Rightarrow> u64 \<Rightarrow> (addr \<Rightarrow> dcell) fstate \<Rightarrow> (addr \<Rightarrow> dcell) fstate"
where
  "atomic_double_store menv lenv alloc loc newv s =
     (let ((cnt, _), L', H') = commit_value lenv alloc (lg s) (dcount (mem s loc)) (logs s)
      in snd (skip_if_done_no_log (lenv 2) alloc
           (\<lambda>t. let v = dval (mem t loc); m = menv (mem t)
                in t\<lparr>mem := atomic_double_cam loc \<lparr>dcount = cnt, dval = v\<rparr>
                              \<lparr>dcount = cnt + 1, dval = newv\<rparr> m\<rparr>)
           (s\<lparr>lg := L', logs := H'\<rparr>)))"

section \<open>Locations without the ABA problem, and write-once locations\<close>

definition set_bit63 :: u64 where
  "set_bit63 = push_bit 63 1"

definition log_value ::
  "(nat \<Rightarrow> log_mem \<Rightarrow> log_mem) \<Rightarrow> (log_mem \<Rightarrow> addr) \<Rightarrow> u64 \<Rightarrow> fmem fstate \<Rightarrow> u64 \<times> fmem fstate"
where
  "log_value lenv alloc v s =
     (let ((x, _), L', H') = commit_value lenv alloc (lg s) (v OR set_bit63) (logs s)
      in (x AND NOT set_bit63, s\<lparr>lg := L', logs := H'\<rparr>))"

definition aba_free_load ::
  "(nat \<Rightarrow> log_mem \<Rightarrow> log_mem) \<Rightarrow> (log_mem \<Rightarrow> addr) \<Rightarrow> addr \<Rightarrow> fmem fstate \<Rightarrow> u64 \<times> fmem fstate"
where
  "aba_free_load lenv alloc loc s = log_value lenv alloc (cells (mem s) loc) s"

definition exchange_cell :: "(fmem \<Rightarrow> fmem) \<Rightarrow> addr \<Rightarrow> u64 \<Rightarrow> u64 \<Rightarrow> fmem fstate \<Rightarrow> bool \<times> fmem fstate" where
  "exchange_cell menv loc old_v new_v s =
     (let (r, m) = compare_exchange loc old_v new_v (menv (mem s)) in (r, s\<lparr>mem := m\<rparr>))"

definition aba_free_store ::
  "(fmem \<Rightarrow> fmem) \<Rightarrow> (nat \<Rightarrow> log_mem \<Rightarrow> log_mem) \<Rightarrow> (log_mem \<Rightarrow> addr) \<Rightarrow> addr \<Rightarrow> u64
   \<Rightarrow> fmem fstate \<Rightarrow> fmem fstate"
where
  "aba_free_store menv lenv alloc loc vv s =
     (let old_v = cells (mem s) loc;
          (x, s1) = log_value lenv alloc old_v s
      in if x = old_v then snd (exchange_cell menv loc old_v vv s1) else s1)"

definition aba_free_cam ::
  "(fmem \<Rightarrow> fmem) \<Rightarrow> (nat \<Rightarrow> log_mem \<Rightarrow> log_mem) \<Rightarrow> (log_mem \<Rightarrow> addr) \<Rightarrow> addr \<Rightarrow> u64 \<Rightarrow> u64
   \<Rightarrow> fmem fstate \<Rightarrow> fmem fstate"
where
  "aba_free_cam menv lenv alloc loc expected new_v s =
     (let old_v = cells (mem s) loc
      in if old_v = expected
         then let (x, s1) = log_value lenv alloc old_v s
              in if x = old_v then snd (exchange_cell menv loc old_v new_v s1) else s1
         else s)"

text \<open>The operations of \<open>atomic_write_once\<close>, and of \<open>atomic_aba_free\<close> outside locks.\<close>

definition write_once_load ::
  "(nat \<Rightarrow> log_mem \<Rightarrow> log_mem) \<Rightarrow> (log_mem \<Rightarrow> addr) \<Rightarrow> addr \<Rightarrow> fmem fstate \<Rightarrow> u64 \<times> fmem fstate"
where
  "write_once_load lenv alloc loc s =
     (let ((x, _), L', H') = commit_value lenv alloc (lg s) (cells (mem s) loc OR set_bit63) (logs s)
      in (x AND NOT set_bit63, s\<lparr>lg := L', logs := H'\<rparr>))"

definition write_once_store :: "addr \<Rightarrow> u64 \<Rightarrow> fmem fstate \<Rightarrow> fmem fstate" where
  "write_once_store loc vv s = s\<lparr>mem := (mem s)\<lparr>cells := (cells (mem s))(loc := vv)\<rparr>\<rparr>"

definition write_once_cas_ni :: "(fmem \<Rightarrow> fmem) \<Rightarrow> addr \<Rightarrow> u64 \<Rightarrow> u64 \<Rightarrow> fmem fstate \<Rightarrow> bool \<times> fmem fstate" where
  "write_once_cas_ni menv loc exp_v new_v s = exchange_cell menv loc exp_v new_v s"

section \<open>The idempotent memory pool\<close>

text \<open>
  The pool below is \<open>mem_pool\<close>: \<open>palloc\<close> is where it finds storage, \<open>retire_obj\<close> stands for its
  \<open>retire\<close> with the worker, clock and hooks given. Pointers are committed as words.
\<close>

definition pool_new ::
  "('z epoch_state_scheme \<Rightarrow> addr) \<Rightarrow> 'z epoch_state_scheme fstate \<Rightarrow> addr \<times> 'z epoch_state_scheme fstate"
where
  "pool_new palloc s = (let (p, m) = new_obj palloc (mem s) in (p, s\<lparr>mem := m\<rparr>))"

definition pool_destruct :: "addr \<Rightarrow> 'z epoch_state_scheme fstate \<Rightarrow> unit \<times> 'z epoch_state_scheme fstate" where
  "pool_destruct p s = ((), s\<lparr>mem := destruct p (mem s)\<rparr>)"

definition new_obj_fl ::
  "(nat \<Rightarrow> log_mem \<Rightarrow> log_mem) \<Rightarrow> (log_mem \<Rightarrow> addr) \<Rightarrow> ('z epoch_state_scheme \<Rightarrow> addr)
   \<Rightarrow> 'z epoch_state_scheme fstate \<Rightarrow> (u64 \<times> bool) \<times> 'z epoch_state_scheme fstate"
where
  "new_obj_fl lenv alloc palloc s =
     (let (newv, s1) = with_log empty_Log (pool_new palloc) s;
          (r, L', H') = commit_value lenv alloc (lg s1) (of_nat newv) (logs s1);
          s2 = s1\<lparr>lg := L', logs := H'\<rparr>
      in (r, if \<not> snd r then snd (with_empty_log (pool_destruct newv) s2) else s2))"

definition memory_pool_new_obj ::
  "(nat \<Rightarrow> log_mem \<Rightarrow> log_mem) \<Rightarrow> (log_mem \<Rightarrow> addr) \<Rightarrow> ('z epoch_state_scheme \<Rightarrow> addr)
   \<Rightarrow> 'z epoch_state_scheme fstate \<Rightarrow> u64 \<times> 'z epoch_state_scheme fstate"
where
  "memory_pool_new_obj lenv alloc palloc s =
     (let ((p, _), s') = new_obj_fl lenv alloc palloc s in (p, s'))"

definition memory_pool_new_init ::
  "(nat \<Rightarrow> log_mem \<Rightarrow> log_mem) \<Rightarrow> (log_mem \<Rightarrow> addr) \<Rightarrow> ('z epoch_state_scheme \<Rightarrow> addr)
   \<Rightarrow> (addr \<Rightarrow> 'z epoch_state_scheme fstate \<Rightarrow> 'z epoch_state_scheme fstate)
   \<Rightarrow> 'z epoch_state_scheme fstate \<Rightarrow> u64 \<times> 'z epoch_state_scheme fstate"
where
  "memory_pool_new_init lenv alloc palloc f s =
     (let (newv, s1) = with_log empty_Log (\<lambda>t. let (x, t1) = pool_new palloc t in (x, f x t1)) s;
          (r, L', H') = commit_value lenv alloc (lg s1) (of_nat newv) (logs s1);
          s2 = s1\<lparr>lg := L', logs := H'\<rparr>
      in (fst r, if \<not> snd r then snd (with_empty_log (pool_destruct newv) s2) else s2))"

definition memory_pool_retire ::
  "bool \<Rightarrow> (addr \<Rightarrow> 'z epoch_state_scheme \<Rightarrow> 'z epoch_state_scheme) \<Rightarrow> addr
   \<Rightarrow> 'z epoch_state_scheme fstate \<Rightarrow> 'z epoch_state_scheme fstate"
where
  "memory_pool_retire helping retire_obj p s =
     (if \<not> helping
      then snd (with_empty_log (\<lambda>t. ((), t\<lparr>mem := retire_obj p (mem t)\<rparr>)) s) else s)"

definition memory_pool_retire_ni ::
  "(addr \<Rightarrow> 'z epoch_state_scheme \<Rightarrow> 'z epoch_state_scheme) \<Rightarrow> addr
   \<Rightarrow> 'z epoch_state_scheme fstate \<Rightarrow> 'z epoch_state_scheme fstate"
where
  "memory_pool_retire_ni retire_obj p s =
     snd (with_empty_log (\<lambda>t. ((), t\<lparr>mem := retire_obj p (mem t)\<rparr>)) s)"

definition memory_pool_destruct ::
  "(nat \<Rightarrow> log_mem \<Rightarrow> log_mem) \<Rightarrow> (log_mem \<Rightarrow> addr) \<Rightarrow> addr
   \<Rightarrow> 'z epoch_state_scheme fstate \<Rightarrow> 'z epoch_state_scheme fstate"
where
  "memory_pool_destruct lenv alloc p s =
     (let ((_, first), L', H') = commit_value_safe lenv alloc (lg s) (of_nat p) (logs s);
          s1 = s\<lparr>lg := L', logs := H'\<rparr>
      in if first then snd (with_empty_log (pool_destruct p) s1) else s1)"

definition memory_pool_destruct_ni ::
  "addr \<Rightarrow> 'z epoch_state_scheme fstate \<Rightarrow> 'z epoch_state_scheme fstate"
where
  "memory_pool_destruct_ni p s = snd (with_empty_log (pool_destruct p) s)"

section \<open>The result a lock leaves in the log\<close>

definition is_done_flag :: "u64 \<Rightarrow> bool" where
  "is_done_flag p \<longleftrightarrow> 0 < drop_bit 48 p"

definition tag_bool :: "bool \<Rightarrow> u64" where
  "tag_bool result = (if result then push_bit 48 1 else push_bit 48 2)"

definition extract_bool :: "u64 \<Rightarrow> bool" where
  "extract_bool p \<longleftrightarrow> drop_bit 48 p = 1"

definition tag_result :: "u64 option \<Rightarrow> u64" where
  "tag_result result = (case result of None \<Rightarrow> push_bit 48 2 | Some v \<Rightarrow> push_bit 48 1 OR v)"

definition extract_result :: "u64 \<Rightarrow> u64 option" where
  "extract_result p = (if extract_bool p then Some (p AND (push_bit 48 1 - 1)) else None)"

definition new_obj_acquired ::
  "(nat \<Rightarrow> log_mem \<Rightarrow> log_mem) \<Rightarrow> (log_mem \<Rightarrow> addr) \<Rightarrow> (acquired_state \<Rightarrow> addr)
   \<Rightarrow> acquired_state fstate \<Rightarrow> (u64 \<times> (addr \<times> nat) option) \<times> acquired_state fstate"
where
  "new_obj_acquired lenv alloc palloc s =
     (let ((ptr, fl), s1) = new_obj_fl lenv alloc palloc s
      in if is_empty (lg s1) then ((ptr, None), s1)
         else let l = current_entry (lg s1)
              in if \<not> fl \<and> \<not> is_done_flag ptr
                 then let s2 = s1\<lparr>mem := acquired_pool_acquire (unat ptr) (mem s1),
                                  logs := lenv 2 (logs s1)\<rparr>
                      in ((entry (logs s2) (fst l) (snd l), None), s2)
                 else ((ptr, if fl then Some l else None), s1))"

definition retire_acquired_result ::
  "(addr \<Rightarrow> acquired_state \<Rightarrow> acquired_state) \<Rightarrow> addr \<Rightarrow> (addr \<times> nat) option \<Rightarrow> u64 option
   \<Rightarrow> acquired_state fstate \<Rightarrow> acquired_state fstate"
where
  "retire_acquired_result retire_obj p le result s =
     (if is_empty (lg s) then s\<lparr>mem := retire_obj p (mem s)\<rparr>
      else case le of
          None \<Rightarrow> s
        | Some (a, i) \<Rightarrow>
            let s1 = s\<lparr>logs := set_entry (logs s) a i (tag_result result)\<rparr>
            in snd (with_empty_log (\<lambda>t. ((), t\<lparr>mem := retire_obj p (mem t)\<rparr>)) s1))"

text \<open>
  With blocking locks (\<^verbatim>\<open>lock_types.h\<close>) there is no log: the same operations are plain
  accesses.
\<close>

definition nohelp_load :: "addr \<Rightarrow> fmem \<Rightarrow> u64" where
  "nohelp_load loc m = cells m loc"

definition nohelp_store :: "addr \<Rightarrow> u64 \<Rightarrow> fmem \<Rightarrow> fmem" where
  "nohelp_store loc vv m = m\<lparr>cells := (cells m)(loc := vv)\<rparr>"

definition nohelp_cas :: "(fmem \<Rightarrow> fmem) \<Rightarrow> addr \<Rightarrow> u64 \<Rightarrow> u64 \<Rightarrow> fmem \<Rightarrow> bool \<times> fmem" where
  "nohelp_cas menv loc old_v new_v m =
     (if cells m loc = old_v then compare_exchange loc old_v new_v (menv m) else (False, m))"

definition nohelp_cam :: "(fmem \<Rightarrow> fmem) \<Rightarrow> addr \<Rightarrow> u64 \<Rightarrow> u64 \<Rightarrow> fmem \<Rightarrow> fmem" where
  "nohelp_cam menv loc old_v new_v m =
     (if cells m loc = old_v then snd (compare_exchange loc old_v new_v (menv m)) else m)"

definition nohelp_skip_if_done :: "('s \<Rightarrow> 's) \<Rightarrow> 's \<Rightarrow> bool \<times> 's" where
  "nohelp_skip_if_done f s = (True, f s)"

section \<open>Operations repeated by a later helper\<close>

lemma commit_value_repeat:
  assumes "alloc_ok alloc" "wf_log H1" "wf_cursor L H1" "llog.rely env1" "v1 \<noteq> uncommitted"
    and c1: "commit_value env1 alloc L v1 H1 = ((r1, b1), L1, F1)"
    and "wf_log H2" "log_le F1 H2" "llog.rely env2" "v2 \<noteq> uncommitted"
    and c2: "commit_value env2 alloc L v2 H2 = ((r2, b2), L2, F2)"
  shows "r2 = r1" "\<not> b2" "L2 = L1" "log_le H2 F2" "wf_log F2" "wf_log F1" "wf_cursor L1 F1" "log_le H1 F1"
    "r1 \<noteq> uncommitted"
proof -
  note o1 = commit_value_outcome(1) [OF assms(1-5) c1]
  have w1: "wf_log F1" "has_cell F1 L" "log_le H1 F1" "r1 \<noteq> uncommitted" "L1 = cursor_after F1 L"
    using o1 by (simp_all add: commit_outcome_def)
  obtain a i where ai: "cell_of F1 L = (a, i)" by (metis prod.exhaust)
  have cur: "wf_cursor L H2" using log_le_cell(1) [OF assms(8) w1(2)] by (simp add: has_cell_def)
  note o2 = commit_value_outcome(1) [OF assms(1,7) cur assms(9,10) c2]
  then have le2: "log_le H2 F2" "wf_log F2" by (simp_all add: commit_outcome_def)
  with assms(8) have "log_le F1 F2" using llog.le_trans by blast
  from commit_outcome_unique [OF o1 o2 this llog.le_refl] commit_value_late [OF assms(1,7,9) o1 assms(8) c2]
  show "r2 = r1" "\<not> b2" "L2 = L1" by simp_all
  show "log_le H2 F2" "wf_log F2" "wf_log F1" "log_le H1 F1" "r1 \<noteq> uncommitted" by (fact le2 w1)+
  show "wf_cursor L1 F1" using has_cell_live(3) [OF w1(1,2) ai] w1(5) by simp
qed

text \<open>After \<open>skip_if_done_no_log\<close> returns, its cell is not empty, whether it ran the code or not.\<close>

lemma skip_if_done_no_log_filled:
  assumes "alloc_ok alloc" "wf_log (logs s)" "wf_cursor (lg s) (logs s)"
    and "llog.evolves (logs s) (env (logs s))" "\<And>t. logs (f t) = logs t"
    and run: "skip_if_done_no_log env alloc f s = (rn, s')"
  shows "wf_log (logs s') \<and> log_le (logs s) (logs s') \<and> has_cell (logs s') (lg s) \<and>
    (case cell_of (logs s') (lg s) of (a, i) \<Rightarrow> entry (logs s') a i \<noteq> uncommitted)"
proof -
  obtain a i L1 H1 where ne: "next_entry env alloc (lg s) (logs s) = ((a, i), L1, H1)"
    by (metis prod.exhaust)
  note st = next_entry_step [OF assms(1-4) ne]
  then have c: "wf_log H1" "has_cell H1 (lg s)" "cell_of H1 (lg s) = (a, i)" "log_le (logs s) H1"
    by simp_all
  from run is_empty_cursor [OF assms(3,2)] ne assms(5)
  have "logs s' = set_entry H1 a i 1 \<and> entry H1 a i = uncommitted \<or>
      logs s' = H1 \<and> entry H1 a i \<noteq> uncommitted"
    by (auto simp: skip_if_done_no_log_def Let_def split: if_splits)
  with has_cell_live(2) [OF c(1-3)] c log_le_set_entry llog.le_trans show ?thesis
    by (auto simp: entry_set_entry)
qed

lemma skip_if_done_no_log_skips:
  assumes "alloc_ok alloc" "wf_log (logs s2)" "llog.evolves (logs s2) (env (logs s2))"
    and "wf_log F1" "has_cell F1 (lg s2)"
    and "case cell_of F1 (lg s2) of (a, i) \<Rightarrow> entry F1 a i \<noteq> uncommitted"
    and "log_le F1 (logs s2)"
  shows "\<exists>s2'. skip_if_done_no_log env alloc f s2 = (False, s2') \<and> mem s2' = mem s2"
proof -
  obtain a i L1 H1 where ne: "next_entry env alloc (lg s2) (logs s2) = ((a, i), L1, H1)"
    by (metis prod.exhaust)
  have cur: "wf_cursor (lg s2) (logs s2)"
    using log_le_cell(1) [OF assms(7,5)] by (simp add: has_cell_def)
  note st = next_entry_step [OF assms(1,2) cur assms(3) ne]
  then have "log_le (logs s2) H1" by simp
  then have le: "log_le F1 H1" using assms(7) llog.le_trans by blast
  have ai: "cell_of F1 (lg s2) = (a, i)" using st log_le_cell(2) [OF le assms(5)] by simp
  with assms(6) have "entry F1 a i \<noteq> uncommitted" by simp
  with log_le_entry [OF le assms(4,5) ai] have "entry H1 a i \<noteq> uncommitted" by simp
  then show ?thesis
    using is_empty_cursor [OF cur assms(2)] by (simp add: skip_if_done_no_log_def ne Let_def)
qed

lemma cas_tagged_filled:
  assumes "alloc_ok alloc" "wf_log (logs s)" "wf_cursor (lg s) (logs s)"
    and "llog.evolves (logs s) (lenv (logs s))"
    and run: "cas_tagged wid menv lenv alloc loc oldv newv False s = (r, s')"
  shows "wf_log (logs s') \<and> log_le (logs s) (logs s') \<and> has_cell (logs s') (lg s) \<and>
    (case cell_of (logs s') (lg s) of (a, i) \<Rightarrow> entry (logs s') a i \<noteq> uncommitted)"
proof -
  let ?m1 = "announce_set wid (add_tag oldv (of_nat loc)) (mem s)"
  obtain q m2 where ce: "compare_exchange loc oldv newv (menv ?m1) = (q, m2)" by (metis prod.exhaust)
  obtain rn t where sk: "skip_if_done_no_log lenv alloc (\<lambda>t. t\<lparr>mem := m2\<rparr>) (s\<lparr>mem := ?m1\<rparr>) = (rn, t)"
    by (metis prod.exhaust)
  have "logs s' = logs t"
    using run is_empty_cursor [OF assms(3,2)] by (auto simp: cas_tagged_def ce sk Let_def)
  with skip_if_done_no_log_filled [OF assms(1) _ _ _ _ sk] assms(2-4) show ?thesis by simp
qed

lemma cas_tagged_skips:
  assumes "alloc_ok alloc" "wf_log (logs s2)" "llog.evolves (logs s2) (lenv (logs s2))"
    and "wf_log F1" "has_cell F1 (lg s2)"
    and "case cell_of F1 (lg s2) of (a, i) \<Rightarrow> entry F1 a i \<noteq> uncommitted"
    and "log_le F1 (logs s2)"
  shows "\<exists>s2'. cas_tagged wid menv lenv alloc loc oldv newv False s2 = (False, s2') \<and>
    cells (mem s2') = cells (mem s2)"
proof -
  have cur: "wf_cursor (lg s2) (logs s2)"
    using log_le_cell(1) [OF assms(7,5)] by (simp add: has_cell_def)
  let ?n1 = "announce_set wid (add_tag oldv (of_nat loc)) (mem s2)"
  obtain r' n2 where ce: "compare_exchange loc oldv newv (menv ?n1) = (r', n2)" by (metis prod.exhaust)
  obtain u where "skip_if_done_no_log lenv alloc (\<lambda>t. t\<lparr>mem := n2\<rparr>) (s2\<lparr>mem := ?n1\<rparr>) = (False, u)"
    "mem u = ?n1"
    using skip_if_done_no_log_skips [OF assms(1), of "s2\<lparr>mem := ?n1\<rparr>" lenv F1] assms(2-7) by auto
  then show ?thesis
    using is_empty_cursor [OF cur assms(2)] by (simp add: cas_tagged_def ce Let_def)
qed

lemma atomic_get_val_eq:
  assumes "commit_value lenv alloc (lg s) (cells (mem s) loc) (logs s) = ((r, b), L, F)"
  shows "atomic_get_val lenv alloc loc s = (r, s\<lparr>lg := L, logs := F\<rparr>)"
  using assms by (simp add: atomic_get_val_def)

text \<open>A store inside a lock takes effect once: when a helper has completed a store, any helper
  that reaches the same store later leaves every location as it is, whatever has been
  stored there since.\<close>

theorem atomic_store_once:
  assumes "alloc_ok alloc" "llog.rely lenv1" "llog.rely lenv2" "Suc workers < 32767"
    and "wf_log (logs s1)" "wf_cursor (lg s1) (logs s1)" "cells (mem s1) loc \<noteq> uncommitted"
    and "atomic_store workers w1 menv1 lenv1 alloc loc v1 s1 = Some s1'"
    and "lg s2 = lg s1" "wf_log (logs s2)" "log_le (logs s1') (logs s2)"
    and "cells (mem s2) loc \<noteq> uncommitted"
  shows "\<exists>s2'. atomic_store workers w2 menv2 lenv2 alloc loc v2 s2 = Some s2' \<and>
    cells (mem s2') = cells (mem s2)"
proof -
  obtain r1 b1 L1 F1 where c1: "commit_value lenv1 alloc (lg s1) (cells (mem s1) loc) (logs s1) = ((r1, b1), L1, F1)"
    by (metis prod.exhaust)
  obtain r2 b2 L2 F2 where c2: "commit_value lenv2 alloc (lg s1) (cells (mem s2) loc) (logs s2) = ((r2, b2), L2, F2)"
    by (metis prod.exhaust)
  let ?t1 = "s1\<lparr>lg := L1, logs := F1\<rparr>"
  obtain n1 r where cas1: "cas_tagged w1 (menv1 1) (lenv1 2) alloc loc r1 n1 False ?t1 = (r, s1')"
    using assms(8) by (auto simp: atomic_store_def atomic_get_val_eq [OF c1] tagged_cas_def split: option.splits)
  have w: "wf_log F1" "wf_cursor L1 F1" 
    using commit_value_outcome(1) [OF assms(1,5,6,2,7) c1] has_cell_live(3)
    by (auto simp: commit_outcome_def)
  have f: "wf_log (logs s1')" "log_le F1 (logs s1')" "has_cell (logs s1') L1"
    "case cell_of (logs s1') L1 of (a, i) \<Rightarrow> entry (logs s1') a i \<noteq> uncommitted"
    using cas_tagged_filled [OF assms(1) _ _ _ cas1] w llog.relyD [OF assms(2)] by simp_all
  from f(2) assms(11) have "log_le F1 (logs s2)" using llog.le_trans by blast
  note rep = commit_value_repeat [OF assms(1,5,6,2,7) c1 assms(10) this assms(3,12) c2]
  let ?t2 = "s2\<lparr>lg := L1, logs := F2\<rparr>"
  obtain n2 where n2: "tagged_next (Suc workers) r1 v2 (of_nat loc)
      (announce_scan workers (mem ?t2)) (announce_scan workers (menv2 0 (mem ?t2))) = Some n2"
    using tagged_next_total [of "announce_scan workers (menv2 0 (mem ?t2))" "Suc workers" r1 v2 "of_nat loc"
        "announce_scan workers (mem ?t2)"] assms(4)
    by (auto simp: announce_scan_def)
  have "log_le (logs s1') F2" using assms(11) rep(4) llog.le_trans by blast
  then obtain s2' where "cas_tagged w2 (menv2 1) (lenv2 2) alloc loc r1 n2 False ?t2 = (False, s2')"
    "cells (mem s2') = cells (mem s2)"
    using cas_tagged_skips [OF assms(1), of ?t2 "lenv2 2" "logs s1'" w2 "menv2 1" loc r1 n2] rep f
      llog.relyD [OF assms(3)] by auto
  then show ?thesis
    using n2 c2 rep(1,3) assms(9) by (simp add: atomic_store_def atomic_get_val_def tagged_cas_def)
qed

text \<open>The second helper reads the old word again, stores 9, and leaves the location alone.\<close>

lemma atomic_store_once_witness:
  "\<exists>s1 s2. atomic_store 0 0 (\<lambda>_ m. m) (\<lambda>_ H. H) demo_alloc 64 7 demo_fstate = Some s1 \<and>
     atomic_store 0 1 (\<lambda>_ m. m) (\<lambda>_ H. H) demo_alloc 64 9 (demo_fstate\<lparr>logs := logs s1\<rparr>) = Some s2 \<and>
     cells (mem s2) = cells (mem demo_fstate)"
proof -
  let ?w = "tagged_init 5"
  obtain n where n: "tagged_next (Suc 0) ?w 7 (of_nat 64) [] [] = Some n"
    using tagged_next_total [of "[]" "Suc 0" ?w 7 "of_nat 64" "[]"] by auto
  have w0: "?w \<noteq> 0" by (simp add: tagged_init_def cnt_bit_def tag_bits_def)
  obtain s1 where s1: "atomic_store 0 0 (\<lambda>_ m. m) (\<lambda>_ H. H) demo_alloc 64 7 demo_fstate = Some s1"
    and l1: "logs s1 = set_entry (set_entry demo_mem 1 0 ?w) 1 1 1"
    using n by (auto simp: atomic_store_def atomic_get_val_def tagged_cas_def cas_tagged_def
        skip_if_done_no_log_def compare_exchange_def announce_set_def announce_clear_def
        announce_scan_def demo_fstate_def log_eval)
  have wf: "wf_log (logs demo_fstate)" "wf_cursor (lg demo_fstate) (logs demo_fstate)"
    using demo_mem_wf by (simp_all add: demo_fstate_def)
  have "\<exists>s2. atomic_store 0 1 (\<lambda>_ m. m) (\<lambda>_ H. H) demo_alloc 64 9 (demo_fstate\<lparr>logs := logs s1\<rparr>) = Some s2 \<and>
     cells (mem s2) = cells (mem (demo_fstate\<lparr>logs := logs s1\<rparr>))"
    by (rule atomic_store_once [OF demo_alloc_ok _ _ _ wf _ s1])
      (use w0 demo_mem_wf in \<open>simp_all add: l1 llog.le_refl\<close>, simp_all add: demo_fstate_def)
  with s1 show ?thesis by auto
qed

text \<open>Helpers that run the same allocation get the same object, and a helper that comes later
  leaves nothing behind: the object it had to create before it could look at the log is
  given back.\<close>

theorem new_obj_helpers:
  assumes "alloc_ok alloc" "llog.rely lenv1" "llog.rely lenv2"
    and "wf_log (logs s1)" "wf_cursor (lg s1) (logs s1)"
    and "new_obj_fl lenv1 alloc palloc1 s1 = ((p1, b1), s1')"
    and "lg s2 = lg s1" "wf_log (logs s2)" "log_le (logs s1') (logs s2)"
    and "new_obj_fl lenv2 alloc palloc2 s2 = ((p2, b2), s2')"
    and "0 < palloc1 (mem s1)" "palloc1 (mem s1) < 2 ^ 48"
    and "0 < palloc2 (mem s2)" "palloc2 (mem s2) < 2 ^ 48" "palloc2 (mem s2) \<notin> live (mem s2)"
  shows "p2 = p1 \<and> \<not> b2 \<and> live (mem s2') = live (mem s2) \<and> lg s2' = lg s1'"
proof -
  define q1 where "q1 = palloc1 (mem s1)"
  define q2 where "q2 = palloc2 (mem s2)"
  obtain r1 c1 L1 F1 where c1: "commit_value lenv1 alloc (lg s1) (of_nat q1) (logs s1) = ((r1, c1), L1, F1)"
    by (metis prod.exhaust)
  obtain r2 c2 L2 F2 where c2: "commit_value lenv2 alloc (lg s1) (of_nat q2) (logs s2) = ((r2, c2), L2, F2)"
    by (metis prod.exhaust)
  have e1: "p1 = r1" "logs s1' = F1" "lg s1' = L1"
    using assms(6) c1 by (auto simp: new_obj_fl_def with_log_def with_empty_log_def pool_new_def
        pool_destruct_def new_obj_def Let_def q1_def split: if_splits)
  have n1: "(of_nat q1 :: u64) \<noteq> 0" and n2: "(of_nat q2 :: u64) \<noteq> 0"
    using of_addr_nonzero assms(11-14) by (simp_all add: q1_def q2_def)
  have "log_le F1 (logs s2)" using assms(9) e1 by simp
  note rep = commit_value_repeat [OF assms(1,4,5,2) n1 c1 assms(8) this assms(3) n2 c2]
  have "p2 = r2 \<and> b2 = c2 \<and> lg s2' = L2 \<and> (\<not> c2 \<longrightarrow> live (mem s2') = insert q2 (live (mem s2)) - {q2})"
    using assms(10) c2 assms(7) by (auto simp: new_obj_fl_def with_log_def with_empty_log_def pool_new_def
        pool_destruct_def new_obj_def destruct_def Let_def q2_def split: if_splits)
  with rep e1 assms(15) show ?thesis by (auto simp: q2_def)
qed

lemma new_obj_helpers_witness:
  "(let s1 = \<lparr>lg = \<lparr>vals = 1, count = 0\<rparr>, logs = demo_mem, mem = mem_pool_init 1 (\<lambda>_. 0) 0\<rparr>
    in case new_obj_fl (\<lambda>_ H. H) demo_alloc (\<lambda>_. 64) s1 of ((p1, b1), s1') \<Rightarrow>
      (case new_obj_fl (\<lambda>_ H. H) demo_alloc (\<lambda>_. 128) (s1'\<lparr>lg := lg s1\<rparr>) of ((p2, b2), s2') \<Rightarrow>
         p2 = p1 \<and> \<not> b2 \<and> live (mem s2') = live (mem s1')))"
proof -
  let ?s1 = "\<lparr>lg = \<lparr>vals = 1, count = 0\<rparr>, logs = demo_mem, mem = mem_pool_init 1 (\<lambda>_. 0) 0\<rparr>"
  obtain p1 b1 s1' where n1: "new_obj_fl (\<lambda>_ H. H) demo_alloc (\<lambda>_. 64) ?s1 = ((p1, b1), s1')"
    by (metis prod.exhaust)
  obtain p2 b2 s2' where n2: "new_obj_fl (\<lambda>_ H. H) demo_alloc (\<lambda>_. 128) (s1'\<lparr>lg := lg ?s1\<rparr>) = ((p2, b2), s2')"
    by (metis prod.exhaust)
  have l1: "logs s1' = set_entry demo_mem 1 0 64" "live (mem s1') = {64}"
    using n1 by (auto simp: new_obj_fl_def with_log_def pool_new_def new_obj_def log_eval mem_pool_init_def)
  have "p2 = p1 \<and> \<not> b2 \<and> live (mem s2') = live (mem (s1'\<lparr>lg := lg ?s1\<rparr>)) \<and> lg s2' = lg s1'"
    by (rule new_obj_helpers [OF demo_alloc_ok _ _ _ _ n1 _ _ _ n2])
      (use demo_mem_wf in \<open>simp_all add: l1 llog.le_refl\<close>)
  with n1 n2 show ?thesis by (simp add: Let_def)
qed

section \<open>Results in the log\<close>

lemma drop_bit_small:
  assumes "unat (v :: u64) < 2 ^ 48"
  shows "drop_bit 48 v = 0"
  by (rule bit_word_eqI) (auto simp: bit_drop_bit_eq dest: small_word_bits [OF assms])

text \<open>C8: The result of a thunk survives the word that replaces the descriptor in the log: it is
  recognised as finished, no pointer is, and extracting gives the optional result back.\<close>

theorem result_roundtrip:
  assumes "\<And>v. r = Some v \<Longrightarrow> unat v < 2 ^ 48" "unat p < 2 ^ 48"
  shows "extract_result (tag_result r) = r \<and> is_done_flag (tag_result r) \<and> \<not> is_done_flag p \<and>
    tag_result r \<noteq> uncommitted \<and> extract_bool (tag_bool b) = b"
proof -
  have p: "drop_bit 48 p = 0" by (rule drop_bit_small [OF assms(2)])
  have d: "is_done_flag (tag_result r)" "extract_bool (tag_result r) \<longleftrightarrow> r \<noteq> None"
    using drop_bit_small [OF assms(1)]
    by (auto simp: is_done_flag_def extract_bool_def tag_result_def split: option.splits)
  have "(set_bit48 OR v) AND mask 48 = v" if "r = Some v" for v
    by (rule bit_word_eqI)
      (auto simp: bit_and_iff bit_or_iff bit_mask_iff bit_set_bit48 dest: small_word_bits [OF assms(1) [OF that]])
  then have "extract_result (tag_result r) = r"
    using d by (auto simp: extract_result_def mask_eq_exp_minus_1 tag_result_def set_bit48_def split: option.splits)
  moreover have "tag_result r \<noteq> 0" using d(1) by (auto simp: is_done_flag_def)
  moreover have "extract_bool (tag_bool b) = b" by (simp add: extract_bool_def tag_bool_def)
  ultimately show ?thesis using d(1) p by (simp add: is_done_flag_def)
qed

lemma result_roundtrip_witness:
  "extract_result (tag_result (Some 41)) = Some 41 \<and> is_done_flag (tag_result (Some 41)) \<and>
   \<not> is_done_flag 4096"
  using result_roundtrip [of "Some 41" 4096 True] by simp

section \<open>Locations without the ABA problem\<close>

text \<open>Inside a lock, a conditional store on an \<open>atomic_aba_free\<close> location uses a log entry only
  if it finds the expected value. A helper that arrives after the store was done finds the
  new value and does not move its cursor, so the two helpers are at different positions of
  the log from there on.\<close>

theorem aba_free_cam_cursor:
  "(let s1 = demo_fstate\<lparr>mem := \<lparr>cells = (\<lambda>_. 5), announcements = (\<lambda>_. 0)\<rparr>\<rparr>;
        s1' = aba_free_cam (\<lambda>m. m) (\<lambda>_ H. H) demo_alloc 64 5 6 s1;
        s2 = s1'\<lparr>lg := lg s1\<rparr>;
        s2' = aba_free_cam (\<lambda>m. m) (\<lambda>_ H. H) demo_alloc 64 5 6 s2
    in cells (mem s1') 64 = 6 \<and> count (lg s1') = 1 \<and> count (lg s2') = 0)"
  by (simp add: aba_free_cam_def log_value_def exchange_cell_def compare_exchange_def
      demo_fstate_def log_eval set_bit63_def)

end
