(* ===== verification/Flock_Spin_Lock.thy ===== *)
theory Flock_Spin_Lock
  imports VL_Prelude
begin

text \<open>
  The blocking lock, \<^verbatim>\<open>include/flock/spin_lock.h\<close>: a word that counts how often the lock
  was taken and released (odd when locked) and names the thread that holds it, so that the
  holder may take it again. The theory models the word's fields, each routine with the
  interference of other threads between its accesses, and a step relation of any number
  of threads that contend for one lock, for which mutual exclusion is shown.
\<close>

unbundle bit_operations_syntax

section \<open>The lock word\<close>

type_synonym lock_entry = u64

definition le_is_locked :: "lock_entry \<Rightarrow> bool" where
  "le_is_locked le \<longleftrightarrow> le mod 2 = 1"

definition get_count :: "lock_entry \<Rightarrow> u64" where
  "get_count le = le AND (push_bit 32 1 - 1)"

definition take_lock :: "nat \<Rightarrow> lock_entry \<Rightarrow> lock_entry" where
  "take_lock current_id le = push_bit 32 (of_nat current_id + 1) OR (get_count le + 1)"

definition release_lock :: "lock_entry \<Rightarrow> lock_entry" where
  "release_lock le = get_count le + 1"

definition get_procid :: "lock_entry \<Rightarrow> u64" where
  "get_procid le = drop_bit 32 le AND (push_bit 16 1 - 1)"

definition le_is_self_locked :: "nat \<Rightarrow> lock_entry \<Rightarrow> bool" where
  "le_is_self_locked current_id le \<longleftrightarrow> of_nat current_id + 1 = get_procid le"

section \<open>Operations\<close>

record 'm lstate =
  lck :: lock_entry
  shared :: 'm

definition sl_is_locked :: "'m lstate \<Rightarrow> bool" where
  "sl_is_locked s = le_is_locked (lck s)"

definition sl_count :: "'m lstate \<Rightarrow> bool" where
  "sl_count s \<longleftrightarrow> get_count (lck s) \<noteq> 0"

definition sl_is_self_locked :: "nat \<Rightarrow> 'm lstate \<Rightarrow> bool" where
  "sl_is_self_locked me s = le_is_self_locked me (lck s)"

definition unchanged :: "lock_entry \<Rightarrow> 'm lstate \<Rightarrow> bool" where
  "unchanged le s \<longleftrightarrow> le = lck s"

text \<open>The loops take the number of rounds the caller is ready to wait as fuel.\<close>

fun wait_lock :: "(nat \<Rightarrow> 'm lstate \<Rightarrow> 'm lstate) \<Rightarrow> nat \<Rightarrow> nat \<Rightarrow> 'm lstate \<Rightarrow> 'm lstate option" where
  "wait_lock env me 0 s = None"
| "wait_lock env me (Suc fuel) s =
     (if le_is_locked (lck s) \<and> \<not> le_is_self_locked me (lck s)
      then wait_lock env me fuel (env fuel s) else Some s)"

definition lock_exchange :: "lock_entry \<Rightarrow> lock_entry \<Rightarrow> 'm lstate \<Rightarrow> bool \<times> 'm lstate" where
  "lock_exchange cur newl s = (if lck s = cur then (True, s\<lparr>lck := newl\<rparr>) else (False, s))"

text \<open>
  \<open>try_lock_result\<close> with the thunk \<open>f\<close>; \<open>keep\<close> says that the caller passed a \<open>no_release\<close> flag,
  whose final value is the last component.
\<close>

definition try_lock_result ::
  "(nat \<Rightarrow> 'm lstate \<Rightarrow> 'm lstate) \<Rightarrow> nat \<Rightarrow> ('m lstate \<Rightarrow> 'r \<times> 'm lstate) \<Rightarrow> bool \<Rightarrow> 'm lstate
   \<Rightarrow> 'r option \<times> 'm lstate \<times> bool"
where
  "try_lock_result env me f keep s =
     (let cur = lck s
      in if \<not> le_is_locked cur
         then let newl = take_lock me cur;
                  (ok, s1) = lock_exchange cur newl (env 0 s)
              in if ok
                 then let (result, s2) = f s1
                      in if \<not> keep
                         then (Some result,
                               if le_is_self_locked me (lck s2) then s2\<lparr>lck := release_lock newl\<rparr> else s2,
                               False)
                         else (Some result, s2, True)
                 else (None, s1, False)
         else if le_is_self_locked me cur
              then let (result, s2) = f s in (Some result, s2, False)
              else (None, s, False))"

definition try_lock_no_unlock :: "('m lstate \<Rightarrow> 'm lstate) \<Rightarrow> nat \<Rightarrow> 'm lstate \<Rightarrow> bool \<times> 'm lstate" where
  "try_lock_no_unlock env me s =
     (let cur = lck s
      in if \<not> le_is_locked cur then lock_exchange cur (take_lock me cur) (env s)
         else if le_is_self_locked me cur then (True, s) else (False, s))"

fun lock_no_unlock :: "(nat \<Rightarrow> 'm lstate \<Rightarrow> 'm lstate) \<Rightarrow> nat \<Rightarrow> nat \<Rightarrow> 'm lstate \<Rightarrow> 'm lstate option" where
  "lock_no_unlock env me 0 s = None"
| "lock_no_unlock env me (Suc fuel) s =
     (let (ok, s1) = try_lock_no_unlock (env (2 * fuel + 1)) me s
      in if ok then Some s1 else lock_no_unlock env me fuel (env (2 * fuel) s1))"

definition unlock :: "nat \<Rightarrow> 'm lstate \<Rightarrow> 'm lstate" where
  "unlock me s = (if le_is_self_locked me (lck s) then s\<lparr>lck := release_lock (lck s)\<rparr> else s)"

definition try_lock ::
  "(nat \<Rightarrow> 'm lstate \<Rightarrow> 'm lstate) \<Rightarrow> nat \<Rightarrow> ('m lstate \<Rightarrow> bool \<times> 'm lstate) \<Rightarrow> 'm lstate \<Rightarrow> bool \<times> 'm lstate"
where
  "try_lock env me f s =
     (let (result, s', _) = try_lock_result env me f False s
      in (case result of Some v \<Rightarrow> v | None \<Rightarrow> False, s'))"

fun with_lock ::
  "(nat \<Rightarrow> 'm lstate \<Rightarrow> 'm lstate) \<Rightarrow> nat \<Rightarrow> nat \<Rightarrow> ('m lstate \<Rightarrow> 'r \<times> 'm lstate) \<Rightarrow> 'm lstate
   \<Rightarrow> ('r \<times> 'm lstate) option"
where
  "with_lock env me 0 f s = None"
| "with_lock env me (Suc fuel) f s =
     (let (result, s', _) = try_lock_result (\<lambda>_. env (2 * fuel + 1)) me f False s
      in case result of Some v \<Rightarrow> Some (v, s') | None \<Rightarrow> with_lock env me fuel f (env (2 * fuel) s'))"

section \<open>Fields of the lock word\<close>

lemma le_is_locked_odd: "le_is_locked le \<longleftrightarrow> odd (unat le)"
proof -
  have "le mod 2 = 1 \<longleftrightarrow> unat (le mod 2) = 1" by (metis unat_1 word_unat_eq_iff)
  also have "\<dots> \<longleftrightarrow> unat le mod 2 = 1" by (simp add: unat_mod)
  finally show ?thesis by (simp add: le_is_locked_def odd_iff_mod_2_eq_one)
qed

lemma unat_get_count: "unat (get_count le) = unat le mod 2 ^ 32"
proof -
  have "get_count le = take_bit 32 le"
    by (simp add: get_count_def take_bit_eq_mask mask_eq_exp_minus_1)
  then show ?thesis by (simp only: unat_take_bit_mod)
qed

lemma unat_get_procid: "unat (get_procid le) = unat le div 2 ^ 32 mod 2 ^ 16"
proof -
  have "get_procid le = take_bit 16 (drop_bit 32 le)"
    by (simp add: get_procid_def take_bit_eq_mask mask_eq_exp_minus_1)
  then have "unat (get_procid le) = drop_bit 32 (unat le) mod 2 ^ 16"
    by (simp only: unat_take_bit_mod unat_drop_bit_eq)
  then show ?thesis by (simp only: drop_bit_eq_div)
qed

lemma unat_count_succ: "unat (get_count le + 1) = unat le mod 2 ^ 32 + 1"
proof -
  have "unat le mod 2 ^ 32 < 2 ^ 32" by simp
  then have "unat (get_count le) + 1 < 2 ^ LENGTH(64)" by (simp add: unat_get_count)
  then show ?thesis by (simp add: unat_word_ariths unat_get_count)
qed

lemma unat_release_lock: "unat (release_lock le) = unat le mod 2 ^ 32 + 1"
  by (simp only: release_lock_def unat_count_succ)

lemma even_succ_below: "even m \<Longrightarrow> m < 2 ^ 32 \<Longrightarrow> m + 1 < (2 ^ 32 :: nat)"
  by simp presburger

lemma unat_take_lock:
  assumes "me < 2 ^ 16 - 1" "\<not> le_is_locked le"
  shows "unat (take_lock me le) = (me + 1) * 2 ^ 32 + (unat le mod 2 ^ 32 + 1)"
proof -
  let ?c = "get_count le + 1" and ?p = "of_nat me + 1 :: u64"
  have even: "even (unat le mod 2 ^ 32)"
    using assms(2) by (simp add: le_is_locked_odd dvd_mod_iff)
  moreover have "unat le mod 2 ^ 32 < 2 ^ 32" by simp
  ultimately have "unat le mod 2 ^ 32 + 1 < 2 ^ 32"
    using even_succ_below [of "unat le mod 2 ^ 32"] by blast
  then have c: "unat ?c < 2 ^ 32" by (simp only: unat_count_succ)
  have "unat (of_nat (me + 1) :: u64) = me + 1"
    by (rule unat_of_nat_small) (use assms(1) in simp)
  then have p: "unat ?p = me + 1" by (simp only: of_nat_add of_nat_1)
  have "push_bit 32 ?p OR ?c = push_bit 32 ?p + ?c"
    by (rule disjunctive_add_eq_or [symmetric], rule bit_word_eqI)
      (auto simp: bit_and_iff bit_push_bit_iff dest: small_word_bits [OF c])
  moreover have "unat (push_bit 32 ?p) = (me + 1) * 2 ^ 32"
    using p assms(1) by (simp only: push_bit_eq_mult unat_word_ariths) simp
  moreover have "(me + 1) * 2 ^ 32 + unat ?c < 2 ^ 64"
    using c assms(1) by simp
  ultimately have "unat (push_bit 32 ?p OR ?c) = (me + 1) * 2 ^ 32 + unat ?c"
    by (simp add: unat_word_ariths)
  then show ?thesis by (simp only: take_lock_def unat_count_succ)
qed

lemma taken_fields:
  assumes "me < 2 ^ 16 - 1" "\<not> le_is_locked le"
  shows "le_is_locked (take_lock me le)" "get_procid (take_lock me le) = of_nat me + 1"
    "get_count (take_lock me le) = get_count le + 1"
proof -
  let ?m = "unat le mod 2 ^ 32"
  have even: "even ?m" using assms(2) by (simp add: le_is_locked_odd dvd_mod_iff)
  have lt: "?m + 1 < 2 ^ 32" by (rule even_succ_below [OF even]) simp
  note u = unat_take_lock [OF assms]
  show "le_is_locked (take_lock me le)" using even by (simp add: le_is_locked_odd u)
  have "unat (of_nat (me + 1) :: u64) = me + 1"
    by (rule unat_of_nat_small) (use assms(1) in simp)
  then have p: "unat (of_nat me + 1 :: u64) = me + 1" by (simp only: of_nat_add of_nat_1)
  have "unat (get_procid (take_lock me le)) = me + 1"
    unfolding unat_get_procid u using lt assms(1) by simp
  then show "get_procid (take_lock me le) = of_nat me + 1"
    using p by (metis word_unat_eq_iff)
  have "unat (get_count (take_lock me le)) = ?m + 1"
    unfolding unat_get_count u by (simp only: mod_mult_self3 mod_less [OF lt])
  then show "get_count (take_lock me le) = get_count le + 1"
    using unat_count_succ [of le] by (metis word_unat_eq_iff)
qed

lemma take_lock_self:
  assumes "me < 2 ^ 16 - 1" "other < 2 ^ 16 - 1" "\<not> le_is_locked le"
  shows "le_is_self_locked other (take_lock me le) \<longleftrightarrow> other = me"
proof -
  have "unat (of_nat (k + 1) :: u64) = k + 1" if "k < 2 ^ 16 - 1" for k
    by (rule unat_of_nat_small) (use that in simp)
  then have "(of_nat (other + 1) :: u64) = of_nat (me + 1) \<longleftrightarrow> other = me"
    using assms(1,2) by (metis add_right_cancel)
  then show ?thesis
    by (simp add: le_is_self_locked_def taken_fields(2) [OF assms(1,3)] add.commute)
qed

lemma released_fields:
  assumes "le_is_locked le" "get_count le \<noteq> push_bit 32 1 - 1"
  shows "\<not> le_is_locked (release_lock le)" "get_procid (release_lock le) = 0"
    "get_count (release_lock le) = get_count le + 1"
proof -
  let ?m = "unat le mod 2 ^ 32"
  have odd: "odd ?m" using assms(1) by (simp add: le_is_locked_odd dvd_mod_iff)
  have "?m \<noteq> 2 ^ 32 - 1"
    using assms(2) unat_get_count [of le] by (auto simp: word_unat_eq_iff)
  moreover have "?m < 2 ^ 32" by simp
  ultimately have lt: "?m + 1 < 2 ^ 32" by linarith
  show "\<not> le_is_locked (release_lock le)" using odd by (simp add: le_is_locked_odd unat_release_lock)
  have "unat (get_procid (release_lock le)) = 0"
    unfolding unat_get_procid unat_release_lock using lt by simp
  then show "get_procid (release_lock le) = 0" by (metis unat_0 word_unat_eq_iff)
  have "unat (get_count (release_lock le)) = ?m + 1"
    unfolding unat_get_count unat_release_lock using lt by simp
  then show "get_count (release_lock le) = get_count le + 1"
    using unat_count_succ [of le] by (metis word_unat_eq_iff)
qed

section \<open>Threads contending for one lock\<close>

text \<open>
  The control point of a thread in \<open>try_lock_result\<close>: before it, after reading an unlocked
  word, running its thunk with the lock (nested in \<open>k\<close> further calls by the same thread),
  running it after an early \<open>unlock\<close>, or between the test at the end and the release.
\<close>

datatype lpc = Outside | Read_free lock_entry | Holding lock_entry nat | Released lock_entry | Releasing lock_entry

record lock_sys =
  word :: lock_entry
  lpc_of :: "nat \<Rightarrow> lpc"

definition lgoto :: "nat \<Rightarrow> lpc \<Rightarrow> lock_sys \<Rightarrow> lock_sys" where
  "lgoto t c s = s\<lparr>lpc_of := (lpc_of s)(t := c)\<rparr>"

definition set_word :: "lock_entry \<Rightarrow> lock_sys \<Rightarrow> lock_sys" where
  "set_word w s = s\<lparr>word := w\<rparr>"

text \<open>
  Steps of \<open>n\<close> threads, each labelled with the number of times it takes the lock: 1 for a
  successful compare-and-swap of a free word, and 0 for every other step. Nothing bounds the count
  of the word.
\<close>

inductive lstep :: "nat \<Rightarrow> nat \<Rightarrow> lock_sys \<Rightarrow> lock_sys \<Rightarrow> bool" for n :: nat where
  read_free: "t < n \<Longrightarrow> lpc_of s t = Outside \<Longrightarrow> \<not> le_is_locked (word s) \<Longrightarrow>
    lstep n 0 s (lgoto t (Read_free (word s)) s)"
| take_ok: "t < n \<Longrightarrow> lpc_of s t = Read_free cur \<Longrightarrow> word s = cur \<Longrightarrow>
    lstep n 1 s (lgoto t (Holding (take_lock t cur) 0) (set_word (take_lock t cur) s))"
| take_fail: "t < n \<Longrightarrow> lpc_of s t = Read_free cur \<Longrightarrow> word s \<noteq> cur \<Longrightarrow>
    lstep n 0 s (lgoto t Outside s)"
| reenter: "t < n \<Longrightarrow> lpc_of s t = Holding newl k \<Longrightarrow> le_is_locked (word s) \<Longrightarrow>
    le_is_self_locked t (word s) \<Longrightarrow> lstep n 0 s (lgoto t (Holding newl (Suc k)) s)"
| leave_nested: "t < n \<Longrightarrow> lpc_of s t = Holding newl (Suc k) \<Longrightarrow>
    lstep n 0 s (lgoto t (Holding newl k) s)"
| early_unlock: "t < n \<Longrightarrow> lpc_of s t = Holding newl 0 \<Longrightarrow>
    lstep n 0 s (lgoto t (Released newl)
      (if le_is_self_locked t (word s) then set_word (release_lock (word s)) s else s))"
| finish_test: "t < n \<Longrightarrow> lpc_of s t = Holding newl 0 \<or> lpc_of s t = Released newl \<Longrightarrow>
    lstep n 0 s (lgoto t (if le_is_self_locked t (word s) then Releasing newl else Outside) s)"
| release: "t < n \<Longrightarrow> lpc_of s t = Releasing newl \<Longrightarrow>
    lstep n 0 s (lgoto t Outside (set_word (release_lock newl) s))"

text \<open>The states that \<open>n\<close> threads reach from a fresh lock by taking it \<open>m\<close> times in all.\<close>

inductive lock_reachable :: "nat \<Rightarrow> nat \<Rightarrow> lock_sys \<Rightarrow> bool" for n :: nat where
  start: "lock_reachable n 0 \<lparr>word = 0, lpc_of = (\<lambda>_. Outside)\<rparr>"
| step: "lock_reachable n m s \<Longrightarrow> lstep n c s s' \<Longrightarrow> lock_reachable n (m + c) s'"

fun holds :: "lpc \<Rightarrow> lock_entry option" where
  "holds (Holding newl k) = Some newl"
| "holds (Releasing newl) = Some newl"
| "holds _ = None"

text \<open>
  The invariant: the word is unlocked, owned by nobody and no thread holds the lock, or it
  is the word that its single holder wrote. The count is at most twice the number \<open>m\<close> of times
  the lock was taken.
\<close>

definition lock_inv :: "nat \<Rightarrow> nat \<Rightarrow> lock_sys \<Rightarrow> bool" where
  "lock_inv n m s \<longleftrightarrow>
     (\<forall>t cur. lpc_of s t = Read_free cur \<longrightarrow> \<not> le_is_locked cur) \<and>
     (\<not> le_is_locked (word s) \<and> get_procid (word s) = 0 \<and> unat (get_count (word s)) \<le> 2 * m
        \<and> (\<forall>t. holds (lpc_of s t) = None) \<or>
      (\<exists>t cur. t < n \<and> \<not> le_is_locked cur \<and> unat (get_count cur) + 2 \<le> 2 * m \<and>
         word s = take_lock t cur \<and> (\<forall>u. holds (lpc_of s u) = (if u = t then Some (word s) else None))))"

lemma not_self_unlocked:
  assumes "t < 2 ^ 16 - 1" "get_procid le = 0"
  shows "\<not> le_is_self_locked t le"
proof -
  have "unat (of_nat (t + 1) :: u64) = t + 1"
    by (rule unat_of_nat_small) (use assms(1) in simp)
  then have "(of_nat t + 1 :: u64) \<noteq> 0" by (metis Suc_eq_plus1 nat.simps(3) of_nat_1 of_nat_add unat_0)
  with assms(2) show ?thesis by (simp add: le_is_self_locked_def)
qed

lemma lgoto_simps [simp]:
  "word (lgoto t c s) = word s" "lpc_of (lgoto t c s) = (lpc_of s)(t := c)"
  "word (set_word w s) = w" "lpc_of (set_word w s) = lpc_of s"
  by (simp_all add: lgoto_def set_word_def)

lemma lock_inv_cases:
  assumes "lock_inv n m s"
  obtains (free) "\<not> le_is_locked (word s)" "get_procid (word s) = 0" "unat (get_count (word s)) \<le> 2 * m"
      "\<And>t. holds (lpc_of s t) = None"
  | (held) h cur where "h < n" "\<not> le_is_locked cur" "unat (get_count cur) + 2 \<le> 2 * m"
      "word s = take_lock h cur" "\<And>u. holds (lpc_of s u) = (if u = h then Some (word s) else None)"
  using assms unfolding lock_inv_def by blast

lemma release_held:
  assumes "h < 2 ^ 16 - 1" "\<not> le_is_locked cur" "unat (get_count cur) + 2 < 2 ^ 32"
  shows "\<not> le_is_locked (release_lock (take_lock h cur))" "get_procid (release_lock (take_lock h cur)) = 0"
    "unat (get_count (release_lock (take_lock h cur))) = unat (get_count cur) + 2"
proof -
  have c: "unat (get_count (take_lock h cur)) = unat (get_count cur) + 1"
    by (simp only: taken_fields(3) [OF assms(1,2)] unat_count_succ unat_get_count)
  have nb: "get_count (take_lock h cur) \<noteq> push_bit 32 1 - 1"
  proof
    assume "get_count (take_lock h cur) = push_bit 32 1 - 1"
    then have "unat (get_count cur) + 1 = unat (push_bit 32 1 - 1 :: u64)" using c by simp
    with assms(3) show False by simp
  qed
  note rel = released_fields [OF taken_fields(1) [OF assms(1,2)] nb]
  show "\<not> le_is_locked (release_lock (take_lock h cur))" "get_procid (release_lock (take_lock h cur)) = 0"
    by (fact rel(1,2))+
  show "unat (get_count (release_lock (take_lock h cur))) = unat (get_count cur) + 2"
    using c unat_count_succ [of "take_lock h cur"] by (simp only: rel(3) unat_get_count)
qed

lemma lock_invI_free:
  assumes "\<And>t cur. lpc_of s t = Read_free cur \<Longrightarrow> \<not> le_is_locked cur"
    and "\<not> le_is_locked (word s)" "get_procid (word s) = 0" "unat (get_count (word s)) \<le> 2 * m"
    and "\<And>t. holds (lpc_of s t) = None"
  shows "lock_inv n m s"
  using assms unfolding lock_inv_def by blast

lemma lock_invI_held:
  assumes "\<And>t cur. lpc_of s t = Read_free cur \<Longrightarrow> \<not> le_is_locked cur"
    and "h < n" "\<not> le_is_locked cur" "unat (get_count cur) + 2 \<le> 2 * m"
    and "word s = take_lock h cur" "\<And>u. holds (lpc_of s u) = (if u = h then Some (word s) else None)"
  shows "lock_inv n m s"
  using assms unfolding lock_inv_def by blast

lemma lock_inv_same:
  assumes "lock_inv n m s" "word s' = word s" "\<And>u. holds (lpc_of s' u) = holds (lpc_of s u)"
    and "\<And>t cur. lpc_of s' t = Read_free cur \<Longrightarrow> \<not> le_is_locked cur"
  shows "lock_inv n m s'"
  using assms(1)
proof (cases rule: lock_inv_cases)
  case free
  with assms(2-4) show ?thesis by (intro lock_invI_free) simp_all
next
  case (held h cur)
  show ?thesis
    by (rule lock_invI_held [OF assms(4) held(1-3)]) (use held(4,5) assms(2,3) in simp_all)
qed

lemma lock_inv_step:
  assumes "lstep n c s s'" "lock_inv n m s" "n < 2 ^ 16" "m < 2 ^ 31"
  shows "lock_inv n (m + c) s'"
proof -
  have rf: "\<And>t cur. lpc_of s t = Read_free cur \<Longrightarrow> \<not> le_is_locked cur"
    using assms(2) by (auto simp: lock_inv_def)
  have rf': "\<not> le_is_locked cur" if "lpc_of s' t = Read_free cur" for t cur
    using assms(1) by cases (use rf that in \<open>auto split: if_splits\<close>)
  from assms(2) show ?thesis
  proof (cases rule: lock_inv_cases)
    case free
    note ns = not_self_unlocked [OF _ free(2)]
    from assms(1) show ?thesis
    proof cases
      case (take_ok t cur)
      show ?thesis
        by (rule lock_invI_held [of s' t n cur])
          (use rf' take_ok rf free in auto)
    next
      case (reenter t newl k)
      with free(1) show ?thesis by simp
    next
      case (leave_nested t newl k)
      with free(4) [of t] show ?thesis by simp
    next
      case (early_unlock t newl)
      with free(4) [of t] show ?thesis by simp
    next
      case (finish_test t newl)
      with free(4) [of t] ns [of t] assms(3) rf' show ?thesis
        by (intro lock_invI_free) (use free in auto)
    next
      case (release t newl)
      with free(4) [of t] show ?thesis by simp
    qed (intro lock_invI_free; use rf' free in auto)+
  next
    case (held h cur)
    have h: "h < 2 ^ 16 - 1" using held(1) assms(3) by simp
    have "unat (get_count cur) + 2 < 2 ^ 32" using held(3) assms(4) by simp
    note rel = release_held [OF h held(2) this]
    have self: "le_is_self_locked t (word s) \<longleftrightarrow> t = h" if "t < n" for t
      using take_lock_self [OF h _ held(2), of t] that assms(3) by (simp add: held(4))
    have hp: "t = h" "newl = word s" if "holds (lpc_of s t) = Some newl" for t newl
      using held(5) [of t] that by (auto split: if_splits)
    have nh: "t \<noteq> h" if "holds (lpc_of s t) = None" for t using held(5) [of t] that by auto
    have gone: "lock_inv n m s'" if "word s' = release_lock (word s)" "\<And>u. holds (lpc_of s' u) = None"
      by (rule lock_invI_free) (use rf' that rel held(3,4) in simp_all)
    from assms(1) show ?thesis
    proof cases
      case (take_ok t c)
      with rf [of t c] taken_fields(1) [OF h held(2)] held(4) show ?thesis by simp
    next
      case (early_unlock t newl)
      then have t: "t = h" using hp(1) [of t newl] by simp
      have "lock_inv n m s'"
        by (rule gone) (use early_unlock t self [of t] held(5) in auto)
      then show ?thesis using early_unlock(1) by simp
    next
      case (finish_test t newl)
      from finish_test(4)
      have "holds (if le_is_self_locked t (word s) then Releasing newl else Outside) = holds (lpc_of s t)"
      proof
        assume A: "lpc_of s t = Holding newl 0"
        then have "t = h" using hp(1) [of t newl] by simp
        with A self [OF finish_test(3)] show ?thesis by simp
      next
        assume A: "lpc_of s t = Released newl"
        then have "t \<noteq> h" using nh [of t] by simp
        with A self [OF finish_test(3)] show ?thesis by simp
      qed
      then have "lock_inv n m s'"
        by (intro lock_inv_same [OF assms(2) _ _ rf']) (simp_all add: finish_test(2))
      then show ?thesis using finish_test(1) by simp
    next
      case (release t newl)
      then have t: "t = h" "newl = word s" using hp [of t newl] by simp_all
      have "lock_inv n m s'"
        by (rule gone) (use release t held(5) in auto)
      then show ?thesis using release(1) by simp
    qed (simp, rule lock_inv_same [OF assms(2) _ _ rf']; simp)+
  qed
qed

lemma lock_inv_reachable:
  assumes "lock_reachable n m s" "n < 2 ^ 16" "m < 2 ^ 31"
  shows "lock_inv n m s"
  using assms(1,3)
proof induction
  case start
  show ?case by (rule lock_invI_free) (simp_all add: le_is_locked_def get_procid_def get_count_def)
next
  case (step m s c s')
  then show ?case by (intro lock_inv_step [OF step.hyps(2) _ assms(2)]) simp_all
qed

section \<open>Properties of the lock\<close>

text \<open>C9: Mutual exclusion: in every state that is reached while the lock was taken fewer than
  \<open>2\<^sup>3\<^sup>1\<close> times by fewer than \<open>2\<^sup>1\<^sup>6\<close> threads, at most one thread runs its thunk with the lock
  held, and while it does the word is locked and names that thread. Nested calls of the
  holder, early release and stale reads of the word are among the steps. Beyond that number the
  32-bit count carries into the owner field (\<open>release_lock_overflow\<close>).\<close>

theorem mutual_exclusion:
  assumes "lock_reachable n m s" "n < 2 ^ 16" "m < 2 ^ 31"
    and "lpc_of s t = Holding l j" "lpc_of s u = Holding l' k"
  shows "t = u \<and> l = word s \<and> le_is_locked (word s) \<and> le_is_self_locked t (word s)"
proof -
  have t: "holds (lpc_of s t) = Some l" and u: "holds (lpc_of s u) = Some l'" using assms(4,5) by simp_all
  show ?thesis
    using lock_inv_reachable [OF assms(1-3)]
  proof (cases rule: lock_inv_cases)
    case (held h cur)
    have h: "h < 2 ^ 16 - 1" using held(1) assms(2) by simp
    have "t = h" "u = h" "l = word s" using t u held(5) [of t] held(5) [of u] by (auto split: if_splits)
    with taken_fields(1) [OF h held(2)] take_lock_self [OF h h held(2)] held(4) show ?thesis by simp
  qed (use t in simp)
qed

lemma mutual_exclusion_witness:
  "\<exists>s. lock_reachable 2 1 s \<and> lpc_of s 1 = Holding (take_lock 1 0) 0 \<and> le_is_self_locked 1 (word s)"
proof -
  let ?s0 = "\<lparr>word = 0, lpc_of = (\<lambda>_. Outside)\<rparr>"
  let ?s1 = "lgoto 1 (Read_free 0) ?s0"
  let ?s2 = "lgoto 1 (Holding (take_lock 1 0) 0) (set_word (take_lock 1 0) ?s1)"
  have "lstep 2 0 ?s0 ?s1" using read_free [of 1 2 ?s0] by (simp add: le_is_locked_def)
  from lock_reachable.step [OF lock_reachable.start this] have "lock_reachable 2 0 ?s1" by simp
  moreover have "lstep 2 1 ?s1 ?s2" by (rule take_ok) simp_all
  ultimately have r: "lock_reachable 2 1 ?s2" using lock_reachable.step [of 2 0 ?s1 1 ?s2] by simp
  from mutual_exclusion [OF r, of 1 "take_lock 1 0" 0 1 "take_lock 1 0" 0] r
  show ?thesis by (intro exI [of _ ?s2]) simp
qed

text \<open>An uncontended \<open>try_lock_result\<close> on an unlocked lock runs the thunk with the lock held by
  the calling thread, returns its result and leaves the lock unlocked with the count two
  higher; on a lock that another thread holds it returns nothing and changes nothing.\<close>

theorem try_lock_result_outcome:
  assumes "me < 2 ^ 16 - 1" "unat (get_count (lck s)) + 2 < 2 ^ 32"
    and "\<And>s1 r s2. f s1 = (r, s2) \<Longrightarrow> lck s2 = lck s1"
  shows "(\<not> le_is_locked (lck s) \<longrightarrow>
     (\<exists>r s2. f (s\<lparr>lck := take_lock me (lck s)\<rparr>) = (r, s2) \<and>
        try_lock_result (\<lambda>_ s. s) me f False s = (Some r, s2\<lparr>lck := get_count (lck s) + 2\<rparr>, False)))
   \<and> (le_is_locked (lck s) \<and> \<not> le_is_self_locked me (lck s) \<longrightarrow>
        try_lock_result (\<lambda>_ s. s) me f False s = (None, s, False))"
proof -
  obtain r s2 where f: "f (s\<lparr>lck := take_lock me (lck s)\<rparr>) = (r, s2)" by (metis prod.exhaust)
  have l2: "lck s2 = take_lock me (lck s)" using assms(3) [OF f] by simp
  have "release_lock (take_lock me (lck s)) = get_count (lck s) + 2" if "\<not> le_is_locked (lck s)"
    by (simp add: release_lock_def taken_fields(3) [OF assms(1) that])
  with f l2 take_lock_self [OF assms(1,1), of "lck s"] show ?thesis
    by (auto simp: try_lock_result_def lock_exchange_def Let_def)
qed

lemma try_lock_result_outcome_witness:
  "try_lock_result (\<lambda>_ s. s) 3 (\<lambda>s. (shared s + 1, s\<lparr>shared := 7\<rparr>)) False
     \<lparr>lck = 4, shared = (5::nat)\<rparr> = (Some 6, \<lparr>lck = 6, shared = 7\<rparr>, False)"
proof -
  have "\<not> le_is_locked 4" by (simp add: le_is_locked_def)
  with try_lock_result_outcome [of 3 "\<lparr>lck = 4, shared = (5::nat)\<rparr>" "\<lambda>s. (shared s + 1, s\<lparr>shared := 7\<rparr>)"]
  show ?thesis by (auto simp: get_count_def)
qed

text \<open>The count overflows into the owner field: releasing a lock whose count is \<open>2\<^sup>3\<^sup>2 - 1\<close> gives
  a word that is unlocked and yet names thread 0 as its holder; a call of \<open>unlock\<close> by that
  thread then locks the word for nobody.\<close>

theorem release_lock_overflow:
  "(let w = release_lock (take_lock 3 (push_bit 32 1 - 2))
    in \<not> le_is_locked w \<and> le_is_self_locked 0 w \<and>
       le_is_locked (lck (unlock 0 \<lparr>lck = w, shared = ()\<rparr>)) \<and>
       get_procid (lck (unlock 0 \<lparr>lck = w, shared = ()\<rparr>)) = 0)"
  by (simp add: release_lock_def take_lock_def get_count_def le_is_locked_def le_is_self_locked_def
      get_procid_def unlock_def Let_def)

end
