(* ===== verification/Flock_Lf_Lock.thy ===== *)
theory Flock_Lf_Lock
  imports Flock_Log
begin

text \<open>
  The lock-free lock, \<^verbatim>\<open>include/flock/lf_lock.h\<close>. To take the lock a thread installs a pointer to
  a descriptor of its thunk and log; a thread that finds the lock taken runs that thunk itself and
  releases the lock. Thunks and logs are those of \<open>Flock_Log\<close>: every run, by the owner or by a
  helper, executes the thunk again from the start of the descriptor's log, with the other
  threads' steps between its own. The routines are those of a thread outside of any other lock,
  so that their loads of the lock word commit nothing. The theory shows that a thunk is never run when
  \<open>lf_try_lock_result\<close> fails, and that when it succeeds the log determines the result: every run of
  the thunk, by whoever and whenever, returns it. That one run's writes are not repeated by the
  others is not claimed here: it rests on the tagged compare-and-swap (\<open>Flock_Tagged\<close>).
\<close>

unbundle bit_operations_syntax

section \<open>Descriptors and the lock word\<close>

record ('m, 'r) descriptor =
  thunk :: "('m, 'r) thunk"
  ddone :: bool
  thread_id :: nat
  counter :: u64
  epoch_num :: int
  lg_array :: addr

text \<open>
  \<open>my_id\<close>, \<open>helping\<close>, \<open>my_epoch\<close>, \<open>my_lg\<close> and \<open>given_back\<close> belong to the running thread; \<open>lf_logs\<close> are the
  log arrays and \<open>array_pool\<close> the pool that hands them out. The fields \<open>owned\<close>,
  \<open>installed\<close> and \<open>runs\<close> are not part of the program: the descriptors the running thread
  allocated, those that were ever in the lock, and those whose thunk somebody began to run, with one
  entry for every run, latest first.
\<close>

record ('m, 'r) lfstate =
  lck :: u64
  descs :: "addr \<Rightarrow> ('m, 'r) descriptor"
  dlive :: "addr set"
  acquired_by_helper :: "addr set"
  shared :: 'm
  lf_logs :: log_mem
  array_pool :: "log_mem \<Rightarrow> addr"
  my_id :: nat
  helping :: bool
  my_epoch :: int
  my_lg :: Log
  given_back :: "addr list"
  owned :: "addr set"
  installed :: "addr set"
  runs :: "addr list"

type_synonym ('m, 'r) lfenv = "nat \<Rightarrow> ('m, 'r) lfstate \<Rightarrow> ('m, 'r) lfstate"

definition locked_word :: "u64 \<Rightarrow> bool" where
  "locked_word le \<longleftrightarrow> le AND push_bit 63 1 = 0"

definition remove_tag :: "u64 \<Rightarrow> addr" where
  "remove_tag le = unat le"

definition lock_is_self :: "u64 \<Rightarrow> ('m, 'r) lfstate \<Rightarrow> bool" where
  "lock_is_self le s \<longleftrightarrow> my_id s = thread_id (descs s (remove_tag le))"

definition lock_init :: u64 where
  "lock_init = push_bit 63 1"

text \<open>The constructor of a descriptor; \<open>get_epoch\<close> and \<open>get_current_id\<close> read the thread's own state.\<close>

definition new_descriptor :: "(('m, 'r) lfstate \<Rightarrow> addr) \<Rightarrow> ('m, 'r) thunk \<Rightarrow> u64 \<Rightarrow> ('m, 'r) lfstate \<Rightarrow> addr \<times> ('m, 'r) lfstate" where
  "new_descriptor alloc f c s =
     (let d = alloc s; (a, H) = new_log_array (array_pool s) (lf_logs s)
      in (d, s\<lparr>descs := (descs s)(d := \<lparr>thunk = f, ddone = False, thread_id = my_id s, counter = c,
                                        epoch_num = my_epoch s, lg_array = a\<rparr>),
               dlive := insert d (dlive s), lf_logs := H, owned := insert d (owned s)\<rparr>))"

text \<open>
  A run of a thunk from the cursor \<open>L\<close>. Before each step the other threads may do anything to the
  state, and within a commit what they do to the logs.
\<close>

primrec exec :: "('m, 'r) lfenv \<Rightarrow> ('m, 'r) thunk \<Rightarrow> nat \<Rightarrow> Log \<Rightarrow> ('m, 'r) lfstate \<Rightarrow> 'r \<times> Log \<times> ('m, 'r) lfstate" where
  "exec env (Return r) n L s = (r, L, s)"
| "exec env (Commit p k) n L s =
     (let s1 = env (20 + 3 * n) s;
          ((v, _), L', H) = commit_value (\<lambda>i H. lf_logs (env (21 + 3 * n + i) (s1\<lparr>lf_logs := H\<rparr>)))
             (array_pool s1) L (p (shared s1)) (lf_logs s1)
      in exec env (k v) (Suc n) L' (s1\<lparr>lf_logs := H\<rparr>))"
| "exec env (Write g k) n L s =
     (let s1 = env (20 + 3 * n) s in exec env k (Suc n) L (s1\<lparr>shared := g (shared s1)\<rparr>))"

text \<open>\<open>with_log\<close> on the log of the descriptor: the thunk is run from position 0 of it.\<close>

definition run_logged :: "('m, 'r) lfenv \<Rightarrow> addr \<Rightarrow> ('m, 'r) lfstate \<Rightarrow> 'r \<times> ('m, 'r) lfstate" where
  "run_logged env d s =
     (let (r, _, s') = exec env (thunk (descs s d)) 0 \<lparr>vals = lg_array (descs s d), count = 0\<rparr> (s\<lparr>runs := d # runs s\<rparr>)
      in (r, s'))"

definition set_done :: "addr \<Rightarrow> ('m, 'r) lfstate \<Rightarrow> ('m, 'r) lfstate" where
  "set_done d s = s\<lparr>descs := (descs s)(d := (descs s d)\<lparr>ddone := True\<rparr>)\<rparr>"

text \<open>\<open>operator()\<close> of a descriptor.\<close>

definition run_descriptor :: "('m, 'r) lfenv \<Rightarrow> addr \<Rightarrow> ('m, 'r) lfstate \<Rightarrow> ('m, 'r) lfstate" where
  "run_descriptor env d s = set_done d (env 0 (snd (run_logged env d s)))"

definition lf_cas :: "('m, 'r) lfenv \<Rightarrow> u64 \<Rightarrow> addr \<Rightarrow> ('m, 'r) lfstate \<Rightarrow> bool \<times> ('m, 'r) lfstate" where
  "lf_cas env oldl d s =
     (if lck s \<noteq> oldl then (False, s)
      else let s1 = env 1 s
           in if lck s1 = oldl then (True, s1\<lparr>lck := of_nat d, installed := insert d (installed s1)\<rparr>) else (False, s1))"

definition clear :: "('m, 'r) lfenv \<Rightarrow> addr \<Rightarrow> ('m, 'r) lfstate \<Rightarrow> ('m, 'r) lfstate" where
  "clear env d s =
     (if lck s = of_nat d
      then let s1 = env 2 s in if lck s1 = of_nat d then s1\<lparr>lck := counter (descs s1 d) + 1\<rparr> else s1
      else s)"

definition lf_unlock :: "('m, 'r) lfenv \<Rightarrow> ('m, 'r) lfstate \<Rightarrow> ('m, 'r) lfstate" where
  "lf_unlock env s =
     (let current = lck s; s1 = env 2 s
      in if lck s1 = current then s1\<lparr>lck := counter (descs s1 (remove_tag current)) + 1\<rparr> else s1)"

definition help_descriptor :: "('m, 'r) lfenv \<Rightarrow> u64 \<Rightarrow> bool \<Rightarrow> ('m, 'r) lfstate \<Rightarrow> bool \<times> ('m, 'r) lfstate" where
  "help_descriptor env le recursive_help s =
     (if \<not> recursive_help \<and> helping s then (False, s)
      else if lck s \<noteq> le then (False, s)
      else let desc = remove_tag le;
               epoch = my_epoch s;
               s1 = (if epoch_num (descs s desc) < epoch then s\<lparr>my_epoch := epoch_num (descs s desc)\<rparr> else s);
               id = my_id s1;
               s2 = s1\<lparr>my_id := thread_id (descs s1 desc), acquired_by_helper := insert desc (acquired_by_helper s1)\<rparr>;
               s3 = env 3 s2;
               still_locked = (lck s3 = le);
               s4 = (if still_locked
                     then let hold_h = helping s3;
                              s5 = clear env desc (env 4 (run_descriptor env desc (env 5 (s3\<lparr>helping := True\<rparr>))))
                          in s5\<lparr>helping := hold_h\<rparr>
                     else s3)
           in (still_locked, s4\<lparr>my_id := id, my_epoch := epoch\<rparr>))"

definition lf_wait_lock :: "('m, 'r) lfenv \<Rightarrow> ('m, 'r) lfstate \<Rightarrow> ('m, 'r) lfstate" where
  "lf_wait_lock env s =
     (let current = lck s
      in if \<not> locked_word current \<or> lock_is_self current s then s
         else snd (help_descriptor env current True (env 6 s)))"

definition lf_is_locked :: "('m, 'r) lfstate \<Rightarrow> bool" where
  "lf_is_locked s = locked_word (lck s)"

definition lf_is_self_locked :: "('m, 'r) lfstate \<Rightarrow> bool" where
  "lf_is_self_locked s \<longleftrightarrow> locked_word (lck s) \<and> lock_is_self (lck s) s"

definition lf_unchanged :: "u64 \<Rightarrow> ('m, 'r) lfstate \<Rightarrow> bool" where
  "lf_unchanged le s \<longleftrightarrow> le = lck s"

definition retire_descriptor :: "addr \<Rightarrow> ('m, 'r) lfstate \<Rightarrow> ('m, 'r) lfstate" where
  "retire_descriptor d s = s\<lparr>given_back := d # given_back s\<rparr>"

text \<open>The end of an acquisition: run the body with the descriptor's log, mark it done, clear the lock.\<close>

definition finish :: "('m, 'r) lfenv \<Rightarrow> addr \<Rightarrow> ('m, 'r) lfstate \<Rightarrow> 'r \<times> ('m, 'r) lfstate" where
  "finish env d s =
     (let (r, s1) = run_logged env d s; s2 = set_done d (env 6 s1) in (r, clear env d (env 7 s2)))"

definition lf_try_lock_result :: "('m, 'r) lfenv \<Rightarrow> (('m, 'r) lfstate \<Rightarrow> addr) \<Rightarrow> ('m, 'r) thunk \<Rightarrow> bool
    \<Rightarrow> ('m, 'r) lfstate \<Rightarrow> 'r option \<times> ('m, 'r) lfstate" where
  "lf_try_lock_result env alloc f do_help s =
     (let current = lck s
      in if locked_word current \<and> lock_is_self current s
         then let (r, L, s') = exec env f 0 (my_lg s) s in (Some r, s'\<lparr>my_lg := L\<rparr>)
         else let (d, s1) = new_descriptor alloc f (if locked_word current then 0 else current) (env 8 s)
              in if \<not> locked_word current
                 then let s2 = env 10 (snd (lf_cas env current d (env 9 s1)))
                      in if ddone (descs s2 d) \<or> lck s2 = of_nat d
                         then let (r, s3) = finish env d (env 11 s2) in (Some r, retire_descriptor d s3)
                         else (None, retire_descriptor d s2)
                 else (None, retire_descriptor d (if do_help then snd (help_descriptor env current False (env 9 s1)) else s1)))"

definition lf_try_lock :: "('m, bool) lfenv \<Rightarrow> (('m, bool) lfstate \<Rightarrow> addr) \<Rightarrow> ('m, bool) thunk \<Rightarrow> bool
    \<Rightarrow> ('m, bool) lfstate \<Rightarrow> bool \<times> ('m, bool) lfstate" where
  "lf_try_lock env alloc f do_help s =
     (let (result, s') = lf_try_lock_result env alloc f do_help s in (result = Some True, s'))"

text \<open>The loop of \<open>lf_with_lock\<close>, with fuel; \<open>current\<close> is the word last read.\<close>

fun lf_with_lock_loop :: "(nat \<Rightarrow> ('m, 'r) lfenv) \<Rightarrow> nat \<Rightarrow> addr \<Rightarrow> u64 \<Rightarrow> ('m, 'r) lfstate \<Rightarrow> ('r \<times> ('m, 'r) lfstate) option" where
  "lf_with_lock_loop env 0 d current s = None"
| "lf_with_lock_loop env (Suc fuel) d current s =
     (let s1 = (if \<not> locked_word current \<and> counter (descs s d) < current
                then s\<lparr>descs := (descs s)(d := (descs s d)\<lparr>counter := current\<rparr>)\<rparr> else s);
          s2 = env fuel 8 s1;
          try_cas = (\<not> ddone (descs s2 d) \<and> of_nat d \<noteq> current \<and> \<not> locked_word current);
          (won, s3) = (if try_cas then lf_cas (env fuel) current d (env fuel 9 s2) else (False, s2))
      in if ddone (descs s2 d) \<or> current = of_nat d \<or> won
         then let (r, s4) = finish (env fuel) d (env fuel 10 s3) in Some (r, retire_descriptor d s4)
         else let s4 = (if locked_word current then snd (help_descriptor (env fuel) current False (env fuel 11 s3)) else s3);
                  s5 = env fuel 12 s4
              in lf_with_lock_loop env fuel d (lck s5) s5)"

definition lf_with_lock :: "(nat \<Rightarrow> ('m, 'r) lfenv) \<Rightarrow> (('m, 'r) lfstate \<Rightarrow> addr) \<Rightarrow> nat \<Rightarrow> ('m, 'r) thunk \<Rightarrow> ('m, 'r) lfstate
    \<Rightarrow> ('r \<times> ('m, 'r) lfstate) option" where
  "lf_with_lock env alloc fuel f s =
     (let current = lck s;
          (d, s1) = new_descriptor alloc f (if locked_word current then 0 else current) (env fuel 13 s)
      in lf_with_lock_loop env fuel d current s1)"

section \<open>The invariant and what the other threads do\<close>

text \<open>The log of a descriptor is filled so far that whatever is added to it, the thunk returns \<open>r\<close>.\<close>

definition log_determines :: "('m, 'r) lfstate \<Rightarrow> addr \<Rightarrow> 'r \<Rightarrow> bool" where
  "log_determines s d r \<longleftrightarrow>
     (\<forall>F. log_le (lf_logs s) F \<longrightarrow> replay F (thunk (descs s d)) \<lparr>vals = lg_array (descs s d), count = 0\<rparr> = r)"

definition wf_lf :: "('m, 'r) lfstate \<Rightarrow> bool" where
  "wf_lf s \<longleftrightarrow>
     (locked_word (lck s) \<longrightarrow> (\<exists>d \<in> installed s. lck s = of_nat d))
     \<and> installed s \<subseteq> dlive s
     \<and> (\<forall>d \<in> installed s. 0 < d \<and> d < 2 ^ 63 \<and> \<not> locked_word (counter (descs s d) + 1)
          \<and> (lck s \<noteq> of_nat d \<longrightarrow> ddone (descs s d)))
     \<and> (\<forall>d \<in> dlive s. ddone (descs s d) \<longrightarrow> d \<in> set (runs s) \<and> (\<exists>r. log_determines s d r))
     \<and> set (runs s) \<subseteq> installed s
     \<and> alloc_ok (array_pool s) \<and> wf_log (lf_logs s)
     \<and> (\<forall>d \<in> dlive s. safe_thunk (thunk (descs s d)) \<and> lg_array (descs s d) \<in> la_live (lf_logs s))"

text \<open>What every step keeps.\<close>

definition lf_grows :: "('m, 'r) lfstate \<Rightarrow> ('m, 'r) lfstate \<Rightarrow> bool" where
  "lf_grows s t \<longleftrightarrow>
     dlive s \<subseteq> dlive t \<and> installed s \<subseteq> installed t
     \<and> (\<forall>d \<in> dlive s. thunk (descs t d) = thunk (descs s d) \<and> thread_id (descs t d) = thread_id (descs s d)
          \<and> epoch_num (descs t d) = epoch_num (descs s d) \<and> lg_array (descs t d) = lg_array (descs s d)
          \<and> (ddone (descs s d) \<longrightarrow> ddone (descs t d)))
     \<and> (\<forall>d \<in> installed s. counter (descs t d) = counter (descs s d))
     \<and> log_le (lf_logs s) (lf_logs t) \<and> (\<exists>h. runs t = h @ runs s)"

text \<open>
  The other threads leave the thread's own variables alone, neither install its
  descriptors nor change their counters, and treat the logs as helpers do.
\<close>

definition lf_others :: "('m, 'r) lfstate \<Rightarrow> ('m, 'r) lfstate \<Rightarrow> bool" where
  "lf_others s t \<longleftrightarrow>
     (\<forall>d \<in> owned s. (d \<in> dlive s \<longleftrightarrow> d \<in> dlive t) \<and> (d \<in> installed t \<longleftrightarrow> d \<in> installed s)
        \<and> counter (descs t d) = counter (descs s d))
     \<and> my_id t = my_id s \<and> helping t = helping s \<and> my_epoch t = my_epoch s
     \<and> my_lg t = my_lg s \<and> given_back t = given_back s \<and> owned t = owned s
     \<and> array_pool t = array_pool s \<and> llog.evolves (lf_logs s) (lf_logs t)"

definition lf_le :: "('m, 'r) lfstate \<Rightarrow> ('m, 'r) lfstate \<Rightarrow> bool" where
  "lf_le s t \<longleftrightarrow> (wf_lf s \<longrightarrow> lf_grows s t) \<and> lf_others s t \<and> (wf_lf s \<longrightarrow> wf_lf t)"

lemma lf_grows_refl [simp]: "lf_grows s s"
  by (auto simp: lf_grows_def llog.le_refl)

lemma lf_grows_trans: "lf_grows s t \<Longrightarrow> lf_grows t u \<Longrightarrow> lf_grows s u"
  unfolding lf_grows_def
  apply (elim conjE exE)
  apply (intro conjI)
       apply blast
      apply blast
     apply (intro ballI conjI impI; (metis subsetD))
    apply (metis subsetD)
   apply (blast intro: llog.le_trans)
  apply auto
  done

lemma lf_others_refl [simp]: "lf_others s s"
  by (auto simp: lf_others_def)

lemma lf_others_trans: "lf_others s t \<Longrightarrow> lf_others t u \<Longrightarrow> lf_others s u"
  unfolding lf_others_def by (auto intro: llog.evolves_trans)

interpretation lfl: monotone_shared lf_le wf_lf
proof
  show "lf_le s s" for s by (simp add: lf_le_def)
  show "lf_le s u" if "lf_le s t" "lf_le t u" for s t u
    using that unfolding lf_le_def by (auto intro: lf_grows_trans lf_others_trans)
qed

lemma rely_step:
  assumes "lfl.rely env" "wf_lf s"
  shows "wf_lf (env i s)" "lf_grows s (env i s)" "lf_others s (env i s)"
  using lfl.relyD [OF assms(1), of s i] assms(2) by (auto simp: lfl.evolves_def lf_le_def)

section \<open>Words of the lock\<close>

lemma locked_word_unat: "locked_word w \<longleftrightarrow> unat w < 2 ^ 63"
proof -
  have "locked_word w \<longleftrightarrow> \<not> bit w 63"
    by (simp only: locked_word_def push_bit_of_1 and_exp_eq_0_iff_not_bit)
  also have "\<dots> \<longleftrightarrow> \<not> odd (unat w div 2 ^ 63)"
    by (simp only: bit_iff_odd [of "unat w", symmetric] bit_unsigned_iff) simp
  also have "\<dots> \<longleftrightarrow> unat w < 2 ^ 63"
  proof -
    have "unat w < 2 ^ LENGTH(64)" by (rule unsigned_less)
    then have "unat w div 2 ^ 63 < 2" by (simp add: less_mult_imp_div_less)
    then have "unat w div 2 ^ 63 = 0 \<or> unat w div 2 ^ 63 = 1" by linarith
    then show ?thesis by (auto simp: div_eq_0_iff)
  qed
  finally show ?thesis .
qed

lemma unat_descriptor: "d < 2 ^ 63 \<Longrightarrow> unat (of_nat d :: u64) = d"
  by (rule unat_of_nat_small) simp

lemma locked_descriptor: "d < 2 ^ 63 \<Longrightarrow> locked_word (of_nat d)"
  by (simp add: locked_word_unat unat_descriptor)

lemma descriptor_inj: "d < 2 ^ 63 \<Longrightarrow> e < 2 ^ 63 \<Longrightarrow> (of_nat d :: u64) = of_nat e \<longleftrightarrow> d = e"
  by (metis unat_descriptor)

lemma remove_tag_descriptor [simp]: "d < 2 ^ 63 \<Longrightarrow> remove_tag (of_nat d) = d"
  by (simp add: remove_tag_def unat_descriptor)

lemma locked_word_of: "locked_word w \<Longrightarrow> of_nat (remove_tag w) = w"
  by (simp add: remove_tag_def)

lemma unlocked_above:
  assumes "\<not> locked_word c" "c \<le> w" "w \<noteq> - 1"
  shows "\<not> locked_word w" "\<not> locked_word (w + 1)"
proof -
  have bound: "unat w < 2 ^ LENGTH(64)" by (rule unsigned_less)
  have "unat w \<noteq> unat (- 1 :: u64)" using assms(3) by (auto simp only: word_unat_eq_iff)
  moreover have "unat (- 1 :: u64) = 2 ^ 64 - 1" by (simp add: unsigned_minus_1_eq_mask mask_eq_exp_minus_1)
  moreover have "unat w < 2 ^ 64" using bound by simp
  ultimately have "unat w + 1 < 2 ^ 64" by linarith
  then have "unat (w + 1) = unat w + 1" by (simp add: unat_word_ariths)
  then show "\<not> locked_word w" "\<not> locked_word (w + 1)"
    using assms(1,2) by (auto simp: locked_word_unat word_le_nat_alt)
qed

section \<open>Single steps\<close>

lemma wf_lfD:
  assumes "wf_lf s"
  shows "locked_word (lck s) \<Longrightarrow> \<exists>d \<in> installed s. lck s = of_nat d"
    "d \<in> installed s \<Longrightarrow> d \<in> dlive s" "d \<in> installed s \<Longrightarrow> 0 < d" "d \<in> installed s \<Longrightarrow> d < 2 ^ 63"
    "d \<in> installed s \<Longrightarrow> \<not> locked_word (counter (descs s d) + 1)"
    "d \<in> installed s \<Longrightarrow> lck s \<noteq> of_nat d \<Longrightarrow> ddone (descs s d)"
    "d \<in> dlive s \<Longrightarrow> ddone (descs s d) \<Longrightarrow> d \<in> set (runs s)"
    "d \<in> dlive s \<Longrightarrow> ddone (descs s d) \<Longrightarrow> \<exists>r. log_determines s d r"
    "d \<in> set (runs s) \<Longrightarrow> d \<in> installed s" "alloc_ok (array_pool s)" "wf_log (lf_logs s)"
    "d \<in> dlive s \<Longrightarrow> safe_thunk (thunk (descs s d))"
    "d \<in> dlive s \<Longrightarrow> lg_array (descs s d) \<in> la_live (lf_logs s)"
  using assms unfolding wf_lf_def by blast+

lemma not_installed_not_run:
  assumes "wf_lf s" "d \<in> dlive s" "d \<notin> installed s"
  shows "\<not> ddone (descs s d)" "d \<notin> set (runs s)"
    "d < 2 ^ 63 \<Longrightarrow> lck s \<noteq> of_nat d"
proof -
  show h: "d \<notin> set (runs s)" using wf_lfD(9) [OF assms(1)] assms(3) by blast
  show "\<not> ddone (descs s d)" using h wf_lfD(7) [OF assms(1,2)] by blast
  show "lck s \<noteq> of_nat d" if small: "d < 2 ^ 63"
  proof
    assume lck: "lck s = of_nat d"
    obtain e where "e \<in> installed s" "lck s = of_nat e"
      using wf_lfD(1) [OF assms(1)] locked_descriptor [OF small] lck by metis
    then show False using descriptor_inj [OF small wf_lfD(4) [OF assms(1)]] lck assms(3) by metis
  qed
qed

lemma log_determines_grows:
  assumes "lf_grows s t" "d \<in> dlive s" "log_determines s d r"
  shows "log_determines t d r"
proof -
  have "log_le (lf_logs s) (lf_logs t)" "thunk (descs t d) = thunk (descs s d)" "lg_array (descs t d) = lg_array (descs s d)"
    using assms(1,2) by (auto simp: lf_grows_def)
  with assms(3) show ?thesis unfolding log_determines_def by (auto intro: llog.le_trans)
qed

lemma lf_evolvesD:
  assumes "lfl.evolves s t" "wf_lf s"
  shows "wf_lf t" "lf_grows s t" "lf_others s t" "d \<in> installed s \<Longrightarrow> d \<in> installed t"
    "d \<in> dlive s \<Longrightarrow> d \<in> dlive t"
    "d \<in> dlive s \<Longrightarrow> ddone (descs s d) \<Longrightarrow> ddone (descs t d)"
    "d \<in> dlive s \<Longrightarrow> log_determines s d r \<Longrightarrow> log_determines t d r"
    "d \<in> owned s \<Longrightarrow> d \<in> installed t \<longleftrightarrow> d \<in> installed s"
    "d \<in> owned s \<Longrightarrow> counter (descs t d) = counter (descs s d)"
    "owned t = owned s" "given_back t = given_back s" "my_id t = my_id s" "helping t = helping s"
proof -
  have E: "wf_lf t" "lf_grows s t" "lf_others s t" using assms by (auto simp: lfl.evolves_def lf_le_def)
  then show "wf_lf t" "lf_grows s t" "lf_others s t" by blast+
  show "d \<in> dlive s \<Longrightarrow> log_determines s d r \<Longrightarrow> log_determines t d r" using E(2) by (rule log_determines_grows)
qed (use assms in \<open>auto simp: lfl.evolves_def lf_le_def lf_grows_def lf_others_def\<close>)

lemma logs_step:
  assumes "wf_lf s" "log_le (lf_logs s) H" "wf_log H"
  shows "lfl.evolves s (s\<lparr>lf_logs := H\<rparr>)"
proof -
  let ?t = "s\<lparr>lf_logs := H\<rparr>"
  have g: "lf_grows s ?t" using assms(2) by (auto simp: lf_grows_def)
  have "lf_others s ?t" using assms(2,3) by (auto simp: lf_others_def llog.evolves_def)
  moreover have det: "\<exists>r. log_determines ?t d r" if "d \<in> dlive s" "ddone (descs s d)" for d
    using wf_lfD(8) [OF assms(1) that] log_determines_grows [OF g that(1)] by blast
  have "la_live (lf_logs s) \<subseteq> la_live H" using assms(2) by (simp add: log_le_def)
  then have "wf_lf ?t" using assms(1,3) det unfolding wf_lf_def by auto
  ultimately show ?thesis using g by (simp add: lfl.evolves_def lf_le_def)
qed

lemma shared_step: "wf_lf s \<Longrightarrow> lfl.evolves s (s\<lparr>shared := m\<rparr>)"
  by (auto simp: lfl.evolves_def lf_le_def lf_grows_def lf_others_def wf_lf_def log_determines_def llog.le_refl)

lemma log_env_rely: "lfl.rely env \<Longrightarrow> llog.rely (\<lambda>i H. lf_logs (env (c + i) (s\<lparr>lf_logs := H\<rparr>)))"
proof -
  assume env: "lfl.rely env"
  have "llog.evolves H (lf_logs (env j (s\<lparr>lf_logs := H\<rparr>)))" for j H
    using lfl.relyD [OF env, of "s\<lparr>lf_logs := H\<rparr>" j] by (simp add: lfl.evolves_def lf_le_def lf_others_def)
  then show ?thesis by (simp add: llog.rely_def)
qed

text \<open>A run of a safe thunk: its steps are of the kind the others make, and the log it leaves behind
  determines its result.\<close>

lemma exec_step:
  assumes "lfl.rely env" "safe_thunk f" "wf_lf s" "wf_cursor L (lf_logs s)" "exec env f n L s = (r, L', s')"
  shows "lfl.evolves s s' \<and> (\<forall>F. log_le (lf_logs s') F \<longrightarrow> replay F f L = r)"
  using assms(2-)
proof (induction f arbitrary: n L s)
  case (Return x)
  then show ?case by simp
next
  case (Write g k)
  let ?s1 = "env (20 + 3 * n) s"
  let ?s2 = "?s1\<lparr>shared := g (shared ?s1)\<rparr>"
  note e = lfl.relyD [OF assms(1), of s "20 + 3 * n"] note E = lf_evolvesD [OF e Write.prems(2)]
  note e2 = shared_step [OF E(1), of "g (shared ?s1)"]
  have "wf_cursor L (lf_logs ?s2)" using Write.prems(3) E(2) by (auto simp: wf_cursor_def lf_grows_def log_le_def)
  from Write.IH [OF _ lf_evolvesD(1) [OF e2 E(1)] this, of "Suc n"] Write.prems(1,4)
  show ?case using lfl.evolves_trans [OF lfl.evolves_trans [OF e e2]] by (simp add: Let_def)
next
  case (Commit p k)
  let ?s1 = "env (20 + 3 * n) s"
  note e = lfl.relyD [OF assms(1), of s "20 + 3 * n"] note E = lf_evolvesD [OF e Commit.prems(2)]
  obtain v b L1 H1 where cv: "commit_value (\<lambda>i H. lf_logs (env (21 + 3 * n + i) (?s1\<lparr>lf_logs := H\<rparr>)))
      (array_pool ?s1) L (p (shared ?s1)) (lf_logs ?s1) = ((v, b), L1, H1)"
    by (metis prod.exhaust)
  have cur: "wf_cursor L (lf_logs ?s1)" using Commit.prems(3) E(2) by (auto simp: wf_cursor_def lf_grows_def log_le_def)
  have nz: "p (shared ?s1) \<noteq> 0" using Commit.prems(1) by simp
  have "commit_outcome L (lf_logs ?s1) v L1 H1"
    by (rule commit_value_outcome(1) [OF wf_lfD(10,11) [OF E(1)] cur log_env_rely [OF assms(1)] nz cv])
  then have o: "wf_log H1" "log_le (lf_logs ?s1) H1" "has_cell H1 L" "L1 = cursor_after H1 L" "v \<noteq> 0"
    and en: "case cell_of H1 L of (a, i) \<Rightarrow> entry H1 a i = v" by (auto simp: commit_outcome_def)
  have cur1: "wf_cursor L1 H1" using has_cell_live(3) [OF o(1,3)] o(4) by (metis prod.exhaust)
  let ?s2 = "?s1\<lparr>lf_logs := H1\<rparr>"
  note e2 = logs_step [OF E(1) o(2,1)]
  have run: "exec env (k v) (Suc n) L1 ?s2 = (r, L', s')" using Commit.prems(4) cv by (simp add: Let_def)
  have safe: "safe_thunk (k v)" using Commit.prems(1) by simp
  have IH: "lfl.evolves ?s2 s'" "\<forall>F. log_le (lf_logs s') F \<longrightarrow> replay F (k v) L1 = r"
    using Commit.IH [OF rangeI safe lf_evolvesD(1) [OF e2 E(1)] _ run] cur1 by simp_all
  have le2: "log_le H1 (lf_logs s')" using lf_evolvesD(2) [OF IH(1) lf_evolvesD(1) [OF e2 E(1)]] by (simp add: lf_grows_def)
  have "replay F (Commit p k) L = r" if F: "log_le (lf_logs s') F" for F
  proof -
    have le: "log_le H1 F" using le2 F by (rule llog.le_trans)
    obtain a i where ai: "cell_of H1 L = (a, i)" by (cases "cell_of H1 L")
    from en ai o(5) log_le_entry [OF le o(1,3) ai] have "entry F a i = v" by simp
    with IH(2) F log_le_cell [OF le o(3)] o(4) ai show ?thesis by simp
  qed
  then show ?case using lfl.evolves_trans [OF lfl.evolves_trans [OF e e2] IH(1)] by blast
qed

lemma begin_run_step:
  assumes "wf_lf s" "d \<in> installed s"
  shows "lfl.evolves s (s\<lparr>runs := d # runs s\<rparr>)"
  using assms
  by (auto simp: lfl.evolves_def lf_le_def lf_grows_def lf_others_def wf_lf_def log_determines_def llog.le_refl)

lemma run_logged_step:
  assumes "lfl.rely env" "wf_lf s" "d \<in> installed s"
  shows "lfl.evolves s (snd (run_logged env d s))" "d \<in> set (runs (snd (run_logged env d s)))"
    "log_determines (snd (run_logged env d s)) d (fst (run_logged env d s))"
proof -
  let ?L = "\<lparr>vals = lg_array (descs s d), count = 0\<rparr>" and ?s0 = "s\<lparr>runs := d # runs s\<rparr>"
  have d: "d \<in> dlive s" using wf_lfD(2) [OF assms(2,3)] .
  obtain r L' t where x: "exec env (thunk (descs s d)) 0 ?L ?s0 = (r, L', t)" by (metis prod_cases3)
  then have t: "run_logged env d s = (r, t)" by (simp add: run_logged_def)
  note b = begin_run_step [OF assms(2,3)] note B = lf_evolvesD [OF b assms(2)]
  have "wf_cursor ?L (lf_logs ?s0)" using wf_lfD(13) [OF assms(2) d] by (simp add: wf_cursor_def)
  note X = exec_step [OF assms(1) wf_lfD(12) [OF assms(2) d] B(1) this x]
  then have ev: "lfl.evolves ?s0 t" by blast
  note T = lf_evolvesD [OF ev B(1)]
  have "thunk (descs t d) = thunk (descs s d)" "lg_array (descs t d) = lg_array (descs s d)" "d \<in> set (runs t)"
    using T(2) d by (auto simp: lf_grows_def)
  with X show "log_determines (snd (run_logged env d s)) d (fst (run_logged env d s))"
    "d \<in> set (runs (snd (run_logged env d s)))" by (simp_all add: t log_determines_def)
  show "lfl.evolves s (snd (run_logged env d s))" using lfl.evolves_trans [OF b ev] by (simp add: t)
qed

lemma set_done_step:
  assumes "wf_lf s" "d \<in> installed s" "d \<in> set (runs s)" "log_determines s d r"
  shows "lfl.evolves s (set_done d s)"
proof -
  have det: "log_determines (set_done d s) e q = log_determines s e q" for e q
    by (simp add: log_determines_def set_done_def)
  have "wf_lf (set_done d s)" using assms unfolding wf_lf_def det by (auto simp: set_done_def)
  moreover have "lf_grows s (set_done d s)" by (auto simp: lf_grows_def set_done_def llog.le_refl)
  moreover have "lf_others s (set_done d s)" by (auto simp: lf_others_def set_done_def)
  ultimately show ?thesis by (simp add: lfl.evolves_def lf_le_def)
qed

lemma release_step:
  assumes "wf_lf s" "d \<in> installed s" "ddone (descs s d)" "lck s = of_nat d"
  shows "lfl.evolves s (s\<lparr>lck := counter (descs s d) + 1\<rparr>)" "counter (descs s d) + 1 \<noteq> of_nat d"
proof -
  let ?t = "s\<lparr>lck := counter (descs s d) + 1\<rparr>"
  have u: "\<not> locked_word (counter (descs s d) + 1)" using wf_lfD(5) [OF assms(1,2)] .
  have rest: "ddone (descs s e)" if "e \<in> installed s" for e
  proof (cases "e = d")
    case False
    then have "lck s \<noteq> of_nat e"
      using assms(4) descriptor_inj wf_lfD(4) [OF assms(1)] assms(2) that by metis
    then show ?thesis using wf_lfD(6) [OF assms(1) that] by blast
  qed (use assms(3) in simp)
  have "wf_lf ?t" using assms(1) u rest by (auto simp: wf_lf_def log_determines_def)
  moreover have "lf_grows s ?t" "lf_others s ?t" by (auto simp: lf_grows_def lf_others_def llog.le_refl)
  ultimately show "lfl.evolves s ?t" by (simp add: lfl.evolves_def lf_le_def)
  show "counter (descs s d) + 1 \<noteq> of_nat d"
    using u locked_descriptor [OF wf_lfD(4) [OF assms(1,2)]] by metis
qed

lemma clear_step:
  assumes "lfl.rely env" "wf_lf s" "d \<in> installed s" "ddone (descs s d)"
  shows "lfl.evolves s (clear env d s)" "lck (clear env d s) \<noteq> of_nat d"
proof -
  note e = lfl.relyD [OF assms(1), of s 2]
  note D = lf_evolvesD [OF e assms(2)]
  note r = release_step [OF D(1) D(4) [OF assms(3)] D(6) [OF wf_lfD(2) [OF assms(2,3)] assms(4)]]
  show "lfl.evolves s (clear env d s)"
    using e r(1) by (auto simp: clear_def Let_def intro: lfl.evolves_trans)
  show "lck (clear env d s) \<noteq> of_nat d"
    using r(2) by (auto simp: clear_def Let_def)
qed

lemma run_descriptor_step:
  assumes "lfl.rely env" "wf_lf s" "d \<in> installed s"
  shows "lfl.evolves s (run_descriptor env d s)" "ddone (descs (run_descriptor env d s) d)"
proof -
  let ?t = "snd (run_logged env d s)"
  note r = run_logged_step [OF assms] note D = lf_evolvesD [OF r(1) assms(2)]
  note e = lfl.relyD [OF assms(1), of ?t 0] note E = lf_evolvesD [OF e D(1)]
  have dl: "d \<in> dlive ?t" using D(5) wf_lfD(2) [OF assms(2,3)] .
  have "d \<in> set (runs (env 0 ?t))" using E(2) r(2) by (auto simp: lf_grows_def)
  from set_done_step [OF E(1) E(4) [OF D(4) [OF assms(3)]] this E(7) [OF dl r(3)]]
  show "lfl.evolves s (run_descriptor env d s)"
    using r(1) e unfolding run_descriptor_def by (blast intro: lfl.evolves_trans)
  show "ddone (descs (run_descriptor env d s) d)"
    by (simp add: run_descriptor_def set_done_def)
qed

text \<open>Changes of the thread's own variables.\<close>

lemma wf_lf_local [simp]:
  "wf_lf (s\<lparr>my_id := i\<rparr>) = wf_lf s" "wf_lf (s\<lparr>helping := h\<rparr>) = wf_lf s"
  "wf_lf (s\<lparr>my_epoch := e\<rparr>) = wf_lf s" "wf_lf (s\<lparr>acquired_by_helper := a\<rparr>) = wf_lf s"
  "wf_lf (s\<lparr>given_back := g\<rparr>) = wf_lf s"
  by (simp_all add: wf_lf_def log_determines_def)

text \<open>The part of a helper's work between its two changes of the thread's own variables.\<close>

lemma help_work:
  assumes "lfl.rely env" "wf_lf s" "d \<in> installed s"
  shows "lfl.evolves s (clear env d (env 4 (run_descriptor env d (env 5 s))))"
    "lck (clear env d (env 4 (run_descriptor env d (env 5 s)))) \<noteq> of_nat d"
proof -
  let ?a = "env 5 s"
  let ?b = "run_descriptor env d ?a"
  let ?c = "env 4 ?b"
  note ea = lfl.relyD [OF assms(1), of s 5] note A = lf_evolvesD [OF ea assms(2)]
  note eb = run_descriptor_step [OF assms(1) A(1) A(4) [OF assms(3)]]
  note B = lf_evolvesD [OF eb(1) A(1)]
  note ec = lfl.relyD [OF assms(1), of ?b 4] note C = lf_evolvesD [OF ec B(1)]
  have inst: "d \<in> installed ?b" using B(4) [OF A(4) [OF assms(3)]] .
  note cl = clear_step [OF assms(1) C(1) C(4) [OF inst] C(6) [OF wf_lfD(2) [OF B(1) inst] eb(2)]]
  show "lfl.evolves s (clear env d ?c)"
    using ea eb(1) ec cl(1) by (blast intro: lfl.evolves_trans)
  show "lck (clear env d ?c) \<noteq> of_nat d" by (rule cl(2))
qed

text \<open>A change that is undone at the end: \<open>enter\<close> sets the thread's variables for the helpee.\<close>

definition enter :: "addr \<Rightarrow> ('m, 'r) lfstate \<Rightarrow> ('m, 'r) lfstate" where
  "enter d s = (let s1 = (if epoch_num (descs s d) < my_epoch s then s\<lparr>my_epoch := epoch_num (descs s d)\<rparr> else s)
     in s1\<lparr>my_id := thread_id (descs s1 d), acquired_by_helper := insert d (acquired_by_helper s1)\<rparr>)"

lemma enter_fields:
  "wf_lf (enter d s) = wf_lf s" "lck (enter d s) = lck s" "descs (enter d s) = descs s"
  "dlive (enter d s) = dlive s" "installed (enter d s) = installed s" "runs (enter d s) = runs s"
  "owned (enter d s) = owned s" "given_back (enter d s) = given_back s" "helping (enter d s) = helping s"
  "lf_logs (enter d s) = lf_logs s" "array_pool (enter d s) = array_pool s" "my_lg (enter d s) = my_lg s"
  by (simp_all add: enter_def Let_def wf_lf_def log_determines_def)

lemma help_descriptor_enter:
  "help_descriptor env le rec s =
     (if \<not> rec \<and> helping s \<or> lck s \<noteq> le then (False, s)
      else let d = remove_tag le; s3 = env 3 (enter d s)
           in (lck s3 = le,
               (if lck s3 = le
                then (clear env d (env 4 (run_descriptor env d (env 5 (s3\<lparr>helping := True\<rparr>)))))\<lparr>helping := helping s3\<rparr>
                else s3)\<lparr>my_id := my_id s, my_epoch := my_epoch s\<rparr>))"
  by (auto simp: help_descriptor_def enter_def Let_def)

lemma evolves_local:
  assumes "lfl.evolves s' t'" "wf_lf s"
    "descs s' = descs s" "dlive s' = dlive s" "installed s' = installed s" "lck s' = lck s"
    "runs s' = runs s" "owned s' = owned s" "given_back s' = given_back s"
    "lf_logs s' = lf_logs s" "array_pool s' = array_pool s" "my_lg s' = my_lg s"
    "descs t' = descs t" "dlive t' = dlive t" "installed t' = installed t" "lck t' = lck t"
    "runs t' = runs t" "owned t' = owned t" "given_back t' = given_back t"
    "lf_logs t' = lf_logs t" "array_pool t' = array_pool t" "my_lg t' = my_lg t"
    "my_id t = my_id s" "helping t = helping s" "my_epoch t = my_epoch s"
  shows "lfl.evolves s t"
proof -
  have wf: "wf_lf s' = wf_lf s" "wf_lf t' = wf_lf t" using assms(3-) by (simp_all add: wf_lf_def log_determines_def)
  note D = lf_evolvesD [OF assms(1)]
  have "lf_grows s t" "lf_others s t" "wf_lf t"
    using D(1-3) assms(2-) wf by (simp_all add: lf_grows_def lf_others_def)
  then show ?thesis by (simp add: lfl.evolves_def lf_le_def)
qed

lemma help_descriptor_step:
  assumes "lfl.rely env" "wf_lf s" "le = of_nat d" "d \<in> installed s"
  shows "lfl.evolves s (snd (help_descriptor env le rec s))"
proof -
  have tag: "remove_tag le = d" using assms(3) wf_lfD(4) [OF assms(2,4)] by simp
  let ?s2 = "enter d s" let ?s3 = "env 3 ?s2" let ?w = "?s3\<lparr>helping := True\<rparr>"
  have wf2: "wf_lf ?s2" using assms(2) by (simp add: enter_fields)
  note e3 = lfl.relyD [OF assms(1), of ?s2 3] note C = lf_evolvesD [OF e3 wf2]
  have h3: "helping ?s3 = helping s" "given_back ?s3 = given_back s" "owned ?s3 = owned s"
    using C by (simp_all add: enter_fields)
  have inst: "d \<in> installed ?w" using C(4) assms(4) by (simp add: enter_fields)
  have wfw: "wf_lf ?w" using C(1) by simp
  note w = help_work [OF assms(1) wfw inst] note W = lf_evolvesD [OF w(1) wfw]
  let ?t = "clear env d (env 4 (run_descriptor env d (env 5 ?w)))"
  have "lfl.evolves s (?s3\<lparr>my_id := my_id s, my_epoch := my_epoch s\<rparr>)"
    by (rule evolves_local [OF e3 assms(2)]) (simp_all add: enter_fields h3)
  moreover have "lfl.evolves s (?t\<lparr>helping := helping ?s3, my_id := my_id s, my_epoch := my_epoch s\<rparr>)"
  proof -
    have "lfl.evolves ?s3 (?t\<lparr>helping := helping ?s3, my_id := my_id ?s3, my_epoch := my_epoch ?s3\<rparr>)"
      by (rule evolves_local [OF w(1) C(1)]) simp_all
    from lfl.evolves_trans [OF e3 this] show ?thesis
      by (rule evolves_local [OF _ assms(2)]) (simp_all add: enter_fields h3)
  qed
  ultimately show "lfl.evolves s (snd (help_descriptor env le rec s))"
    by (simp add: help_descriptor_enter tag Let_def)
qed

lemma read_lock_word:
  assumes "wf_lf s" "locked_word (lck s)"
  shows "remove_tag (lck s) \<in> installed s" "lck s = of_nat (remove_tag (lck s))"
  using wf_lfD(1) [OF assms] wf_lfD(4) [OF assms(1)] by auto

lemma wait_lock_step:
  assumes "lfl.rely env" "wf_lf s"
  shows "lfl.evolves s (lf_wait_lock env s)"
proof (cases "locked_word (lck s)")
  case True
  note e = lfl.relyD [OF assms(1), of s 6] note E = lf_evolvesD [OF e assms(2)]
  note h = help_descriptor_step [OF assms(1) E(1) read_lock_word(2) [OF assms(2) True] E(4) [OF read_lock_word(1) [OF assms(2) True]]]
  show ?thesis using lfl.evolves_trans [OF e h] by (simp add: lf_wait_lock_def Let_def)
qed (simp add: lf_wait_lock_def Let_def)

lemma finish_step:
  assumes "lfl.rely env" "wf_lf s" "d \<in> installed s"
  shows "lfl.evolves s (snd (finish env d s))" "lck (snd (finish env d s)) \<noteq> of_nat d"
    "log_determines (snd (finish env d s)) d (fst (finish env d s))"
    "d \<in> set (runs (snd (finish env d s)))" "ddone (descs (snd (finish env d s)) d)"
proof -
  let ?a = "snd (run_logged env d s)" and ?r = "fst (run_logged env d s)"
  let ?b = "env 6 ?a"
  let ?c = "set_done d ?b"
  let ?e = "env 7 ?c"
  have f: "snd (finish env d s) = clear env d ?e" "fst (finish env d s) = ?r"
    by (simp_all add: finish_def split_def Let_def)
  note ra = run_logged_step [OF assms] note A = lf_evolvesD [OF ra(1) assms(2)]
  note eb = lfl.relyD [OF assms(1), of ?a 6] note B = lf_evolvesD [OF eb A(1)]
  have da: "d \<in> dlive ?a" using A(5) wf_lfD(2) [OF assms(2,3)] .
  have ib: "d \<in> installed ?b" using B(4) A(4) assms(3) by blast
  have rb: "d \<in> set (runs ?b)" using B(2) ra(2) by (auto simp: lf_grows_def)
  have ec: "lfl.evolves ?b ?c" using set_done_step [OF B(1) ib rb B(7) [OF da ra(3)]] .
  note C = lf_evolvesD [OF ec B(1)]
  note ee = lfl.relyD [OF assms(1), of ?c 7] note E = lf_evolvesD [OF ee C(1)]
  have ic: "d \<in> installed ?c" "d \<in> dlive ?c" using C(4) [OF ib] wf_lfD(2) [OF C(1)] by blast+
  have de: "ddone (descs ?e d)" using E(6) [OF ic(2)] by (simp add: set_done_def)
  note cl = clear_step [OF assms(1) E(1) E(4) [OF ic(1)] de]
  have "lfl.evolves ?a (clear env d ?e)" using eb ec ee cl(1) by (blast intro: lfl.evolves_trans)
  note Z = lf_evolvesD [OF this A(1)]
  show "lfl.evolves s (snd (finish env d s))"
    unfolding f using ra(1) eb ec ee cl(1) by (blast intro: lfl.evolves_trans)
  show "lck (snd (finish env d s)) \<noteq> of_nat d" unfolding f by (rule cl(2))
  show "log_determines (snd (finish env d s)) d (fst (finish env d s))" unfolding f by (rule Z(7) [OF da ra(3)])
  show "d \<in> set (runs (snd (finish env d s)))" unfolding f using Z(2) ra(2) by (auto simp: lf_grows_def)
  show "ddone (descs (snd (finish env d s)) d)" unfolding f using lf_evolvesD(6) [OF cl(1) E(1) E(5) [OF ic(2)] de] .
qed

text \<open>A new descriptor and its installation are the two steps that are not of the others' kind.\<close>

lemma new_descriptor_fields:
  "alloc s \<in> owned (snd (new_descriptor alloc f c s))" "alloc s \<in> dlive (snd (new_descriptor alloc f c s))"
  "counter (descs (snd (new_descriptor alloc f c s)) (alloc s)) = c"
  "thunk (descs (snd (new_descriptor alloc f c s)) (alloc s)) = f"
  "given_back (snd (new_descriptor alloc f c s)) = given_back s" "lck (snd (new_descriptor alloc f c s)) = lck s"
  "helping (snd (new_descriptor alloc f c s)) = helping s"
  "installed (snd (new_descriptor alloc f c s)) = installed s"
  "d \<noteq> alloc s \<Longrightarrow> descs (snd (new_descriptor alloc f c s)) d = descs s d"
  "fst (new_descriptor alloc f c s) = alloc s"
  by (simp_all add: new_descriptor_def Let_def split_def)

lemma new_descriptor_step:
  assumes "wf_lf s" "alloc s \<notin> dlive s" "safe_thunk f"
  shows "wf_lf (snd (new_descriptor alloc f c s))" "lf_grows s (snd (new_descriptor alloc f c s))"
    "alloc s \<notin> installed (snd (new_descriptor alloc f c s))"
proof -
  obtain a H where H: "new_log_array (array_pool s) (lf_logs s) = (a, H)" by fastforce
  note L = new_log_array_step [OF wf_lfD(10,11) [OF assms(1)] H]
  let ?d = "\<lparr>thunk = f, ddone = False, thread_id = my_id s, counter = c, epoch_num = my_epoch s, lg_array = a\<rparr>"
  let ?t = "s\<lparr>descs := (descs s)(alloc s := ?d), dlive := insert (alloc s) (dlive s), lf_logs := H, owned := insert (alloc s) (owned s)\<rparr>"
  have t: "snd (new_descriptor alloc f c s) = ?t" by (simp add: new_descriptor_def H Let_def)
  have new: "d \<noteq> alloc s" if "d \<in> dlive s" for d using that assms(2) by blast
  have ni: "alloc s \<notin> installed s" "alloc s \<notin> set (runs s)"
    using wf_lfD(2,9) [OF assms(1)] assms(2) by blast+
  have new_i: "d \<noteq> alloc s" if "d \<in> installed s" for d using that ni by blast
  have g: "lf_grows s ?t" using new new_i L(2) by (auto simp: lf_grows_def)
  then show "lf_grows s (snd (new_descriptor alloc f c s))" by (simp add: t)
  have det: "\<exists>r. log_determines ?t d r" if "d \<in> dlive s" "ddone (descs s d)" for d
    using wf_lfD(8) [OF assms(1) that] log_determines_grows [OF g that(1)] by blast
  have arr: "lg_array (descs s d) \<in> la_live H" if "d \<in> dlive s" for d
    using wf_lfD(13) [OF assms(1) that] L(5) by blast
  show "wf_lf (snd (new_descriptor alloc f c s))"
    unfolding t wf_lf_def
  proof (intro conjI ballI impI)
    fix d assume d: "d \<in> dlive ?t" "ddone (descs ?t d)"
    then have "d \<in> dlive s" "ddone (descs s d)" by (auto split: if_splits)
    then show "d \<in> set (runs ?t)" "\<exists>r. log_determines ?t d r" using det wf_lfD(7) [OF assms(1)] by simp_all
  next
    fix d assume d: "d \<in> installed ?t"
    then have i: "d \<in> installed s" "d \<noteq> alloc s" using new_i by auto
    show "0 < d" "d < 2 ^ 63" using wf_lfD(3,4) [OF assms(1) i(1)] by auto
    show "\<not> locked_word (counter (descs ?t d) + 1)" using wf_lfD(5) [OF assms(1) i(1)] i(2) by simp
    show "ddone (descs ?t d)" if "lck ?t \<noteq> of_nat d" using wf_lfD(6) [OF assms(1) i(1)] i(2) that by simp
  next
    fix d assume "d \<in> dlive ?t"
    then have "d = alloc s \<or> d \<noteq> alloc s \<and> d \<in> dlive s" by auto
    then show "safe_thunk (thunk (descs ?t d))" "lg_array (descs ?t d) \<in> la_live (lf_logs ?t)"
      using assms(3) wf_lfD(12) [OF assms(1)] arr L(5) by auto
  next
    show "installed ?t \<subseteq> dlive ?t" "set (runs ?t) \<subseteq> installed ?t" using wf_lfD(2,9) [OF assms(1)] by auto
  qed (use wf_lfD(1) [OF assms(1)] wf_lfD(10) [OF assms(1)] L(1) in simp_all)
  show "alloc s \<notin> installed (snd (new_descriptor alloc f c s))" using ni by (simp add: t)
qed

lemma install_step:
  assumes "wf_lf s" "d \<in> dlive s" "d \<notin> installed s" "0 < d" "d < 2 ^ 63"
    "\<not> locked_word (lck s)" "\<not> locked_word (counter (descs s d) + 1)"
  shows "wf_lf (s\<lparr>lck := of_nat d, installed := insert d (installed s)\<rparr>)"
    "lf_grows s (s\<lparr>lck := of_nat d, installed := insert d (installed s)\<rparr>)"
proof -
  have "ddone (descs s e)" if "e \<in> installed s" for e
    using wf_lfD(6) [OF assms(1) that] locked_descriptor [OF wf_lfD(4) [OF assms(1) that]] assms(6) by metis
  then show "wf_lf (s\<lparr>lck := of_nat d, installed := insert d (installed s)\<rparr>)"
    using assms unfolding wf_lf_def log_determines_def by auto
qed (auto simp: lf_grows_def llog.le_refl)

lemma cas_step:
  assumes "lfl.rely env" "wf_lf s" "d \<in> dlive s" "d \<in> owned s" "d \<notin> installed s" "0 < d" "d < 2 ^ 63"
    "\<not> locked_word c" "\<not> locked_word (counter (descs s d) + 1)"
  shows "wf_lf (snd (lf_cas env c d s))" "lf_grows s (snd (lf_cas env c d s))"
    "d \<in> installed (snd (lf_cas env c d s)) \<longleftrightarrow> fst (lf_cas env c d s)"
    "owned (snd (lf_cas env c d s)) = owned s" "given_back (snd (lf_cas env c d s)) = given_back s"
    "d \<in> dlive (snd (lf_cas env c d s))" "counter (descs (snd (lf_cas env c d s)) d) = counter (descs s d)"
    "helping (snd (lf_cas env c d s)) = helping s"
proof -
  note e = lfl.relyD [OF assms(1), of s 1] note E = lf_evolvesD [OF e assms(2)]
  have i: "d \<in> dlive (env 1 s)" "d \<notin> installed (env 1 s)" "counter (descs (env 1 s) d) = counter (descs s d)"
    using E(5) [OF assms(3)] E(8,9) [OF assms(4)] assms(5) by auto
  note I = install_step [OF E(1) i(1,2) assms(6,7)]
  show "wf_lf (snd (lf_cas env c d s))" "lf_grows s (snd (lf_cas env c d s))"
    using I i(3) assms(2,8,9) E(1,2) by (auto simp: lf_cas_def Let_def intro: lf_grows_trans)
  show "d \<in> installed (snd (lf_cas env c d s)) \<longleftrightarrow> fst (lf_cas env c d s)"
    using i(2) assms(5) by (simp add: lf_cas_def Let_def)
qed (use lf_evolvesD [OF lfl.relyD [OF assms(1), of s 1] assms(2)] assms(3,4) in \<open>auto simp: lf_cas_def Let_def\<close>)

section \<open>A thunk runs with one result, or not at all\<close>

text \<open>
  The end of an acquisition of a descriptor \<open>d\<close> with thunk \<open>f\<close>: \<open>settled\<close> says that it was in the
  lock and has left it, is marked done, and that its log determines the result returned;
  or that it never was in the lock and nobody began to run the thunk.
\<close>

definition settled :: "addr \<Rightarrow> ('m, 'r) thunk \<Rightarrow> 'r option \<Rightarrow> ('m, 'r) lfstate \<Rightarrow> bool" where
  "settled d f res s \<longleftrightarrow>
     thunk (descs s d) = f \<and> lck s \<noteq> of_nat d
     \<and> (case res of
          None \<Rightarrow> d \<notin> installed s \<and> d \<notin> set (runs s)
        | Some r \<Rightarrow> d \<in> installed s \<and> ddone (descs s d) \<and> d \<in> set (runs s) \<and> log_determines s d r)"

text \<open>
  Every complete run of the descriptor's thunk, whenever it started and whoever runs it with
  whatever interference, returns \<open>r\<close>; all that is asked of the run is that its log entries and those
  of \<open>s\<close> are part of one log.
\<close>

definition every_run_returns :: "addr \<Rightarrow> 'r \<Rightarrow> ('m, 'r) lfstate \<Rightarrow> bool" where
  "every_run_returns d r s \<longleftrightarrow>
     (\<forall>env t r' t' F. lfl.rely env \<and> wf_lf t \<and> d \<in> installed t
        \<and> thunk (descs t d) = thunk (descs s d) \<and> lg_array (descs t d) = lg_array (descs s d)
        \<and> run_logged env d t = (r', t') \<and> log_le (lf_logs t') F \<and> log_le (lf_logs s) F \<longrightarrow> r' = r)"

lemma settled_every_run:
  assumes "settled d f (Some r) s"
  shows "every_run_returns d r s"
  unfolding every_run_returns_def
proof (intro allI impI, elim conjE)
  fix env t r' t' F
  assume a: "lfl.rely env" "wf_lf t" "d \<in> installed t" "thunk (descs t d) = thunk (descs s d)"
    "lg_array (descs t d) = lg_array (descs s d)" "run_logged env d t = (r', t')" "log_le (lf_logs t') F" "log_le (lf_logs s) F"
  note R = run_logged_step [OF a(1-3), unfolded a(6) fst_conv snd_conv]
  have "thunk (descs t' d) = thunk (descs t d)" "lg_array (descs t' d) = lg_array (descs t d)"
    using lf_evolvesD(2) [OF R(1) a(2)] wf_lfD(2) [OF a(2,3)] by (auto simp: lf_grows_def)
  then show "r' = r" using R(3) assms a(4,5,7,8) by (auto simp: settled_def log_determines_def)
qed

lemma settled_some:
  assumes "lfl.rely env" "wf_lf s" "d \<in> installed s" "thunk (descs s d) = f"
  shows "settled d f (Some (fst (finish env d s))) (retire_descriptor d (snd (finish env d s)))"
proof -
  note F = finish_step [OF assms(1-3)] note D = lf_evolvesD [OF F(1) assms(2)]
  have dl: "d \<in> dlive s" using wf_lfD(2) [OF assms(2,3)] .
  have "thunk (descs (snd (finish env d s)) d) = f"
    using D(2) dl assms(4) by (simp add: lf_grows_def)
  then show ?thesis
    using F(2-5) D(4) [OF assms(3)] by (simp add: settled_def retire_descriptor_def log_determines_def)
qed

lemma settled_none:
  assumes "wf_lf s" "d \<in> dlive s" "d \<notin> installed s" "d < 2 ^ 63" "thunk (descs s d) = f"
  shows "settled d f None (retire_descriptor d s)"
  using not_installed_not_run [OF assms(1-3)] assms
  by (simp add: settled_def retire_descriptor_def)

text \<open>What a thread knows of its descriptor before it has installed it.\<close>

definition pending :: "addr \<Rightarrow> ('m, 'r) thunk \<Rightarrow> ('m, 'r) lfstate \<Rightarrow> ('m, 'r) lfstate \<Rightarrow> bool" where
  "pending d f s0 s \<longleftrightarrow> wf_lf s \<and> lf_grows s0 s \<and> d \<in> dlive s \<and> d \<in> owned s \<and> d \<notin> installed s
     \<and> thunk (descs s d) = f \<and> given_back s = given_back s0 \<and> helping s = helping s0"

lemma pending_evolves:
  assumes "pending d f s0 s" "lfl.evolves s t"
  shows "pending d f s0 t" "counter (descs t d) = counter (descs s d)"
proof -
  note P = assms(1) [unfolded pending_def]
  have wf: "wf_lf s" using P by blast
  note D = lf_evolvesD [OF assms(2) wf]
  have "thunk (descs t d) = f" using D(2) P by (simp add: lf_grows_def)
  then show "pending d f s0 t" "counter (descs t d) = counter (descs s d)"
    using P D D(8) [of d] D(9) [of d] by (auto simp: pending_def intro: lf_grows_trans)
qed

lemma pending_new:
  assumes "lfl.rely env" "wf_lf s" "alloc (env i s) \<notin> dlive (env i s)" "safe_thunk f"
  shows "pending (alloc (env i s)) f s (snd (new_descriptor alloc f c (env i s)))"
    "counter (descs (snd (new_descriptor alloc f c (env i s))) (alloc (env i s))) = c"
    "fst (new_descriptor alloc f c (env i s)) = alloc (env i s)"
proof -
  note e = lfl.relyD [OF assms(1), of s i] note E = lf_evolvesD [OF e assms(2)]
  note N = new_descriptor_step [where alloc = alloc, OF E(1) assms(3,4)]
  show "pending (alloc (env i s)) f s (snd (new_descriptor alloc f c (env i s)))"
    using N E(2,11,13) by (auto simp: pending_def new_descriptor_fields intro: lf_grows_trans)
qed (simp_all add: new_descriptor_fields)

lemma pending_cas:
  assumes "lfl.rely env" "pending d f s0 s" "0 < d" "d < 2 ^ 63"
    "\<not> locked_word c" "\<not> locked_word (counter (descs s d) + 1)"
  shows "\<not> fst (lf_cas env c d s) \<Longrightarrow> pending d f s0 (snd (lf_cas env c d s))"
    "wf_lf (snd (lf_cas env c d s))" "lf_grows s0 (snd (lf_cas env c d s))"
    "d \<in> installed (snd (lf_cas env c d s)) \<longleftrightarrow> fst (lf_cas env c d s)"
    "thunk (descs (snd (lf_cas env c d s)) d) = f" "given_back (snd (lf_cas env c d s)) = given_back s0"
    "counter (descs (snd (lf_cas env c d s)) d) = counter (descs s d)"
    "helping (snd (lf_cas env c d s)) = helping s0" "d \<in> owned (snd (lf_cas env c d s))"
proof -
  have P: "wf_lf s" "lf_grows s0 s" "d \<in> dlive s" "d \<in> owned s" "d \<notin> installed s"
    "thunk (descs s d) = f" "given_back s = given_back s0" "helping s = helping s0"
    using assms(2) by (simp_all add: pending_def)
  note C = cas_step [OF assms(1) P(1,3,4,5) assms(3-6)]
  show th: "thunk (descs (snd (lf_cas env c d s)) d) = f" using C(2) P(3,6) by (simp add: lf_grows_def)
  show gr: "lf_grows s0 (snd (lf_cas env c d s))" using C(2) P(2) by (blast intro: lf_grows_trans)
  show "pending d f s0 (snd (lf_cas env c d s))" if "\<not> fst (lf_cas env c d s)"
    using that th gr C P by (simp add: pending_def)
qed (use cas_step [OF assms(1) _ _ _ _ assms(3-6)] assms(2) in \<open>auto simp: pending_def\<close>)

lemma try_lock_settles:
  assumes env: "lfl.rely env" and wf: "wf_lf s" and fresh: "alloc (env 8 s) \<notin> dlive (env 8 s)"
    and addr: "0 < alloc (env 8 s)" "alloc (env 8 s) < 2 ^ 63"
    and count: "lck s \<noteq> - 1" and other: "\<not> lf_is_self_locked s" and safe: "safe_thunk f"
  shows "settled (alloc (env 8 s)) f (fst (lf_try_lock_result env alloc f do_help s)) (snd (lf_try_lock_result env alloc f do_help s))
     \<and> wf_lf (snd (lf_try_lock_result env alloc f do_help s)) \<and> lf_grows s (snd (lf_try_lock_result env alloc f do_help s))
     \<and> given_back (snd (lf_try_lock_result env alloc f do_help s)) = alloc (env 8 s) # given_back s"
proof -
  let ?c = "if locked_word (lck s) then 0 else lck s"
  define d where "d = alloc (env 8 s)"
  define s1 where "s1 = snd (new_descriptor alloc f ?c (env 8 s))"
  have N: "pending d f s s1" "counter (descs s1 d) = ?c" "new_descriptor alloc f ?c (env 8 s) = (d, s1)"
    unfolding d_def s1_def using pending_new [where alloc = alloc and i = 8, OF env wf fresh safe]
    by (simp_all add: prod_eq_iff)
  have self: "\<not> (locked_word (lck s) \<and> lock_is_self (lck s) s)"
    using other by (simp add: lf_is_self_locked_def)
  note e1 = lfl.relyD [OF env, of s1 9] note P1 = pending_evolves [OF N(1) e1]
  show ?thesis
  proof (cases "locked_word (lck s)")
    case True
    let ?h = "if do_help then snd (help_descriptor env (lck s) False (env 9 s1)) else s1"
    have g: "lf_grows s (env 9 s1)" "wf_lf (env 9 s1)" using P1(1) by (simp_all add: pending_def)
    have "remove_tag (lck s) \<in> installed (env 9 s1)"
      using g(1) read_lock_word(1) [OF wf True] by (auto simp: lf_grows_def)
    note h = help_descriptor_step [OF env g(2) read_lock_word(2) [OF wf True] this]
    have "pending d f s ?h" using N(1) pending_evolves(1) [OF P1(1) h] by simp
    then have p: "wf_lf ?h" "d \<in> dlive ?h" "d \<notin> installed ?h" "thunk (descs ?h d) = f" "lf_grows s ?h"
      "given_back ?h = given_back s" by (simp_all add: pending_def)
    have "lf_try_lock_result env alloc f do_help s = (None, retire_descriptor d ?h)"
      using self N(3) True by (simp add: lf_try_lock_result_def Let_def)
    then show ?thesis
      using settled_none [OF p(1-3) addr(2) [folded d_def] p(4)] p(1,5,6)
      by (simp add: retire_descriptor_def d_def lf_grows_def)
  next
    case False
    let ?a = "snd (lf_cas env (lck s) d (env 9 s1))"
    have "\<not> locked_word (counter (descs (env 9 s1) d) + 1)"
      using P1(2) N(2) False unlocked_above(2) [OF False order_refl count] by simp
    note C = pending_cas [OF env P1(1) addr [folded d_def] False this]
    note e2 = lfl.relyD [OF env, of ?a 10] note D = lf_evolvesD [OF e2 C(2)]
    let ?b = "env 10 ?a"
    have inst: "d \<in> installed ?b \<longleftrightarrow> d \<in> installed ?a" by (rule D(8) [OF C(9)])
    have dl: "d \<in> dlive ?a" using C(1) C(4) wf_lfD(2) [OF C(2)] by (cases "fst (lf_cas env (lck s) d (env 9 s1))") (auto simp: pending_def)
    have th: "thunk (descs ?b d) = f" using D(2) dl C(5) by (simp add: lf_grows_def)
    have got: "ddone (descs ?b d) \<or> lck ?b = of_nat d \<longleftrightarrow> d \<in> installed ?b"
      using not_installed_not_run [OF D(1) D(5) [OF dl]] addr(2) wf_lfD(6) [OF D(1)] by (auto simp: d_def)
    show ?thesis
    proof (cases "d \<in> installed ?b")
      case True
      note e3 = lfl.relyD [OF env, of ?b 11] note E = lf_evolvesD [OF e3 D(1)]
      let ?e = "env 11 ?b"
      have te: "thunk (descs ?e d) = f" using E(2) D(5) [OF dl] th by (simp add: lf_grows_def)
      note F = finish_step [OF env E(1) E(4) [OF True]] note G = lf_evolvesD [OF F(1) E(1)]
      have "lf_try_lock_result env alloc f do_help s
          = (Some (fst (finish env d ?e)), retire_descriptor d (snd (finish env d ?e)))"
        using self N(3) False got True by (simp add: lf_try_lock_result_def Let_def split_def)
      moreover have "lf_grows s (snd (finish env d ?e))"
        using C(3) D(2) E(2) G(2) by (blast intro: lf_grows_trans)
      ultimately show ?thesis
        using settled_some [OF env E(1) E(4) [OF True] te] G(1,11) E(11) D(11) C(6)
        by (simp add: retire_descriptor_def d_def lf_grows_def)
    next
      case out: False
      have "lf_try_lock_result env alloc f do_help s = (None, retire_descriptor d ?b)"
        using self N(3) False got out by (simp add: lf_try_lock_result_def Let_def split_def)
      moreover have "lf_grows s ?b" using C(3) D(2) by (blast intro: lf_grows_trans)
      ultimately show ?thesis
        using settled_none [OF D(1) D(5) [OF dl] out addr(2) [folded d_def] th] D(1,11) C(6)
        by (simp add: retire_descriptor_def d_def lf_grows_def)
    qed
  qed
qed

section \<open>The loop of \<open>lf_with_lock\<close>\<close>

text \<open>What the thread knows of a word it read: the descriptor it names was in the lock.\<close>

definition read_ok :: "u64 \<Rightarrow> ('m, 'r) lfstate \<Rightarrow> bool" where
  "read_ok w s \<longleftrightarrow> w \<noteq> - 1 \<and> (locked_word w \<longrightarrow> w = of_nat (remove_tag w) \<and> remove_tag w \<in> installed s)"

lemma read_ok_lck: "wf_lf s \<Longrightarrow> lck s \<noteq> - 1 \<Longrightarrow> read_ok (lck s) s"
  using read_lock_word by (auto simp: read_ok_def)

lemma read_ok_grows: "read_ok w s \<Longrightarrow> lf_grows s t \<Longrightarrow> read_ok w t"
  by (auto simp: read_ok_def lf_grows_def)

lemma read_ok_not_mine:
  assumes "read_ok w s" "wf_lf s" "d \<notin> installed s" "d < 2 ^ 63"
  shows "of_nat d \<noteq> w"
proof
  assume w: "of_nat d = w"
  then have "locked_word w" using locked_descriptor [OF assms(4)] by simp
  then have "remove_tag w \<in> installed s" using assms(1) by (simp add: read_ok_def)
  moreover have "remove_tag w = d" using w remove_tag_descriptor [OF assms(4)] by metis
  ultimately show False using assms(3) by simp
qed

definition raise_counter :: "addr \<Rightarrow> u64 \<Rightarrow> ('m, 'r) lfstate \<Rightarrow> ('m, 'r) lfstate" where
  "raise_counter d w s =
     (if \<not> locked_word w \<and> counter (descs s d) < w
      then s\<lparr>descs := (descs s)(d := (descs s d)\<lparr>counter := w\<rparr>)\<rparr> else s)"

lemma raise_counter_step:
  assumes "pending d f s0 s" "w \<noteq> - 1" "counter (descs s d) \<noteq> - 1"
  shows "pending d f s0 (raise_counter d w s)" "lf_grows s (raise_counter d w s)"
    "counter (descs (raise_counter d w s) d) \<noteq> - 1"
    "\<not> locked_word w \<Longrightarrow> \<not> locked_word (counter (descs (raise_counter d w s) d) + 1)"
proof -
  let ?t = "s\<lparr>descs := (descs s)(d := (descs s d)\<lparr>counter := w\<rparr>)\<rparr>"
  have d: "d \<notin> installed s" "wf_lf s" using assms(1) by (simp_all add: pending_def)
  have ne: "e \<noteq> d" if "e \<in> installed s" for e using that d(1) by blast
  have det: "log_determines ?t e r = log_determines s e r" for e r by (simp add: log_determines_def)
  have "wf_lf ?t" using d(2) ne unfolding wf_lf_def det by auto
  moreover have g: "lf_grows s ?t" using ne by (auto simp: lf_grows_def llog.le_refl)
  ultimately show "pending d f s0 (raise_counter d w s)"
    using assms(1) by (auto simp: pending_def raise_counter_def intro: lf_grows_trans)
  show "lf_grows s (raise_counter d w s)" using g by (simp add: raise_counter_def)
  show ne1: "counter (descs (raise_counter d w s) d) \<noteq> - 1" using assms(2,3) by (simp add: raise_counter_def)
  show "\<not> locked_word (counter (descs (raise_counter d w s) d) + 1)" if "\<not> locked_word w"
  proof (rule unlocked_above(2) [OF that _ ne1])
    show "w \<le> counter (descs (raise_counter d w s) d)" using that by (auto simp: raise_counter_def)
  qed
qed

text \<open>One round, from a descriptor that is not yet in the lock.\<close>

lemma with_lock_round:
  assumes "\<And>i. lfl.rely (env i)" "pending d f s0 s" "0 < d" "d < 2 ^ 63" "read_ok w s"
    "counter (descs s d) \<noteq> - 1"
  shows "(\<exists>s3. wf_lf s3 \<and> lf_grows s0 s3 \<and> d \<in> installed s3 \<and> thunk (descs s3 d) = f
            \<and> given_back s3 = given_back s0
            \<and> lf_with_lock_loop env (Suc fuel) d w s
              = Some (fst (finish (env fuel) d s3), retire_descriptor d (snd (finish (env fuel) d s3))))
    \<or> (\<exists>s4. pending d f s0 s4 \<and> counter (descs s4 d) \<noteq> - 1
          \<and> lf_with_lock_loop env (Suc fuel) d w s = lf_with_lock_loop env fuel d (lck (env fuel 12 s4)) (env fuel 12 s4))"
proof -
  let ?e = "env fuel" and ?s1 = "raise_counter d w s"
  let ?s2 = "?e 8 ?s1"
  have "w \<noteq> - 1" using assms(5) by (simp add: read_ok_def)
  note R = raise_counter_step [OF assms(2) this assms(6)]
  note e2 = lfl.relyD [OF assms(1) [of fuel], of ?s1 8] note P2 = pending_evolves [OF R(1) e2]
  have p2: "wf_lf ?s2" "d \<in> dlive ?s2" "d \<notin> installed ?s2" using P2(1) by (simp_all add: pending_def)
  have wf1: "wf_lf ?s1" using R(1) by (simp add: pending_def)
  have r2: "read_ok w ?s2" using assms(5) R(2) lf_evolvesD(2) [OF e2 wf1] by (blast intro: read_ok_grows)
  have nd: "\<not> ddone (descs ?s2 d)" "of_nat d \<noteq> w"
    using not_installed_not_run(1) [OF p2] read_ok_not_mine [OF r2 p2(1,3) assms(4)] by auto
  note e3 = lfl.relyD [OF assms(1) [of fuel], of ?s2 9] note P3 = pending_evolves [OF P2(1) e3]
  have step: "lf_with_lock_loop env (Suc fuel) d w s =
      (let (won, s3) = (if \<not> locked_word w then lf_cas ?e w d (?e 9 ?s2) else (False, ?s2))
       in if won then let (r, s4) = finish ?e d (?e 10 s3) in Some (r, retire_descriptor d s4)
          else let s4 = (if locked_word w then snd (help_descriptor ?e w False (?e 11 s3)) else s3); s5 = ?e 12 s4
               in lf_with_lock_loop env fuel d (lck s5) s5)"
    using nd by (auto simp: raise_counter_def Let_def split_def)
  show ?thesis
  proof (cases "locked_word w")
    case True
    note e4 = lfl.relyD [OF assms(1) [of fuel], of ?s2 11] note P4 = pending_evolves [OF P2(1) e4]
    have wf4: "wf_lf (?e 11 ?s2)" using P4(1) by (simp add: pending_def)
    have "read_ok w (?e 11 ?s2)" using r2 lf_evolvesD(2) [OF e4 p2(1)] by (rule read_ok_grows)
    then have "w = of_nat (remove_tag w)" "remove_tag w \<in> installed (?e 11 ?s2)"
      using True by (simp_all add: read_ok_def)
    note h = help_descriptor_step [OF assms(1) [of fuel] wf4 this]
    show ?thesis
      using pending_evolves [OF P4(1) h] P4(2) P2(2) R(3) True
      by (intro disjI2 exI [of _ "snd (help_descriptor ?e w False (?e 11 ?s2))"]) (simp add: step Let_def del: lf_with_lock_loop.simps)
  next
    case False
    have "\<not> locked_word (counter (descs (?e 9 ?s2) d) + 1)" using R(4) [OF False] P3(2) P2(2) by simp
    note C = pending_cas [OF assms(1) [of fuel] P3(1) assms(3,4) False this]
    let ?a = "snd (lf_cas ?e w d (?e 9 ?s2))"
    show ?thesis
    proof (cases "fst (lf_cas ?e w d (?e 9 ?s2))")
      case True
      note e5 = lfl.relyD [OF assms(1) [of fuel], of ?a 10] note D = lf_evolvesD [OF e5 C(2)]
      have i: "d \<in> installed ?a" using C(4) True by blast
      have "thunk (descs (?e 10 ?a) d) = f" using D(2) C(5) wf_lfD(2) [OF C(2) i] by (simp add: lf_grows_def)
      moreover have "lf_grows s0 (?e 10 ?a)" using C(3) D(2) by (rule lf_grows_trans)
      ultimately show ?thesis
        using D(1) D(4) [OF i] D(11) C(6) True False
        by (intro disjI1 exI [of _ "?e 10 ?a"]) (simp add: step Let_def split_def del: lf_with_lock_loop.simps)
    next
      case lost: False
      show ?thesis
        using C(1) [OF lost] C(7) P3(2) P2(2) R(3) lost False
        by (intro disjI2 exI [of _ ?a]) (simp add: step Let_def split_def del: lf_with_lock_loop.simps)
    qed
  qed
qed

lemma with_lock_loop_settles:
  assumes "\<And>i. lfl.rely (env i)" "\<And>i j s. lck (env i j s) \<noteq> - 1" "0 < d" "d < 2 ^ 63"
    "lf_with_lock_loop env fuel d w s = Some (r, s')" "pending d f s0 s" "read_ok w s" "counter (descs s d) \<noteq> - 1"
  shows "settled d f (Some r) s' \<and> wf_lf s' \<and> lf_grows s0 s' \<and> given_back s' = d # given_back s0"
  using assms(5-)
proof (induction fuel arbitrary: w s)
  case (Suc fuel)
  from with_lock_round [where env = env and fuel = fuel, OF assms(1) Suc.prems(2) assms(3,4) Suc.prems(3,4)]
  show ?case
  proof (elim disjE exE conjE)
    fix s3
    assume a: "wf_lf s3" "lf_grows s0 s3" "d \<in> installed s3" "thunk (descs s3 d) = f" "given_back s3 = given_back s0"
      "lf_with_lock_loop env (Suc fuel) d w s = Some (fst (finish (env fuel) d s3), retire_descriptor d (snd (finish (env fuel) d s3)))"
    note F = finish_step [OF assms(1) [of fuel] a(1,3)] note G = lf_evolvesD [OF F(1) a(1)]
    show ?thesis
      using settled_some [OF assms(1) [of fuel] a(1,3,4)] Suc.prems(1) a(6) G(1,11) a(5) lf_grows_trans [OF a(2) G(2)]
      by (auto simp: retire_descriptor_def lf_grows_def)
  next
    fix s4
    assume a: "pending d f s0 s4" "counter (descs s4 d) \<noteq> - 1"
      "lf_with_lock_loop env (Suc fuel) d w s = lf_with_lock_loop env fuel d (lck (env fuel 12 s4)) (env fuel 12 s4)"
    note e = lfl.relyD [OF assms(1) [of fuel], of s4 12] note P = pending_evolves [OF a(1) e]
    have "wf_lf (env fuel 12 s4)" using P(1) by (simp add: pending_def)
    then show ?thesis
      using Suc.IH [OF _ P(1) read_ok_lck] Suc.prems(1) a(2,3) assms(2) P(2) by simp
  qed
qed simp

lemma with_lock_settles:
  assumes "\<And>i. lfl.rely (env i)" "\<And>i j s. lck (env i j s) \<noteq> - 1" "wf_lf s" "lck s \<noteq> - 1"
    "alloc (env fuel 13 s) \<notin> dlive (env fuel 13 s)" "0 < alloc (env fuel 13 s)" "alloc (env fuel 13 s) < 2 ^ 63"
    "safe_thunk f" "lf_with_lock env alloc fuel f s = Some (r, s')"
  shows "settled (alloc (env fuel 13 s)) f (Some r) s' \<and> wf_lf s' \<and> lf_grows s s'
    \<and> given_back s' = alloc (env fuel 13 s) # given_back s"
proof -
  let ?c = "if locked_word (lck s) then 0 else lck s"
  let ?d = "alloc (env fuel 13 s)" and ?s1 = "snd (new_descriptor alloc f ?c (env fuel 13 s))"
  note N = pending_new [where alloc = alloc and i = 13 and c = ?c and f = f, OF assms(1) [of fuel] assms(3,5,8)]
  have "lf_with_lock_loop env fuel ?d (lck s) ?s1 = Some (r, s')"
    using assms(9) N(3) by (simp add: lf_with_lock_def Let_def split_def)
  moreover have "read_ok (lck s) ?s1"
    using read_ok_lck [OF assms(3,4)] N(1) by (auto simp: pending_def intro: read_ok_grows)
  moreover have "counter (descs ?s1 ?d) \<noteq> - 1" using N(2) assms(4) by simp
  ultimately show ?thesis
    using with_lock_loop_settles [where env = env, OF assms(1,2) assms(6,7) _ N(1)] by blast
qed

text \<open>
  With the other threads stopped, whatever descriptor is in the lock, two rounds are enough:
  the first runs the descriptor's thunk and clears the lock.
\<close>

abbreviation stopped :: "nat \<Rightarrow> ('m, 'r) lfenv" where
  "stopped \<equiv> \<lambda>fuel i s. s"

lemma with_lock_free_round:
  assumes "\<not> locked_word (lck s)"
  shows "lf_with_lock_loop stopped (Suc n) d (lck s) s \<noteq> None"
  using assms by (auto simp: lf_cas_def Let_def split_def)

lemma exec_stopped [simp]:
  "lck (snd (snd (exec (\<lambda>i s. s) f n L s))) = lck s" "descs (snd (snd (exec (\<lambda>i s. s) f n L s))) = descs s"
  by (induction f arbitrary: n L s) (simp_all add: Let_def split: prod.splits)

lemma run_logged_stopped [simp]:
  "lck (snd (run_logged (\<lambda>i s. s) d s)) = lck s" "descs (snd (run_logged (\<lambda>i s. s) d s)) = descs s"
  using exec_stopped [of "thunk (descs s d)" 0 "\<lparr>vals = lg_array (descs s d), count = 0\<rparr>" "s\<lparr>runs := d # runs s\<rparr>"]
  by (simp_all add: run_logged_def split_def Let_def)

lemma help_stopped_clears:
  assumes "d < 2 ^ 63" "lck s = of_nat d" "\<not> helping s"
  shows "lck (snd (help_descriptor (\<lambda>i s. s) (of_nat d) False s)) = counter (descs s d) + 1"
  using assms by (simp add: help_descriptor_enter Let_def clear_def run_descriptor_def set_done_def enter_def)

lemma with_lock_stopped:
  assumes "wf_lf s" "\<not> helping s" "alloc s \<notin> dlive s"
  shows "lf_with_lock stopped alloc (Suc (Suc n)) f s \<noteq> None"
proof -
  let ?c = "if locked_word (lck s) then 0 else lck s"
  let ?d = "alloc s" and ?s1 = "snd (new_descriptor alloc f ?c s)"
  have l1: "lck ?s1 = lck s" "helping ?s1 = helping s" by (simp_all add: new_descriptor_fields)
  have W: "lf_with_lock stopped alloc (Suc (Suc n)) f s = lf_with_lock_loop stopped (Suc (Suc n)) ?d (lck s) ?s1"
    by (simp add: lf_with_lock_def Let_def split_def new_descriptor_fields del: lf_with_lock_loop.simps)
  show ?thesis
  proof (cases "locked_word (lck s)")
    case False
    then have "lf_with_lock_loop stopped (Suc (Suc n)) ?d (lck ?s1) ?s1 \<noteq> None"
      by (intro with_lock_free_round) (simp add: new_descriptor_fields)
    then show ?thesis unfolding W l1 .
  next
    case True
    let ?e = "remove_tag (lck s)"
    let ?s4 = "snd (help_descriptor (\<lambda>i s. s) (lck s) False ?s1)"
    have e: "?e \<in> installed s" "lck s = of_nat ?e" using read_lock_word [OF assms(1) True] by simp_all
    have small: "?e < 2 ^ 63" using wf_lfD(4) [OF assms(1) e(1)] .
    have same: "descs ?s1 ?e = descs s ?e"
      by (rule new_descriptor_fields(9)) (use wf_lfD(2) [OF assms(1) e(1)] assms(3) in auto)
    have "lck ?s4 = counter (descs ?s1 ?e) + 1"
      using help_stopped_clears [OF small, of ?s1] e(2) l1 assms(2) by simp
    then have "\<not> locked_word (lck ?s4)" using wf_lfD(5) [OF assms(1) e(1)] same by simp
    then have "lf_with_lock_loop stopped (Suc n) ?d (lck ?s4) ?s4 \<noteq> None" by (rule with_lock_free_round)
    then have "lf_with_lock_loop stopped (Suc (Suc n)) ?d (lck s) ?s1 \<noteq> None"
      using True by (subst lf_with_lock_loop.simps) (simp add: Let_def split_def del: lf_with_lock_loop.simps)
    then show ?thesis unfolding W .
  qed
qed

section \<open>Properties\<close>

text \<open>C20: \<open>lf_try_lock_result\<close> of the lock-free lock, called by a thread that does not hold the lock
  and with any well-behaved interference, in which helpers may run its thunk again and again: when it returns
  a value, its descriptor was in the lock, is marked done and has left the lock, and every complete run of the
  thunk, earlier, overlapping or later and whatever memory it saw, returns that same value; when it returns
  none, the descriptor never was in the lock and nobody began to run the thunk. Either
  way the invariant holds again, the logs only grew and the descriptor is retired once.\<close>

theorem lf_try_lock_agrees:
  assumes "lfl.rely env" "wf_lf s" "alloc (env 8 s) = d" "d \<notin> dlive (env 8 s)" "0 < d" "d < 2 ^ 63"
    and "lck s \<noteq> - 1" "\<not> lf_is_self_locked s" "safe_thunk f"
    and "lf_try_lock_result env alloc f do_help s = (res, s')"
  shows "lck s' \<noteq> of_nat d \<and> thunk (descs s' d) = f \<and> wf_lf s' \<and> lf_grows s s' \<and> given_back s' = d # given_back s
    \<and> (case res of
         None \<Rightarrow> d \<notin> installed s' \<and> d \<notin> set (runs s')
       | Some r \<Rightarrow> d \<in> installed s' \<and> ddone (descs s' d) \<and> d \<in> set (runs s') \<and> every_run_returns d r s')"
  using try_lock_settles [where env = env and s = s and alloc = alloc and f = f and do_help = do_help] assms
    settled_every_run [of d f _ s']
  by (auto simp: settled_def split: option.splits)

text \<open>A lock whose holder, descriptor 5, has stopped before it ran its thunk.\<close>

definition demo_lock :: "(u64, u64) lfstate" where
  "demo_lock = \<lparr>lck = 5, descs = (\<lambda>d. \<lparr>thunk = demo_thunk, ddone = False, thread_id = 2, counter = lock_init,
      epoch_num = 0, lg_array = 1\<rparr>), dlive = {5}, acquired_by_helper = {}, shared = 4, lf_logs = demo_mem,
      array_pool = demo_alloc, my_id = 1, helping = False, my_epoch = 0, my_lg = empty_Log, given_back = [], owned = {},
      installed = {5}, runs = []\<rparr>"

lemma demo_thunk_safe: "safe_thunk demo_thunk"
proof -
  have "x OR 1 \<noteq> (0::u64)" for x
  proof
    assume "x OR 1 = (0::u64)"
    then have "bit (x OR 1) 0 = bit (0::u64) 0" by simp
    then show False by (simp add: bit_simps)
  qed
  then show ?thesis by (simp add: demo_thunk_def)
qed

lemma demo_lock_wf: "wf_lf demo_lock" "wf_lf (demo_lock\<lparr>lck := lock_init, dlive := {}, installed := {}\<rparr>)"
  using demo_alloc_ok demo_mem_wf(1) demo_thunk_safe
  by (simp_all add: wf_lf_def demo_lock_def lock_init_def locked_word_def push_bit_of_1) (simp_all add: demo_mem_def)

text \<open>A thread takes the free lock and runs \<open>demo_thunk\<close> on a memory of 4.\<close>

theorem lf_try_lock_agrees_witness:
  "\<exists>s'. lf_try_lock_result (\<lambda>i s. s) (\<lambda>s. 6) demo_thunk True (demo_lock\<lparr>lck := lock_init, dlive := {}, installed := {}\<rparr>) = (Some 14, s')
     \<and> every_run_returns 6 14 s' \<and> lck s' \<noteq> 6"
proof -
  let ?s = "demo_lock\<lparr>lck := lock_init, dlive := {}, installed := {}\<rparr>"
  have "lck ?s \<noteq> - 1" "\<not> lf_is_self_locked ?s"
    by (simp_all add: lock_init_def lf_is_self_locked_def locked_word_def push_bit_of_1)
  moreover have "fst (lf_try_lock_result (\<lambda>i s. s) (\<lambda>s. 6) demo_thunk True ?s) = Some 14"
    by (simp add: lf_try_lock_result_def demo_lock_def lock_init_def locked_word_def push_bit_of_1
        new_descriptor_def new_log_array_def lf_cas_def finish_def run_logged_def demo_thunk_def demo_alloc_def
        log_array_init_def log_eval)
  then obtain s' where r: "lf_try_lock_result (\<lambda>i s. s) (\<lambda>s. 6) demo_thunk True ?s = (Some 14, s')"
    by (metis prod.collapse)
  ultimately show ?thesis
    using lf_try_lock_agrees [OF lfl.rely_idle demo_lock_wf(2) refl _ _ _ _ _ demo_thunk_safe r] r by simp
qed

text \<open>C21: the lock-free lock is not blocked by a holder that has stopped: with all other
  threads at rest, \<open>lf_with_lock\<close> returns within two rounds of its loop from every well-formed state,
  whether the lock is taken or not.\<close>

theorem lf_with_lock_live:
  assumes "wf_lf s" "\<not> helping s" "alloc s \<notin> dlive s"
  shows "\<exists>r s'. lf_with_lock (\<lambda>fuel i s. s) alloc (Suc (Suc n)) f s = Some (r, s')"
  using with_lock_stopped [where alloc = alloc, OF assms] by (auto simp only: not_None_eq split_paired_Ex)

theorem lf_with_lock_live_witness:
  "\<exists>r s'. lf_with_lock (\<lambda>fuel i s. s) (\<lambda>s. 6) 2 demo_thunk demo_lock = Some (r, s')"
  using lf_with_lock_live [where alloc = "\<lambda>s. 6" and n = 0, OF demo_lock_wf(1)]
  by (simp add: demo_lock_def numeral_2_eq_2 del: lf_with_lock_loop.simps)

end
