(* ===== verification/Verlib_Timestamps.thy ===== *)
theory Verlib_Timestamps
  imports Flock_Epoch
begin

text \<open>
  The global time stamps of the versioned pointers, \<^verbatim>\<open>include/verlib/timestamps.h\<close>. The
  code offers several clocks; a build chooses one. A snapshot takes a read stamp, a write
  stamps its new version after installing it. What makes snapshots consistent is the
  contract \<open>stamp_clock\<close>: a write stamp that is requested after a read stamp was returned
  is greater than it, and a read stamp that is requested after a write stamp was returned
  is not less than it. The theory models every clock with the interference of other
  threads between its accesses, shows which of them keep the contract, and exhibits a run
  in which the default clock breaks it.

  Stamps are integers (\<open>long\<close> in the code). Delay loops only give other threads time; they
  are the points where the interference \<open>env\<close> is applied.
\<close>

unbundle bit_operations_syntax

type_synonym TS = int

section \<open>The clocks\<close>

text \<open>The shared stamp and the back-off counters, which are local to the calling thread.\<close>

record ts_state =
  stamp :: TS
  read_delay :: int
  write_delay :: int
  adaptive_backoff :: int
  last_ts :: TS

definition ts_less :: "TS \<Rightarrow> TS \<Rightarrow> bool" where
  "ts_less a b \<longleftrightarrow> a < b"

definition ts_equal :: "TS \<Rightarrow> TS \<Rightarrow> bool" where
  "ts_equal a b \<longleftrightarrow> a = b"

definition get_stamp :: "ts_state \<Rightarrow> TS" where
  "get_stamp s = stamp s"

text \<open>\<open>fetch_add(1)\<close>: the old value and the state after it.\<close>

definition fetch_add_stamp :: "ts_state \<Rightarrow> TS \<times> ts_state" where
  "fetch_add_stamp s = (stamp s, s\<lparr>stamp := stamp s + 1\<rparr>)"

definition cas_stamp :: "TS \<Rightarrow> TS \<Rightarrow> ts_state \<Rightarrow> bool \<times> ts_state" where
  "cas_stamp old_s new_s s = (if stamp s = old_s then (True, s\<lparr>stamp := new_s\<rparr>) else (False, s))"

text \<open>\<open>timestamp_read\<close>: reads increment the stamp unless somebody else just did.\<close>

definition tread_increment_stamp :: "int \<Rightarrow> (nat \<Rightarrow> ts_state \<Rightarrow> ts_state) \<Rightarrow> TS \<Rightarrow> ts_state \<Rightarrow> ts_state" where
  "tread_increment_stamp delay env ts s =
     (let s1 = env 0 s
      in if delay = -1
         then if stamp s1 = ts
              then let (old, s2) = fetch_add_stamp (env 1 s1)
                   in if old = ts
                      then (if read_delay s2 \<ge> 2 then s2\<lparr>read_delay := read_delay s2 div 2\<rparr> else s2)
                      else (if read_delay s2 < 256 then s2\<lparr>read_delay := read_delay s2 * 2\<rparr> else s2)
              else s1
         else if stamp s1 = ts then snd (fetch_add_stamp (env 1 s1)) else s1)"

definition tread_get_read_stamp :: "int \<Rightarrow> (nat \<Rightarrow> ts_state \<Rightarrow> ts_state) \<Rightarrow> ts_state \<Rightarrow> TS \<times> ts_state" where
  "tread_get_read_stamp delay env s =
     (let ts = stamp s in (ts, tread_increment_stamp delay env ts s))"

definition tread_get_write_stamp :: "int \<Rightarrow> (nat \<Rightarrow> ts_state \<Rightarrow> ts_state) \<Rightarrow> ts_state \<Rightarrow> TS \<times> ts_state" where
  "tread_get_write_stamp delay env s = (stamp s, s)"

text \<open>\<open>timestamp_write\<close>: writes increment the stamp.\<close>

definition twrite_get_read_stamp :: "int \<Rightarrow> (nat \<Rightarrow> ts_state \<Rightarrow> ts_state) \<Rightarrow> ts_state \<Rightarrow> TS \<times> ts_state" where
  "twrite_get_read_stamp delay env s = (stamp s, s)"

definition twrite_get_write_stamp :: "int \<Rightarrow> (nat \<Rightarrow> ts_state \<Rightarrow> ts_state) \<Rightarrow> ts_state \<Rightarrow> TS \<times> ts_state" where
  "twrite_get_write_stamp delay env s =
     (let ts = stamp s; s1 = env 0 s;
          s' = (if delay = -1
                then if stamp s1 = ts
                     then let (old, s2) = fetch_add_stamp (env 1 s1)
                          in if old = ts
                             then (if write_delay s2 \<ge> 2 then s2\<lparr>write_delay := write_delay s2 div 2\<rparr> else s2)
                             else (if write_delay s2 < 256 then s2\<lparr>write_delay := write_delay s2 * 2\<rparr> else s2)
                     else s1
                else if stamp s1 = ts then snd (fetch_add_stamp (env 1 s1)) else s1)
      in (ts + 1, s'))"

text \<open>\<open>timestamp_read_write\<close>, the default: odd stamps are for writes, even ones for reads.\<close>

definition adapt_backoff :: "bool \<Rightarrow> ts_state \<Rightarrow> ts_state" where
  "adapt_backoff ok s =
     (if ok then (if adaptive_backoff s \<ge> 2 then s\<lparr>adaptive_backoff := adaptive_backoff s div 2\<rparr> else s)
      else (if adaptive_backoff s < 256 then s\<lparr>adaptive_backoff := adaptive_backoff s * 2\<rparr> else s))"

definition trw_get_write_stamp :: "int \<Rightarrow> (nat \<Rightarrow> ts_state \<Rightarrow> ts_state) \<Rightarrow> ts_state \<Rightarrow> TS \<times> ts_state" where
  "trw_get_write_stamp delay env st =
     (let s = stamp st
      in if s mod 2 = 1 then (s, st)
         else let st1 = env 0 st
              in if s \<noteq> stamp st1 then (s, st1)
                 else let (ok, st2) = cas_stamp s (s + 1) (env 1 st1)
                      in (s + 1, adapt_backoff ok st2))"

definition trw_get_read_stamp :: "int \<Rightarrow> (nat \<Rightarrow> ts_state \<Rightarrow> ts_state) \<Rightarrow> ts_state \<Rightarrow> TS \<times> ts_state" where
  "trw_get_read_stamp delay env st =
     (let s = stamp st
      in if s mod 2 = 0 then (s, st)
         else let st1 = env 0 st
              in if s \<noteq> stamp st1 then (s, st1)
                 else let (ok, st2) = cas_stamp s (s + 1) (env 1 st1)
                      in (s, adapt_backoff ok st2))"

text \<open>\<open>timestamp_no_inc\<close>: nobody increments the stamp.\<close>

definition tnoinc_get_stamp :: "ts_state \<Rightarrow> TS \<times> ts_state" where
  "tnoinc_get_stamp s = (stamp s, s)"

text \<open>
  The hardware clocks. \<open>rdtsc\<close> reads a counter of the processor, here the field \<open>stamp\<close>, which
  the environment advances; the loops wait until the counter has changed.
\<close>

definition rdtsc :: "32 word \<Rightarrow> 32 word \<Rightarrow> TS" where
  "rdtsc hi lo = uint (push_bit 32 (ucast (hi AND NOT (push_bit 31 1)) :: u64) OR ucast lo)"

fun wait_tick :: "(nat \<Rightarrow> ts_state \<Rightarrow> ts_state) \<Rightarrow> TS \<Rightarrow> nat \<Rightarrow> ts_state \<Rightarrow> ts_state option" where
  "wait_tick env ts 0 s = None"
| "wait_tick env ts (Suc fuel) s =
     (let s1 = env fuel s in if ts = stamp s1 then wait_tick env ts fuel s1 else Some s1)"

definition read_hw_get_read_stamp :: "nat \<Rightarrow> (nat \<Rightarrow> ts_state \<Rightarrow> ts_state) \<Rightarrow> ts_state \<Rightarrow> (TS \<times> ts_state) option" where
  "read_hw_get_read_stamp fuel env s = map_option (\<lambda>s'. (stamp s, s')) (wait_tick env (stamp s) fuel s)"

definition read_hw_get_write_stamp :: "ts_state \<Rightarrow> TS \<times> ts_state" where
  "read_hw_get_write_stamp s = (stamp s, s)"

definition write_hw_get_read_stamp :: "ts_state \<Rightarrow> TS \<times> ts_state" where
  "write_hw_get_read_stamp s = (stamp s, s)"

definition write_hw_get_write_stamp :: "nat \<Rightarrow> (nat \<Rightarrow> ts_state \<Rightarrow> ts_state) \<Rightarrow> ts_state \<Rightarrow> (TS \<times> ts_state) option" where
  "write_hw_get_write_stamp fuel env s =
     map_option (\<lambda>s'. (stamp s + 1, s')) (wait_tick env (stamp s) fuel s)"

text \<open>\<open>timestamp_tl2\<close>: the low ten bits of a stamp name the thread that made it.\<close>

definition thread_bits :: nat where
  "thread_bits = 10"

definition tl2_step :: TS where
  "tl2_step = 2 ^ thread_bits"

definition tl2_mask :: TS where
  "tl2_mask = tl2_step - 1"

definition tl2_less :: "TS \<Rightarrow> TS \<Rightarrow> bool" where
  "tl2_less a b \<longleftrightarrow> drop_bit thread_bits a < drop_bit thread_bits b"

definition tl2_equal :: "TS \<Rightarrow> TS \<Rightarrow> bool" where
  "tl2_equal a b \<longleftrightarrow> drop_bit thread_bits a = drop_bit thread_bits b \<and> a \<noteq> b"

definition tl2_increment_stamp :: "nat \<Rightarrow> (nat \<Rightarrow> ts_state \<Rightarrow> ts_state) \<Rightarrow> TS \<Rightarrow> ts_state \<Rightarrow> TS \<times> ts_state" where
  "tl2_increment_stamp wid env ts s =
     (let new_ts = ((ts + tl2_step) AND NOT tl2_mask) OR int wid;
          s1 = env 0 s;
          s2 = (if ts = stamp s1 then snd (cas_stamp ts new_ts (env 1 s1)) else s1)
      in (new_ts, s2\<lparr>last_ts := new_ts\<rparr>))"

definition tl2_get_write_stamp :: "nat \<Rightarrow> (nat \<Rightarrow> ts_state \<Rightarrow> ts_state) \<Rightarrow> ts_state \<Rightarrow> TS \<times> ts_state" where
  "tl2_get_write_stamp wid env s =
     (let ts = stamp s
      in if ts = last_ts s then tl2_increment_stamp wid env ts s
         else let new_ts = (ts AND NOT tl2_mask) OR int wid in (new_ts, s\<lparr>last_ts := new_ts\<rparr>))"

text \<open>\<open>timestamp_multiple\<close>: the stamp is the sum of several counters, read one after the other.\<close>

definition slots :: nat where
  "slots = 4"

definition slot_gap :: nat where
  "slot_gap = 16"

fun sum_slots :: "(nat \<Rightarrow> (nat \<Rightarrow> TS) \<Rightarrow> (nat \<Rightarrow> TS)) \<Rightarrow> nat \<Rightarrow> (nat \<Rightarrow> TS) \<Rightarrow> TS \<times> (nat \<Rightarrow> TS)" where
  "sum_slots env 0 st = (0, st)"
| "sum_slots env (Suc i) st =
     (let (total, st1) = sum_slots env i st; st2 = env i st1 in (total + st2 (i * slot_gap), st2))"

definition multiple_get_write_stamp ::
  "(nat \<Rightarrow> (nat \<Rightarrow> TS) \<Rightarrow> (nat \<Rightarrow> TS)) \<Rightarrow> (nat \<Rightarrow> TS) \<Rightarrow> TS \<times> (nat \<Rightarrow> TS)"
where
  "multiple_get_write_stamp env st = sum_slots env slots st"

definition multiple_get_read_stamp ::
  "nat \<Rightarrow> (nat \<Rightarrow> (nat \<Rightarrow> TS) \<Rightarrow> (nat \<Rightarrow> TS)) \<Rightarrow> (nat \<Rightarrow> TS) \<Rightarrow> TS \<times> (nat \<Rightarrow> TS)"
where
  "multiple_get_read_stamp wid env st =
     (let (ts, st1) = multiple_get_write_stamp env st;
          i = wid mod slots;
          st2 = env 4 st1;
          tsl = st2 (i * slot_gap);
          (ts', st3) = multiple_get_write_stamp (\<lambda>j. env (5 + j)) st2
      in if ts = ts'
         then let st4 = env 9 st3
              in (ts, if st4 (i * slot_gap) = tsl then st4(i * slot_gap := tsl + 1) else st4)
         else (ts, st3))"

section \<open>Collecting old versions and taking snapshots\<close>

definition zero_stamp :: TS where
  "zero_stamp = 1"

definition no_stamp :: TS where
  "no_stamp = -1"

text \<open>The state of the epoch hooks and of the snapshot of the calling thread.\<close>

record snap_state = ts_state +
  done_stamp :: TS
  prev_stamp :: TS
  current_stamp :: TS
  local_stamp :: TS
  speculative :: bool
  aborted :: bool

definition before_epoch_hook :: "'z snap_state_scheme \<Rightarrow> 'z snap_state_scheme" where
  "before_epoch_hook s = s\<lparr>current_stamp := stamp s\<rparr>"

definition after_epoch_hook :: "'z snap_state_scheme \<Rightarrow> 'z snap_state_scheme" where
  "after_epoch_hook s = s\<lparr>done_stamp := prev_stamp s, prev_stamp := current_stamp s\<rparr>"

text \<open>
  \<open>with_snapshot\<close> without speculation: the read stamp is taken inside the epoch, the reads of
  \<open>f\<close> use it, and it is dropped at the end. \<open>grs\<close> is the clock's \<open>get_read_stamp\<close>.
\<close>

definition with_snapshot ::
  "('z snap_state_scheme \<Rightarrow> TS \<times> 'z snap_state_scheme) \<Rightarrow> ('z snap_state_scheme \<Rightarrow> 'r \<times> 'z snap_state_scheme)
   \<Rightarrow> 'z snap_state_scheme \<Rightarrow> 'r \<times> 'z snap_state_scheme"
where
  "with_snapshot grs f s =
     (let (ts, s1) = grs s; (r, s2) = f (s1\<lparr>local_stamp := ts\<rparr>) in (r, s2\<lparr>local_stamp := no_stamp\<rparr>))"

text \<open>
  The lazy version: \<open>f\<close> first runs speculatively on the current stamp; if one of its reads
  met a version with that very stamp, the stamp is incremented and \<open>f\<close> runs again.
\<close>

definition with_snapshot_lazy ::
  "(TS \<Rightarrow> 'z snap_state_scheme \<Rightarrow> 'z snap_state_scheme) \<Rightarrow> ('z snap_state_scheme \<Rightarrow> 'r \<times> 'z snap_state_scheme)
   \<Rightarrow> 'z snap_state_scheme \<Rightarrow> 'r \<times> 'z snap_state_scheme"
where
  "with_snapshot_lazy increment_stamp f s =
     (let s1 = s\<lparr>local_stamp := stamp s, aborted := False, speculative := True\<rparr>;
          (r, s2) = f s1;
          s3 = s2\<lparr>speculative := False\<rparr>
      in if aborted s3
         then let s4 = increment_stamp (local_stamp s3) (s3\<lparr>aborted := False\<rparr>);
                  (r', s5) = f s4
              in (r', s5\<lparr>local_stamp := no_stamp\<rparr>)
         else (r, s3\<lparr>local_stamp := no_stamp\<rparr>))"

section \<open>The contract of a clock\<close>

text \<open>
  \<open>le\<close> relates a state of the clock to the later ones. Reads and writes may be interfered
  with by other threads, as long as these only move the clock forward.
\<close>

locale stamp_clock = monotone_shared le "\<lambda>_. True" for le :: "'s \<Rightarrow> 's \<Rightarrow> bool" +
  fixes get_read get_write :: "(nat \<Rightarrow> 's \<Rightarrow> 's) \<Rightarrow> 's \<Rightarrow> TS \<times> 's"
  assumes write_after_read:
      "rely e1 \<Longrightarrow> rely e2 \<Longrightarrow> get_read e1 s = (r, s1) \<Longrightarrow> le s1 s2 \<Longrightarrow> get_write e2 s2 = (w, s3) \<Longrightarrow> r < w"
    and read_after_write:
      "rely e1 \<Longrightarrow> rely e2 \<Longrightarrow> get_write e1 s = (w, s1) \<Longrightarrow> le s1 s2 \<Longrightarrow> get_read e2 s2 = (r, s3) \<Longrightarrow> w \<le> r"
    and read_moves: "rely e \<Longrightarrow> get_read e s = (r, s1) \<Longrightarrow> le s s1"
    and write_moves: "rely e \<Longrightarrow> get_write e s = (w, s1) \<Longrightarrow> le s s1"
begin

text \<open>A write that starts after a snapshot was taken does not belong to it; one that ended before does.\<close>

lemma snapshot_separates:
  assumes "rely e1" "rely e2" "rely e3"
    and "get_write e1 s0 = (w1, s1)" "le s1 s2" "get_read e2 s2 = (r, s3)" "le s3 s4"
    and "get_write e3 s4 = (w2, s5)"
  shows "w1 \<le> r \<and> r < w2"
  using read_after_write [OF assms(1,2,4,5,6)] write_after_read [OF assms(2,3,6,7,8)] by simp

lemma writes_ordered:
  assumes "rely e1" "rely e2" "rely e3"
    and "get_write e1 s0 = (w1, s1)" "le s1 s2" "get_read e2 s2 = (r, s3)" "le s3 s4"
    and "get_write e3 s4 = (w2, s5)"
  shows "w1 < w2"
  using snapshot_separates [OF assms] by simp

end

definition ts_le :: "ts_state \<Rightarrow> ts_state \<Rightarrow> bool" where
  "ts_le s t \<longleftrightarrow> stamp s \<le> stamp t"

interpretation tclock: monotone_shared ts_le "\<lambda>_. True"
  by unfold_locales (auto simp: ts_le_def)

lemma tclock_rely: "tclock.rely env \<Longrightarrow> stamp s \<le> stamp (env i s)"
  by (drule tclock.relyD [of env s i]) (simp add: tclock.evolves_def ts_le_def)

lemma tread_increment_moves:
  assumes "tclock.rely env" "ts \<le> stamp s"
  shows "stamp s \<le> stamp (tread_increment_stamp delay env ts s)"
    "ts < stamp (tread_increment_stamp delay env ts s)"
  using tclock_rely [OF assms(1), of s 0] tclock_rely [OF assms(1), of "env 0 s" 1] assms(2)
  by (auto simp: tread_increment_stamp_def fetch_add_stamp_def Let_def)

interpretation tread: stamp_clock ts_le "tread_get_read_stamp d" "tread_get_write_stamp d" for d
proof
  fix e1 e2 :: "nat \<Rightarrow> ts_state \<Rightarrow> ts_state" and s s1 s2 s3 r w
  assume "tclock.rely e1"
  note inc = tread_increment_moves [OF this, of "stamp s" s d]
  show "r < w" if "tread_get_read_stamp d e1 s = (r, s1)" "ts_le s1 s2"
      "tread_get_write_stamp d e2 s2 = (w, s3)"
    using that inc by (auto simp: tread_get_read_stamp_def tread_get_write_stamp_def ts_le_def Let_def)
  show "ts_le s s1" if "tread_get_read_stamp d e1 s = (r, s1)"
    using that inc by (auto simp: tread_get_read_stamp_def ts_le_def Let_def)
  show "w \<le> r" if "tread_get_write_stamp d e1 s = (w, s1)" "ts_le s1 s2"
      "tread_get_read_stamp d e2 s2 = (r, s3)"
    using that by (auto simp: tread_get_read_stamp_def tread_get_write_stamp_def ts_le_def Let_def)
  show "ts_le s s1" if "tread_get_write_stamp d e1 s = (w, s1)"
    using that by (auto simp: tread_get_write_stamp_def ts_le_def)
qed

lemma twrite_moves:
  assumes "tclock.rely env" "twrite_get_write_stamp d env s = (w, s')"
  shows "w = stamp s + 1" "stamp s < stamp s'"
  using assms tclock_rely [OF assms(1), of s 0] tclock_rely [OF assms(1), of "env 0 s" 1]
  by (auto simp: twrite_get_write_stamp_def fetch_add_stamp_def Let_def split: if_splits)

interpretation twrite: stamp_clock ts_le "twrite_get_read_stamp d" "twrite_get_write_stamp d" for d
proof
  fix e1 e2 :: "nat \<Rightarrow> ts_state \<Rightarrow> ts_state" and s s1 s2 s3 r w
  assume e: "tclock.rely e1"
  show "r < w" if "tclock.rely e2" "twrite_get_read_stamp d e1 s = (r, s1)" "ts_le s1 s2"
      "twrite_get_write_stamp d e2 s2 = (w, s3)"
    using that twrite_moves [OF that(1,4)] by (auto simp: twrite_get_read_stamp_def ts_le_def)
  show "w \<le> r" if "twrite_get_write_stamp d e1 s = (w, s1)" "ts_le s1 s2"
      "twrite_get_read_stamp d e2 s2 = (r, s3)"
    using that twrite_moves [OF e that(1)] by (auto simp: twrite_get_read_stamp_def ts_le_def)
  show "ts_le s s1" if "twrite_get_read_stamp d e1 s = (r, s1)"
    using that by (auto simp: twrite_get_read_stamp_def ts_le_def)
  show "ts_le s s1" if "twrite_get_write_stamp d e1 s = (w, s1)"
    using twrite_moves [OF e that] by (simp add: ts_le_def)
qed

text \<open>The sum of counters, each of which only grows.\<close>

definition slots_le :: "(nat \<Rightarrow> TS) \<Rightarrow> (nat \<Rightarrow> TS) \<Rightarrow> bool" where
  "slots_le a b \<longleftrightarrow> (\<forall>i. a i \<le> b i)"

definition slot_total :: "nat \<Rightarrow> (nat \<Rightarrow> TS) \<Rightarrow> TS" where
  "slot_total k st = (\<Sum>i<k. st (i * slot_gap))"

interpretation sclock: monotone_shared slots_le "\<lambda>_. True"
  by unfold_locales (auto simp: slots_le_def intro: order_trans)

lemma sclock_rely: "sclock.rely env \<Longrightarrow> slots_le s (env i s)"
  by (drule sclock.relyD [of env s i]) (simp add: sclock.evolves_def)

lemma slot_total_mono: "slots_le a b \<Longrightarrow> slot_total k a \<le> slot_total k b"
  by (auto simp: slot_total_def slots_le_def intro: sum_mono)

lemma slot_total_less:
  assumes "slots_le a b" "i < k" "a (i * slot_gap) < b (i * slot_gap)"
  shows "slot_total k a < slot_total k b"
  unfolding slot_total_def
  by (rule sum_strict_mono_ex1) (use assms in \<open>auto simp: slots_le_def\<close>)

lemma sum_slots_between:
  assumes "sclock.rely env" "sum_slots env k st = (t, st')"
  shows "slot_total k st \<le> t \<and> t \<le> slot_total k st' \<and> slots_le st st'"
  using assms(2)
proof (induction k arbitrary: t st')
  case 0
  then show ?case by (simp add: slot_total_def sclock.le_refl)
next
  case (Suc k)
  obtain t1 st1 where k: "sum_slots env k st = (t1, st1)" by (metis prod.exhaust)
  note IH = Suc.IH [OF k]
  have le: "slots_le st1 (env k st1)" by (rule sclock_rely [OF assms(1)])
  have st': "st' = env k st1" "t = t1 + st' (k * slot_gap)"
    using Suc.prems by (auto simp: k Let_def)
  have "slots_le st st'" using IH le sclock.le_trans st'(1) by blast
  moreover from this have "st (k * slot_gap) \<le> st' (k * slot_gap)" by (simp add: slots_le_def)
  moreover have "t1 \<le> slot_total k st'" using IH slot_total_mono [OF le, of k] st'(1) by simp
  ultimately show ?case using IH st' by (simp add: slot_total_def)
qed

lemma multiple_write_between:
  assumes "sclock.rely env" "multiple_get_write_stamp env st = (t, st')"
  shows "slot_total slots st \<le> t \<and> t \<le> slot_total slots st' \<and> slots_le st st'"
  using sum_slots_between [OF assms(1)] assms(2) by (simp add: multiple_get_write_stamp_def)

lemma multiple_read_moves:
  assumes e: "sclock.rely env" and r: "multiple_get_read_stamp wid env st = (r, st')"
  shows "slot_total slots st \<le> r \<and> r < slot_total slots st' \<and> slots_le st st'"
proof -
  let ?i = "wid mod slots"
  obtain ts st1 where w1: "multiple_get_write_stamp env st = (ts, st1)" by (metis prod.exhaust)
  let ?st2 = "env 4 st1"
  obtain ts' st3 where w2: "multiple_get_write_stamp (\<lambda>j. env (5 + j)) ?st2 = (ts', st3)" by (metis prod.exhaust)
  let ?st4 = "env 9 st3"
  have e5: "sclock.rely (\<lambda>j. env (5 + j))" using e by (simp add: sclock.rely_def)
  note b1 = multiple_write_between [OF e w1] and b2 = multiple_write_between [OF e5 w2]
  have l12: "slots_le st1 ?st2" and l34: "slots_le st3 ?st4" by (rule sclock_rely [OF e])+
  then have l24: "slots_le ?st2 ?st4" "slots_le st ?st4" "slots_le st st3"
    using b1 b2 sclock.le_trans by blast+
  have ts: "slot_total slots st \<le> ts" "ts \<le> slot_total slots ?st2" "slot_total slots ?st2 \<le> ts'"
    "ts' \<le> slot_total slots st3"
    using b1 b2 slot_total_mono [OF l12, of slots] by auto
  have i: "?i < slots" by (simp add: slots_def)
  show ?thesis
  proof (cases "ts = ts'")
    case False
    with r have "r = ts" "st' = st3" by (auto simp: multiple_get_read_stamp_def w1 w2 Let_def)
    with False ts l24 show ?thesis by auto
  next
    case True
    then have r': "r = ts" "st' = (if ?st4 (?i * slot_gap) = ?st2 (?i * slot_gap)
        then ?st4(?i * slot_gap := ?st2 (?i * slot_gap) + 1) else ?st4)"
      using r by (auto simp: multiple_get_read_stamp_def w1 w2 Let_def)
    have "slots_le ?st4 st'" using r' by (auto simp: slots_le_def)
    then have "slots_le ?st2 st'" "slots_le st st'" using l24 sclock.le_trans by blast+
    moreover have "?st2 (?i * slot_gap) \<le> ?st4 (?i * slot_gap)" using l24 by (simp add: slots_le_def)
    then have "?st2 (?i * slot_gap) < st' (?i * slot_gap)" by (simp add: r')
    ultimately have "slots_le ?st2 st' \<and> ?st2 (?i * slot_gap) < st' (?i * slot_gap) \<and> slots_le st st'"
      by blast
    with slot_total_less [of ?st2 st' ?i slots] i ts r' show ?thesis by auto
  qed
qed

interpretation tmult: stamp_clock slots_le "multiple_get_read_stamp wid" multiple_get_write_stamp for wid
proof
  fix e1 e2 :: "nat \<Rightarrow> (nat \<Rightarrow> TS) \<Rightarrow> (nat \<Rightarrow> TS)" and s s1 s2 s3 r w
  assume e: "sclock.rely e1"
  show "r < w" if "sclock.rely e2" "multiple_get_read_stamp wid e1 s = (r, s1)" "slots_le s1 s2"
      "multiple_get_write_stamp e2 s2 = (w, s3)"
    using multiple_read_moves [OF e that(2)] multiple_write_between [OF that(1,4)]
      slot_total_mono [OF that(3), of slots] by simp
  show "w \<le> r" if "sclock.rely e2" "multiple_get_write_stamp e1 s = (w, s1)" "slots_le s1 s2"
      "multiple_get_read_stamp wid e2 s2 = (r, s3)"
    using multiple_write_between [OF e that(2)] multiple_read_moves [OF that(1,4)]
      slot_total_mono [OF that(3), of slots] by simp
  show "slots_le s s1" if "multiple_get_read_stamp wid e1 s = (r, s1)"
    using multiple_read_moves [OF e that] by simp
  show "slots_le s s1" if "multiple_get_write_stamp e1 s = (w, s1)"
    using multiple_write_between [OF e that] by simp
qed

section \<open>Properties of the clocks\<close>

text \<open>C10: The clock that reads increment separates snapshots from writes: a write that stamped its
  version before a snapshot took its stamp belongs to the snapshot, and one that asks for
  its stamp after the snapshot has its own does not, under any interference of other
  threads and for every setting of the delay.\<close>

theorem read_clock_separates:
  assumes "tclock.rely e1" "tclock.rely e2" "tclock.rely e3"
    and "tread_get_write_stamp d e1 s0 = (w1, s1)" "ts_le s1 s2"
    and "tread_get_read_stamp d e2 s2 = (r, s3)" "ts_le s3 s4"
    and "tread_get_write_stamp d e3 s4 = (w2, s5)"
  shows "w1 \<le> r \<and> r < w2"
  by (rule tread.snapshot_separates [OF assms])

definition demo_clock :: ts_state where
  "demo_clock = \<lparr>stamp = 4, read_delay = 1, write_delay = 1, adaptive_backoff = 1, last_ts = 0\<rparr>"

lemma read_clock_separates_witness:
  "(case tread_get_read_stamp (-1) (\<lambda>_ s. s) demo_clock of (r, s3) \<Rightarrow>
      stamp demo_clock \<le> r \<and> r < fst (tread_get_write_stamp (-1) (\<lambda>_ s. s) s3))"
proof -
  obtain r s3 where r: "tread_get_read_stamp (-1) (\<lambda>_ s. s) demo_clock = (r, s3)" by (metis prod.exhaust)
  have "stamp demo_clock \<le> r \<and> r < fst (tread_get_write_stamp (-1) (\<lambda>_ s. s) s3)"
    by (rule read_clock_separates [of "\<lambda>_ s. s" "\<lambda>_ s. s" "\<lambda>_ s. s" "-1" demo_clock _ demo_clock demo_clock r s3 s3 _ s3])
      (simp_all add: r tread_get_write_stamp_def ts_le_def)
  with r show ?thesis by simp
qed

text \<open>The clock that writes increment separates snapshots from writes in the same sense.\<close>

theorem write_clock_separates:
  assumes "tclock.rely e1" "tclock.rely e2" "tclock.rely e3"
    and "twrite_get_write_stamp d e1 s0 = (w1, s1)" "ts_le s1 s2"
    and "twrite_get_read_stamp d e2 s2 = (r, s3)" "ts_le s3 s4"
    and "twrite_get_write_stamp d e3 s4 = (w2, s5)"
  shows "w1 \<le> r \<and> r < w2"
  by (rule twrite.snapshot_separates [OF assms])

lemma write_clock_separates_witness:
  "(case twrite_get_write_stamp (-1) (\<lambda>_ s. s) demo_clock of (w1, s1) \<Rightarrow>
      w1 \<le> stamp s1 \<and> stamp s1 < fst (twrite_get_write_stamp (-1) (\<lambda>_ s. s) s1))"
proof -
  obtain w1 s1 where w1: "twrite_get_write_stamp (-1) (\<lambda>_ s. s) demo_clock = (w1, s1)" by (metis prod.exhaust)
  obtain w2 s5 where w2: "twrite_get_write_stamp (-1) (\<lambda>_ s. s) s1 = (w2, s5)" by (metis prod.exhaust)
  have "w1 \<le> stamp s1 \<and> stamp s1 < w2"
    by (rule write_clock_separates [OF _ _ _ w1 _ _ _ w2, of "\<lambda>_ s. s" s1 _ s1])
      (simp_all add: twrite_get_read_stamp_def ts_le_def)
  with w1 w2 show ?thesis by simp
qed

text \<open>C40: The clock with several counters separates snapshots from writes, although both read the
  counters one by one while other threads change them.\<close>

theorem multiple_clock_separates:
  assumes "sclock.rely e1" "sclock.rely e2" "sclock.rely e3"
    and "multiple_get_write_stamp e1 s0 = (w1, s1)" "slots_le s1 s2"
    and "multiple_get_read_stamp wid e2 s2 = (r, s3)" "slots_le s3 s4"
    and "multiple_get_write_stamp e3 s4 = (w2, s5)"
  shows "w1 \<le> r \<and> r < w2"
  by (rule tmult.snapshot_separates [OF assms])

lemma multiple_clock_separates_witness:
  "(case multiple_get_read_stamp 2 (\<lambda>_ s. s) (\<lambda>_. 1) of (r, s3) \<Rightarrow>
      4 \<le> r \<and> r < fst (multiple_get_write_stamp (\<lambda>_ s. s) s3))"
proof -
  obtain r s3 where r: "multiple_get_read_stamp 2 (\<lambda>_ s. s) (\<lambda>_. 1) = (r, s3)" by (metis prod.exhaust)
  have w: "multiple_get_write_stamp (\<lambda>_ s. s) (\<lambda>_. 1) = (4, \<lambda>_. 1)"
    by (simp add: multiple_get_write_stamp_def slots_def numeral_eq_Suc)
  obtain w2 s5 where w2: "multiple_get_write_stamp (\<lambda>_ s. s) s3 = (w2, s5)" by (metis prod.exhaust)
  have "4 \<le> r \<and> r < w2"
    by (rule multiple_clock_separates [OF _ _ _ w _ r _ w2]) (simp_all add: slots_le_def)
  with r w2 show ?thesis by simp
qed

text \<open>C11: The default clock does not separate snapshots from writes. Let a snapshot take an even stamp \<open>r\<close> and let a
  write ask for its stamp later, while the stamp is still \<open>r\<close>: the write gets the next stamp \<open>r + 1\<close> exactly if
  nobody moves the stamp while it waits, and otherwise the stamp \<open>r\<close> of the snapshot, so that its version
  counts as part of the snapshot, which may already have read the location without it. A single other
  write during the wait is enough.\<close>

theorem default_clock_write_stamp:
  assumes "even (stamp s)" "trw_get_read_stamp d e s = (r, s1)" "stamp s2 = stamp s1"
    and "trw_get_write_stamp d e' s2 = (w, s3)"
  shows "w = (if stamp (e' 0 s2) = r then r + 1 else r)
    \<and> (e' 0 = (\<lambda>t. snd (trw_get_write_stamp d (\<lambda>_ u. u) t)) \<longrightarrow> w = r)"
proof -
  have r: "r = stamp s" "s1 = s" using assms(1,2) by (auto simp: trw_get_read_stamp_def Let_def)
  then have s2: "stamp s2 = r" "even (stamp s2)" using assms(1,3) by simp_all
  then have w: "w = (if stamp (e' 0 s2) = r then r + 1 else r)"
    using assms(4) by (auto simp: trw_get_write_stamp_def Let_def split_def split: if_splits)
  have "stamp (snd (trw_get_write_stamp d (\<lambda>_ u. u) s2)) = r + 1"
    using s2 by (auto simp: trw_get_write_stamp_def cas_stamp_def adapt_backoff_def Let_def)
  with w show ?thesis by simp
qed

theorem default_clock_write_stamp_witness:
  "(case trw_get_read_stamp (-1) (\<lambda>_ u. u) demo_clock of (r, s1) \<Rightarrow>
      fst (trw_get_write_stamp (-1) (\<lambda>_ u. u) s1) = r + 1
      \<and> fst (trw_get_write_stamp (-1) (\<lambda>_ t. snd (trw_get_write_stamp (-1) (\<lambda>_ u. u) t)) s1) = r)"
proof -
  let ?e = "\<lambda>(_::nat) t. snd (trw_get_write_stamp (-1) (\<lambda>_ u. u) t)"
  have ev: "even (stamp demo_clock)" by (simp add: demo_clock_def)
  obtain r s1 where r: "trw_get_read_stamp (-1) (\<lambda>_ u. u) demo_clock = (r, s1)" by (metis prod.exhaust)
  have "stamp s1 = r" using r ev by (auto simp: trw_get_read_stamp_def Let_def)
  moreover note default_clock_write_stamp [OF ev r refl prod.collapse [symmetric], of "\<lambda>_ u. u"]
    default_clock_write_stamp [OF ev r refl prod.collapse [symmetric], of ?e]
  ultimately show ?thesis using r by simp
qed

end
