(* ===== verification/Verlib_Indirect.thy ===== *)
theory Verlib_Indirect
  imports Verlib_Timestamps
begin

text \<open>
  Versioned pointers with an indirect link per version, \<^verbatim>\<open>include/verlib/versioned_indirect.h\<close>.
  A pointer leads to a chain of links, newest first, each with a value and the stamp of the
  write that made it; a snapshot follows the chain to the newest version that is not
  younger than its stamp. The operations take the clock's \<open>get_write_stamp\<close> as an argument.
  The lemmas are proved once for every clock that keeps the contract \<open>stamp_clock\<close>:
  operations only extend the chains, and reading a pointer twice in one snapshot gives the
  same version, whatever other threads store meanwhile.
\<close>

section \<open>Links and pointers\<close>

definition tbd :: TS where
  "tbd = (2 ^ 63 - 1) div 4"

record version_link =
  time_stamp :: TS
  next_version :: addr
  lvalue :: addr

text \<open>
  Links by address, the addresses that the pool has handed out, the pointers by their
  location, the clock, and what was given to \<open>link_pool.retire\<close> and \<open>link_pool.destruct\<close> (when
  storage may be handed out again is the subject of \<open>Flock_Epoch\<close>). The fields \<open>pub\<close> and \<open>born\<close> are not part of the program:
  they keep which links were ever installed in a pointer, and the state of the clock when
  that happened.
\<close>

record 'c vstate =
  links :: "addr \<Rightarrow> version_link"
  in_use :: "addr set"
  vptr :: "addr \<Rightarrow> addr"
  clock :: 'c
  pub :: "addr set"
  born :: "addr \<Rightarrow> 'c"
  retired :: "addr list"
  destructed :: "addr list"

definition stamped :: "'c vstate \<Rightarrow> addr \<Rightarrow> bool" where
  "stamped s p \<longleftrightarrow> time_stamp (links s p) \<noteq> tbd"

definition put_stamp :: "addr \<Rightarrow> TS \<Rightarrow> 'c vstate \<Rightarrow> 'c vstate" where
  "put_stamp p t s = s\<lparr>links := (links s)(p := (links s p)\<lparr>time_stamp := t\<rparr>)\<rparr>"

text \<open>\<open>set_stamp\<close>: the stamp is asked for after the link was seen without one.\<close>

definition set_stamp ::
  "((nat \<Rightarrow> 'c \<Rightarrow> 'c) \<Rightarrow> 'c \<Rightarrow> TS \<times> 'c) \<Rightarrow> (nat \<Rightarrow> 'c \<Rightarrow> 'c) \<Rightarrow> (nat \<Rightarrow> 'c vstate \<Rightarrow> 'c vstate) \<Rightarrow> addr
   \<Rightarrow> 'c vstate \<Rightarrow> 'c vstate"
where
  "set_stamp gws cenv env p s =
     (if time_stamp (links s p) = tbd
      then let s1 = env 0 s;
               (t, c) = gws cenv (clock s1);
               s2 = env 1 (s1\<lparr>clock := c\<rparr>)
           in if time_stamp (links s2 p) = tbd
              then let s3 = env 2 s2
                   in if time_stamp (links s3 p) = tbd then put_stamp p t s3 else s3
              else s2
      else s)"

definition new_link :: "('c vstate \<Rightarrow> addr) \<Rightarrow> TS \<Rightarrow> addr \<Rightarrow> addr \<Rightarrow> 'c vstate \<Rightarrow> addr \<times> 'c vstate" where
  "new_link lalloc t nxt v s =
     (let p = lalloc s
      in (p, s\<lparr>links := (links s)(p := \<lparr>time_stamp = t, next_version = nxt, lvalue = v\<rparr>),
               in_use := insert p (in_use s)\<rparr>))"

definition set_vptr :: "addr \<Rightarrow> addr \<Rightarrow> 'c vstate \<Rightarrow> 'c vstate" where
  "set_vptr loc p s =
     s\<lparr>vptr := (vptr s)(loc := p), pub := insert p (pub s), born := (born s)(p := clock s)\<rparr>"

definition init_ptr :: "('c vstate \<Rightarrow> addr) \<Rightarrow> addr \<Rightarrow> addr \<Rightarrow> 'c vstate \<Rightarrow> 'c vstate" where
  "init_ptr lalloc loc ptr s =
     (let (p, s1) = new_link lalloc zero_stamp nullptr ptr s in set_vptr loc p s1)"

section \<open>Reading\<close>

text \<open>The loop of \<open>read_snapshot\<close>, with fuel.\<close>

fun chase :: "(nat \<Rightarrow> 'c vstate \<Rightarrow> 'c vstate) \<Rightarrow> TS \<Rightarrow> nat \<Rightarrow> addr \<Rightarrow> 'c vstate \<Rightarrow> (addr \<times> 'c vstate) option" where
  "chase env ls 0 head s = None"
| "chase env ls (Suc fuel) head s =
     (if ts_less ls (time_stamp (links s head))
      then chase env ls fuel (next_version (links s head)) (env fuel s)
      else Some (head, s))"

definition read_snapshot ::
  "((nat \<Rightarrow> 'c \<Rightarrow> 'c) \<Rightarrow> 'c \<Rightarrow> TS \<times> 'c) \<Rightarrow> (nat \<Rightarrow> 'c \<Rightarrow> 'c) \<Rightarrow> (nat \<Rightarrow> 'c vstate \<Rightarrow> 'c vstate) \<Rightarrow> nat
   \<Rightarrow> TS \<Rightarrow> addr \<Rightarrow> 'c vstate \<Rightarrow> (addr \<times> 'c vstate) option"
where
  "read_snapshot gws cenv env fuel ls loc s =
     (let head = vptr s loc;
          s1 = set_stamp gws cenv env head (env 3 s)
      in map_option (\<lambda>(p, s2). (lvalue (links s2 p), s2)) (chase (\<lambda>i. env (4 + i)) ls fuel head s1))"

definition vp_load ::
  "((nat \<Rightarrow> 'c \<Rightarrow> 'c) \<Rightarrow> 'c \<Rightarrow> TS \<times> 'c) \<Rightarrow> (nat \<Rightarrow> 'c \<Rightarrow> 'c) \<Rightarrow> (nat \<Rightarrow> 'c vstate \<Rightarrow> 'c vstate) \<Rightarrow> nat
   \<Rightarrow> TS \<Rightarrow> addr \<Rightarrow> 'c vstate \<Rightarrow> (addr \<times> 'c vstate) option"
where
  "vp_load gws cenv env fuel ls loc s =
     (if ls \<noteq> no_stamp then read_snapshot gws cenv env fuel ls loc s
      else let p = vptr s loc; s1 = set_stamp gws cenv env p (env 3 s)
           in Some (lvalue (links s1 p), s1))"

definition vp_read :: "addr \<Rightarrow> 'c vstate \<Rightarrow> addr" where
  "vp_read loc s = lvalue (links s (vptr s loc))"

definition vp_validate ::
  "((nat \<Rightarrow> 'c \<Rightarrow> 'c) \<Rightarrow> 'c \<Rightarrow> TS \<times> 'c) \<Rightarrow> (nat \<Rightarrow> 'c \<Rightarrow> 'c) \<Rightarrow> (nat \<Rightarrow> 'c vstate \<Rightarrow> 'c vstate) \<Rightarrow> addr
   \<Rightarrow> 'c vstate \<Rightarrow> 'c vstate"
where
  "vp_validate gws cenv env loc s = set_stamp gws cenv env (vptr s loc) (env 3 s)"

section \<open>Writing\<close>

definition retire_link :: "addr \<Rightarrow> 'c vstate \<Rightarrow> 'c vstate" where
  "retire_link p s = s\<lparr>retired := p # retired s\<rparr>"

definition destruct_link :: "addr \<Rightarrow> 'c vstate \<Rightarrow> 'c vstate" where
  "destruct_link p s = s\<lparr>destructed := p # destructed s\<rparr>"

definition vp_store ::
  "((nat \<Rightarrow> 'c \<Rightarrow> 'c) \<Rightarrow> 'c \<Rightarrow> TS \<times> 'c) \<Rightarrow> (nat \<Rightarrow> 'c \<Rightarrow> 'c) \<Rightarrow> ('c vstate \<Rightarrow> addr)
   \<Rightarrow> (nat \<Rightarrow> 'c vstate \<Rightarrow> 'c vstate) \<Rightarrow> addr \<Rightarrow> addr \<Rightarrow> 'c vstate \<Rightarrow> 'c vstate"
where
  "vp_store gws cenv lalloc env loc ptr s =
     (let old_link = vptr s loc;
          (p, s1) = new_link lalloc tbd old_link ptr (env 3 s);
          s2 = set_vptr loc p (env 4 s1);
          s3 = set_stamp gws cenv env p (env 5 s2)
      in retire_link old_link s3)"

text \<open>
  A compare-and-swap that helpers can repeat: a conditional store, after which the new link
  is found in the pointer or has been stamped, if it was installed.
\<close>

definition idempotent_cas :: "(nat \<Rightarrow> 'c vstate \<Rightarrow> 'c vstate) \<Rightarrow> addr \<Rightarrow> addr \<Rightarrow> addr \<Rightarrow> 'c vstate \<Rightarrow> bool \<times> 'c vstate" where
  "idempotent_cas env loc old_v new_v s =
     (let s1 = (if vptr s loc = old_v then set_vptr loc new_v s else s);
          s2 = env 6 s1;
          s3 = env 7 s2
      in (vptr s2 loc = new_v \<or> time_stamp (links s3 new_v) \<noteq> tbd, if vptr s2 loc = new_v then s2 else s3))"

definition vp_cas ::
  "((nat \<Rightarrow> 'c \<Rightarrow> 'c) \<Rightarrow> 'c \<Rightarrow> TS \<times> 'c) \<Rightarrow> (nat \<Rightarrow> 'c \<Rightarrow> 'c) \<Rightarrow> ('c vstate \<Rightarrow> addr)
   \<Rightarrow> (nat \<Rightarrow> 'c vstate \<Rightarrow> 'c vstate) \<Rightarrow> addr \<Rightarrow> addr \<Rightarrow> addr \<Rightarrow> 'c vstate \<Rightarrow> bool \<times> 'c vstate"
where
  "vp_cas gws cenv lalloc env loc old_v new_v s =
     (let old_link = vptr s loc;
          s1 = (if old_link \<noteq> nullptr then set_stamp gws cenv env old_link (env 3 s) else env 3 s)
      in if old_v \<noteq> lvalue (links s1 old_link) then (False, s1)
         else if old_v = new_v then (True, s1)
         else let (p, s2) = new_link lalloc tbd old_link new_v s1;
                  (ok, s3) = idempotent_cas env loc old_link p (env 4 s2)
              in if ok then (True, retire_link old_link (set_stamp gws cenv env p s3))
                 else let s4 = set_stamp gws cenv env (vptr s3 loc) (env 5 s3)
                      in (False, destruct_link p s4))"

section \<open>Chains\<close>

fun chain_path :: "(addr \<Rightarrow> version_link) \<Rightarrow> addr \<Rightarrow> addr list \<Rightarrow> bool" where
  "chain_path l p [] \<longleftrightarrow> p = nullptr"
| "chain_path l p (q # qs) \<longleftrightarrow> p = q \<and> p \<noteq> nullptr \<and> chain_path l (next_version (l p)) qs"

lemma chain_path_null [simp]: "chain_path l 0 ps \<longleftrightarrow> ps = []"
  by (cases ps) auto

lemma chain_path_unique: "chain_path l p ps \<Longrightarrow> chain_path l p qs \<Longrightarrow> ps = qs"
proof (induction ps arbitrary: p qs)
  case (Cons a ps)
  then show ?case by (cases qs) auto
qed simp

lemma chain_path_cong:
  assumes "\<And>q. q \<in> set ps \<Longrightarrow> next_version (l' q) = next_version (l q)"
  shows "chain_path l' p ps \<longleftrightarrow> chain_path l p ps"
  using assms by (induction ps arbitrary: p) auto

lemma put_stamp_simps [simp]:
  "in_use (put_stamp p t s) = in_use s" "vptr (put_stamp p t s) = vptr s"
  "clock (put_stamp p t s) = clock s" "born (put_stamp p t s) = born s" "pub (put_stamp p t s) = pub s"
  "next_version (links (put_stamp p t s) q) = next_version (links s q)"
  "lvalue (links (put_stamp p t s) q) = lvalue (links s q)"
  "time_stamp (links (put_stamp p t s) q) = (if q = p then t else time_stamp (links s q))"
  by (simp_all add: put_stamp_def)

lemma set_vptr_simps [simp]:
  "in_use (set_vptr loc p s) = in_use s" "links (set_vptr loc p s) = links s"
  "clock (set_vptr loc p s) = clock s" "born (set_vptr loc p s) = (born s)(p := clock s)"
  "pub (set_vptr loc p s) = insert p (pub s)"
  "vptr (set_vptr loc p s) = (vptr s)(loc := p)"
  by (simp_all add: set_vptr_def)

section \<open>What every clock's versioned pointers guarantee\<close>

context stamp_clock
begin

definition issued_after :: "'s \<Rightarrow> TS \<Rightarrow> bool" where
  "issued_after c t \<longleftrightarrow> (\<exists>e c'. rely e \<and> le c c' \<and> fst (get_write e c') = t)"

text \<open>
  Well-formed: every chain is finite and ends in a link with the zero stamp, its links were
  installed and are in use, all but the newest have their stamps, and a stamp was issued
  after its link was installed (unless it is the first of its chain). Links that were
  never installed have no stamp.
\<close>

definition chain_ok :: "'s vstate \<Rightarrow> addr \<Rightarrow> addr list \<Rightarrow> bool" where
  "chain_ok s p ps \<longleftrightarrow> chain_path (links s) p ps \<and> ps \<noteq> [] \<and> set ps \<subseteq> pub s \<and>
     (\<forall>q\<in>set (tl ps). stamped s q) \<and> time_stamp (links s (last ps)) = zero_stamp"

definition wf_ver :: "'s vstate \<Rightarrow> bool" where
  "wf_ver s \<longleftrightarrow> nullptr \<notin> in_use s \<and> pub s \<subseteq> in_use s \<and> (\<forall>loc. \<exists>ps. chain_ok s (vptr s loc) ps) \<and>
     (\<forall>q\<in>pub s. le (born s q) (clock s) \<and>
        (stamped s q \<longrightarrow> next_version (links s q) = nullptr \<or> issued_after (born s q) (time_stamp (links s q)))) \<and>
     (\<forall>q\<in>in_use s - pub s. \<not> stamped s q)"

text \<open>
  How the state grows: links keep their values, successors and stamps, and a chain becomes
  a longer one by links that were installed since.
\<close>

definition ver_le :: "'s vstate \<Rightarrow> 's vstate \<Rightarrow> bool" where
  "ver_le s s' \<longleftrightarrow> le (clock s) (clock s') \<and> in_use s \<subseteq> in_use s' \<and> pub s \<subseteq> pub s' \<and>
     (\<forall>q\<in>in_use s \<union> pub s. next_version (links s' q) = next_version (links s q) \<and>
        lvalue (links s' q) = lvalue (links s q) \<and>
        (stamped s q \<longrightarrow> time_stamp (links s' q) = time_stamp (links s q))) \<and>
     (\<forall>q\<in>pub s. born s' q = born s q) \<and>
     (\<forall>loc ps. chain_path (links s) (vptr s loc) ps \<and> set ps \<subseteq> pub s \<longrightarrow>
        (\<exists>news. chain_path (links s') (vptr s' loc) (news @ ps) \<and> set news \<subseteq> pub s' \<and>
           (\<forall>q\<in>set news. le (clock s) (born s' q) \<and> next_version (links s' q) \<noteq> nullptr)))"

lemma ver_le_refl: "ver_le s s"
  by (auto simp: ver_le_def le_refl intro: exI [of _ "[]"])

lemma ver_leD:
  assumes "ver_le s t"
  shows "le (clock s) (clock t)" "in_use s \<subseteq> in_use t" "pub s \<subseteq> pub t"
    "q \<in> in_use s \<union> pub s \<Longrightarrow> next_version (links t q) = next_version (links s q)"
    "q \<in> in_use s \<union> pub s \<Longrightarrow> lvalue (links t q) = lvalue (links s q)"
    "q \<in> in_use s \<union> pub s \<Longrightarrow> stamped s q \<Longrightarrow> time_stamp (links t q) = time_stamp (links s q)"
    "q \<in> pub s \<Longrightarrow> born t q = born s q"
  using assms unfolding ver_le_def by blast+

lemma ver_le_chain:
  assumes "ver_le s t" "chain_path (links s) (vptr s loc) ps" "set ps \<subseteq> pub s"
  obtains news where "chain_path (links t) (vptr t loc) (news @ ps)" "set news \<subseteq> pub t"
    "\<And>q. q \<in> set news \<Longrightarrow> le (clock s) (born t q)" "\<And>q. q \<in> set news \<Longrightarrow> next_version (links t q) \<noteq> nullptr"
  using assms unfolding ver_le_def by blast

lemma ver_le_trans:
  assumes st: "ver_le s t" and tu: "ver_le t u"
  shows "ver_le s u"
  unfolding ver_le_def
proof (intro conjI ballI allI impI)
  note S = ver_leD [OF st] and T = ver_leD [OF tu]
  show "le (clock s) (clock u)" using S(1) T(1) le_trans by blast
  show "in_use s \<subseteq> in_use u" "pub s \<subseteq> pub u" using S(2,3) T(2,3) by blast+
  fix q assume q: "q \<in> in_use s \<union> pub s"
  then have q': "q \<in> in_use t \<union> pub t" using S(2,3) by blast
  show "next_version (links u q) = next_version (links s q)" "lvalue (links u q) = lvalue (links s q)"
    using S(4,5) [OF q] T(4,5) [OF q'] by simp_all
  assume "stamped s q"
  with S(6) [OF q] T(6) [OF q'] show "time_stamp (links u q) = time_stamp (links s q)"
    by (simp add: stamped_def)
next
  fix q assume "q \<in> pub s"
  then show "born u q = born s q" using ver_leD(3,7) [OF st] ver_leD(7) [OF tu] by (metis subsetD)
next
  fix loc ps assume ps: "chain_path (links s) (vptr s loc) ps \<and> set ps \<subseteq> pub s"
  then obtain n1 where n1: "chain_path (links t) (vptr t loc) (n1 @ ps)" "set n1 \<subseteq> pub t"
    "\<And>q. q \<in> set n1 \<Longrightarrow> le (clock s) (born t q)" "\<And>q. q \<in> set n1 \<Longrightarrow> next_version (links t q) \<noteq> nullptr"
    using ver_le_chain [OF st] by metis
  have "set (n1 @ ps) \<subseteq> pub t" using n1(2) ps ver_leD(3) [OF st] by auto
  with n1(1) obtain n2 where n2: "chain_path (links u) (vptr u loc) (n2 @ n1 @ ps)" "set n2 \<subseteq> pub u"
    "\<And>q. q \<in> set n2 \<Longrightarrow> le (clock t) (born u q)" "\<And>q. q \<in> set n2 \<Longrightarrow> next_version (links u q) \<noteq> nullptr"
    using ver_le_chain [OF tu] by metis
  have "le (clock s) (born u q) \<and> next_version (links u q) \<noteq> nullptr" if "q \<in> set (n2 @ n1)" for q
  proof (cases "q \<in> set n2")
    case True
    with n2(3,4) ver_leD(1) [OF st] le_trans show ?thesis by blast
  next
    case False
    with that n1(2) have "q \<in> set n1" "q \<in> pub t" by auto
    with n1(3,4) ver_leD(4,7) [OF tu, of q] show ?thesis by simp
  qed
  moreover have "set (n2 @ n1) \<subseteq> pub u" using n1(2) n2(2) ver_leD(3) [OF tu] by auto
  ultimately show "\<exists>news. chain_path (links u) (vptr u loc) (news @ ps) \<and> set news \<subseteq> pub u \<and>
           (\<forall>q\<in>set news. le (clock s) (born u q) \<and> next_version (links u q) \<noteq> nullptr)"
    using n2(1) by (intro exI [of _ "n2 @ n1"]) simp
qed

end

sublocale stamp_clock \<subseteq> ver: monotone_shared ver_le wf_ver
  by unfold_locales (rule ver_le_refl, rule ver_le_trans)

context stamp_clock
begin

lemma wf_verD:
  assumes "wf_ver s"
  obtains ps where "chain_ok s (vptr s loc) ps"
  using assms unfolding wf_ver_def by blast

lemma chain_ok_head: "chain_ok s p ps \<Longrightarrow> p \<in> pub s \<and> p \<in> set ps"
  unfolding chain_ok_def by (cases ps) auto

lemma wf_ver_head: "wf_ver s \<Longrightarrow> vptr s loc \<in> pub s"
  by (rule wf_verD [of s loc]) (auto dest: chain_ok_head)

lemma pub_not_null: "wf_ver s \<Longrightarrow> q \<in> pub s \<Longrightarrow> q \<noteq> nullptr"
  unfolding wf_ver_def by (metis subsetD)

lemma chain_ok_frame:
  assumes "chain_ok s p ps" "pub s \<subseteq> pub s'"
    and "\<And>q. q \<in> pub s \<Longrightarrow> next_version (links s' q) = next_version (links s q)"
    and "\<And>q. q \<in> pub s \<Longrightarrow> stamped s q \<Longrightarrow> time_stamp (links s' q) = time_stamp (links s q)"
  shows "chain_ok s' p ps"
proof -
  have sub: "set ps \<subseteq> pub s" "set (tl ps) \<subseteq> pub s" "last ps \<in> pub s"
    using assms(1) by (auto simp: chain_ok_def dest: list.set_sel(2))
  have "stamped s (last ps)" using assms(1) by (auto simp: chain_ok_def stamped_def tbd_def zero_stamp_def)
  moreover have "chain_path (links s') p ps = chain_path (links s) p ps"
    by (rule chain_path_cong) (use sub(1) assms(3) in blast)
  ultimately show ?thesis
    using assms sub unfolding chain_ok_def stamped_def by (auto simp: subset_iff)
qed

lemma ver_leI_same:
  assumes "le (clock s) (clock s')" "in_use s \<subseteq> in_use s'" "pub s \<subseteq> pub s'" "vptr s' = vptr s"
    and "\<And>q. q \<in> in_use s \<union> pub s \<Longrightarrow> next_version (links s' q) = next_version (links s q) \<and>
      lvalue (links s' q) = lvalue (links s q) \<and>
      (stamped s q \<longrightarrow> time_stamp (links s' q) = time_stamp (links s q))"
    and "\<And>q. q \<in> pub s \<Longrightarrow> born s' q = born s q"
  shows "ver_le s s'"
  unfolding ver_le_def
proof (intro conjI allI impI)
  fix loc ps assume "chain_path (links s) (vptr s loc) ps \<and> set ps \<subseteq> pub s"
  then have "chain_path (links s') (vptr s' loc) ps"
    using assms(4,5) chain_path_cong [of ps "links s'" "links s"] by auto
  then show "\<exists>news. chain_path (links s') (vptr s' loc) (news @ ps) \<and> set news \<subseteq> pub s' \<and>
      (\<forall>q\<in>set news. le (clock s) (born s' q) \<and> next_version (links s' q) \<noteq> nullptr)"
    by (intro exI [of _ "[]"]) simp
qed (use assms in auto)

lemma wf_verI_frame:
  assumes "wf_ver s" "ver_le s s'" "vptr s' = vptr s"
    and "nullptr \<notin> in_use s'" "pub s' \<subseteq> in_use s'"
    and "\<And>q. q \<in> pub s' \<Longrightarrow> le (born s' q) (clock s') \<and>
        (stamped s' q \<longrightarrow> next_version (links s' q) = nullptr \<or> issued_after (born s' q) (time_stamp (links s' q)))"
    and "\<And>q. q \<in> in_use s' - pub s' \<Longrightarrow> \<not> stamped s' q"
  shows "wf_ver s'"
proof -
  have "\<exists>ps. chain_ok s' (vptr s' loc) ps" for loc
  proof -
    obtain ps where "chain_ok s (vptr s loc) ps" using wf_verD [OF assms(1)] by blast
    from chain_ok_frame [OF this ver_leD(3) [OF assms(2)]] ver_leD(4,6) [OF assms(2)] assms(3)
    show ?thesis by auto
  qed
  with assms(4-7) show ?thesis unfolding wf_ver_def by blast
qed

lemma stamped_mono: "ver_le s t \<Longrightarrow> q \<in> pub s \<Longrightarrow> stamped s q \<Longrightarrow> stamped t q"
  using ver_leD(6) [of s t q] by (simp add: stamped_def)

lemma issued_mono: "le c d \<Longrightarrow> issued_after d t \<Longrightarrow> issued_after c t"
  unfolding issued_after_def using le_trans by blast

text \<open>The atomic writes of the operations extend the state.\<close>

lemma put_stamp_evolves:
  assumes "p \<in> pub s" "\<not> stamped s p" "issued_after (born s p) t"
  shows "ver.evolves s (put_stamp p t s)"
proof -
  have le: "ver_le s (put_stamp p t s)"
    by (rule ver_leI_same) (use assms(2) in \<open>auto simp: le_refl stamped_def\<close>)
  have "wf_ver (put_stamp p t s)" if "wf_ver s"
    by (rule wf_verI_frame [OF that le]) (use that assms in \<open>auto simp: wf_ver_def stamped_def\<close>)
  with le show ?thesis by (simp add: ver.evolves_def)
qed

lemma clock_evolves:
  assumes "le (clock s) c"
  shows "ver.evolves s (s\<lparr>clock := c\<rparr>)"
proof -
  have le: "ver_le s (s\<lparr>clock := c\<rparr>)"
    by (rule ver_leI_same) (use assms in \<open>auto simp: stamped_def\<close>)
  have "wf_ver (s\<lparr>clock := c\<rparr>)" if "wf_ver s"
    by (rule wf_verI_frame [OF that le])
      (use that assms le_trans in \<open>auto simp: wf_ver_def stamped_def\<close>)
  with le show ?thesis by (simp add: ver.evolves_def)
qed

lemma new_link_evolves:
  assumes "p \<notin> in_use s \<union> pub s" "p \<noteq> nullptr" "new_link lalloc tbd nxt v s = (p, s')"
  shows "ver.evolves s s'"
proof -
  have s': "s' = s\<lparr>links := (links s)(p := \<lparr>time_stamp = tbd, next_version = nxt, lvalue = v\<rparr>),
      in_use := insert p (in_use s)\<rparr>"
    using assms(3) by (auto simp: new_link_def Let_def)
  have le: "ver_le s s'"
    by (rule ver_leI_same) (use assms(1) in \<open>auto simp: s' le_refl stamped_def\<close>)
  have "wf_ver s'" if "wf_ver s"
    by (rule wf_verI_frame [OF that le])
      (use that assms(1,2) in \<open>auto simp: wf_ver_def stamped_def s'\<close>)
  with le show ?thesis by (simp add: ver.evolves_def)
qed

text \<open>Installing a link that nobody has seen, in front of a link that has its stamp.\<close>

lemma install_evolves:
  assumes "p \<in> in_use s" "p \<notin> pub s" "p \<noteq> nullptr" "next_version (links s p) = vptr s loc"
    and "stamped s (vptr s loc)" "vptr s loc \<noteq> nullptr"
  shows "ver.evolves s (set_vptr loc p s)" (is "ver.evolves s ?s")
proof -
  have le: "ver_le s ?s"
    unfolding ver_le_def
  proof (intro conjI allI impI)
    fix l ps assume ps: "chain_path (links s) (vptr s l) ps \<and> set ps \<subseteq> pub s"
    show "\<exists>news. chain_path (links ?s) (vptr ?s l) (news @ ps) \<and> set news \<subseteq> pub ?s \<and>
      (\<forall>q\<in>set news. le (clock s) (born ?s q) \<and> next_version (links ?s q) \<noteq> nullptr)"
      by (rule exI [of _ "if l = loc then [p] else []"]) (use ps assms in \<open>auto simp: le_refl\<close>)
  qed (use assms(2) in \<open>auto simp: le_refl\<close>)
  have "wf_ver ?s" if wf: "wf_ver s"
  proof -
    have "\<exists>qs. chain_ok ?s (vptr ?s l) qs" for l
    proof -
      obtain ps where ps: "chain_ok s (vptr s l) ps" using wf_verD [OF wf] by blast
      have ok: "chain_ok ?s (vptr s l) ps"
        by (rule chain_ok_frame [OF ps]) auto
      show ?thesis
      proof (cases "l = loc")
        case True
        have "\<forall>q\<in>set ps. stamped ?s q"
          using ok assms(5) True by (cases ps) (auto simp: chain_ok_def stamped_def)
        then have "chain_ok ?s p (p # ps)"
          using ok assms True by (auto simp: chain_ok_def)
        then show ?thesis using True by auto
      next
        case False
        then show ?thesis using ok by auto
      qed
    qed
    then show ?thesis
      using wf assms(1-3) unfolding wf_ver_def by (auto simp: stamped_def le_refl)
  qed
  with le show ?thesis by (simp add: ver.evolves_def)
qed

lemma gws_issued:
  assumes "rely cenv" "get_write cenv c = (t, c')"
  shows "le c c'" "issued_after c t"
  using assms write_moves le_refl unfolding issued_after_def by (blast, metis fst_conv)

lemma set_stamp_evolves:
  assumes "ver.rely env" "rely cenv" "wf_ver s" "p \<in> pub s"
  shows "ver.evolves s (set_stamp get_write cenv env p s)"
    "fst (get_write cenv (clock (env 0 s))) \<noteq> tbd \<Longrightarrow> stamped (set_stamp get_write cenv env p s) p"
proof -
  let ?s1 = "env 0 s"
  obtain t c where t: "get_write cenv (clock ?s1) = (t, c)" by (metis prod.exhaust)
  let ?s2 = "env 1 (?s1\<lparr>clock := c\<rparr>)"
  let ?s3 = "env 2 ?s2"
  note e = ver.relyD [OF assms(1)]
  have e1: "ver.evolves s ?s1" by (rule e)
  have e2: "ver.evolves ?s1 ?s2"
    using clock_evolves [OF gws_issued(1) [OF assms(2) t]] e ver.evolves_trans by blast
  have e3: "ver.evolves s ?s3" using e1 e2 e ver.evolves_trans by blast
  have le: "ver_le ?s1 ?s3" "wf_ver ?s1" "wf_ver ?s3" "ver_le s ?s1"
    using e1 e2 e [of ?s2 2] assms(3) ver.evolves_trans by (auto simp: ver.evolves_def intro: ver_le_trans)
  have p1: "p \<in> pub ?s1" using ver_leD(3) [OF le(4)] assms(4) by blast
  then have p3: "p \<in> pub ?s3" "born ?s3 p = born ?s1 p" using ver_leD(3,7) [OF le(1)] by blast+
  have "issued_after (born ?s1 p) t"
    using issued_mono gws_issued(2) [OF assms(2) t] le(2) p1 unfolding wf_ver_def by blast
  then have put: "\<not> stamped ?s3 p \<Longrightarrow> ver.evolves ?s3 (put_stamp p t ?s3)"
    using put_stamp_evolves [OF p3(1)] p3(2) by simp
  show "ver.evolves s (set_stamp get_write cenv env p s)"
    using e1 e2 e3 put ver.evolves_trans
    by (auto simp: set_stamp_def t Let_def stamped_def)
  show "stamped (set_stamp get_write cenv env p s) p" if "fst (get_write cenv (clock (env 0 s))) \<noteq> tbd"
    using that by (auto simp: set_stamp_def t Let_def stamped_def)
qed

text \<open>The loop over the chain finds the newest version that is not younger than the stamp.\<close>

lemma chase_finds:
  assumes "ver.rely env" "chain_path (links s) p ps" "set ps \<subseteq> pub s" "\<And>q. q \<in> set ps \<Longrightarrow> stamped s q"
    and "ps \<noteq> []" "time_stamp (links s (last ps)) \<le> ls"
  shows "(\<exists>q s'. chase env ls fuel p s = Some (q, s') \<and> ver.evolves s s' \<and>
      find (\<lambda>q. time_stamp (links s q) \<le> ls) ps = Some q) \<or> chase env ls fuel p s = None \<and> fuel < length ps"
  using assms
proof (induction fuel arbitrary: p ps s)
  case 0
  then show ?case by simp
next
  case (Suc fuel)
  then obtain qs where ps: "ps = p # qs" by (cases ps) auto
  show ?case
  proof (cases "time_stamp (links s p) \<le> ls")
    case True
    then show ?thesis by (simp add: ps ts_less_def)
  next
    case False
    let ?s = "env fuel s"
    have ev: "ver.evolves s ?s" by (rule ver.relyD [OF assms(1)])
    then have le: "ver_le s ?s" by (simp add: ver.evolves_def)
    have same: "time_stamp (links ?s q) = time_stamp (links s q)" "next_version (links ?s q) = next_version (links s q)"
      if "q \<in> set ps" for q
      using ver_leD(4,6) [OF le] that Suc.prems(3,4) by auto
    have qs: "qs \<noteq> []" using False Suc.prems(6) ps by auto
    have "chain_path (links ?s) (next_version (links s p)) qs"
      using Suc.prems(2) same(2) chain_path_cong [of qs "links ?s" "links s"] by (simp add: ps)
    moreover have "set qs \<subseteq> pub ?s" using Suc.prems(3) ver_leD(3) [OF le] ps by auto
    moreover have "stamped ?s q" if "q \<in> set qs" for q
      using that same(1) Suc.prems(4) ps by (simp add: stamped_def)
    moreover have "time_stamp (links ?s (last qs)) \<le> ls"
      using Suc.prems(6) qs same(1) [of "last qs"] ps by simp
    ultimately have IH: "(\<exists>q s'. chase env ls fuel (next_version (links s p)) ?s = Some (q, s') \<and> ver.evolves ?s s' \<and>
        find (\<lambda>q. time_stamp (links ?s q) \<le> ls) qs = Some q) \<or>
        chase env ls fuel (next_version (links s p)) ?s = None \<and> fuel < length qs"
      using Suc.IH [OF assms(1), of ?s "next_version (links s p)" qs] qs by simp
    have "find (\<lambda>q. time_stamp (links ?s q) \<le> ls) qs = find (\<lambda>q. time_stamp (links s q) \<le> ls) qs"
      by (rule find_cong) (use same(1) ps in auto)
    with IH False ev ver.evolves_trans show ?thesis by (auto simp: ps ts_less_def)
  qed
qed

lemma find_in_set: "find P xs = Some x \<Longrightarrow> x \<in> set xs"
  by (auto simp: find_Some_iff)

lemma read_snapshot_finds:
  assumes "ver.rely env" "rely cenv" "wf_ver s" "zero_stamp \<le> ls"
    and "fst (get_write cenv (clock (env 0 (env 3 s)))) \<noteq> tbd"
  obtains ps sA where "chain_ok s (vptr s loc) ps" "ver.evolves s sA" "\<And>q. q \<in> set ps \<Longrightarrow> stamped sA q"
    "(\<exists>q s'. read_snapshot get_write cenv env fuel ls loc s = Some (lvalue (links s q), s') \<and>
        ver.evolves sA s' \<and> find (\<lambda>q. time_stamp (links sA q) \<le> ls) ps = Some q) \<or>
     read_snapshot get_write cenv env fuel ls loc s = None \<and> fuel < length ps"
proof -
  obtain ps where ps: "chain_ok s (vptr s loc) ps" using wf_verD [OF assms(3)] by blast
  let ?h = "vptr s loc" and ?s1 = "env 3 s"
  let ?sA = "set_stamp get_write cenv env ?h ?s1"
  have e1: "ver.evolves s ?s1" by (rule ver.relyD [OF assms(1)])
  then have wf1: "wf_ver ?s1" and h1: "?h \<in> pub ?s1"
    using assms(3) wf_ver_head [OF assms(3), of loc] ver_leD(3) by (auto simp: ver.evolves_def)
  note st = set_stamp_evolves [OF assms(1,2) wf1 h1]
  have eA: "ver.evolves s ?sA" using e1 st(1) ver.evolves_trans by blast
  then have leA: "ver_le s ?sA" and wfA: "wf_ver ?sA" using assms(3) by (auto simp: ver.evolves_def)
  have okA: "chain_ok ?sA ?h ps"
    by (rule chain_ok_frame [OF ps ver_leD(3) [OF leA]]) (use ver_leD(4,6) [OF leA] in auto)
  then have stA: "stamped ?sA q" if "q \<in> set ps" for q
    using that st(2) assms(5) by (cases ps) (auto simp: chain_ok_def)
  from okA have A: "chain_path (links ?sA) ?h ps" "set ps \<subseteq> pub ?sA" "ps \<noteq> []" "time_stamp (links ?sA (last ps)) \<le> ls"
    using assms(4) by (auto simp: chain_ok_def)
  have env4: "ver.rely (\<lambda>i. env (4 + i))" using assms(1) by (simp add: ver.rely_def)
  have val: "lvalue (links s' q) = lvalue (links s q)" if "q \<in> set ps" "ver.evolves ?sA s'" for q s'
  proof -
    have q: "q \<in> pub s" "q \<in> pub ?sA" using that(1) ps A(2) by (auto simp: chain_ok_def)
    then show ?thesis using ver_leD(5) [OF leA, of q] ver_leD(5) [of ?sA s' q] that(2) by (simp add: ver.evolves_def)
  qed
  have "(\<exists>q s'. read_snapshot get_write cenv env fuel ls loc s = Some (lvalue (links s q), s') \<and>
        ver.evolves ?sA s' \<and> find (\<lambda>q. time_stamp (links ?sA q) \<le> ls) ps = Some q) \<or>
     read_snapshot get_write cenv env fuel ls loc s = None \<and> fuel < length ps"
    using chase_finds [OF env4 A(1,2) stA A(3,4), of fuel] val find_in_set
    by (fastforce simp: read_snapshot_def Let_def)
  with that ps eA stA show ?thesis by blast
qed

lemma read_snapshot_result:
  assumes "ver.rely env" "rely cenv" "wf_ver s" "zero_stamp \<le> ls"
    and "fst (get_write cenv (clock (env 0 (env 3 s)))) \<noteq> tbd"
    and "read_snapshot get_write cenv env fuel ls loc s = Some (v, s1)"
  shows "\<exists>ps sA q. chain_ok s (vptr s loc) ps \<and> ver.evolves s sA \<and> (\<forall>q\<in>set ps. stamped sA q) \<and>
    v = lvalue (links s q) \<and> ver.evolves sA s1 \<and> find (\<lambda>q. time_stamp (links sA q) \<le> ls) ps = Some q"
  by (rule read_snapshot_finds [OF assms(1-5), of loc fuel]) (use assms(6) in auto)

text \<open>Links that were installed after a snapshot took its stamp are too young for it.\<close>

lemma later_links_young:
  assumes "rely e" "get_read e c0 = (ls, c1)" "le c1 (clock s)" "ver_le s t" "wf_ver t"
    and "q \<in> pub t" "le (clock s) (born t q)" "next_version (links t q) \<noteq> nullptr" "stamped t q"
  shows "ls < time_stamp (links t q)"
proof -
  have "issued_after (born t q) (time_stamp (links t q))"
    using assms(5,6,8,9) by (auto simp: wf_ver_def)
  then obtain e' c' where "rely e'" "le (born t q) c'" "fst (get_write e' c') = time_stamp (links t q)"
    unfolding issued_after_def by blast
  moreover from this have "le c1 c'" using assms(3,7) le_trans by blast
  ultimately show ?thesis using write_after_read [OF assms(1) _ assms(2)] by (metis prod.collapse)
qed

lemma repeatable_read:
  assumes "rely e" "get_read e c0 = (ls, c1)" "le c1 (clock s)" "zero_stamp \<le> ls" "wf_ver s"
    and "ver.rely env1" "rely cenv1" "fst (get_write cenv1 (clock (env1 0 (env1 3 s)))) \<noteq> tbd"
    and "read_snapshot get_write cenv1 env1 fuel1 ls loc s = Some (v1, s1)"
    and "ver.evolves s1 s2"
    and "ver.rely env2" "rely cenv2" "fst (get_write cenv2 (clock (env2 0 (env2 3 s2)))) \<noteq> tbd"
    and "read_snapshot get_write cenv2 env2 fuel2 ls loc s2 = Some (v2, s3)"
  shows "v1 = v2"
proof -
  obtain ps sA q1 where A: "chain_ok s (vptr s loc) ps" "ver.evolves s sA" "\<And>q. q \<in> set ps \<Longrightarrow> stamped sA q"
    "v1 = lvalue (links s q1)" "ver.evolves sA s1" "find (\<lambda>q. time_stamp (links sA q) \<le> ls) ps = Some q1"
    using read_snapshot_result [OF assms(6,7,5,4,8,9)] by blast
  have eA2: "ver.evolves sA s2" using A(5) assms(10) ver.evolves_trans by blast
  then have e2: "ver.evolves s s2" using A(2) ver.evolves_trans by blast
  then have wf2: "wf_ver s2" using assms(5) by (simp add: ver.evolves_def)
  obtain qs sB q2 where B: "chain_ok s2 (vptr s2 loc) qs" "ver.evolves s2 sB" "\<And>q. q \<in> set qs \<Longrightarrow> stamped sB q"
    "v2 = lvalue (links s2 q2)" "find (\<lambda>q. time_stamp (links sB q) \<le> ls) qs = Some q2"
    using read_snapshot_result [OF assms(11,12) wf2 assms(4,13,14)] by blast
  have sB: "ver_le s sB" "ver_le sA sB" "wf_ver sB" "ver_le s s2" "ver_le s2 sB"
    using e2 eA2 B(2) wf2 ver_le_trans by (auto simp: ver.evolves_def)
  obtain news where news: "chain_path (links s2) (vptr s2 loc) (news @ ps)" "set news \<subseteq> pub s2"
    "\<And>q. q \<in> set news \<Longrightarrow> le (clock s) (born s2 q)" "\<And>q. q \<in> set news \<Longrightarrow> next_version (links s2 q) \<noteq> nullptr"
    using ver_le_chain [OF sB(4)] A(1) by (metis chain_ok_def)
  have qs: "qs = news @ ps"
    using chain_path_unique news(1) B(1) by (metis chain_ok_def)
  have "\<not> time_stamp (links sB q) \<le> ls" if "q \<in> set news" for q
  proof -
    have q: "q \<in> pub s2" "q \<in> pub sB" using that news(2) ver_leD(3) [OF sB(5)] by blast+
    with later_links_young [OF assms(1,2,3) sB(1,3), of q] news(3,4) [OF that] ver_leD(4,7) [OF sB(5), of q]
      B(3) [of q] that show ?thesis by (simp add: qs)
  qed
  then have "find (\<lambda>q. time_stamp (links sB q) \<le> ls) qs = find (\<lambda>q. time_stamp (links sB q) \<le> ls) ps"
    unfolding qs by (induction news) auto
  moreover have "find (\<lambda>q. time_stamp (links sB q) \<le> ls) ps = find (\<lambda>q. time_stamp (links sA q) \<le> ls) ps"
  proof (rule find_cong)
    fix q assume q: "q \<in> set ps"
    then have "q \<in> pub sA" using A(1,2) ver_leD(3) by (auto simp: chain_ok_def ver.evolves_def)
    with ver_leD(6) [OF sB(2)] A(3) q show "(time_stamp (links sB q) \<le> ls) = (time_stamp (links sA q) \<le> ls)" by simp
  qed simp
  ultimately have "q2 = q1" using A(6) B(5) by simp
  moreover have "q1 \<in> pub s" using find_in_set [OF A(6)] A(1) by (auto simp: chain_ok_def)
  ultimately show ?thesis using A(4) B(4) ver_leD(5) [OF sB(4), of q1] by simp
qed

text \<open>Enough fuel for a chain of the length that the pointer has when the read starts.\<close>

lemma read_snapshot_total:
  assumes "ver.rely env" "rely cenv" "wf_ver s" "zero_stamp \<le> ls"
    and "fst (get_write cenv (clock (env 0 (env 3 s)))) \<noteq> tbd"
    and "chain_path (links s) (vptr s loc) ps" "length ps \<le> fuel"
  shows "\<exists>v s'. read_snapshot get_write cenv env fuel ls loc s = Some (v, s')"
proof (rule read_snapshot_finds [OF assms(1-5), of loc fuel])
  fix qs sA
  assume q: "chain_ok s (vptr s loc) qs"
    "(\<exists>q s'. read_snapshot get_write cenv env fuel ls loc s = Some (lvalue (links s q), s') \<and>
        ver.evolves sA s' \<and> find (\<lambda>q. time_stamp (links sA q) \<le> ls) qs = Some q) \<or>
     read_snapshot get_write cenv env fuel ls loc s = None \<and> fuel < length qs"
  have "qs = ps" using chain_path_unique [OF _ assms(6)] q(1) by (simp add: chain_ok_def)
  with q(2) assms(7) show ?thesis by auto
qed

lemma retire_link_evolves: "ver.evolves s (retire_link p s)" "ver.evolves s (destruct_link p s)"
proof -
  have le: "ver_le s (retire_link p s)" "ver_le s (destruct_link p s)"
    by (rule ver_leI_same; simp add: retire_link_def destruct_link_def le_refl)+
  have "wf_ver (retire_link p s)" "wf_ver (destruct_link p s)" if "wf_ver s"
    by (rule wf_verI_frame [OF that le(1)] wf_verI_frame [OF that le(2)];
        use that in \<open>auto simp: wf_ver_def retire_link_def destruct_link_def stamped_def\<close>)+
  with le show "ver.evolves s (retire_link p s)" "ver.evolves s (destruct_link p s)"
    by (simp_all add: ver.evolves_def)
qed

text \<open>
  A store under the lock that protects the pointer: nobody else changes this pointer, and
  nobody else installs the new link.
\<close>

lemma vp_store_evolves:
  assumes "ver.rely env" "rely cenv" "wf_ver s" "stamped s (vptr s loc)"
    and locked: "\<And>i t. vptr (env i t) loc = vptr t loc"
    and fresh: "lalloc (env 3 s) \<notin> in_use (env 3 s) \<union> pub (env 3 s)" "lalloc (env 3 s) \<noteq> nullptr"
    and own: "\<And>i t. lalloc (env 3 s) \<notin> pub t \<Longrightarrow> lalloc (env 3 s) \<notin> pub (env i t)"
    and run: "s' = vp_store get_write cenv lalloc env loc ptr s"
  shows "ver.evolves s s'" "lvalue (links s' (vptr s' loc)) = ptr"
proof -
  let ?s0 = "env 3 s" and ?old = "vptr s loc"
  define p where "p = lalloc ?s0"
  obtain s1 where s1: "new_link lalloc tbd ?old ptr ?s0 = (p, s1)"
    by (simp add: new_link_def Let_def p_def)
  note e = ver.relyD [OF assms(1)]
  have e0: "ver.evolves s ?s0" by (rule e)
  have e1: "ver.evolves ?s0 s1"
    by (rule new_link_evolves [OF _ _ s1]) (use fresh in \<open>simp_all add: p_def\<close>)
  let ?s2 = "env 4 s1"
  have f1: "in_use s1 = insert p (in_use ?s0)" "pub s1 = pub ?s0" "vptr s1 = vptr ?s0"
    "links s1 p = \<lparr>time_stamp = tbd, next_version = ?old, lvalue = ptr\<rparr>"
    using s1 by (auto simp: new_link_def Let_def p_def)
  have le2: "ver_le s1 ?s2" using e [of s1 4] by (simp add: ver.evolves_def)
  have e02: "ver.evolves s ?s2" using e0 e1 e ver.evolves_trans by blast
  then have le02: "ver_le s ?s2" and wf2: "wf_ver ?s2" using assms(3) by (auto simp: ver.evolves_def)
  have v2: "vptr ?s2 loc = ?old" by (simp add: locked f1)
  have old: "?old \<in> pub s" by (rule wf_ver_head [OF assms(3)])
  have p2: "p \<in> in_use ?s2" "p \<notin> pub ?s2" "next_version (links ?s2 p) = ?old" "lvalue (links ?s2 p) = ptr"
    using ver_leD(2) [OF le2] ver_leD(4,5) [OF le2, of p] f1 own [of s1 4] fresh(1) by (auto simp: p_def)
  have st2: "stamped ?s2 (vptr ?s2 loc)" using stamped_mono [OF le02 old assms(4)] v2 by simp
  have nn: "?old \<noteq> nullptr" by (rule pub_not_null [OF assms(3) old])
  let ?s3 = "set_vptr loc p ?s2"
  have e3: "ver.evolves ?s2 ?s3"
    by (rule install_evolves) (use p2 v2 st2 nn fresh(2) in \<open>simp_all add: p_def\<close>)
  let ?s4 = "env 5 ?s3"
  have e4: "ver.evolves ?s3 ?s4" by (rule e)
  have wf4: "wf_ver ?s4" using wf2 e3 e4 by (simp add: ver.evolves_def)
  have le34: "ver_le ?s3 ?s4" using e4 by (simp add: ver.evolves_def)
  have p4: "p \<in> pub ?s4" "lvalue (links ?s4 p) = ptr" "vptr ?s4 loc = p"
    using ver_leD(3) [OF le34] ver_leD(5) [OF le34, of p] p2(4) locked by auto
  note e5 = set_stamp_evolves(1) [OF assms(1,2) wf4 p4(1)]
  let ?s5 = "set_stamp get_write cenv env p ?s4"
  have s': "s' = retire_link ?old ?s5" by (simp add: run vp_store_def s1 Let_def)
  show "ver.evolves s s'"
    unfolding s'
    by (rule ver.evolves_trans [OF ver.evolves_trans [OF ver.evolves_trans [OF ver.evolves_trans [OF e02 e3] e4] e5]])
      (rule retire_link_evolves)
  have "vptr ?s5 loc = p" using locked p4(3) by (auto simp: set_stamp_def Let_def split: prod.splits)
  moreover have "lvalue (links ?s5 p) = ptr"
    using ver_leD(5) [of ?s4 ?s5 p] e5 p4 by (simp add: ver.evolves_def)
  ultimately show "lvalue (links s' (vptr s' loc)) = ptr" unfolding s' by (simp add: retire_link_def)
qed

text \<open>
  A compare-and-swap that races with others; it returns true exactly when its new link
  went into the chain.
\<close>

lemma idempotent_cas_evolves:
  assumes "ver.rely env" "wf_ver s" "p \<in> in_use s" "p \<notin> pub s" "p \<noteq> nullptr"
    and "next_version (links s p) = oldl" "stamped s oldl" "oldl \<in> pub s"
    and own: "\<And>i t. p \<notin> pub t \<Longrightarrow> p \<notin> pub (env i t)"
    and "idempotent_cas env loc oldl p s = (ok, s')"
  shows "ver.evolves s s'" "ok \<longleftrightarrow> p \<in> pub s'"
proof -
  define s1 where "s1 = (if vptr s loc = oldl then set_vptr loc p s else s)"
  define s6 where "s6 = env 6 s1"
  define s7 where "s7 = env 7 s6"
  have nn: "oldl \<noteq> nullptr" by (rule pub_not_null [OF assms(2,8)])
  have e1: "ver.evolves s s1"
    using install_evolves [of p s loc] assms nn by (auto simp: s1_def)
  have e6: "ver.evolves s1 s6" and e7: "ver.evolves s6 s7"
    unfolding s6_def s7_def by (rule ver.relyD [OF assms(1)])+
  have run: "s' = (if vptr s6 loc = p then s6 else s7)" "ok \<longleftrightarrow> vptr s6 loc = p \<or> stamped s7 p"
    using assms(10) by (auto simp: idempotent_cas_def Let_def s1_def s6_def s7_def stamped_def)
  have e16: "ver.evolves s s6" by (rule ver.evolves_trans [OF e1 e6])
  have e17: "ver.evolves s s7" by (rule ver.evolves_trans [OF e16 e7])
  show "ver.evolves s s'" using e16 e17 by (simp add: run)
  have wf: "wf_ver s1" "wf_ver s6" "wf_ver s7" and le6: "ver_le s1 s6" and le7: "ver_le s6 s7"
    using e1 e16 e17 e6 e7 assms(2) by (auto simp: ver.evolves_def)
  have in7: "p \<in> in_use s7" using e17 assms(3) ver_leD(2) unfolding ver.evolves_def by blast
  show "ok \<longleftrightarrow> p \<in> pub s'"
  proof (cases "vptr s6 loc = p")
    case True
    with wf_ver_head [OF wf(2), of loc] show ?thesis by (simp add: run)
  next
    case False
    have "p \<in> pub s7 \<longleftrightarrow> stamped s7 p"
    proof (cases "vptr s loc = oldl")
      case True
      then have v1: "vptr s1 loc = p" by (simp add: s1_def)
      obtain ps where ps: "chain_ok s1 p ps" using wf_verD [OF wf(1), of loc] v1 by auto
      then obtain qs where qs: "ps = p # qs" by (cases ps) (auto simp: chain_ok_def)
      have "chain_path (links s1) (vptr s1 loc) ps" "set ps \<subseteq> pub s1"
        using ps v1 by (simp_all add: chain_ok_def)
      then obtain news where news: "chain_path (links s6) (vptr s6 loc) (news @ p # qs)"
        using ver_le_chain [OF le6] qs by metis
      then have "news \<noteq> []" using False by (cases news) auto
      moreover obtain rs where rs: "chain_ok s6 (vptr s6 loc) rs" using wf_verD [OF wf(2)] by blast
      then have "rs = news @ p # qs" using chain_path_unique [OF _ news] by (simp add: chain_ok_def)
      ultimately have "stamped s6 p" using rs by (cases news) (auto simp: chain_ok_def)
      moreover have p6: "p \<in> pub s6" using ver_leD(3) [OF le6] True by (auto simp: s1_def)
      ultimately show ?thesis using stamped_mono [OF le7] ver_leD(3) [OF le7] by blast
    next
      case False
      then have "p \<notin> pub s7" using own assms(4) by (simp add: s1_def s6_def s7_def)
      with wf(3) in7 show ?thesis unfolding wf_ver_def by blast
    qed
    with False show ?thesis by (simp add: run)
  qed
qed

lemma vp_cas_evolves:
  assumes "ver.rely env" "rely cenv" "wf_ver s"
    and s1: "s1 = set_stamp get_write cenv env (vptr s loc) (env 3 s)"
    and small: "fst (get_write cenv (clock (env 0 (env 3 s)))) \<noteq> tbd"
    and fresh: "p = lalloc s1" "p \<notin> in_use s1 \<union> pub s1" "p \<noteq> nullptr"
    and own: "\<And>i t. p \<notin> pub t \<Longrightarrow> p \<notin> pub (env i t)"
    and run: "vp_cas get_write cenv lalloc env loc old_v new_v s = (ok, s')"
  shows "ver.evolves s s'" "old_v \<noteq> new_v \<Longrightarrow> ok \<longleftrightarrow> p \<in> pub s'"
proof -
  let ?old = "vptr s loc" and ?s0 = "env 3 s"
  have old: "?old \<in> pub s" by (rule wf_ver_head [OF assms(3)])
  have nn: "?old \<noteq> nullptr" by (rule pub_not_null [OF assms(3) old])
  have e0: "ver.evolves s ?s0" by (rule ver.relyD [OF assms(1)])
  then have wf0: "wf_ver ?s0" and old0: "?old \<in> pub ?s0"
    using assms(3) old ver_leD(3) by (auto simp: ver.evolves_def)
  note st = set_stamp_evolves [OF assms(1,2) wf0 old0]
  have e1: "ver.evolves s s1" unfolding s1 by (rule ver.evolves_trans [OF e0 st(1)])
  have st1: "stamped s1 ?old" using st(2) [OF small] by (simp add: s1)
  have wf1: "wf_ver s1" and old1: "?old \<in> pub s1"
    using e1 assms(3) old ver_leD(3) by (auto simp: ver.evolves_def)
  obtain s2 where s2: "new_link lalloc tbd ?old new_v s1 = (p, s2)"
    by (simp add: new_link_def Let_def fresh(1))
  have e2: "ver.evolves s1 s2" by (rule new_link_evolves [OF _ _ s2]) (use fresh in simp_all)
  have f2: "in_use s2 = insert p (in_use s1)" "pub s2 = pub s1" "next_version (links s2 p) = ?old"
    "links s2 ?old = links s1 ?old"
    using s2 fresh old1 by (auto simp: new_link_def Let_def)
  let ?s3 = "env 4 s2"
  have e3: "ver.evolves s2 ?s3" by (rule ver.relyD [OF assms(1)])
  have e13: "ver.evolves s1 ?s3" by (rule ver.evolves_trans [OF e2 e3])
  have le23: "ver_le s2 ?s3" and le13: "ver_le s1 ?s3" and wf3: "wf_ver ?s3"
    using e3 e13 wf1 by (auto simp: ver.evolves_def)
  have c: "p \<in> in_use ?s3" "p \<notin> pub ?s3" "next_version (links ?s3 p) = ?old" "stamped ?s3 ?old" "?old \<in> pub ?s3"
    using ver_leD(2) [OF le23] ver_leD(4) [OF le23, of p] f2 own [of s2 4] fresh(2)
      stamped_mono [OF le13 old1 st1] ver_leD(3) [OF le13] old1 by auto
  obtain b s4 where cas: "idempotent_cas env loc ?old p ?s3 = (b, s4)" by (metis prod.exhaust)
  note ic = idempotent_cas_evolves [OF assms(1) wf3 c(1,2) fresh(3) c(3,4,5) own cas]
  have e4: "ver.evolves s1 s4" by (rule ver.evolves_trans [OF e13 ic(1)])
  have wf4: "wf_ver s4" using e4 wf1 by (simp add: ver.evolves_def)
  let ?s5 = "env 5 s4"
  have e5: "ver.evolves s4 ?s5" by (rule ver.relyD [OF assms(1)])
  have wf5: "wf_ver ?s5" and h5: "vptr s4 loc \<in> pub ?s5"
    using e5 wf4 wf_ver_head [OF wf4, of loc] ver_leD(3) by (auto simp: ver.evolves_def)
  note fail = set_stamp_evolves(1) [OF assms(1,2) wf5 h5]
  have fin: "ver.evolves s4 (set_stamp get_write cenv env p s4)" if b
    by (rule set_stamp_evolves(1) [OF assms(1,2) wf4]) (use ic(2) that in simp)
  let ?ok = "retire_link ?old (set_stamp get_write cenv env p s4)"
  let ?ko = "destruct_link p (set_stamp get_write cenv env (vptr s4 loc) ?s5)"
  have cond: "(if ?old \<noteq> nullptr then set_stamp get_write cenv env ?old ?s0 else ?s0) = s1"
    using nn by (simp add: s1)
  have s': "(ok, s') = (if old_v \<noteq> lvalue (links s1 ?old) then (False, s1)
      else if old_v = new_v then (True, s1) else if b then (True, ?ok) else (False, ?ko))"
    using run s2 cas unfolding vp_cas_def Let_def cond by (auto split: if_splits)
  have eok: "ver.evolves s1 ?ok" if b
    by (rule ver.evolves_trans [OF ver.evolves_trans [OF e4 fin [OF that]] retire_link_evolves(1)])
  have eko: "ver.evolves s4 ?ko"
    by (rule ver.evolves_trans [OF ver.evolves_trans [OF e5 fail] retire_link_evolves(2)])
  have "ver.evolves s1 s'" using s' eok ver.evolves_trans [OF e4 eko] by (auto split: if_splits)
  with e1 show "ver.evolves s s'" by (rule ver.evolves_trans)
  have pk: "p \<notin> pub ?ko" if "\<not> b"
  proof -
    have "p \<notin> pub ?s5" using own ic(2) that by simp
    then have "p \<notin> pub (set_stamp get_write cenv env (vptr s4 loc) ?s5)"
      using own by (auto simp: set_stamp_def Let_def split: prod.splits)
    then show ?thesis by (simp add: destruct_link_def)
  qed
  have po: "p \<in> pub ?ok" if b
    using fin [OF that] ic(2) that ver_leD(3) [of s4 "set_stamp get_write cenv env p s4"]
    by (auto simp: ver.evolves_def retire_link_def)
  show "ok \<longleftrightarrow> p \<in> pub s'" if "old_v \<noteq> new_v"
    using s' that pk po fresh(2) by (auto split: if_splits)
qed

end

section \<open>Properties of the versioned pointers\<close>

definition demo_vstate :: "ts_state vstate" where
  "demo_vstate = \<lparr>links = (\<lambda>_. \<lparr>time_stamp = zero_stamp, next_version = nullptr, lvalue = 5\<rparr>),
     in_use = {1}, vptr = (\<lambda>_. 1), clock = demo_clock, pub = {1}, born = (\<lambda>_. demo_clock),
     retired = [], destructed = []\<rparr>"

lemma demo_vstate_wf: "tread.wf_ver d demo_vstate"
  unfolding tread.wf_ver_def
  by (auto simp: demo_vstate_def tread.chain_ok_def stamped_def tclock.le_refl intro!: exI [of _ "[1]"])

lemma demo_vstate_stamped: "stamped demo_vstate (vptr demo_vstate loc)"
  by (simp add: demo_vstate_def stamped_def zero_stamp_def tbd_def)

text \<open>C12: Reads in a snapshot are repeatable: after a snapshot has taken its stamp \<open>ls\<close>, two reads of
  the same pointer in it return the same value, although other threads store to the
  pointer, stamp its versions and take stamps of their own before, during, between and
  during the second read.\<close>

theorem snapshot_read_repeatable:
  assumes "tclock.rely e" "tread_get_read_stamp d e c0 = (ls, c1)" "ts_le c1 (clock s)" "zero_stamp \<le> ls"
    and "tread.wf_ver d s"
    and "tread.ver.rely d env1" "tclock.rely cenv1" "stamp (clock (env1 0 (env1 3 s))) \<noteq> tbd"
    and "read_snapshot (tread_get_write_stamp d) cenv1 env1 fuel1 ls loc s = Some (v1, s1)"
    and "tread.ver.evolves d s1 s2"
    and "tread.ver.rely d env2" "tclock.rely cenv2" "stamp (clock (env2 0 (env2 3 s2))) \<noteq> tbd"
    and "read_snapshot (tread_get_write_stamp d) cenv2 env2 fuel2 ls loc s2 = Some (v2, s3)"
  shows "v1 = v2"
  by (rule tread.repeatable_read [OF assms(1-7) _ assms(9-12) _ assms(14)])
    (use assms(8,13) in \<open>simp_all add: tread_get_write_stamp_def\<close>)

text \<open>C13: A store under the lock of the pointer only extends the version chains, so that it keeps
  every other thread's snapshots intact, and the pointer then leads to the stored value.\<close>

theorem versioned_store_extends:
  assumes "tread.ver.rely d env" "tclock.rely cenv" "tread.wf_ver d s" "stamped s (vptr s loc)"
    and "\<And>i t. vptr (env i t) loc = vptr t loc"
    and "lalloc (env 3 s) \<notin> in_use (env 3 s) \<union> pub (env 3 s)" "lalloc (env 3 s) \<noteq> nullptr"
    and "\<And>i t. lalloc (env 3 s) \<notin> pub t \<Longrightarrow> lalloc (env 3 s) \<notin> pub (env i t)"
    and "s' = vp_store (tread_get_write_stamp d) cenv lalloc env loc ptr s"
  shows "tread.ver.evolves d s s' \<and> vp_read loc s' = ptr"
  using tread.vp_store_evolves [OF assms] by (simp add: vp_read_def)

lemma versioned_store_extends_witness:
  "(let s' = vp_store (tread_get_write_stamp (-1)) (\<lambda>_ c. c) (\<lambda>_. 2) (\<lambda>_ s. s) 9 7 demo_vstate
    in tread.ver.evolves (-1) demo_vstate s' \<and> vp_read 9 s' = 7)"
  unfolding Let_def
  by (rule versioned_store_extends [OF _ _ demo_vstate_wf demo_vstate_stamped _ _ _ _ refl])
    (simp_all add: demo_vstate_def)

text \<open>The snapshot's first read sees 5; a store of 7 comes in between; the second read sees 5.\<close>

lemma snapshot_read_repeatable_witness:
  "\<exists>ls c1 s1 s2 s3. tread_get_read_stamp (-1) (\<lambda>_ c. c) demo_clock = (ls, c1) \<and>
     read_snapshot (tread_get_write_stamp (-1)) (\<lambda>_ c. c) (\<lambda>_ s. s) 3 ls 9 (demo_vstate\<lparr>clock := c1\<rparr>) = Some (5, s1) \<and>
     vp_store (tread_get_write_stamp (-1)) (\<lambda>_ c. c) (\<lambda>_. 2) (\<lambda>_ s. s) 9 7 s1 = s2 \<and> vp_read 9 s2 = 7 \<and>
     read_snapshot (tread_get_write_stamp (-1)) (\<lambda>_ c. c) (\<lambda>_ s. s) 3 ls 9 s2 = Some (5, s3)"
proof -
  obtain ls c1 where r: "tread_get_read_stamp (-1) (\<lambda>_ c. c) demo_clock = (ls, c1)" by (metis prod.exhaust)
  then have ls: "ls = 4" "stamp c1 = 5"
    by (auto simp: tread_get_read_stamp_def tread_increment_stamp_def fetch_add_stamp_def demo_clock_def Let_def)
  let ?s = "demo_vstate\<lparr>clock := c1\<rparr>"
  have ev: "tread.ver.evolves (-1) demo_vstate ?s"
    by (rule tread.clock_evolves) (simp add: demo_vstate_def ts_le_def ls demo_clock_def)
  then have wf: "tread.wf_ver (-1) ?s" using demo_vstate_wf by (simp add: tread.ver.evolves_def)
  obtain s1 where r1: "read_snapshot (tread_get_write_stamp (-1)) (\<lambda>_ c. c) (\<lambda>_ s. s) 3 ls 9 ?s = Some (5, s1)"
    and s1: "s1 = ?s"
    by (simp add: read_snapshot_def set_stamp_def demo_vstate_def zero_stamp_def tbd_def ls ts_less_def numeral_3_eq_3)
  let ?s2 = "vp_store (tread_get_write_stamp (-1)) (\<lambda>_ c. c) (\<lambda>_. 2) (\<lambda>_ s. s) 9 7 s1"
  have "stamped s1 (vptr s1 9)" using demo_vstate_stamped by (simp add: s1 stamped_def)
  then have st: "tread.ver.evolves (-1) s1 ?s2 \<and> vp_read 9 ?s2 = 7"
    by (intro conjI tread.vp_store_evolves [where s = s1 and s' = ?s2, unfolded vp_read_def [symmetric]])
      (use wf in \<open>simp_all add: s1 demo_vstate_def\<close>)
  have wf2: "tread.wf_ver (-1) ?s2" using st wf by (simp add: s1 tread.ver.evolves_def)
  have chain: "chain_path (links ?s2) (vptr ?s2 9) [2, 1]" "stamp (clock ?s2) \<noteq> tbd"
    by (simp_all add: vp_store_def new_link_def set_vptr_def set_stamp_def put_stamp_def retire_link_def
        tread_get_write_stamp_def s1 demo_vstate_def Let_def tbd_def ls)
  obtain v s3 where r2: "read_snapshot (tread_get_write_stamp (-1)) (\<lambda>_ c. c) (\<lambda>_ s. s) 3 ls 9 ?s2 = Some (v, s3)"
    using tread.read_snapshot_total [of "-1" "\<lambda>_ s. s" "\<lambda>_ c. c" ?s2 ls 9 "[2, 1]" 3] wf2 chain
    by (auto simp: ls zero_stamp_def tread_get_write_stamp_def)
  have "5 = v"
    by (rule snapshot_read_repeatable [OF _ r _ _ wf _ _ _ r1 _ _ _ _ r2])
      (use st chain in \<open>simp_all add: s1 ls zero_stamp_def tbd_def demo_vstate_def tclock.le_refl\<close>)
  with r r1 r2 st show ?thesis by blast
qed

text \<open>C14: A compare-and-swap on a versioned pointer, racing with others, keeps every snapshot intact
  and returns true exactly when its new version went into the chain of the pointer.\<close>

theorem versioned_cas_installs:
  assumes "tread.ver.rely d env" "tclock.rely cenv" "tread.wf_ver d s"
    and "s1 = set_stamp (tread_get_write_stamp d) cenv env (vptr s loc) (env 3 s)"
    and "stamp (clock (env 0 (env 3 s))) \<noteq> tbd"
    and "p = lalloc s1" "p \<notin> in_use s1 \<union> pub s1" "p \<noteq> nullptr"
    and "\<And>i t. p \<notin> pub t \<Longrightarrow> p \<notin> pub (env i t)" "old_v \<noteq> new_v"
    and "vp_cas (tread_get_write_stamp d) cenv lalloc env loc old_v new_v s = (ok, s')"
  shows "tread.ver.evolves d s s' \<and> (ok \<longleftrightarrow> p \<in> pub s')"
  using tread.vp_cas_evolves [OF assms(1-4) _ assms(6-9,11)] assms(5,10)
  by (simp add: tread_get_write_stamp_def)

lemma versioned_cas_installs_witness:
  "(case vp_cas (tread_get_write_stamp (-1)) (\<lambda>_ c. c) (\<lambda>_. 2) (\<lambda>_ s. s) 9 5 7 demo_vstate of
      (ok, s') \<Rightarrow> ok \<and> 2 \<in> pub s')"
proof -
  obtain ok s' where c: "vp_cas (tread_get_write_stamp (-1)) (\<lambda>_ c. c) (\<lambda>_. 2) (\<lambda>_ s. s) 9 5 7 demo_vstate = (ok, s')"
    by (metis prod.exhaust)
  have "tread.ver.evolves (-1) demo_vstate s' \<and> (ok \<longleftrightarrow> 2 \<in> pub s')"
    by (rule versioned_cas_installs [OF _ _ demo_vstate_wf refl _ _ _ _ _ _ c])
      (simp_all add: demo_vstate_def set_stamp_def zero_stamp_def tbd_def demo_clock_def)
  moreover have ok
    using c by (simp add: vp_cas_def set_stamp_def demo_vstate_def zero_stamp_def tbd_def new_link_def
        idempotent_cas_def set_vptr_def Let_def)
  ultimately show ?thesis using c by simp
qed

end
