(* ===== verification/Verlib_Hybrid.thy ===== *)
theory Verlib_Hybrid
  imports Verlib_Timestamps
begin

text \<open>
  Versioned pointers that avoid the link where they can, \<^verbatim>\<open>include/verlib/versioned_hybrid.h\<close>.
  An object stored for the first time carries the stamp and the next version itself; otherwise,
  and for the null pointer, a link is put in between, which is marked by the lowest bit of the
  pointer. A link that no running snapshot can look behind is taken out again (\<open>shortcut\<close>).
  The operations are modelled with the other threads' steps \<open>env\<close> between their accesses. The theory
  shows that the mark is stripped and found again, that a shortcut never changes what a
  snapshot reads, what every snapshot reads after a store among readers that take out links and
  stamp versions, and what after a compare-and-swap that runs alone.
\<close>

unbundle bit_operations_syntax

section \<open>Objects and links\<close>

definition hyb_tbd :: TS where
  "hyb_tbd = (2 ^ 63 - 1) div 4"

text \<open>The base \<open>versioned\<close> of an object, and the value of a \<open>ver_link\<close>.\<close>

record versioned =
  time_stamp :: TS
  next_version :: u64
  ver_value :: u64

text \<open>
  \<open>live\<close> are the addresses of objects and links in use, \<open>linkset\<close> those of links among them;
  \<open>gone\<close> and \<open>dropped\<close> collect what is given to \<open>link_pool.retire\<close> and \<open>link_pool.destruct\<close>.
\<close>

record 'c hstate =
  objs :: "u64 \<Rightarrow> versioned"
  live :: "u64 set"
  linkset :: "u64 set"
  hv :: "nat \<Rightarrow> u64"
  hclock :: 'c
  hdone :: TS
  gone :: "u64 list"
  dropped :: "u64 list"

type_synonym 'c henv = "nat \<Rightarrow> 'c hstate \<Rightarrow> 'c hstate"

definition add_indirect :: "u64 \<Rightarrow> u64" where
  "add_indirect p = 1 OR p"

definition strip_indirect :: "u64 \<Rightarrow> u64" where
  "strip_indirect p = p AND NOT 1"

definition is_indirect :: "u64 \<Rightarrow> bool" where
  "is_indirect p \<longleftrightarrow> p AND 1 \<noteq> 0"

abbreviation hstamp :: "'c hstate \<Rightarrow> u64 \<Rightarrow> TS" where
  "hstamp s p \<equiv> time_stamp (objs s p)"

definition shortcut :: "'c henv \<Rightarrow> nat \<Rightarrow> u64 \<Rightarrow> 'c hstate \<Rightarrow> 'c hstate" where
  "shortcut env loc ptr s =
     (let l = strip_indirect ptr
      in if hstamp s l \<le> hdone s
         then let s1 = env 0 s
              in if hv s1 loc = ptr
                 then s1\<lparr>hv := (hv s1)(loc := ver_value (objs s1 l)), gone := l # gone s1\<rparr>
                 else s1
         else s)"

definition get_ptr :: "u64 \<Rightarrow> 'c hstate \<Rightarrow> u64" where
  "get_ptr ptr s =
     (let p = strip_indirect ptr in if \<not> is_indirect ptr then p else ver_value (objs s p))"

definition get_ptr_shortcut :: "'c henv \<Rightarrow> nat \<Rightarrow> u64 \<Rightarrow> 'c hstate \<Rightarrow> u64 \<times> 'c hstate" where
  "get_ptr_shortcut env loc ptr s =
     (let p = strip_indirect ptr
      in if \<not> is_indirect ptr then (p, s)
         else let s1 = shortcut env loc ptr s in (ver_value (objs s1 p), s1))"

definition put_hstamp :: "u64 \<Rightarrow> TS \<Rightarrow> 'c hstate \<Rightarrow> 'c hstate" where
  "put_hstamp p t s = s\<lparr>objs := (objs s)(p := (objs s p)\<lparr>time_stamp := t\<rparr>)\<rparr>"

definition hyb_set_stamp :: "('c \<Rightarrow> TS \<times> 'c) \<Rightarrow> 'c henv \<Rightarrow> u64 \<Rightarrow> 'c hstate \<Rightarrow> 'c hstate" where
  "hyb_set_stamp gws env ptr s =
     (let p = strip_indirect ptr
      in if ptr \<noteq> 0 \<and> hstamp s p = hyb_tbd
         then let (t, c) = gws (hclock s);
                  s1 = env 1 (s\<lparr>hclock := c\<rparr>)
              in if hstamp s1 p = hyb_tbd
                 then let s2 = env 2 s1 in if hstamp s2 p = hyb_tbd then put_hstamp p t s2 else s2
                 else s1
         else s)"

definition set_zero_stamp :: "u64 \<Rightarrow> 'c hstate \<Rightarrow> u64 \<times> 'c hstate" where
  "set_zero_stamp ptr s =
     (ptr, if ptr \<noteq> 0 \<and> hstamp s ptr = hyb_tbd then put_hstamp ptr zero_stamp s else s)"

definition hyb_init :: "nat \<Rightarrow> u64 \<Rightarrow> 'c hstate \<Rightarrow> 'c hstate" where
  "hyb_init loc ptr s = (let (p, s1) = set_zero_stamp ptr s in s1\<lparr>hv := (hv s1)(loc := p)\<rparr>)"

definition destroy_ptr :: "nat \<Rightarrow> 'c hstate \<Rightarrow> 'c hstate" where
  "destroy_ptr loc s =
     (if is_indirect (hv s loc) then s\<lparr>dropped := strip_indirect (hv s loc) # dropped s\<rparr> else s)"

definition hcam :: "nat \<Rightarrow> u64 \<Rightarrow> u64 \<Rightarrow> 'c hstate \<Rightarrow> 'c hstate" where
  "hcam loc old_v new_v s = (if hv s loc = old_v then s\<lparr>hv := (hv s)(loc := new_v)\<rparr> else s)"

definition cas_from_cam :: "'c henv \<Rightarrow> nat \<Rightarrow> u64 \<Rightarrow> u64 \<Rightarrow> 'c hstate \<Rightarrow> bool \<times> 'c hstate" where
  "cas_from_cam env loc old_v new_v s =
     (let s1 = env 3 (hcam loc old_v new_v s)
      in if hv s1 loc = new_v then (True, s1)
         else let s2 = env 4 s1 in (hstamp s2 (strip_indirect new_v) \<noteq> hyb_tbd, s2))"

section \<open>Reading\<close>

fun hyb_chase :: "'c henv \<Rightarrow> TS \<Rightarrow> nat \<Rightarrow> u64 \<Rightarrow> 'c hstate \<Rightarrow> (u64 \<times> 'c hstate) option" where
  "hyb_chase env ls 0 head s = None"
| "hyb_chase env ls (Suc fuel) head s =
     (if head \<noteq> 0 \<and> ts_less ls (hstamp s (strip_indirect head))
      then hyb_chase env ls fuel (next_version (objs s (strip_indirect head))) (env fuel s)
      else Some (head, s))"

definition hyb_read_snapshot :: "('c \<Rightarrow> TS \<times> 'c) \<Rightarrow> 'c henv \<Rightarrow> nat \<Rightarrow> TS \<Rightarrow> nat \<Rightarrow> 'c hstate \<Rightarrow> (u64 \<times> 'c hstate) option" where
  "hyb_read_snapshot gws env fuel ls loc s =
     (let head = hv s loc; s1 = hyb_set_stamp gws env head (env 0 s)
      in map_option (\<lambda>(h, s2). (if is_indirect h then ver_value (objs s2 (strip_indirect h)) else h, s2))
           (hyb_chase (\<lambda>i. env (5 + i)) ls fuel head s1))"

definition hyb_load :: "('c \<Rightarrow> TS \<times> 'c) \<Rightarrow> 'c henv \<Rightarrow> nat \<Rightarrow> TS \<Rightarrow> nat \<Rightarrow> 'c hstate \<Rightarrow> (u64 \<times> 'c hstate) option" where
  "hyb_load gws env fuel ls loc s =
     (if ls \<noteq> no_stamp then hyb_read_snapshot gws env fuel ls loc s
      else let h = hv s loc in Some (get_ptr_shortcut env loc h (hyb_set_stamp gws env h (env 0 s))))"

definition hyb_read :: "'c henv \<Rightarrow> nat \<Rightarrow> 'c hstate \<Rightarrow> u64 \<times> 'c hstate" where
  "hyb_read env loc s = get_ptr_shortcut env loc (hv s loc) (env 1 s)"

definition hyb_validate :: "('c \<Rightarrow> TS \<times> 'c) \<Rightarrow> 'c henv \<Rightarrow> nat \<Rightarrow> 'c hstate \<Rightarrow> 'c hstate" where
  "hyb_validate gws env loc s = hyb_set_stamp gws env (hv s loc) (env 0 s)"

section \<open>Writing\<close>

definition new_ver_link :: "('c hstate \<Rightarrow> u64) \<Rightarrow> u64 \<Rightarrow> u64 \<Rightarrow> 'c hstate \<Rightarrow> u64 \<times> 'c hstate" where
  "new_ver_link lalloc nxt v s =
     (let l = lalloc s
      in (l, s\<lparr>objs := (objs s)(l := \<lparr>time_stamp = hyb_tbd, next_version = nxt, ver_value = v\<rparr>),
               live := insert l (live s), linkset := insert l (linkset s)\<rparr>))"

definition set_next_version :: "u64 \<Rightarrow> u64 \<Rightarrow> 'c hstate \<Rightarrow> 'c hstate" where
  "set_next_version p nxt s = s\<lparr>objs := (objs s)(p := (objs s p)\<lparr>next_version := nxt\<rparr>)\<rparr>"

text \<open>The new version of a location: the object itself, or a marked link to it.\<close>

definition make_version :: "('c hstate \<Rightarrow> u64) \<Rightarrow> u64 \<Rightarrow> u64 \<Rightarrow> 'c hstate \<Rightarrow> bool \<times> u64 \<times> 'c hstate" where
  "make_version lalloc old_v ptr s =
     (if ptr = 0 \<or> hstamp s ptr \<noteq> hyb_tbd
      then let (l, s1) = new_ver_link lalloc old_v ptr s in (True, add_indirect l, s1)
      else (False, ptr, set_next_version ptr old_v s))"

definition hyb_store :: "('c \<Rightarrow> TS \<times> 'c) \<Rightarrow> ('c hstate \<Rightarrow> u64) \<Rightarrow> 'c henv \<Rightarrow> nat \<Rightarrow> u64 \<Rightarrow> 'c hstate \<Rightarrow> 'c hstate" where
  "hyb_store gws lalloc env loc ptr s =
     (let old_v = hv s loc;
          (use_indirect, new_v, s1) = make_version lalloc old_v ptr (env 5 s);
          s2 = hcam loc old_v new_v (env 6 s1);
          s3 = (if is_indirect old_v
                then let s4 = env 7 s2; val = hv s4 loc; old_l = strip_indirect old_v
                     in if val \<noteq> ver_value (objs s4 old_l) then s4\<lparr>gone := old_l # gone s4\<rparr>
                        else hcam loc val new_v (env 8 s4)
                else s2);
          s5 = hyb_set_stamp gws env new_v (env 9 s3)
      in if use_indirect then shortcut env loc new_v s5 else s5)"

definition hyb_cas :: "('c \<Rightarrow> TS \<times> 'c) \<Rightarrow> ('c hstate \<Rightarrow> u64) \<Rightarrow> 'c henv \<Rightarrow> nat \<Rightarrow> u64 \<Rightarrow> u64 \<Rightarrow> 'c hstate \<Rightarrow> bool \<times> 'c hstate" where
  "hyb_cas gws lalloc env loc exp ptr s =
     (let old_v = hv s loc;
          old = get_ptr old_v s;
          s1 = hyb_set_stamp gws env old_v (env 5 s)
      in if old \<noteq> exp then (False, s1)
         else if exp = ptr then (True, s1)
         else let (use_indirect, new_v, s2) = make_version lalloc old_v ptr (env 6 s1);
                  (ok, s3) = cas_from_cam env loc old_v new_v (env 7 s2);
                  old_w = (if \<not> ok \<and> is_indirect old_v then ver_value (objs s3 (strip_indirect old_v)) else old_v);
                  (ok', s4) = (if \<not> ok \<and> is_indirect old_v
                               then (if old_w = hv s3 loc then cas_from_cam env loc old_w new_v (env 8 s3) else (False, s3))
                               else (ok, s3))
              in if ok'
                 then let s5 = hyb_set_stamp gws env new_v (env 9 s4);
                          s6 = (if is_indirect old_w then s5\<lparr>gone := strip_indirect old_w # gone s5\<rparr> else s5)
                      in (True, if use_indirect then shortcut env loc new_v s6 else s6)
                 else let s5 = (if use_indirect then s4\<lparr>dropped := strip_indirect new_v # dropped s4\<rparr> else s4)
                      in (False, hyb_set_stamp gws env (hv s5 loc) (env 10 s5)))"

text \<open>\<open>casz\<close>, the version that retries once from the start.\<close>

fun hyb_casz_loop :: "nat \<Rightarrow> ('c \<Rightarrow> TS \<times> 'c) \<Rightarrow> ('c hstate \<Rightarrow> u64) \<Rightarrow> 'c henv \<Rightarrow> nat \<Rightarrow> u64 \<Rightarrow> u64 \<Rightarrow> 'c hstate \<Rightarrow> bool \<times> 'c hstate" where
  "hyb_casz_loop 0 gws lalloc env loc exp ptr s = (False, hyb_set_stamp gws env (hv s loc) (env 10 s))"
| "hyb_casz_loop (Suc n) gws lalloc env loc exp ptr s =
     (let old_v = hv s loc;
          old = get_ptr old_v s;
          s1 = hyb_set_stamp gws env old_v (env 5 s)
      in if old \<noteq> exp then (False, s1)
         else if exp = ptr then (True, s1)
         else let (use_indirect, new_v, s2) = make_version lalloc old_v ptr (env 6 s1);
                  (ok, s3) = cas_from_cam env loc old_v new_v (env 7 s2)
              in if ok
                 then let s5 = hyb_set_stamp gws env new_v (env 9 s3);
                          s6 = (if is_indirect old_v then s5\<lparr>gone := strip_indirect old_v # gone s5\<rparr> else s5)
                      in (True, if use_indirect then shortcut env loc new_v s6 else s6)
                 else hyb_casz_loop n gws lalloc env loc exp ptr
                        (env 8 (if use_indirect then s3\<lparr>dropped := strip_indirect new_v # dropped s3\<rparr> else s3)))"

definition hyb_casz :: "('c \<Rightarrow> TS \<times> 'c) \<Rightarrow> ('c hstate \<Rightarrow> u64) \<Rightarrow> 'c henv \<Rightarrow> nat \<Rightarrow> u64 \<Rightarrow> u64 \<Rightarrow> 'c hstate \<Rightarrow> bool \<times> 'c hstate" where
  "hyb_casz = hyb_casz_loop 2"

text \<open>The store of the \<open>SlowStore\<close> build.\<close>

definition hyb_slow_store :: "('c \<Rightarrow> TS \<times> 'c) \<Rightarrow> ('c hstate \<Rightarrow> u64) \<Rightarrow> 'c henv \<Rightarrow> nat \<Rightarrow> u64 \<Rightarrow> 'c hstate \<Rightarrow> 'c hstate option" where
  "hyb_slow_store gws lalloc env loc ptr s =
     map_option (\<lambda>(oldv, s1). snd (hyb_cas gws lalloc env loc oldv ptr (env 11 s1))) (hyb_load gws env 1 no_stamp loc s)"

section \<open>The mark in the lowest bit\<close>

lemma is_indirect_bit: "is_indirect p \<longleftrightarrow> bit p 0"
proof -
  have "p AND 1 \<noteq> 0 \<longleftrightarrow> odd p" by (simp add: and_one_eq mod_2_eq_odd)
  then show ?thesis by (simp add: is_indirect_def bit_0)
qed

lemma strip_add [simp]: "strip_indirect (add_indirect p) = strip_indirect p"
  by (rule bit_word_eqI) (auto simp: strip_indirect_def add_indirect_def bit_simps)

lemma strip_direct: "\<not> is_indirect p \<Longrightarrow> strip_indirect p = p"
  by (rule bit_word_eqI) (auto simp: strip_indirect_def is_indirect_bit bit_simps intro: ccontr)

lemma indirect_add [simp]: "is_indirect (add_indirect p)"
  by (simp add: is_indirect_bit add_indirect_def bit_simps)

lemma direct_strip [simp]: "\<not> is_indirect (strip_indirect p)"
  by (simp add: is_indirect_bit strip_indirect_def bit_simps)

lemma indirect_nonzero [simp]: "\<not> is_indirect 0" "strip_indirect 0 = 0"
  by (simp_all add: is_indirect_bit strip_indirect_def)

section \<open>What snapshots read\<close>

text \<open>
  A word of the structure: null, or a stamped object in use, marked exactly when it is a link.
\<close>

definition okw :: "'c hstate \<Rightarrow> u64 \<Rightarrow> bool" where
  "okw s w \<longleftrightarrow> w = 0 \<or> strip_indirect w \<in> live s \<and> hstamp s (strip_indirect w) \<noteq> hyb_tbd
     \<and> (is_indirect w \<longleftrightarrow> strip_indirect w \<in> linkset s)"

text \<open>
  Between operations every version is stamped, no stamp is later than the next stamp of the clock, and
  the value of a link was stamped before the link.
\<close>

definition wf_hyb :: "('c \<Rightarrow> TS \<times> 'c) \<Rightarrow> 'c hstate \<Rightarrow> bool" where
  "wf_hyb gws s \<longleftrightarrow> 0 \<notin> live s \<and> (\<forall>p \<in> live s. \<not> is_indirect p) \<and> linkset s \<subseteq> live s
     \<and> (\<forall>loc. okw s (hv s loc))
     \<and> (\<forall>p \<in> live s. hstamp s p \<noteq> hyb_tbd \<longrightarrow> hstamp s p \<le> fst (gws (hclock s)) \<and> (0 < hstamp s p \<longrightarrow> okw s (next_version (objs s p))))
     \<and> (\<forall>l \<in> linkset s. hstamp s l \<noteq> hyb_tbd \<longrightarrow> (let v = ver_value (objs s l) in v = 0 \<or>
          v \<in> live s \<and> v \<notin> linkset s \<and> hstamp s v \<noteq> hyb_tbd \<and> hstamp s v \<le> hstamp s l))
     \<and> 0 \<le> hdone s \<and> fst (gws (hclock s)) < hyb_tbd"

lemma wf_hybD:
  assumes "wf_hyb gws s"
  shows "0 \<notin> live s" "p \<in> live s \<Longrightarrow> \<not> is_indirect p" "linkset s \<subseteq> live s" "okw s (hv s loc)"
    "p \<in> live s \<Longrightarrow> hstamp s p \<noteq> hyb_tbd \<Longrightarrow> hstamp s p \<le> fst (gws (hclock s))"
    "p \<in> live s \<Longrightarrow> hstamp s p \<noteq> hyb_tbd \<Longrightarrow> 0 < hstamp s p \<Longrightarrow> okw s (next_version (objs s p))"
    "l \<in> linkset s \<Longrightarrow> hstamp s l \<noteq> hyb_tbd \<Longrightarrow> ver_value (objs s l) = 0 \<or>
       ver_value (objs s l) \<in> live s \<and> ver_value (objs s l) \<notin> linkset s
       \<and> hstamp s (ver_value (objs s l)) \<noteq> hyb_tbd \<and> hstamp s (ver_value (objs s l)) \<le> hstamp s l"
    "0 \<le> hdone s" "fst (gws (hclock s)) < hyb_tbd"
  using assms unfolding wf_hyb_def Let_def by blast+

text \<open>The value a snapshot with stamp \<open>ls\<close> finds from a word, following at most \<open>fuel\<close> versions.\<close>

fun version_at :: "TS \<Rightarrow> nat \<Rightarrow> u64 \<Rightarrow> 'c hstate \<Rightarrow> u64 option" where
  "version_at ls 0 w s = None"
| "version_at ls (Suc fuel) w s =
     (if w \<noteq> 0 \<and> ls < hstamp s (strip_indirect w)
      then version_at ls fuel (next_version (objs s (strip_indirect w))) s
      else Some (get_ptr w s))"

lemma chase_version:
  "map_option (\<lambda>(h, s2). (if is_indirect h then ver_value (objs s2 (strip_indirect h)) else h, s2))
     (hyb_chase (\<lambda>i s. s) ls fuel w s) = map_option (\<lambda>v. (v, s)) (version_at ls fuel w s)"
  by (induction fuel arbitrary: w) (auto simp: ts_less_def get_ptr_def strip_direct Let_def)

lemma set_stamp_stamped: "ptr = 0 \<or> hstamp s (strip_indirect ptr) \<noteq> hyb_tbd \<Longrightarrow> hyb_set_stamp gws env ptr s = s"
  by (auto simp: hyb_set_stamp_def Let_def)

lemma okw_stamped: "okw s w \<Longrightarrow> w = 0 \<or> hstamp s (strip_indirect w) \<noteq> hyb_tbd"
  by (auto simp: okw_def)

text \<open>In a well-formed state a snapshot read alone returns this value and changes nothing.\<close>

lemma snapshot_version:
  assumes "wf_hyb gws s"
  shows "hyb_read_snapshot gws (\<lambda>i s. s) fuel ls loc s = map_option (\<lambda>v. (v, s)) (version_at ls fuel (hv s loc) s)"
  using set_stamp_stamped [OF okw_stamped [OF wf_hybD(4) [OF assms, of loc]]]
  by (simp add: hyb_read_snapshot_def Let_def chase_version)

text \<open>Versions are kept: the stamped objects of \<open>s\<close> are in \<open>t\<close> as they were.\<close>

definition versions_kept :: "'c hstate \<Rightarrow> 'c hstate \<Rightarrow> bool" where
  "versions_kept s t \<longleftrightarrow> (\<forall>p \<in> live s. hstamp s p \<noteq> hyb_tbd \<longrightarrow> objs t p = objs s p \<and> p \<in> live t \<and> (p \<in> linkset t \<longleftrightarrow> p \<in> linkset s))"

lemma okw_kept: "versions_kept s t \<Longrightarrow> okw s w \<Longrightarrow> okw t w"
  by (auto simp: versions_kept_def okw_def)

lemma get_ptr_kept: "versions_kept s t \<Longrightarrow> okw s w \<Longrightarrow> get_ptr w t = get_ptr w s"
  by (auto simp: versions_kept_def okw_def get_ptr_def Let_def)

lemma version_at_kept:
  assumes "wf_hyb gws s" "versions_kept s t" "okw s w" "0 \<le> ls"
  shows "version_at ls fuel w t = version_at ls fuel w s"
  using assms(3)
proof (induction fuel arbitrary: w)
  case (Suc fuel)
  show ?case
  proof (cases "w = 0")
    case False
    let ?p = "strip_indirect w"
    have p: "?p \<in> live s" "hstamp s ?p \<noteq> hyb_tbd" using Suc.prems False by (auto simp: okw_def)
    then have same: "objs t ?p = objs s ?p" using assms(2) by (auto simp: versions_kept_def)
    have "ls < hstamp s ?p \<Longrightarrow> okw s (next_version (objs s ?p))"
      using wf_hybD(6) [OF assms(1) p] assms(4) by simp
    then show ?thesis
      using Suc.IH same get_ptr_kept [OF assms(2) Suc.prems] False by simp
  qed (simp add: get_ptr_def)
qed simp

lemma version_at_more: "version_at ls fuel w s = Some v \<Longrightarrow> version_at ls (Suc fuel) w s = Some v"
proof (induction fuel arbitrary: w)
  case (Suc fuel)
  show ?case
  proof (cases "w \<noteq> 0 \<and> ls < hstamp s (strip_indirect w)")
    case True
    then have "version_at ls (Suc fuel) (next_version (objs s (strip_indirect w))) s = Some v"
      using Suc by simp
    with True show ?thesis by (subst version_at.simps(2)) (simp only: simp_thms if_True)
  qed (use Suc.prems in auto)
qed simp

section \<open>The shortcut\<close>

lemma shortcut_views:
  assumes "wf_hyb gws s" "hv s loc = w" "is_indirect w" "hstamp s (strip_indirect w) \<le> hdone s" "hdone s \<le> ls"
  shows "version_at ls (Suc fuel) (ver_value (objs s (strip_indirect w))) s = version_at ls (Suc fuel) w s"
    "okw s (ver_value (objs s (strip_indirect w)))"
proof -
  let ?l = "strip_indirect w" and ?v = "ver_value (objs s (strip_indirect w))"
  have w: "w \<noteq> 0" using assms(3) by auto
  have l: "?l \<in> linkset s" "hstamp s ?l \<noteq> hyb_tbd"
    using wf_hybD(4) [OF assms(1), of loc] assms(2,3) w by (auto simp: okw_def)
  note v = wf_hybD(7) [OF assms(1) l]
  have direct: "?v = 0 \<or> \<not> is_indirect ?v" using v wf_hybD(2) [OF assms(1)] by auto
  have strip: "strip_indirect ?v = ?v" using direct by (auto intro: strip_direct)
  show "okw s ?v" using v direct by (auto simp: okw_def strip strip_direct)
  show "version_at ls (Suc fuel) ?v s = version_at ls (Suc fuel) w s"
    using v direct assms(3-5) by (auto simp: get_ptr_def strip_direct Let_def)
qed

text \<open>A shortcut alone: the state stays well-formed and no snapshot reads anything else.\<close>

lemma shortcut_step:
  assumes "wf_hyb gws s" "is_indirect ptr"
  shows "wf_hyb gws (shortcut (\<lambda>i s. s) loc ptr s)"
    "hdone s \<le> ls \<Longrightarrow> version_at ls (Suc fuel) (hv (shortcut (\<lambda>i s. s) loc ptr s) l') (shortcut (\<lambda>i s. s) loc ptr s)
       = version_at ls (Suc fuel) (hv s l') s"
proof -
  let ?t = "shortcut (\<lambda>i s. s) loc ptr s"
  have *: "wf_hyb gws ?t \<and> (hdone s \<le> ls \<longrightarrow> version_at ls (Suc fuel) (hv ?t l') ?t = version_at ls (Suc fuel) (hv s l') s)"
  proof (cases "hstamp s (strip_indirect ptr) \<le> hdone s \<and> hv s loc = ptr")
    case True
    let ?v = "ver_value (objs s (strip_indirect ptr))"
    have t: "?t = s\<lparr>hv := (hv s)(loc := ?v), gone := strip_indirect ptr # gone s\<rparr>"
      using True by (simp add: shortcut_def Let_def)
    have ok: "okw s ?v" using shortcut_views(2) [OF assms(1) _ assms(2), of loc "hdone s"] True by simp
    have okt: "okw ?t w = okw s w" for w by (simp add: t okw_def)
    have "wf_hyb gws ?t" using assms(1) ok okt unfolding wf_hyb_def Let_def t by simp
    moreover have "version_at ls (Suc fuel) (hv ?t l') ?t = version_at ls (Suc fuel) (hv s l') s" if "hdone s \<le> ls"
    proof -
      have kept: "versions_kept s ?t" by (simp add: t versions_kept_def)
      have nn: "0 \<le> ls" using wf_hybD(8) [OF assms(1)] that by simp
      have same: "version_at ls (Suc fuel) w ?t = version_at ls (Suc fuel) w s" if "okw s w" for w
        by (rule version_at_kept [OF assms(1) kept that nn])
      show ?thesis
      proof (cases "l' = loc")
        case True
        then have "hv ?t l' = ?v" by (simp add: t)
        then show ?thesis
          using same [OF ok] shortcut_views(1) [OF assms(1) _ assms(2) _ that, of loc fuel] True
            \<open>hstamp s (strip_indirect ptr) \<le> hdone s \<and> hv s loc = ptr\<close> by metis
      next
        case False
        then have "hv ?t l' = hv s l'" by (simp add: t)
        then show ?thesis using same [OF wf_hybD(4) [OF assms(1)]] by metis
      qed
    qed
    ultimately show ?thesis by blast
  next
    case False
    then have "?t = s" by (auto simp: shortcut_def Let_def)
    then show ?thesis using assms(1) by simp
  qed
  show "wf_hyb gws ?t" using * by blast
  show "hdone s \<le> ls \<Longrightarrow> version_at ls (Suc fuel) (hv ?t l') ?t = version_at ls (Suc fuel) (hv s l') s" using * by blast
qed

section \<open>New versions\<close>

text \<open>What a store may be given: null or an object in use; and what the pool hands out.\<close>

definition storable :: "'c hstate \<Rightarrow> u64 \<Rightarrow> bool" where
  "storable s ptr \<longleftrightarrow> ptr = 0 \<or> ptr \<in> live s \<and> ptr \<notin> linkset s"

definition fresh_link :: "('c hstate \<Rightarrow> u64) \<Rightarrow> 'c hstate \<Rightarrow> bool" where
  "fresh_link lalloc s \<longleftrightarrow> lalloc s \<notin> live s \<and> lalloc s \<noteq> 0 \<and> \<not> is_indirect (lalloc s)"

text \<open>A version on top of the word \<open>w\<close> that is made but neither installed nor stamped.\<close>

definition made :: "u64 \<Rightarrow> u64 \<Rightarrow> u64 \<Rightarrow> 'c hstate \<Rightarrow> bool" where
  "made w n ptr s \<longleftrightarrow> n \<noteq> 0 \<and> strip_indirect n \<in> live s \<and> hstamp s (strip_indirect n) = hyb_tbd
     \<and> next_version (objs s (strip_indirect n)) = w \<and> get_ptr n s = ptr
     \<and> (is_indirect n \<longleftrightarrow> strip_indirect n \<in> linkset s)
     \<and> (is_indirect n \<longrightarrow> ptr = 0 \<or> ptr \<in> live s \<and> ptr \<notin> linkset s \<and> hstamp s ptr \<noteq> hyb_tbd)"

lemma make_version_made:
  assumes "wf_hyb gws s" "storable s ptr" "fresh_link lalloc s" "make_version lalloc w ptr s = (u, n, s1)"
  shows "wf_hyb gws s1" "versions_kept s s1" "made w n ptr s1" "u \<longleftrightarrow> is_indirect n"
    "hv s1 = hv s" "hclock s1 = hclock s" "hdone s1 = hdone s" "gone s1 = gone s"
proof -
  let ?l = "lalloc s"
  have f: "?l \<notin> live s" "?l \<noteq> 0" "\<not> is_indirect ?l" using assms(3) by (simp_all add: fresh_link_def)
  have strip: "strip_indirect ?l = ?l" using strip_direct [OF f(3)] .
  have *: "wf_hyb gws s1 \<and> versions_kept s s1 \<and> made w n ptr s1 \<and> (u \<longleftrightarrow> is_indirect n)
      \<and> hv s1 = hv s \<and> hclock s1 = hclock s \<and> hdone s1 = hdone s \<and> gone s1 = gone s"
  proof (cases "ptr = 0 \<or> hstamp s ptr \<noteq> hyb_tbd")
    case True
    have r: "u" "n = add_indirect ?l" "s1 = s\<lparr>objs := (objs s)(?l := \<lparr>time_stamp = hyb_tbd, next_version = w, ver_value = ptr\<rparr>),
               live := insert ?l (live s), linkset := insert ?l (linkset s)\<rparr>"
      using assms(4) True by (auto simp: make_version_def new_ver_link_def Let_def)
    have n0: "n \<noteq> 0" using r(2) indirect_add [of ?l] by (metis indirect_nonzero(1))
    have kept: "versions_kept s s1" using f(1) by (auto simp: versions_kept_def r(3))
    have ok: "okw s x \<Longrightarrow> okw s1 x" for x by (rule okw_kept [OF kept])
    have vv: "v \<noteq> ?l" if "v \<in> live s" for v using that f(1) by blast
    have "wf_hyb gws s1"
      unfolding wf_hyb_def Let_def
      using assms(1) ok f vv unfolding r(3) wf_hyb_def Let_def by auto
    moreover have "ptr \<noteq> 0 \<Longrightarrow> ptr \<noteq> ?l" using assms(2) f(1) by (auto simp: storable_def)
    ultimately show ?thesis
      using kept n0 True assms(2) r(1) unfolding r(2) made_def
      by (auto simp: r(3) strip get_ptr_def storable_def)
  next
    case False
    have p: "ptr \<in> live s" "ptr \<notin> linkset s" "ptr \<noteq> 0" "hstamp s ptr = hyb_tbd" using assms(2) False by (auto simp: storable_def)
    have r: "\<not> u" "n = ptr" "s1 = s\<lparr>objs := (objs s)(ptr := (objs s ptr)\<lparr>next_version := w\<rparr>)\<rparr>"
      using assms(4) False by (auto simp: make_version_def set_next_version_def Let_def)
    have d: "\<not> is_indirect ptr" "strip_indirect ptr = ptr" using wf_hybD(2) [OF assms(1) p(1)] strip_direct by auto
    have kept: "versions_kept s s1" using p(4) by (auto simp: versions_kept_def r(3))
    have ok: "okw s x \<Longrightarrow> okw s1 x" for x by (rule okw_kept [OF kept])
    have st: "hstamp s1 q = hstamp s q" "ver_value (objs s1 q) = ver_value (objs s q)" for q by (simp_all add: r(3))
    have "wf_hyb gws s1"
      unfolding wf_hyb_def Let_def st
      using assms(1) ok p(4) unfolding r(3) wf_hyb_def Let_def by auto
    then show ?thesis
      using kept r(1) p d unfolding r(2) made_def by (auto simp: r(3) get_ptr_def)
  qed
  then show "wf_hyb gws s1" "versions_kept s s1" "made w n ptr s1" "u \<longleftrightarrow> is_indirect n"
    "hv s1 = hv s" "hclock s1 = hclock s" "hdone s1 = hdone s" "gone s1 = gone s" by blast+
qed

text \<open>Installing and stamping a version that was made.\<close>

definition publish :: "('c \<Rightarrow> TS \<times> 'c) \<Rightarrow> nat \<Rightarrow> u64 \<Rightarrow> 'c hstate \<Rightarrow> 'c hstate" where
  "publish gws loc n s =
     put_hstamp (strip_indirect n) (fst (gws (hclock s))) (s\<lparr>hv := (hv s)(loc := n), hclock := snd (gws (hclock s))\<rparr>)"

text \<open>The clock does not run backwards, and has not reached the mark of a missing stamp.\<close>

definition clock_advances :: "('c \<Rightarrow> TS \<times> 'c) \<Rightarrow> 'c \<Rightarrow> bool" where
  "clock_advances gws c \<longleftrightarrow> 0 < fst (gws c) \<and> fst (gws c) \<le> fst (gws (snd (gws c))) \<and> fst (gws (snd (gws c))) < hyb_tbd"

lemma publish_views:
  assumes "wf_hyb gws s" "made (hv s loc) n ptr s" "clock_advances gws (hclock s)"
  shows "wf_hyb gws (publish gws loc n s)"
    "0 \<le> ls \<Longrightarrow> version_at ls fuel (hv s l') s = Some v \<Longrightarrow>
       version_at ls (Suc fuel) (hv (publish gws loc n s) l') (publish gws loc n s)
         = Some (if l' = loc \<and> fst (gws (hclock s)) \<le> ls then ptr else v)"
proof -
  let ?t = "publish gws loc n s" and ?p = "strip_indirect n" and ?ts = "fst (gws (hclock s))"
  note m = assms(2) [unfolded made_def]
  note c = assms(3) [unfolded clock_advances_def]
  have flds: "hv ?t = (hv s)(loc := n)" "live ?t = live s" "linkset ?t = linkset s" "hdone ?t = hdone s"
    "hclock ?t = snd (gws (hclock s))" "hstamp ?t q = (if q = ?p then ?ts else hstamp s q)"
    "next_version (objs ?t q) = next_version (objs s q)" "ver_value (objs ?t q) = ver_value (objs s q)" for q
    by (simp_all add: publish_def put_hstamp_def)
  have kept: "versions_kept s ?t" using m by (auto simp: versions_kept_def flds publish_def put_hstamp_def)
  have ok: "okw s w \<Longrightarrow> okw ?t w" for w by (rule okw_kept [OF kept])
  have okn: "okw ?t n" using m c by (simp add: okw_def flds)
  show "wf_hyb gws ?t"
    unfolding wf_hyb_def Let_def
  proof (intro conjI ballI allI impI)
    show "okw ?t (hv ?t l)" for l using okn ok [OF wf_hybD(4) [OF assms(1)]] by (simp add: flds)
  next
    fix q assume q: "q \<in> live ?t" "hstamp ?t q \<noteq> hyb_tbd"
    show "hstamp ?t q \<le> fst (gws (hclock ?t))"
      using q c wf_hybD(5) [OF assms(1), of q] by (auto simp: flds split: if_splits)
    show "okw ?t (next_version (objs ?t q))" if "0 < hstamp ?t q"
      using q that ok wf_hybD(4,6) [OF assms(1)] m by (auto simp: flds split: if_splits)
  next
    fix l assume l: "l \<in> linkset ?t" "hstamp ?t l \<noteq> hyb_tbd"
    show "ver_value (objs ?t l) = 0 \<or> ver_value (objs ?t l) \<in> live ?t \<and> ver_value (objs ?t l) \<notin> linkset ?t
       \<and> hstamp ?t (ver_value (objs ?t l)) \<noteq> hyb_tbd \<and> hstamp ?t (ver_value (objs ?t l)) \<le> hstamp ?t l"
    proof (cases "l = ?p")
      case True
      then have ind: "is_indirect n" using l(1) m by (simp add: flds)
      then have v: "ver_value (objs s l) = ptr" using True m ind by (auto simp: get_ptr_def Let_def)
      have "ptr = 0 \<or> ptr \<in> live s \<and> ptr \<notin> linkset s \<and> hstamp s ptr \<noteq> hyb_tbd" using m ind by blast
      then show ?thesis using wf_hybD(5) [OF assms(1), of ptr] v True c m by (auto simp: flds)
    next
      case False
      then have "hstamp s l \<noteq> hyb_tbd" "l \<in> linkset s" using l by (auto simp: flds)
      then show ?thesis using wf_hybD(7) [OF assms(1), of l] m False by (auto simp: flds)
    qed
  qed (use wf_hybD(1-3,8) [OF assms(1)] c in \<open>auto simp: flds\<close>)
  assume ls: "0 \<le> ls" and v: "version_at ls fuel (hv s l') s = Some v"
  have old: "version_at ls fuel (hv s l') ?t = Some v"
    using version_at_kept [OF assms(1) kept wf_hybD(4) [OF assms(1)] ls] v by simp
  show "version_at ls (Suc fuel) (hv ?t l') ?t = Some (if l' = loc \<and> ?ts \<le> ls then ptr else v)"
  proof (cases "l' = loc")
    case True
    have "get_ptr n ?t = get_ptr n s" by (simp add: get_ptr_def Let_def flds)
    then have "get_ptr n ?t = ptr" using m by simp
    then show ?thesis using True m old by (simp add: flds)
  next
    case False
    then show ?thesis using version_at_more [OF old] by (simp only: flds fun_upd_apply if_False simp_thms)
  qed
qed

lemma wf_hyb_gone [simp]: "wf_hyb gws (s\<lparr>gone := g\<rparr>) = wf_hyb gws s"
  by (simp add: wf_hyb_def okw_def)

lemma version_at_gone [simp]: "version_at ls fuel w (s\<lparr>gone := g\<rparr>) = version_at ls fuel w s"
  by (induction fuel arbitrary: w) (simp_all add: get_ptr_def Let_def)

text \<open>After the install, the rest of a store or compare-and-swap that nobody disturbs.\<close>

definition finish_version :: "nat \<Rightarrow> bool \<Rightarrow> u64 \<Rightarrow> u64 list \<Rightarrow> 'c hstate \<Rightarrow> 'c hstate" where
  "finish_version loc u n g s = (if u then shortcut (\<lambda>i s. s) loc n (s\<lparr>gone := g\<rparr>) else s\<lparr>gone := g\<rparr>)"

lemma finish_version_views:
  assumes "wf_hyb gws s" "u \<Longrightarrow> is_indirect n"
  shows "wf_hyb gws (finish_version loc u n g s)"
    "hdone s \<le> ls \<Longrightarrow> version_at ls (Suc fuel) (hv (finish_version loc u n g s) l') (finish_version loc u n g s)
       = version_at ls (Suc fuel) (hv s l') s"
  using shortcut_step [where gws = gws and s = "s\<lparr>gone := g\<rparr>" and ptr = n and loc = loc] assms by (simp_all add: finish_version_def del: version_at.simps)

lemma old_value_differs:
  assumes "wf_hyb gws s" "made w n ptr s" "okw s w" "is_indirect w"
  shows "n \<noteq> ver_value (objs s (strip_indirect w))"
proof -
  let ?l = "strip_indirect w"
  have "w \<noteq> 0" using assms(4) by auto
  then have "?l \<in> linkset s" "hstamp s ?l \<noteq> hyb_tbd"
    using assms(3,4) by (auto simp: okw_def)
  then have v: "ver_value (objs s ?l) = 0 \<or> \<not> is_indirect (ver_value (objs s ?l)) \<and> hstamp s (ver_value (objs s ?l)) \<noteq> hyb_tbd"
    using wf_hybD(7) [OF assms(1), of ?l] wf_hybD(2) [OF assms(1)] by auto
  show ?thesis
  proof
    assume n: "n = ver_value (objs s ?l)"
    have m: "n \<noteq> 0" "hstamp s (strip_indirect n) = hyb_tbd" using assms(2) by (auto simp: made_def)
    then have "\<not> is_indirect n" "hstamp s n \<noteq> hyb_tbd" using v n by auto
    then show False using m strip_direct by metis
  qed
qed

lemma set_stamp_made:
  assumes "made w n ptr s"
  shows "hyb_set_stamp gws (\<lambda>i s. s) n (s\<lparr>hv := (hv s)(loc := n), gone := g\<rparr>) = (publish gws loc n s)\<lparr>gone := g\<rparr>"
    "hyb_set_stamp gws (\<lambda>i s. s) n (s\<lparr>hv := (hv s)(loc := n)\<rparr>) = (publish gws loc n s)\<lparr>gone := gone s\<rparr>"
  using assms by (simp_all add: made_def hyb_set_stamp_def publish_def put_hstamp_def Let_def split_def)

lemma store_alone:
  assumes "wf_hyb gws s" "storable s ptr" "fresh_link lalloc s"
  obtains u n s1 g where "hyb_store gws lalloc (\<lambda>i s. s) loc ptr s = finish_version loc u n g (publish gws loc n s1)"
    "make_version lalloc (hv s loc) ptr s = (u, n, s1)"
    "g = (if is_indirect (hv s loc) then [strip_indirect (hv s loc)] else []) @ gone s"
proof -
  obtain u n s1 where mv: "make_version lalloc (hv s loc) ptr s = (u, n, s1)" by (metis prod_cases3)
  note M = make_version_made [OF assms mv]
  let ?g = "(if is_indirect (hv s loc) then [strip_indirect (hv s loc)] else []) @ gone s"
  have "n \<noteq> ver_value (objs s1 (strip_indirect (hv s loc)))" if "is_indirect (hv s loc)"
    using old_value_differs [OF M(1,3) okw_kept [OF M(2) wf_hybD(4) [OF assms(1)]]] that by simp
  then have "hyb_store gws lalloc (\<lambda>i s. s) loc ptr s = finish_version loc u n ?g (publish gws loc n s1)"
    using set_stamp_made [OF M(3), of gws] M(5,8)
    by (cases "is_indirect (hv s loc)") (simp_all add: hyb_store_def mv hcam_def finish_version_def Let_def)
  with mv show thesis by (intro that) auto
qed

lemma cas_alone:
  assumes "wf_hyb gws s" "storable s ptr" "fresh_link lalloc s" "get_ptr (hv s loc) s = exp" "exp \<noteq> ptr"
  obtains u n s1 g where "hyb_cas gws lalloc (\<lambda>i s. s) loc exp ptr s = (True, finish_version loc u n g (publish gws loc n s1))"
    "hyb_casz gws lalloc (\<lambda>i s. s) loc exp ptr s = (True, finish_version loc u n g (publish gws loc n s1))"
    "make_version lalloc (hv s loc) ptr s = (u, n, s1)"
    "g = (if is_indirect (hv s loc) then [strip_indirect (hv s loc)] else []) @ gone s"
proof -
  obtain u n s1 where mv: "make_version lalloc (hv s loc) ptr s = (u, n, s1)" by (metis prod_cases3)
  note M = make_version_made [OF assms(1-3) mv]
  note st = set_stamp_stamped [OF okw_stamped [OF wf_hybD(4) [OF assms(1), of loc]]]
  let ?g = "(if is_indirect (hv s loc) then [strip_indirect (hv s loc)] else []) @ gone s"
  have gone: "gone (publish gws loc n s1) = gone s" using M(8) by (simp add: publish_def put_hstamp_def)
  have "hyb_cas gws lalloc (\<lambda>i s. s) loc exp ptr s = (True, finish_version loc u n ?g (publish gws loc n s1))"
    using set_stamp_made [OF M(3), of gws] M(5,8) assms(4,5)
    by (cases "is_indirect (hv s loc)")
      (simp_all add: hyb_cas_def mv st hcam_def cas_from_cam_def finish_version_def Let_def gone)
  moreover have "hyb_casz gws lalloc (\<lambda>i s. s) loc exp ptr s = (True, finish_version loc u n ?g (publish gws loc n s1))"
    using set_stamp_made [OF M(3), of gws] M(5,8) assms(4,5)
    by (cases "is_indirect (hv s loc)")
      (simp_all add: hyb_casz_def numeral_2_eq_2 mv st hcam_def cas_from_cam_def finish_version_def Let_def gone)
  ultimately show thesis using mv by (intro that) auto
qed

text \<open>The effect of a new version on a well-formed state.\<close>

lemma new_version_views:
  assumes "wf_hyb gws s" "storable s ptr" "fresh_link lalloc s" "clock_advances gws (hclock s)"
    "make_version lalloc (hv s loc) ptr s = (u, n, s1)"
  shows "wf_hyb gws (finish_version loc u n g (publish gws loc n s1))"
    "hdone s \<le> ls \<Longrightarrow> version_at ls fuel (hv s l') s = Some v \<Longrightarrow>
       version_at ls (Suc fuel) (hv (finish_version loc u n g (publish gws loc n s1)) l') (finish_version loc u n g (publish gws loc n s1))
         = Some (if l' = loc \<and> fst (gws (hclock s)) \<le> ls then ptr else v)"
proof -
  note M = make_version_made [OF assms(1-3,5)]
  have c: "clock_advances gws (hclock s1)" using assms(4) M(6) by simp
  have m: "made (hv s1 loc) n ptr s1" using M(3,5) by simp
  note P = publish_views [OF M(1) m c]
  have u: "u \<Longrightarrow> is_indirect n" using M(4) by simp
  note F = finish_version_views [where loc = loc and g = g, OF P(1) u]
  show "wf_hyb gws (finish_version loc u n g (publish gws loc n s1))" by (rule F(1))
  assume ls: "hdone s \<le> ls" and v: "version_at ls fuel (hv s l') s = Some v"
  have nn: "0 \<le> ls" using ls wf_hybD(8) [OF assms(1)] by simp
  have "version_at ls fuel (hv s1 l') s1 = Some v"
    using version_at_kept [OF assms(1) M(2) wf_hybD(4) [OF assms(1)] nn] v M(5) by simp
  from P(2) [OF nn this] F(2) [where ls = ls and fuel = fuel and l' = l'] ls M(6,7)
  show "version_at ls (Suc fuel) (hv (finish_version loc u n g (publish gws loc n s1)) l') (finish_version loc u n g (publish gws loc n s1))
         = Some (if l' = loc \<and> fst (gws (hclock s)) \<le> ls then ptr else v)"
    by (simp add: publish_def put_hstamp_def del: version_at.simps)
qed

text \<open>The result of a snapshot read that runs alone.\<close>

definition snapshot_value :: "('c \<Rightarrow> TS \<times> 'c) \<Rightarrow> nat \<Rightarrow> TS \<Rightarrow> nat \<Rightarrow> 'c hstate \<Rightarrow> u64 option" where
  "snapshot_value gws fuel ls loc s = map_option fst (hyb_read_snapshot gws (\<lambda>i s. s) fuel ls loc s)"

lemma snapshot_value_version: "wf_hyb gws s \<Longrightarrow> snapshot_value gws fuel ls loc s = version_at ls fuel (hv s loc) s"
  by (simp add: snapshot_value_def snapshot_version option.map_comp comp_def option.map_ident)

section \<open>A store among readers\<close>

text \<open>
  What readers do to the shared state: one takes out a link it loaded (\<open>shortcut\<close>), one stamps the
  word it found in some location, with a stamp it took from the clock after the time \<open>lo\<close>, the clock
  goes on, and \<open>done_stamp\<close> goes on when snapshots end.
\<close>

inductive rstep :: "('c \<Rightarrow> TS \<times> 'c) \<Rightarrow> TS \<Rightarrow> 'c hstate \<Rightarrow> 'c hstate \<Rightarrow> bool" for gws :: "'c \<Rightarrow> TS \<times> 'c" and lo :: TS where
  cut: "is_indirect q \<Longrightarrow> rstep gws lo s (shortcut (\<lambda>i s. s) l q s)"
| stamp: "hv s l \<noteq> 0 \<Longrightarrow> hstamp s (strip_indirect (hv s l)) = hyb_tbd \<Longrightarrow> lo \<le> ts \<Longrightarrow> ts \<le> fst (gws (hclock s)) \<Longrightarrow>
    rstep gws lo s (put_hstamp (strip_indirect (hv s l)) ts s)"
| tick: "fst (gws (hclock s)) \<le> fst (gws c) \<Longrightarrow> clock_advances gws c \<Longrightarrow> rstep gws lo s (s\<lparr>hclock := c\<rparr>)"
| pass: "hdone s \<le> d \<Longrightarrow> d < hyb_tbd \<Longrightarrow> rstep gws lo s (s\<lparr>hdone := d\<rparr>)"

definition readers :: "('c \<Rightarrow> TS \<times> 'c) \<Rightarrow> TS \<Rightarrow> 'c henv \<Rightarrow> bool" where
  "readers gws lo env \<longleftrightarrow> (\<forall>i s. (rstep gws lo)\<^sup>*\<^sup>* s (env i s))"

text \<open>The loads of the model are made of such steps.\<close>

lemma set_stamp_reads:
  assumes "clock_advances gws (hclock s)" "clock_advances gws (snd (gws (hclock s)))" "lo \<le> fst (gws (hclock s))"
  shows "(rstep gws lo)\<^sup>*\<^sup>* s (hyb_set_stamp gws (\<lambda>i s. s) (hv s loc) s)"
proof (cases "hv s loc \<noteq> 0 \<and> hstamp s (strip_indirect (hv s loc)) = hyb_tbd")
  case True
  let ?t = "fst (gws (hclock s))" and ?s1 = "s\<lparr>hclock := snd (gws (hclock s))\<rparr>"
  have "rstep gws lo s ?s1" by (rule tick) (use assms in \<open>simp_all add: clock_advances_def\<close>)
  moreover have "rstep gws lo ?s1 (put_hstamp (strip_indirect (hv ?s1 loc)) ?t ?s1)"
    by (rule stamp) (use True assms in \<open>simp_all add: clock_advances_def\<close>)
  ultimately show ?thesis
    using True by (simp add: hyb_set_stamp_def Let_def split_def)
qed (auto simp: hyb_set_stamp_def Let_def)

lemma load_reads:
  assumes "clock_advances gws (hclock s)" "clock_advances gws (snd (gws (hclock s)))" "lo \<le> fst (gws (hclock s))"
    and "hyb_load gws (\<lambda>i s. s) fuel ls loc s = Some (v, t)"
  shows "(rstep gws lo)\<^sup>*\<^sup>* s t"
proof -
  let ?s1 = "hyb_set_stamp gws (\<lambda>i s. s) (hv s loc) s"
  note st = set_stamp_reads [OF assms(1-3), of loc]
  show ?thesis
  proof (cases "ls = no_stamp")
    case True
    have "t = (if is_indirect (hv s loc) then shortcut (\<lambda>i s. s) loc (hv s loc) ?s1 else ?s1)"
      using assms(4) True by (auto simp: hyb_load_def get_ptr_shortcut_def Let_def split: if_splits)
    then show ?thesis using st by (auto intro: rtranclp.rtrancl_into_rtrancl cut)
  next
    case False
    then have "t = ?s1" using assms(4) by (auto simp: hyb_load_def hyb_read_snapshot_def Let_def chase_version)
    then show ?thesis using st by simp
  qed
qed

text \<open>The word \<open>x\<close> is \<open>w\<close>, or what is left of it when its link was taken out.\<close>

definition cutw :: "'c hstate \<Rightarrow> u64 \<Rightarrow> u64 \<Rightarrow> TS \<Rightarrow> bool" where
  "cutw s w x d \<longleftrightarrow> x = w \<or> is_indirect w \<and> hstamp s (strip_indirect w) \<le> d \<and> x = ver_value (objs s (strip_indirect w))"

lemma link_value:
  assumes "wf_hyb gws s" "okw s w" "is_indirect w"
  shows "let v = ver_value (objs s (strip_indirect w))
    in okw s v \<and> \<not> is_indirect v \<and> strip_indirect v = v \<and> (v = 0 \<or> v \<in> live s \<and> hstamp s v \<noteq> hyb_tbd \<and> hstamp s v \<le> hstamp s (strip_indirect w))"
proof -
  let ?v = "ver_value (objs s (strip_indirect w))"
  have "w \<noteq> 0" using assms(3) by auto
  then have l: "strip_indirect w \<in> linkset s" "hstamp s (strip_indirect w) \<noteq> hyb_tbd" using assms(2,3) by (auto simp: okw_def)
  note v = wf_hybD(7) [OF assms(1) l]
  have direct: "\<not> is_indirect ?v" using v wf_hybD(2) [OF assms(1)] by auto
  note sd = strip_direct [OF direct]
  have "okw s ?v" using v direct unfolding okw_def sd by blast
  with v direct sd show ?thesis unfolding Let_def by blast
qed

lemma cutw_okw: "wf_hyb gws s \<Longrightarrow> okw s w \<Longrightarrow> cutw s w x d \<Longrightarrow> okw s x"
  using link_value [of gws s w] unfolding cutw_def Let_def by blast

lemma cutw_next:
  assumes "wf_hyb gws s" "okw s w" "cutw s w x d" "is_indirect x" "hstamp s (strip_indirect x) \<le> d"
  shows "cutw s w (ver_value (objs s (strip_indirect x))) d"
  using link_value [OF assms(1,2)] assms(3-5) unfolding cutw_def Let_def by blast

lemma cutw_mono: "cutw s w x d \<Longrightarrow> d \<le> d' \<Longrightarrow> cutw s w x d'"
  by (auto simp: cutw_def)

lemma cutw_views:
  assumes "wf_hyb gws s" "okw s w" "cutw s w x d" "d \<le> ls"
  shows "version_at ls (Suc fuel) x s = version_at ls (Suc fuel) w s"
proof (cases "x = w")
  case False
  let ?v = "ver_value (objs s (strip_indirect w))"
  have x: "is_indirect w" "hstamp s (strip_indirect w) \<le> ls" "x = ?v" using assms(3,4) False by (auto simp: cutw_def)
  note v = link_value [OF assms(1,2) x(1), unfolded Let_def]
  then have "x = 0 \<or> \<not> ls < hstamp s (strip_indirect x)" using x by auto
  then show ?thesis using v x by (auto simp: get_ptr_def Let_def)
qed simp

lemma cutw_kept:
  assumes "versions_kept s t" "okw s w" "cutw s w x d"
  shows "cutw t w x d"
  using assms by (cases "w = 0") (auto simp: cutw_def okw_def versions_kept_def)

text \<open>
  The states of a store relative to a base state \<open>b\<close>, in which location \<open>l\<close> had the word \<open>W l\<close>. Before the new
  version \<open>n\<close> is in its location, readers can only take out links; then it is in the location and not
  stamped; then it has the stamp \<open>ts\<close>, and may have been taken out if it is a link.
\<close>

definition ready :: "('c \<Rightarrow> TS \<times> 'c) \<Rightarrow> TS \<Rightarrow> 'c hstate \<Rightarrow> 'c hstate \<Rightarrow> bool" where
  "ready gws lo b s \<longleftrightarrow> live s = live b \<and> linkset s = linkset b \<and> 0 \<le> hdone s \<and> hdone b \<le> hdone s \<and> hdone s < hyb_tbd
     \<and> lo \<le> fst (gws (hclock b)) \<and> fst (gws (hclock b)) \<le> fst (gws (hclock s)) \<and> fst (gws (hclock s)) < hyb_tbd"

definition quiet :: "('c \<Rightarrow> TS \<times> 'c) \<Rightarrow> TS \<Rightarrow> 'c hstate \<Rightarrow> (nat \<Rightarrow> u64) \<Rightarrow> 'c hstate \<Rightarrow> bool" where
  "quiet gws lo b W s \<longleftrightarrow> ready gws lo b s \<and> objs s = objs b \<and> (\<forall>l. cutw b (W l) (hv s l) (hdone s))"

definition unstamped :: "('c \<Rightarrow> TS \<times> 'c) \<Rightarrow> TS \<Rightarrow> 'c hstate \<Rightarrow> (nat \<Rightarrow> u64) \<Rightarrow> nat \<Rightarrow> u64 \<Rightarrow> 'c hstate \<Rightarrow> bool" where
  "unstamped gws lo b W loc n s \<longleftrightarrow> ready gws lo b s \<and> objs s = objs b \<and> hv s loc = n
     \<and> (\<forall>l. l \<noteq> loc \<longrightarrow> cutw b (W l) (hv s l) (hdone s))"

definition stamped :: "('c \<Rightarrow> TS \<times> 'c) \<Rightarrow> TS \<Rightarrow> 'c hstate \<Rightarrow> (nat \<Rightarrow> u64) \<Rightarrow> nat \<Rightarrow> u64 \<Rightarrow> TS \<Rightarrow> 'c hstate \<Rightarrow> bool" where
  "stamped gws lo b W loc n ts s \<longleftrightarrow> ready gws lo b s \<and> lo \<le> ts \<and> ts \<le> fst (gws (hclock s))
     \<and> objs s = (objs b)(strip_indirect n := (objs b (strip_indirect n))\<lparr>time_stamp := ts\<rparr>)
     \<and> (hv s loc = n \<or> is_indirect n \<and> ts \<le> hdone s \<and> hv s loc = ver_value (objs b (strip_indirect n)))
     \<and> (\<forall>l. l \<noteq> loc \<longrightarrow> cutw b (W l) (hv s l) (hdone s))"

definition posted :: "('c \<Rightarrow> TS \<times> 'c) \<Rightarrow> TS \<Rightarrow> 'c hstate \<Rightarrow> (nat \<Rightarrow> u64) \<Rightarrow> nat \<Rightarrow> u64 \<Rightarrow> 'c hstate \<Rightarrow> bool" where
  "posted gws lo b W loc n s \<longleftrightarrow> unstamped gws lo b W loc n s \<or> (\<exists>ts. stamped gws lo b W loc n ts s)"

text \<open>What the base state has to satisfy; \<open>ptr\<close> was stamped before \<open>lo\<close> if \<open>n\<close> is a link to it.\<close>

definition store_base :: "('c \<Rightarrow> TS \<times> 'c) \<Rightarrow> TS \<Rightarrow> 'c hstate \<Rightarrow> (nat \<Rightarrow> u64) \<Rightarrow> nat \<Rightarrow> u64 \<Rightarrow> u64 \<Rightarrow> bool" where
  "store_base gws lo b W loc n ptr \<longleftrightarrow> wf_hyb gws b \<and> (\<forall>l. okw b (W l)) \<and> made (W loc) n ptr b
     \<and> (is_indirect n \<longrightarrow> ptr = 0 \<or> hstamp b ptr \<le> lo)"

lemma store_phase_simps [simp]:
  "ready gws lo b (s\<lparr>gone := g\<rparr>) = ready gws lo b s" "quiet gws lo b W (s\<lparr>gone := g\<rparr>) = quiet gws lo b W s"
  "unstamped gws lo b W loc n (s\<lparr>gone := g\<rparr>) = unstamped gws lo b W loc n s"
  "stamped gws lo b W loc n ts (s\<lparr>gone := g\<rparr>) = stamped gws lo b W loc n ts s"
  "posted gws lo b W loc n (s\<lparr>gone := g\<rparr>) = posted gws lo b W loc n s"
  by (simp_all add: ready_def quiet_def unstamped_def stamped_def posted_def)

lemma shortcut_alone:
  "shortcut (\<lambda>i s. s) l q s =
     (if hstamp s (strip_indirect q) \<le> hdone s \<and> hv s l = q
      then s\<lparr>hv := (hv s)(l := ver_value (objs s (strip_indirect q))), gone := strip_indirect q # gone s\<rparr> else s)"
  by (simp add: shortcut_def Let_def)

lemma ready_tick:
  "ready gws lo b s \<Longrightarrow> fst (gws (hclock s)) \<le> fst (gws c) \<Longrightarrow> fst (gws c) < hyb_tbd \<Longrightarrow> ready gws lo b (s\<lparr>hclock := c\<rparr>)"
  "ready gws lo b s \<Longrightarrow> hdone s \<le> d \<Longrightarrow> d < hyb_tbd \<Longrightarrow> ready gws lo b (s\<lparr>hdone := d\<rparr>)"
  by (auto simp: ready_def)

lemma quiet_step:
  assumes "wf_hyb gws b" "\<And>l. okw b (W l)" "rstep gws lo s t" "quiet gws lo b W s"
  shows "quiet gws lo b W t"
  using assms(3)
proof cases
  case (cut q l)
  have q: "ready gws lo b s" "objs s = objs b" "\<And>l. cutw b (W l) (hv s l) (hdone s)" using assms(4) by (auto simp: quiet_def)
  have "cutw b (W l) (ver_value (objs b (strip_indirect q))) (hdone s)" if "hstamp s (strip_indirect q) \<le> hdone s" "hv s l = q"
    using cutw_next [OF assms(1,2) q(3), of l] cut(2) that q(2) by simp
  then show ?thesis using q assms(4) by (auto simp: cut(1) shortcut_alone quiet_def ready_def)
next
  case (stamp l ts)
  have "okw b (hv s l)" using cutw_okw [OF assms(1,2)] assms(4) by (auto simp: quiet_def)
  then show ?thesis using stamp(2,3) assms(4) by (auto simp: okw_def quiet_def)
next
  case (tick c)
  then show ?thesis using assms(4) by (auto simp: quiet_def clock_advances_def intro: ready_tick)
next
  case (pass d)
  then show ?thesis using assms(4) by (auto simp: quiet_def intro: ready_tick cutw_mono)
qed

lemma store_baseD:
  assumes "store_base gws lo b W loc n ptr"
  shows "wf_hyb gws b" "okw b (W l)" "made (W loc) n ptr b" "n \<noteq> 0" "hstamp b (strip_indirect n) = hyb_tbd"
    "is_indirect n \<Longrightarrow> ver_value (objs b (strip_indirect n)) = ptr"
    "is_indirect n \<Longrightarrow> ptr = 0 \<or> ptr \<in> live b \<and> hstamp b ptr \<noteq> hyb_tbd \<and> hstamp b ptr \<le> lo"
    "is_indirect n \<Longrightarrow> okw b ptr \<and> \<not> is_indirect ptr \<and> strip_indirect ptr = ptr"
proof -
  have B: "wf_hyb gws b" "made (W loc) n ptr b" "is_indirect n \<longrightarrow> ptr = 0 \<or> hstamp b ptr \<le> lo"
    using assms by (auto simp: store_base_def)
  have m: "is_indirect n \<longrightarrow> ptr = 0 \<or> ptr \<in> live b \<and> ptr \<notin> linkset b \<and> hstamp b ptr \<noteq> hyb_tbd" using B(2) by (simp add: made_def)
  show "wf_hyb gws b" "okw b (W l)" "made (W loc) n ptr b" "n \<noteq> 0" "hstamp b (strip_indirect n) = hyb_tbd"
    using assms by (auto simp: store_base_def made_def)
  show "is_indirect n \<Longrightarrow> ver_value (objs b (strip_indirect n)) = ptr"
    using B(2) by (auto simp: made_def get_ptr_def Let_def)
  show "is_indirect n \<Longrightarrow> ptr = 0 \<or> ptr \<in> live b \<and> hstamp b ptr \<noteq> hyb_tbd \<and> hstamp b ptr \<le> lo" using B(3) m by blast
  assume i: "is_indirect n"
  then have d: "\<not> is_indirect ptr" using m wf_hybD(2) [OF B(1)] by auto
  then show "okw b ptr \<and> \<not> is_indirect ptr \<and> strip_indirect ptr = ptr"
    using strip_direct [OF d] m i by (auto simp: okw_def)
qed

lemma okw_not_new: "store_base gws lo b W loc n ptr \<Longrightarrow> okw b x \<Longrightarrow> x \<noteq> 0 \<Longrightarrow> strip_indirect x \<noteq> strip_indirect n"
  using store_baseD(5) by (metis okw_def)

lemma unstamped_step:
  assumes "store_base gws lo b W loc n ptr" "rstep gws lo s t" "unstamped gws lo b W loc n s"
  shows "posted gws lo b W loc n t"
  using assms(2)
proof cases
  case (cut q l)
  note B = store_baseD [OF assms(1)]
  have q: "ready gws lo b s" "objs s = objs b" "hv s loc = n" "\<And>l. l \<noteq> loc \<Longrightarrow> cutw b (W l) (hv s l) (hdone s)"
    using assms(3) by (auto simp: unstamped_def)
  have "cutw b (W l) (ver_value (objs b (strip_indirect q))) (hdone s)" if "hstamp s (strip_indirect q) \<le> hdone s" "hv s l = q" "l \<noteq> loc"
    using cutw_next [OF B(1,2) q(4), of l] cut(2) that q(2) by simp
  moreover have "l \<noteq> loc" if "hstamp s (strip_indirect q) \<le> hdone s" "hv s l = q"
  proof
    assume "l = loc"
    then have "hyb_tbd \<le> hdone s" using that q(2,3) B(5) by simp
    then show False using q(1) by (simp add: ready_def)
  qed
  ultimately have "unstamped gws lo b W loc n t" using q assms(3) by (auto simp: cut(1) shortcut_alone unstamped_def ready_def)
  then show ?thesis by (simp add: posted_def)
next
  case (stamp l ts)
  show ?thesis
  proof (cases "l = loc")
    case True
    then have "stamped gws lo b W loc n ts t"
      using stamp assms(3) by (auto simp: unstamped_def stamped_def put_hstamp_def ready_def)
    then show ?thesis by (auto simp: posted_def)
  next
    case False
    then have "okw b (hv s l)" using cutw_okw [OF store_baseD(1,2) [OF assms(1)]] assms(3) by (auto simp: unstamped_def)
    then show ?thesis using stamp(2,3) assms(3) by (auto simp: okw_def unstamped_def)
  qed
next
  case (tick c)
  then have "unstamped gws lo b W loc n t" using assms(3) by (auto simp: unstamped_def clock_advances_def intro: ready_tick)
  then show ?thesis by (simp add: posted_def)
next
  case (pass d)
  then have "unstamped gws lo b W loc n t" using assms(3) by (auto simp: unstamped_def intro: ready_tick cutw_mono)
  then show ?thesis by (simp add: posted_def)
qed

lemma stamped_cut:
  assumes "store_base gws lo b W loc n ptr" "stamped gws lo b W loc n ts s" "is_indirect q" "hv s l = q"
    "hstamp s (strip_indirect q) \<le> hdone s"
  shows "stamped gws lo b W loc n ts (s\<lparr>hv := (hv s)(l := ver_value (objs s (strip_indirect q)))\<rparr>)"
proof -
  note B = store_baseD [OF assms(1)]
  have q0: "q \<noteq> 0" using assms(3) by auto
  show ?thesis
  proof (cases "l = loc")
    case True
    have "q = n" using assms(2-4) True B(6,8) by (auto simp: stamped_def)
    then show ?thesis using assms(2,3,5) True by (simp add: stamped_def ready_def)
  next
    case False
    have c: "cutw b (W l) q (hdone s)" using assms(2,4) False by (auto simp: stamped_def)
    have "strip_indirect q \<noteq> strip_indirect n" using okw_not_new [OF assms(1) cutw_okw [OF B(1,2) c] q0] .
    then have "objs s (strip_indirect q) = objs b (strip_indirect q)" using assms(2) by (simp add: stamped_def)
    then have "cutw b (W l) (ver_value (objs s (strip_indirect q))) (hdone s)"
      using cutw_next [OF B(1,2) c assms(3)] assms(5) by simp
    moreover have "stamped gws lo b W loc n ts (s\<lparr>hv := (hv s)(l := x)\<rparr>)" if "cutw b (W l) x (hdone s)" for x
      using assms(2) False that by (simp add: stamped_def ready_def)
    ultimately show ?thesis by blast
  qed
qed

lemma stamped_words:
  assumes "store_base gws lo b W loc n ptr" "stamped gws lo b W loc n ts s"
  shows "hv s l = n \<or> okw b (hv s l)" "hv s l = 0 \<or> hstamp s (strip_indirect (hv s l)) \<noteq> hyb_tbd"
proof -
  note B = store_baseD [OF assms(1)]
  show *: "hv s l = n \<or> okw b (hv s l)"
    using assms(2) cutw_okw [OF B(1,2)] B(6,8) by (cases "l = loc") (auto simp: stamped_def)
  have ts: "ts < hyb_tbd" using assms(2) by (simp add: stamped_def ready_def)
  have "hstamp s (strip_indirect x) \<noteq> hyb_tbd" if "okw b x" "x \<noteq> 0" for x
    using okw_not_new [OF assms(1) that] that assms(2) by (auto simp: stamped_def okw_def)
  moreover have "hstamp s (strip_indirect n) = ts" using assms(2) by (simp add: stamped_def)
  ultimately show "hv s l = 0 \<or> hstamp s (strip_indirect (hv s l)) \<noteq> hyb_tbd" using * ts by force
qed

lemma stamped_step:
  assumes "store_base gws lo b W loc n ptr" "rstep gws lo s t" "stamped gws lo b W loc n ts s"
  shows "stamped gws lo b W loc n ts t"
  using assms(2)
proof cases
  case (cut q l)
  show ?thesis using stamped_cut [OF assms(1,3) cut(2)] assms(3) by (simp add: cut(1) shortcut_alone)
next
  case (stamp l ts')
  then show ?thesis using stamped_words(2) [OF assms(1,3)] by blast
next
  case (tick c)
  then show ?thesis using assms(3) by (auto simp: stamped_def clock_advances_def intro: ready_tick)
next
  case (pass d)
  then show ?thesis using assms(3) by (auto simp: stamped_def intro: ready_tick cutw_mono)
qed

lemma phases_reads:
  assumes "(rstep gws lo)\<^sup>*\<^sup>* s t"
  shows "wf_hyb gws b \<Longrightarrow> (\<And>l. okw b (W l)) \<Longrightarrow> quiet gws lo b W s \<Longrightarrow> quiet gws lo b W t"
    "store_base gws lo b W loc n ptr \<Longrightarrow> stamped gws lo b W loc n ts s \<Longrightarrow> stamped gws lo b W loc n ts t"
    "store_base gws lo b W loc n ptr \<Longrightarrow> posted gws lo b W loc n s \<Longrightarrow> posted gws lo b W loc n t"
    "clock_advances gws (hclock s) \<Longrightarrow> clock_advances gws (hclock t)"
proof -
  show "wf_hyb gws b \<Longrightarrow> (\<And>l. okw b (W l)) \<Longrightarrow> quiet gws lo b W s \<Longrightarrow> quiet gws lo b W t"
    using assms by (induction rule: rtranclp_induct) (auto intro: quiet_step)
  show "store_base gws lo b W loc n ptr \<Longrightarrow> stamped gws lo b W loc n ts s \<Longrightarrow> stamped gws lo b W loc n ts t"
    using assms by (induction rule: rtranclp_induct) (auto intro: stamped_step)
  show "store_base gws lo b W loc n ptr \<Longrightarrow> posted gws lo b W loc n s \<Longrightarrow> posted gws lo b W loc n t"
    using assms
  proof (induction rule: rtranclp_induct)
    case (step y z)
    then show ?case using unstamped_step stamped_step unfolding posted_def by metis
  qed
  have step: "clock_advances gws (hclock z)" if "rstep gws lo y z" "clock_advances gws (hclock y)" for y z
    using that(1) by cases (use that(2) in \<open>auto simp: shortcut_alone put_hstamp_def\<close>)
  show "clock_advances gws (hclock s) \<Longrightarrow> clock_advances gws (hclock t)"
    using assms by (induction rule: rtranclp_induct) (auto intro: step)
qed

text \<open>When the version is stamped the state is well-formed, and these are the views of its snapshots.\<close>

lemma stamped_wf:
  assumes "store_base gws lo b W loc n ptr" "stamped gws lo b W loc n ts s"
  shows "wf_hyb gws s" "versions_kept b s"
proof -
  note B = store_baseD [OF assms(1)]
  let ?p = "strip_indirect n"
  have S: "ready gws lo b s" "lo \<le> ts" "ts \<le> fst (gws (hclock s))" "objs s = (objs b)(?p := (objs b ?p)\<lparr>time_stamp := ts\<rparr>)"
    using assms(2) by (auto simp: stamped_def)
  have R: "live s = live b" "linkset s = linkset b" "0 \<le> hdone s" "fst (gws (hclock b)) \<le> fst (gws (hclock s))"
    "fst (gws (hclock s)) < hyb_tbd" using S(1) by (auto simp: ready_def)
  have flds: "hstamp s q = (if q = ?p then ts else hstamp b q)"
    "next_version (objs s q) = next_version (objs b q)" "ver_value (objs s q) = ver_value (objs b q)" for q
    by (simp_all add: S(4))
  have m: "?p \<in> live b" "next_version (objs b ?p) = W loc" "is_indirect n \<longleftrightarrow> ?p \<in> linkset b"
    "is_indirect n \<longrightarrow> ptr = 0 \<or> ptr \<in> live b \<and> ptr \<notin> linkset b \<and> hstamp b ptr \<noteq> hyb_tbd"
    using B(3) by (auto simp: made_def)
  show kept: "versions_kept b s" using B(5) by (auto simp: versions_kept_def R S(4))
  note ok = okw_kept [OF kept]
  have "ts \<noteq> hyb_tbd" using S(3) R(5) by simp
  then have okn: "okw s n" using m by (simp add: okw_def flds R)
  show "wf_hyb gws s"
    unfolding wf_hyb_def Let_def
  proof (intro conjI ballI allI impI)
    show "okw s (hv s l)" for l using stamped_words(1) [OF assms, of l] okn ok by auto
  next
    fix q assume q: "q \<in> live s" "hstamp s q \<noteq> hyb_tbd"
    show "hstamp s q \<le> fst (gws (hclock s))"
      using q S(3) R wf_hybD(5) [OF B(1), of q] by (auto simp: flds split: if_splits)
    show "okw s (next_version (objs s q))" if "0 < hstamp s q"
      using q that ok B(2) wf_hybD(6) [OF B(1)] m R by (auto simp: flds split: if_splits)
  next
    fix l assume l: "l \<in> linkset s" "hstamp s l \<noteq> hyb_tbd"
    show "ver_value (objs s l) = 0 \<or> ver_value (objs s l) \<in> live s \<and> ver_value (objs s l) \<notin> linkset s
       \<and> hstamp s (ver_value (objs s l)) \<noteq> hyb_tbd \<and> hstamp s (ver_value (objs s l)) \<le> hstamp s l"
    proof (cases "l = ?p")
      case True
      then have ind: "is_indirect n" using l(1) m R by simp
      have "ptr \<noteq> ?p" if "ptr \<noteq> 0" using B(5) B(7) [OF ind] that by auto
      then show ?thesis using B(6,7) [OF ind] m(4) ind True S(2) by (auto simp: flds R)
    next
      case False
      then have "hstamp b l \<noteq> hyb_tbd" "l \<in> linkset b" using l by (auto simp: flds R)
      then show ?thesis using wf_hybD(7) [OF B(1), of l] B(5) False by (auto simp: flds R)
    qed
  qed (use wf_hybD(1-3) [OF B(1)] R in auto)
qed

lemma stamped_views:
  assumes "store_base gws lo b W loc n ptr" "stamped gws lo b W loc n ts s" "hdone s \<le> ls"
    "version_at ls fuel (W l) b = Some v"
  shows "version_at ls (Suc fuel) (hv s l) s = Some (if l = loc \<and> ts \<le> ls then ptr else v)"
proof -
  note B = store_baseD [OF assms(1)] note K = stamped_wf [OF assms(1,2)]
  have nn: "0 \<le> ls" using assms(2,3) by (auto simp: stamped_def ready_def)
  note same = version_at_kept [OF B(1) K(2) _ nn]
  show ?thesis
  proof (cases "l = loc")
    case False
    then have c: "cutw b (W l) (hv s l) (hdone s)" using assms(2) by (simp add: stamped_def)
    have "version_at ls (Suc fuel) (hv s l) s = version_at ls (Suc fuel) (W l) b"
      unfolding same [OF cutw_okw [OF B(1,2) c]] by (rule cutw_views [OF B(1,2) c assms(3)])
    then show ?thesis using version_at_more [OF assms(4)] False by simp
  next
    case True
    have n: "hstamp s (strip_indirect n) = ts" "next_version (objs s (strip_indirect n)) = W loc" "get_ptr n s = ptr"
      using assms(2) B(3) by (auto simp: stamped_def made_def get_ptr_def Let_def)
    from assms(2) consider "hv s loc = n" | "is_indirect n" "ts \<le> hdone s" "hv s loc = ptr"
      using B(6) by (auto simp: stamped_def)
    then show ?thesis
    proof cases
      case 1
      have "version_at ls fuel (W loc) s = Some v" using same [OF B(2)] assms(4) True by simp
      then show ?thesis using True 1 n B(4) by simp
    next
      case 2
      note p = B(7,8) [OF 2(1)]
      have "hstamp s ptr \<le> ls" if "ptr \<noteq> 0"
      proof -
        have "ptr \<noteq> strip_indirect n" "hstamp b ptr \<le> lo" using B(5) p that by auto
        then show ?thesis using assms(2,3) 2(2) by (simp add: stamped_def)
      qed
      then have "version_at ls (Suc fuel) ptr s = Some ptr" using p(2) by (auto simp: get_ptr_def)
      then show ?thesis using True 2 assms(3) by simp
    qed
  qed
qed

lemma reads_clock:
  assumes "(rstep gws lo)\<^sup>*\<^sup>* s t"
  shows "fst (gws (hclock s)) \<le> fst (gws (hclock t))"
  using assms
proof (induction rule: rtranclp_induct)
  case (step y z)
  from step.hyps(2) have "fst (gws (hclock y)) \<le> fst (gws (hclock z))"
    by cases (auto simp: shortcut_alone put_hstamp_def)
  then show ?case using step.IH by simp
qed simp

lemma reads_done:
  assumes "(rstep gws lo)\<^sup>*\<^sup>* s t"
  shows "hdone s \<le> hdone t"
  using assms
proof (induction rule: rtranclp_induct)
  case (step y z)
  from step.hyps(2) have "hdone y \<le> hdone z"
    by cases (auto simp: shortcut_alone put_hstamp_def)
  then show ?case using step.IH by simp
qed simp

text \<open>The stages of a store.\<close>

lemma quiet_wf:
  assumes "wf_hyb gws b" "\<And>l. okw b (W l)" "quiet gws lo b W s"
  shows "wf_hyb gws s"
proof -
  have Q: "objs s = objs b" "live s = live b" "linkset s = linkset b" "0 \<le> hdone s"
    "fst (gws (hclock b)) \<le> fst (gws (hclock s))" "fst (gws (hclock s)) < hyb_tbd"
    using assms(3) by (auto simp: quiet_def ready_def)
  have ok: "okw s x = okw b x" for x by (simp add: okw_def Q)
  have "okw b (hv s l)" for l using cutw_okw [OF assms(1,2)] assms(3) by (auto simp: quiet_def)
  moreover have "hstamp b p \<le> fst (gws (hclock s))" if "p \<in> live b" "hstamp b p \<noteq> hyb_tbd" for p
    using wf_hybD(5) [OF assms(1) that] Q(5) by simp
  ultimately show ?thesis
    using wf_hybD(1-3,6,7) [OF assms(1)] unfolding wf_hyb_def Let_def ok Q by (auto simp: Q(4,6))
qed

lemma store_prepared:
  assumes "wf_hyb gws s" "lo = fst (gws (hclock s))" "quiet gws lo s (hv s) t" "storable s ptr" "fresh_link lalloc t"
    "make_version lalloc (hv s loc) ptr t = (u, n, b)"
  shows "store_base gws lo b (hv s) loc n ptr" "quiet gws lo b (hv s) b" "versions_kept s b" "u \<longleftrightarrow> is_indirect n"
    "hclock b = hclock t"
proof -
  have ok: "okw s (hv s l)" for l by (rule wf_hybD(4) [OF assms(1)])
  have Q: "objs t = objs s" "live t = live s" "linkset t = linkset s" "ready gws lo s t" "\<And>l. cutw s (hv s l) (hv t l) (hdone t)"
    using assms(3) by (auto simp: quiet_def ready_def)
  have st: "storable t ptr" using assms(4) by (simp add: storable_def Q)
  note M = make_version_made [OF quiet_wf [OF assms(1) ok assms(3)] st assms(5,6)]
  show kept: "versions_kept s b" using M(2) by (simp add: versions_kept_def Q)
  have lv: "live b = (if u then insert (lalloc t) (live t) else live t)" "linkset b = (if u then insert (lalloc t) (linkset t) else linkset t)"
    using assms(6) by (auto simp: make_version_def new_ver_link_def set_next_version_def Let_def split: if_splits)
  have "ptr = 0 \<or> hstamp b ptr \<le> lo" if i: "is_indirect n"
  proof -
    have "ptr = 0 \<or> ptr \<in> live s \<and> hstamp s ptr \<noteq> hyb_tbd"
      using assms(4,6) i M(4) by (auto simp: make_version_def storable_def Q Let_def split: if_splits)
    then show ?thesis using kept wf_hybD(5) [OF assms(1), of ptr] assms(2) by (auto simp: versions_kept_def)
  qed
  then show "store_base gws lo b (hv s) loc n ptr"
    using M(1,3) okw_kept [OF kept ok] by (simp add: store_base_def)
  show "u \<longleftrightarrow> is_indirect n" "hclock b = hclock t" by (fact M(4) M(6))+
  have "ready gws lo b b" using Q(4) M(6,7) assms(2) by (simp add: ready_def)
  then show "quiet gws lo b (hv s) b" using cutw_kept [OF kept ok Q(5)] M(5,7) by (simp add: quiet_def)
qed

lemma posted_hcam: "posted gws lo b W loc n s \<Longrightarrow> posted gws lo b W loc n (hcam loc v n s)"
  by (auto simp: posted_def unstamped_def stamped_def ready_def hcam_def)

lemma quiet_install: "quiet gws lo b W s \<Longrightarrow> posted gws lo b W loc n (s\<lparr>hv := (hv s)(loc := n)\<rparr>)"
  by (simp add: posted_def unstamped_def quiet_def ready_def)

text \<open>
  The two compare-and-swaps: if a reader has taken the old link out before the first, the first
  fails, the location holds the value of the link and nothing but the second can replace it.
\<close>

lemma store_installs:
  assumes "store_base gws lo b W loc n ptr" "readers gws lo env" "quiet gws lo b W s" "old_v = W loc"
  shows "posted gws lo b W loc n
    (if is_indirect old_v
     then let s4 = env 7 (hcam loc old_v n s); val = hv s4 loc; old_l = strip_indirect old_v
          in if val \<noteq> ver_value (objs s4 old_l) then s4\<lparr>gone := old_l # gone s4\<rparr> else hcam loc val n (env 8 s4)
     else hcam loc old_v n s)"
proof -
  note B = store_baseD [OF assms(1)]
  have rd: "(rstep gws lo)\<^sup>*\<^sup>* t (env i t)" for i t using assms(2) by (simp add: readers_def)
  note P = phases_reads(3) [OF rd assms(1)]
  let ?v = "ver_value (objs b (strip_indirect old_v))"
  have c: "cutw b (W loc) (hv s loc) (hdone s)" using assms(3) by (simp add: quiet_def)
  show ?thesis
  proof (cases "hv s loc = old_v")
    case True
    then have p: "posted gws lo b W loc n (hcam loc old_v n s)" using quiet_install [OF assms(3)] by (simp add: hcam_def)
    show ?thesis using p P [OF p, of 7] posted_hcam [OF P [OF P [OF p, of 7], of 8]] by (simp add: Let_def)
  next
    case False
    then have x: "is_indirect old_v" "hv s loc = ?v" using c assms(4) by (auto simp: cutw_def)
    note lv = link_value [OF B(1,2) x(1) [unfolded assms(4)], unfolded Let_def]
    let ?W = "W(loc := ?v)"
    have okW: "okw b (?W l)" for l using B(2) lv assms(4) by simp
    have "quiet gws lo b ?W s" using assms(3) x(2) by (auto simp: quiet_def cutw_def)
    from phases_reads(1) [OF rd B(1) okW this] have q4: "quiet gws lo b ?W (env 7 s)" .
    have q8: "quiet gws lo b ?W (env 8 (env 7 s))" by (rule phases_reads(1) [OF rd B(1) okW q4])
    have val: "hv t loc = ?v" if "quiet gws lo b ?W t" for t
    proof -
      have "cutw b ?v (hv t loc) (hdone t)" using that by (auto simp: quiet_def dest: spec [of _ loc])
      then show ?thesis using lv assms(4) by (simp add: cutw_def)
    qed
    have o: "objs (env 7 s) = objs b" using q4 by (simp add: quiet_def)
    have "posted gws lo b W loc n (hcam loc ?v n (env 8 (env 7 s)))"
      using quiet_install [OF q8, of loc n] val [OF q8]
      by (auto simp: hcam_def posted_def unstamped_def stamped_def)
    then show ?thesis using x False val [OF q4] o by (simp add: hcam_def Let_def)
  qed
qed

lemma store_stamps:
  assumes "store_base gws lo b W loc n ptr" "readers gws lo env" "posted gws lo b W loc n s" "clock_advances gws (hclock s)"
  shows "\<exists>ts. stamped gws lo b W loc n ts (hyb_set_stamp gws env n s)"
proof -
  note B = store_baseD [OF assms(1)]
  have rd: "(rstep gws lo)\<^sup>*\<^sup>* t (env i t)" for i t using assms(2) by (simp add: readers_def)
  have tbd: "hstamp t (strip_indirect n) = hyb_tbd \<longleftrightarrow> \<not> (\<exists>ts. stamped gws lo b W loc n ts t)" if "posted gws lo b W loc n t" for t
  proof -
    have "hstamp t (strip_indirect n) = hyb_tbd" if "unstamped gws lo b W loc n t"
      using that B(5) by (simp add: unstamped_def)
    moreover have "hstamp t (strip_indirect n) \<noteq> hyb_tbd" if "stamped gws lo b W loc n ts t" for ts
      using that by (simp add: stamped_def ready_def)
    ultimately show ?thesis using that unfolding posted_def by blast
  qed
  let ?t = "fst (gws (hclock s))" and ?s0 = "s\<lparr>hclock := snd (gws (hclock s))\<rparr>"
  let ?s1 = "env 1 ?s0" let ?s2 = "env 2 ?s1"
  show ?thesis
  proof (cases "hstamp s (strip_indirect n) = hyb_tbd")
    case True
    then have "unstamped gws lo b W loc n s" using assms(3) tbd [OF assms(3)] by (simp add: posted_def)
    then have "unstamped gws lo b W loc n ?s0"
      using assms(4) by (auto simp: unstamped_def clock_advances_def intro: ready_tick)
    then have p0: "posted gws lo b W loc n ?s0" by (simp add: posted_def)
    have p1: "posted gws lo b W loc n ?s1" by (rule phases_reads(3) [OF rd assms(1) p0])
    have p2: "posted gws lo b W loc n ?s2" by (rule phases_reads(3) [OF rd assms(1) p1])
    have clk: "fst (gws (hclock ?s0)) \<le> fst (gws (hclock ?s2))"
      using reads_clock [OF rd [of ?s0 1]] reads_clock [OF rd [of ?s1 2]] by (rule order_trans)
    have "stamped gws lo b W loc n ?t (put_hstamp (strip_indirect n) ?t ?s2)" if "hstamp ?s2 (strip_indirect n) = hyb_tbd"
    proof -
      have u: "unstamped gws lo b W loc n ?s2" using p2 tbd [OF p2] that by (simp add: posted_def)
      have "lo \<le> ?t" using assms(3) by (auto simp: posted_def unstamped_def stamped_def ready_def)
      moreover have "?t \<le> fst (gws (hclock ?s2))" using clk assms(4) by (simp add: clock_advances_def)
      ultimately show ?thesis using u by (simp add: unstamped_def stamped_def put_hstamp_def ready_def)
    qed
    then show ?thesis
      using True B(4) tbd [OF p1] tbd [OF p2] by (auto simp: hyb_set_stamp_def Let_def split_def)
  next
    case False
    then show ?thesis using tbd [OF assms(3)] by (simp add: hyb_set_stamp_def Let_def)
  qed
qed

lemma store_shortcut:
  assumes "store_base gws lo b W loc n ptr" "readers gws lo env" "stamped gws lo b W loc n ts s" "is_indirect n"
  shows "stamped gws lo b W loc n ts (shortcut env loc n s)"
proof -
  have "(rstep gws lo)\<^sup>*\<^sup>* s (env 0 s)" using assms(2) by (simp add: readers_def)
  note S = phases_reads(2) [OF this assms(1,3)] and D = reads_done [OF this]
  have "hstamp (env 0 s) (strip_indirect n) = hstamp s (strip_indirect n)" using S assms(3) by (simp add: stamped_def)
  then show ?thesis
    using stamped_cut [OF assms(1) S assms(4), of loc] S D assms(3) by (simp add: shortcut_def Let_def)
qed

lemma store_among_readers:
  assumes "wf_hyb gws s" "storable s ptr" "\<And>t. live t = live s \<Longrightarrow> fresh_link lalloc t"
    and "clock_advances gws (hclock s)" "hdone s < hyb_tbd" "readers gws (fst (gws (hclock s))) env"
  obtains b n ts where "store_base gws (fst (gws (hclock s))) b (hv s) loc n ptr" "versions_kept s b"
    "stamped gws (fst (gws (hclock s))) b (hv s) loc n ts (hyb_store gws lalloc env loc ptr s)"
proof -
  let ?lo = "fst (gws (hclock s))" and ?w = "hv s loc"
  have rd: "(rstep gws ?lo)\<^sup>*\<^sup>* t (env i t)" for i t using assms(6) by (simp add: readers_def)
  have q0: "quiet gws ?lo s (hv s) s"
    using assms(5) wf_hybD(8,9) [OF assms(1)] by (simp add: quiet_def ready_def cutw_def)
  have q5: "quiet gws ?lo s (hv s) (env 5 s)" by (rule phases_reads(1) [OF rd assms(1) wf_hybD(4) [OF assms(1)] q0])
  obtain u n b where mv: "make_version lalloc ?w ptr (env 5 s) = (u, n, b)" by (metis prod_cases3)
  have fr: "fresh_link lalloc (env 5 s)" using assms(3) q5 by (simp add: quiet_def ready_def)
  note P = store_prepared [OF assms(1) refl q5 assms(2) fr mv]
  note B = store_baseD [OF P(1)]
  have q6: "quiet gws ?lo b (hv s) (env 6 b)" by (rule phases_reads(1) [OF rd B(1,2) P(2)])
  define s3 where "s3 = (if is_indirect ?w
     then let s4 = env 7 (hcam loc ?w n (env 6 b)); val = hv s4 loc; old_l = strip_indirect ?w
          in if val \<noteq> ver_value (objs s4 old_l) then s4\<lparr>gone := old_l # gone s4\<rparr> else hcam loc val n (env 8 s4)
     else hcam loc ?w n (env 6 b))"
  have p3: "posted gws ?lo b (hv s) loc n s3" unfolding s3_def by (rule store_installs [OF P(1) assms(6) q6 refl])
  have p9: "posted gws ?lo b (hv s) loc n (env 9 s3)" by (rule phases_reads(3) [OF rd P(1) p3])
  have adv: "clock_advances gws (hclock t) \<Longrightarrow> clock_advances gws (hclock (env i t))" for i t by (rule phases_reads(4) [OF rd])
  have "clock_advances gws (hclock s3)"
    using adv [of "env 7 (hcam loc ?w n (env 6 b))" 8] adv [of "hcam loc ?w n (env 6 b)" 7] adv [of b 6] adv [OF assms(4), of 5] P(5)
    by (auto simp: s3_def hcam_def Let_def)
  from store_stamps [OF P(1) assms(6) p9 adv [OF this]]
  obtain ts where st: "stamped gws ?lo b (hv s) loc n ts (hyb_set_stamp gws env n (env 9 s3))" by blast
  have r: "hyb_store gws lalloc env loc ptr s
      = (if u then shortcut env loc n (hyb_set_stamp gws env n (env 9 s3)) else hyb_set_stamp gws env n (env 9 s3))"
    by (simp add: hyb_store_def mv s3_def Let_def)
  have "stamped gws ?lo b (hv s) loc n ts (hyb_store gws lalloc env loc ptr s)"
    unfolding r using st store_shortcut [OF P(1) assms(6) st] P(4) by simp
  then show thesis by (rule that [OF P(1,3)])
qed

section \<open>Properties\<close>

text \<open>C22: storing through a hybrid versioned pointer while readers are at work, which take out links (that
  of the old version and of the new one included), stamp versions, and let the clock and \<open>done_stamp\<close> go on
  between any two accesses of the store: the new version gets a stamp \<open>ts\<close> that the clock had during the
  store, and afterwards every snapshot that is not older than \<open>done_stamp\<close> reads at this location the
  stored value if \<open>ts\<close> is not later than the snapshot, and otherwise what it read before; at the other
  locations it reads what it read before. It holds whether the value is stored directly or
  through a link; the state is well-formed again.\<close>

theorem hybrid_store_snapshots:
  assumes "wf_hyb gws s" "storable s ptr" "\<And>t. live t = live s \<Longrightarrow> fresh_link lalloc t"
    and "clock_advances gws (hclock s)" "hdone s < hyb_tbd" "readers gws (fst (gws (hclock s))) env"
  shows "\<exists>ts. fst (gws (hclock s)) \<le> ts \<and> ts \<le> fst (gws (hclock (hyb_store gws lalloc env loc ptr s)))
    \<and> wf_hyb gws (hyb_store gws lalloc env loc ptr s)
    \<and> (\<forall>ls fuel l v. hdone (hyb_store gws lalloc env loc ptr s) \<le> ls \<longrightarrow> snapshot_value gws fuel ls l s = Some v \<longrightarrow>
         snapshot_value gws (Suc fuel) ls l (hyb_store gws lalloc env loc ptr s)
           = Some (if l = loc \<and> ts \<le> ls then ptr else v))"
proof -
  let ?t = "hyb_store gws lalloc env loc ptr s"
  obtain b n ts where S: "store_base gws (fst (gws (hclock s))) b (hv s) loc n ptr" "versions_kept s b"
    "stamped gws (fst (gws (hclock s))) b (hv s) loc n ts ?t"
    by (rule store_among_readers [where lalloc = lalloc and env = env and loc = loc, OF assms])
  note wf = stamped_wf(1) [OF S(1,3)]
  have "version_at ls (Suc fuel) (hv ?t l) ?t = Some (if l = loc \<and> ts \<le> ls then ptr else v)"
    if a: "hdone ?t \<le> ls" "version_at ls fuel (hv s l) s = Some v" for ls fuel l v
  proof -
    have "0 \<le> ls" using a(1) wf_hybD(8) [OF wf] by simp
    then have "version_at ls fuel (hv s l) b = Some v"
      using version_at_kept [OF assms(1) S(2) wf_hybD(4) [OF assms(1)]] a(2) by simp
    then show ?thesis by (rule stamped_views [OF S(1,3) a(1)])
  qed
  moreover have "fst (gws (hclock s)) \<le> ts" "ts \<le> fst (gws (hclock ?t))" using S(3) by (auto simp: stamped_def)
  ultimately show ?thesis
    using wf by (intro exI [of _ ts]) (simp add: snapshot_value_version assms(1) del: version_at.simps)
qed

text \<open>
  Location 0 with a link 32 to the object 8, which a reader takes out after the store has loaded
  it and before its first compare-and-swap.
\<close>

definition demo_link :: "int hstate" where
  "demo_link = \<lparr>objs = (\<lambda>p. \<lparr>time_stamp = (if p = 8 then zero_stamp else if p = 32 then 3 else hyb_tbd), next_version = 0,
       ver_value = (if p = 32 then 8 else 0)\<rparr>),
     live = {8, 16, 32}, linkset = {32}, hv = (\<lambda>loc. if loc = 0 then 33 else 0), hclock = 5, hdone = 4, gone = [], dropped = []\<rparr>"

definition demo_reader :: "int henv" where
  "demo_reader i s = (if i = 6 then shortcut (\<lambda>i s. s) 0 33 s else s)"

definition demo_pool :: "int hstate \<Rightarrow> u64" where
  "demo_pool s = 24"

lemmas demo_link_eval = demo_link_def zero_stamp_def hyb_tbd_def is_indirect_def strip_indirect_def

lemma demo_link_ok:
  "wf_hyb (\<lambda>c. (c, c)) demo_link" "storable demo_link 16" "live t = live demo_link \<Longrightarrow> fresh_link demo_pool t"
  "clock_advances (\<lambda>c. (c, c)) (hclock demo_link)" "hdone demo_link < hyb_tbd"
  "readers (\<lambda>c. (c, c)) 5 demo_reader"
proof -
  have "(rstep (\<lambda>c. (c, c)) 5)\<^sup>*\<^sup>* s (demo_reader i s)" for i s
    using rstep.cut [of 33 "\<lambda>c. (c, c)" 5 s 0] by (auto simp: demo_reader_def is_indirect_def)
  then show "readers (\<lambda>c. (c, c)) 5 demo_reader" by (simp add: readers_def)
qed (simp_all add: demo_link_eval demo_pool_def wf_hyb_def okw_def storable_def fresh_link_def clock_advances_def)

lemma demo_link_value: "4 \<le> ls \<Longrightarrow> snapshot_value (\<lambda>c. (c, c)) (Suc 0) ls 0 demo_link = Some 8"
  unfolding snapshot_value_version [OF demo_link_ok(1)] by (simp add: demo_link_eval get_ptr_def)

theorem hybrid_store_snapshots_witness:
  "snapshot_value (\<lambda>c. (c, c)) (Suc (Suc 0)) 5 0 (hyb_store (\<lambda>c. (c, c)) demo_pool demo_reader 0 16 demo_link) = Some 16
   \<and> snapshot_value (\<lambda>c. (c, c)) (Suc (Suc 0)) 4 0 (hyb_store (\<lambda>c. (c, c)) demo_pool demo_reader 0 16 demo_link) = Some 8"
proof -
  let ?t = "hyb_store (\<lambda>c. (c, c)) demo_pool demo_reader 0 16 demo_link"
  have d: "hclock demo_link = 5" by (simp add: demo_link_def)
  have t: "hclock ?t = 5" "hdone ?t = 4"
    by (simp_all add: hyb_store_def make_version_def set_next_version_def hcam_def demo_reader_def shortcut_alone
        hyb_set_stamp_def put_hstamp_def demo_link_eval Let_def)
  show ?thesis
    using hybrid_store_snapshots [where env = demo_reader and lalloc = demo_pool and loc = 0, OF demo_link_ok(1-5)]
      demo_link_ok(6) demo_link_value [of 5] demo_link_value [of 4] d t
    by auto
qed

text \<open>
  A store of the value the old link already has: if readers stamp the new link and take it out before
  the store looks at the location again, the store takes this for the old link being taken out, puts the
  new link back although a reader has retired it, and then takes it out and retires it a second
  time; the old link is never retired. What snapshots read is right all the same.
\<close>

definition demo_reader2 :: "int henv" where
  "demo_reader2 i s = (if i = 7 then shortcut (\<lambda>i s. s) 0 25 ((put_hstamp 24 5 s)\<lparr>hdone := 5\<rparr>) else s)"

lemma hyb_store_retires_twice:
  "gone (hyb_store (\<lambda>c. (c, c)) demo_pool demo_reader2 0 8 demo_link) = [24, 24]"
  by (simp add: hyb_store_def make_version_def new_ver_link_def add_indirect_def hcam_def demo_reader2_def demo_pool_def
      shortcut_def hyb_set_stamp_def put_hstamp_def demo_link_eval Let_def)

text \<open>A store that nobody disturbs gets the next stamp of the clock.\<close>

theorem hybrid_store_alone:
  assumes "wf_hyb gws s" "storable s ptr" "fresh_link lalloc s" "clock_advances gws (hclock s)"
  shows "wf_hyb gws (hyb_store gws lalloc (\<lambda>i s. s) loc ptr s)
    \<and> (\<forall>ls fuel l' v. hdone s \<le> ls \<longrightarrow> snapshot_value gws fuel ls l' s = Some v \<longrightarrow>
         snapshot_value gws (Suc fuel) ls l' (hyb_store gws lalloc (\<lambda>i s. s) loc ptr s)
           = Some (if l' = loc \<and> fst (gws (hclock s)) \<le> ls then ptr else v))"
proof -
  obtain u n s1 g where st: "hyb_store gws lalloc (\<lambda>i s. s) loc ptr s = finish_version loc u n g (publish gws loc n s1)"
    and mv: "make_version lalloc (hv s loc) ptr s = (u, n, s1)"
    using store_alone [OF assms(1-3)] by metis
  note V = new_version_views [where g = g, OF assms mv]
  show ?thesis unfolding st
    using V(1) V(2) by (auto simp: snapshot_value_version assms(1) simp del: version_at.simps)
qed

text \<open>Location 0 with the object 8, which was put there by \<open>init\<close>, and an object 16 that was never stored.\<close>

definition demo_hyb :: "int hstate" where
  "demo_hyb = \<lparr>objs = (\<lambda>p. \<lparr>time_stamp = (if p = 8 then zero_stamp else hyb_tbd), next_version = 0, ver_value = 0\<rparr>),
     live = {8, 16}, linkset = {}, hv = (\<lambda>loc. if loc = 0 then 8 else 0), hclock = 5, hdone = 2, gone = [], dropped = []\<rparr>"

lemmas demo_hyb_eval = demo_hyb_def zero_stamp_def hyb_tbd_def is_indirect_def strip_indirect_def

lemma demo_hyb_ok:
  "wf_hyb (\<lambda>c. (c, c)) demo_hyb" "storable demo_hyb 16" "fresh_link (\<lambda>s. 24) demo_hyb"
  "clock_advances (\<lambda>c. (c, c)) (hclock demo_hyb)"
  by (simp_all add: demo_hyb_eval wf_hyb_def okw_def storable_def fresh_link_def clock_advances_def)

lemma demo_hyb_value: "2 \<le> ls \<Longrightarrow> snapshot_value (\<lambda>c. (c, c)) (Suc 0) ls 0 demo_hyb = Some 8"
  unfolding snapshot_value_version [OF demo_hyb_ok(1)] by (simp add: demo_hyb_eval get_ptr_def)

text \<open>the compare-and-swap of a hybrid versioned pointer that nobody disturbs succeeds
  exactly when the pointer leads to the expected value; it then acts as the store of the new
  value, or changes nothing if the two are equal; if it fails nothing changes. \<open>casz\<close> does the same.\<close>

theorem hybrid_cas_snapshots:
  assumes "wf_hyb gws s" "storable s ptr" "fresh_link lalloc s" "clock_advances gws (hclock s)"
    and "hyb_cas gws lalloc (\<lambda>i s. s) loc exp ptr s = (ok, s')"
  shows "hyb_casz gws lalloc (\<lambda>i s. s) loc exp ptr s = (ok, s') \<and> wf_hyb gws s'
    \<and> (ok \<longleftrightarrow> get_ptr (hv s loc) s = exp)
    \<and> (\<not> ok \<or> exp = ptr \<longrightarrow> s' = s)
    \<and> (\<forall>ls fuel l' v. ok \<longrightarrow> exp \<noteq> ptr \<longrightarrow> hdone s \<le> ls \<longrightarrow> snapshot_value gws fuel ls l' s = Some v \<longrightarrow>
         snapshot_value gws (Suc fuel) ls l' s' = Some (if l' = loc \<and> fst (gws (hclock s)) \<le> ls then ptr else v))"
proof (cases "get_ptr (hv s loc) s = exp \<and> exp \<noteq> ptr")
  case True
  then obtain u n s1 g where c: "hyb_cas gws lalloc (\<lambda>i s. s) loc exp ptr s = (True, finish_version loc u n g (publish gws loc n s1))"
      "hyb_casz gws lalloc (\<lambda>i s. s) loc exp ptr s = (True, finish_version loc u n g (publish gws loc n s1))"
    and mv: "make_version lalloc (hv s loc) ptr s = (u, n, s1)"
    using cas_alone [OF assms(1-3)] by metis
  have r: "ok" "s' = finish_version loc u n g (publish gws loc n s1)" using c(1) assms(5) by auto
  note V = new_version_views [where g = g, OF assms(1-4) mv]
  show ?thesis unfolding r(2)
    using V(1) V(2) c(2) True r(1) by (auto simp: snapshot_value_version assms(1) simp del: version_at.simps)
next
  case False
  note st = set_stamp_stamped [OF okw_stamped [OF wf_hybD(4) [OF assms(1), of loc]]]
  show ?thesis
    using False assms(1,5) by (auto simp: hyb_cas_def hyb_casz_def numeral_2_eq_2 st Let_def)
qed

theorem hybrid_cas_snapshots_witness:
  "\<exists>s'. hyb_cas (\<lambda>c. (c, c)) (\<lambda>s. 24) (\<lambda>i s. s) 0 8 16 demo_hyb = (True, s')
     \<and> snapshot_value (\<lambda>c. (c, c)) (Suc (Suc 0)) 5 0 s' = Some 16 \<and> snapshot_value (\<lambda>c. (c, c)) (Suc (Suc 0)) 4 0 s' = Some 8"
proof -
  obtain ok s' where c: "hyb_cas (\<lambda>c. (c, c)) (\<lambda>s. 24) (\<lambda>i s. s) 0 8 16 demo_hyb = (ok, s')" by fastforce
  have d: "hdone demo_hyb = 2" "hclock demo_hyb = 5" "get_ptr (hv demo_hyb 0) demo_hyb = 8"
    by (simp_all add: demo_hyb_eval get_ptr_def)
  note h = hybrid_cas_snapshots [OF demo_hyb_ok c]
  have ok: "ok" using h d(3) by simp
  then show ?thesis
    using h demo_hyb_value [of 5] demo_hyb_value [of 4] c d by simp
qed

end
