(* ===== verification/Verlib_Recorded_Once.thy ===== *)
theory Verlib_Recorded_Once
  imports Verlib_Timestamps
begin

text \<open>
  Versioned pointers for objects that are stored at most once,
  \<^verbatim>\<open>include/verlib/versioned_recorded_once.h\<close>: the stamp and the next version are always in the
  object itself. Storing the null pointer, or an object a second time, aborts the program; so does,
  without a message, following a version chain to its end. Both are errors of the model. The
  theory shows what every snapshot reads after a store, and when a snapshot runs into the end of a chain.
\<close>

section \<open>Objects and pointers\<close>

definition once_tbd :: TS where
  "once_tbd = (2 ^ 63 - 1) div 4"

definition bad_ptr :: addr where
  "bad_ptr = 2 ^ 48 - 1"

record once_versioned =
  ostamp :: TS
  onext :: addr

record 'c ostate =
  oobj :: "addr \<Rightarrow> once_versioned"
  olive :: "addr set"
  ov :: "nat \<Rightarrow> addr"
  oclock :: 'c

type_synonym 'c oenv = "nat \<Rightarrow> 'c ostate \<Rightarrow> 'c ostate"

datatype once_error =
    Recording_Null
  | Recording_Twice
  | Null_Dereference

text \<open>The constructor of an object that is to be stored later.\<close>

definition new_versioned :: "addr \<Rightarrow> 'c ostate \<Rightarrow> 'c ostate" where
  "new_versioned p s = s\<lparr>oobj := (oobj s)(p := \<lparr>ostamp = once_tbd, onext = bad_ptr\<rparr>), olive := insert p (olive s)\<rparr>"

definition put_ostamp :: "addr \<Rightarrow> TS \<Rightarrow> 'c ostate \<Rightarrow> 'c ostate" where
  "put_ostamp p t s = s\<lparr>oobj := (oobj s)(p := (oobj s p)\<lparr>ostamp := t\<rparr>)\<rparr>"

definition once_set_stamp :: "('c \<Rightarrow> TS \<times> 'c) \<Rightarrow> 'c oenv \<Rightarrow> addr \<Rightarrow> 'c ostate \<Rightarrow> 'c ostate" where
  "once_set_stamp gws env x s =
     (if ostamp (oobj s x) = once_tbd
      then let (ts, c) = gws (oclock s);
               s1 = env 0 (s\<lparr>oclock := c\<rparr>)
           in if ostamp (oobj s1 x) = once_tbd
              then let s2 = env 1 s1 in if ostamp (oobj s2 x) = once_tbd then put_ostamp x ts s2 else s2
              else s1
      else s)"

definition once_set_zero :: "addr \<Rightarrow> 'c ostate \<Rightarrow> addr \<times> 'c ostate" where
  "once_set_zero x s =
     (x, if x \<noteq> nullptr \<and> ostamp (oobj s x) = once_tbd then put_ostamp x zero_stamp s else s)"

definition once_init :: "nat \<Rightarrow> addr \<Rightarrow> 'c ostate \<Rightarrow> 'c ostate" where
  "once_init loc x s = (let (v, s1) = once_set_zero x s in s1\<lparr>ov := (ov s1)(loc := v)\<rparr>)"

section \<open>Reading\<close>

text \<open>The loop of \<open>read_snapshot\<close>, with fuel; it reads the stamp of \<open>head\<close> without testing for null.\<close>

fun once_chase :: "'c oenv \<Rightarrow> TS \<Rightarrow> nat \<Rightarrow> addr \<Rightarrow> 'c ostate \<Rightarrow> (once_error + addr \<times> 'c ostate) option" where
  "once_chase env ls 0 head s = None"
| "once_chase env ls (Suc fuel) head s =
     (if head = nullptr then Some (Inl Null_Dereference)
      else if ts_less ls (ostamp (oobj s head)) then once_chase env ls fuel (onext (oobj s head)) (env fuel s)
      else Some (Inr (head, s)))"

definition once_read_snapshot :: "('c \<Rightarrow> TS \<times> 'c) \<Rightarrow> 'c oenv \<Rightarrow> nat \<Rightarrow> TS \<Rightarrow> nat \<Rightarrow> 'c ostate \<Rightarrow> (once_error + addr \<times> 'c ostate) option" where
  "once_read_snapshot gws env fuel ls loc s =
     (let head = ov s loc
      in if head = nullptr then Some (Inr (nullptr, s))
         else once_chase (\<lambda>i. env (3 + i)) ls fuel head (once_set_stamp gws env head (env 2 s)))"

definition once_load :: "('c \<Rightarrow> TS \<times> 'c) \<Rightarrow> 'c oenv \<Rightarrow> nat \<Rightarrow> TS \<Rightarrow> nat \<Rightarrow> 'c ostate \<Rightarrow> (once_error + addr \<times> 'c ostate) option" where
  "once_load gws env fuel ls loc s =
     (if ls \<noteq> no_stamp then once_read_snapshot gws env fuel ls loc s
      else let head = ov s loc
           in Some (Inr (head, if head \<noteq> nullptr then once_set_stamp gws env head (env 2 s) else s)))"

definition once_read :: "('c \<Rightarrow> TS \<times> 'c) \<Rightarrow> 'c oenv \<Rightarrow> nat \<Rightarrow> TS \<Rightarrow> nat \<Rightarrow> 'c ostate \<Rightarrow> (once_error + addr \<times> 'c ostate) option" where
  "once_read gws env fuel ls loc s =
     (if ls \<noteq> no_stamp then once_read_snapshot gws env fuel ls loc s else Some (Inr (ov s loc, s)))"

definition once_read_cur :: "nat \<Rightarrow> 'c ostate \<Rightarrow> addr" where
  "once_read_cur loc s = ov s loc"

definition once_validate :: "('c \<Rightarrow> TS \<times> 'c) \<Rightarrow> 'c oenv \<Rightarrow> nat \<Rightarrow> 'c ostate \<Rightarrow> 'c ostate" where
  "once_validate gws env loc s =
     (let head = ov s loc in if head \<noteq> nullptr then once_set_stamp gws env head (env 2 s) else s)"

section \<open>Writing\<close>

definition set_onext :: "addr \<Rightarrow> addr \<Rightarrow> 'c ostate \<Rightarrow> 'c ostate" where
  "set_onext p nxt s = s\<lparr>oobj := (oobj s)(p := (oobj s p)\<lparr>onext := nxt\<rparr>)\<rparr>"

definition ov_exchange :: "nat \<Rightarrow> addr \<Rightarrow> addr \<Rightarrow> 'c ostate \<Rightarrow> bool \<times> 'c ostate" where
  "ov_exchange loc oldv newv s = (if ov s loc = oldv then (True, s\<lparr>ov := (ov s)(loc := newv)\<rparr>) else (False, s))"

definition once_store :: "('c \<Rightarrow> TS \<times> 'c) \<Rightarrow> 'c oenv \<Rightarrow> nat \<Rightarrow> addr \<Rightarrow> 'c ostate \<Rightarrow> once_error + 'c ostate" where
  "once_store gws env loc newv s =
     (let oldv = ov s loc
      in if newv = nullptr then Inl Recording_Null
         else let s1 = env 3 s
              in if ostamp (oobj s1 newv) \<noteq> once_tbd then Inl Recording_Twice
                 else let s2 = env 4 (set_onext newv oldv s1);
                          s3 = env 5 (snd (ov_exchange loc oldv newv s2))
                      in Inr (once_set_stamp gws env newv s3))"

definition once_cas :: "('c \<Rightarrow> TS \<times> 'c) \<Rightarrow> 'c oenv \<Rightarrow> nat \<Rightarrow> addr \<Rightarrow> addr \<Rightarrow> 'c ostate \<Rightarrow> once_error + bool \<times> 'c ostate" where
  "once_cas gws env loc expv newv s =
     (if newv = nullptr then Inl Recording_Null
      else let oldv = ov s loc;
               s1 = (if oldv \<noteq> nullptr then once_set_stamp gws env oldv (env 2 s) else s)
           in if oldv \<noteq> expv then Inr (False, s1)
              else if oldv = newv then Inr (True, s1)
              else let s2 = env 4 (set_onext newv expv (env 3 s1));
                       (ok, s3) = ov_exchange loc oldv newv s2
                   in if ok then Inr (True, once_set_stamp gws env newv (env 5 s3))
                      else Inr (False, once_set_stamp gws env (ov s3 loc) (env 5 s3)))"

definition once_slow_store :: "('c \<Rightarrow> TS \<times> 'c) \<Rightarrow> 'c oenv \<Rightarrow> nat \<Rightarrow> addr \<Rightarrow> 'c ostate \<Rightarrow> once_error + 'c ostate" where
  "once_slow_store gws env loc newv s =
     (case once_load gws env 1 no_stamp loc s of
        Some (Inr (oldv, s1)) \<Rightarrow> (case once_cas gws env loc oldv newv (env 6 s1) of Inl e \<Rightarrow> Inl e | Inr (_, s2) \<Rightarrow> Inr s2)
      | Some (Inl e) \<Rightarrow> Inl e
      | None \<Rightarrow> Inr s)"

section \<open>What snapshots read\<close>

text \<open>The result of a snapshot read that runs alone.\<close>

definition once_value :: "('c \<Rightarrow> TS \<times> 'c) \<Rightarrow> nat \<Rightarrow> TS \<Rightarrow> nat \<Rightarrow> 'c ostate \<Rightarrow> (once_error + addr) option" where
  "once_value gws fuel ls loc s =
     map_option (map_sum id fst) (once_read_snapshot gws (\<lambda>i s. s) fuel ls loc s)"

definition ostamped :: "'c ostate \<Rightarrow> addr \<Rightarrow> bool" where
  "ostamped s p \<longleftrightarrow> p \<in> olive s \<and> ostamp (oobj s p) \<noteq> once_tbd"

text \<open>Between operations: every pointer is null or leads to a stamped object, and so does the next
  version of every object that was not put in place by \<open>init\<close>.\<close>

definition wf_once :: "('c \<Rightarrow> TS \<times> 'c) \<Rightarrow> 'c ostate \<Rightarrow> bool" where
  "wf_once gws s \<longleftrightarrow> nullptr \<notin> olive s \<and> (\<forall>loc. ov s loc = nullptr \<or> ostamped s (ov s loc))
     \<and> (\<forall>p. ostamped s p \<longrightarrow> 0 < ostamp (oobj s p) \<longrightarrow> onext (oobj s p) = nullptr \<or> ostamped s (onext (oobj s p)))
     \<and> 0 < fst (gws (oclock s)) \<and> fst (gws (oclock s)) < once_tbd"

lemma wf_once_ptr: "wf_once gws s \<Longrightarrow> ov s loc = nullptr \<or> ostamped s (ov s loc)"
  by (simp add: wf_once_def)

fun once_at :: "TS \<Rightarrow> nat \<Rightarrow> addr \<Rightarrow> 'c ostate \<Rightarrow> (once_error + addr) option" where
  "once_at ls 0 head s = None"
| "once_at ls (Suc fuel) head s =
     (if head = nullptr then Some (Inl Null_Dereference)
      else if ls < ostamp (oobj s head) then once_at ls fuel (onext (oobj s head)) s
      else Some (Inr head))"

lemma once_chase_at: "map_option (map_sum id fst) (once_chase (\<lambda>i s. s) ls fuel head s) = once_at ls fuel head s"
  by (induction fuel arbitrary: head) (auto simp: ts_less_def)

lemma once_value_at:
  assumes "wf_once gws s"
  shows "once_value gws fuel ls loc s = (if ov s loc = nullptr then Some (Inr nullptr) else once_at ls fuel (ov s loc) s)"
proof (cases "ov s loc = nullptr")
  case False
  then have "ostamped s (ov s loc)" using wf_once_ptr [OF assms, of loc] by simp
  then have "once_set_stamp gws (\<lambda>i s. s) (ov s loc) s = s" by (simp add: once_set_stamp_def ostamped_def)
  then show ?thesis using False by (simp add: once_value_def once_read_snapshot_def Let_def once_chase_at)
qed (simp add: once_value_def once_read_snapshot_def)

definition once_kept :: "'c ostate \<Rightarrow> 'c ostate \<Rightarrow> bool" where
  "once_kept s t \<longleftrightarrow> (\<forall>p. ostamped s p \<longrightarrow> oobj t p = oobj s p)"

lemma once_at_kept:
  assumes "wf_once gws s" "once_kept s t" "p = nullptr \<or> ostamped s p" "0 \<le> ls"
  shows "once_at ls fuel p t = once_at ls fuel p s"
  using assms(3)
proof (induction fuel arbitrary: p)
  case (Suc fuel)
  show ?case
  proof (cases "p = nullptr")
    case False
    then have st: "ostamped s p" using Suc.prems by blast
    then have same: "oobj t p = oobj s p" using assms(2) by (simp add: once_kept_def)
    have "ls < ostamp (oobj s p) \<Longrightarrow> onext (oobj s p) = nullptr \<or> ostamped s (onext (oobj s p))"
      using assms(1,4) st by (simp add: wf_once_def)
    then show ?thesis using Suc.IH same False by simp
  qed simp
qed simp

lemma once_at_more: "once_at ls fuel p s = Some r \<Longrightarrow> once_at ls (Suc fuel) p s = Some r"
proof (induction fuel arbitrary: p)
  case (Suc fuel)
  show ?case
  proof (cases "p \<noteq> nullptr \<and> ls < ostamp (oobj s p)")
    case True
    then have "once_at ls (Suc fuel) (onext (oobj s p)) s = Some r" using Suc by simp
    with True show ?thesis by (subst once_at.simps(2)) (simp only: simp_thms if_True if_False)
  qed (use Suc.prems in auto)
qed simp

text \<open>The state a store that runs alone leaves.\<close>

definition recorded :: "('c \<Rightarrow> TS \<times> 'c) \<Rightarrow> nat \<Rightarrow> addr \<Rightarrow> 'c ostate \<Rightarrow> 'c ostate" where
  "recorded gws loc newv s =
     s\<lparr>oobj := (oobj s)(newv := (oobj s newv)\<lparr>onext := ov s loc, ostamp := fst (gws (oclock s))\<rparr>), ov := (ov s)(loc := newv),
       oclock := snd (gws (oclock s))\<rparr>"

lemma once_store_alone:
  assumes "newv \<noteq> nullptr" "ostamp (oobj s newv) = once_tbd"
  shows "once_store gws (\<lambda>i s. s) loc newv s = Inr (recorded gws loc newv s)"
  using assms by (simp add: once_store_def ov_exchange_def set_onext_def once_set_stamp_def put_ostamp_def
      recorded_def split_def Let_def)

lemma once_cas_alone:
  assumes "wf_once gws s" "newv \<noteq> nullptr" "newv \<noteq> ov s loc" "ostamp (oobj s newv) = once_tbd"
  shows "once_cas gws (\<lambda>i s. s) loc (ov s loc) newv s = Inr (True, recorded gws loc newv s)"
proof -
  have "ov s loc \<noteq> nullptr \<Longrightarrow> ostamped s (ov s loc)" using wf_once_ptr [OF assms(1), of loc] by simp
  then have "(if ov s loc \<noteq> nullptr then once_set_stamp gws (\<lambda>i s. s) (ov s loc) s else s) = s"
    by (simp add: once_set_stamp_def ostamped_def)
  then show ?thesis
    using assms(2-4) by (simp add: once_cas_def ov_exchange_def set_onext_def once_set_stamp_def put_ostamp_def
        recorded_def split_def Let_def)
qed

lemma recorded_views:
  assumes "wf_once gws s" "newv \<in> olive s" "ostamp (oobj s newv) = once_tbd"
    "0 < fst (gws (snd (gws (oclock s))))" "fst (gws (snd (gws (oclock s)))) < once_tbd"
  shows "wf_once gws (recorded gws loc newv s)"
    "0 \<le> ls \<Longrightarrow> once_value gws (Suc fuel) ls l' s = Some r \<Longrightarrow>
       once_value gws (Suc (Suc fuel)) ls l' (recorded gws loc newv s)
         = Some (if l' = loc then if fst (gws (oclock s)) \<le> ls then Inr newv
                                  else if ov s loc = nullptr then Inl Null_Dereference else r
                 else r)"
proof -
  let ?t = "recorded gws loc newv s" and ?ts = "fst (gws (oclock s))"
  have "nullptr \<notin> olive s" using assms(1) by (simp add: wf_once_def)
  then have n0: "newv \<noteq> nullptr" using assms(2) by metis
  have ts: "0 < ?ts" "?ts < once_tbd" using assms(1) by (simp_all add: wf_once_def)
  have flds: "ov ?t = (ov s)(loc := newv)" "olive ?t = olive s" "oclock ?t = snd (gws (oclock s))"
    "oobj ?t newv = (oobj s newv)\<lparr>onext := ov s loc, ostamp := ?ts\<rparr>" "q \<noteq> newv \<Longrightarrow> oobj ?t q = oobj s q" for q
    by (simp_all add: recorded_def)
  have new: "ostamped ?t newv" "\<not> ostamped s newv" using assms(2,3) ts by (simp_all add: ostamped_def flds)
  have st: "ostamped ?t q \<longleftrightarrow> q = newv \<or> ostamped s q" for q
    using new by (cases "q = newv") (simp_all add: ostamped_def flds)
  have kept: "once_kept s ?t" using new(2) flds(5) by (metis once_kept_def)
  show wf: "wf_once gws ?t"
    unfolding wf_once_def
  proof (intro conjI allI impI)
    show "ov ?t l = nullptr \<or> ostamped ?t (ov ?t l)" for l
      using wf_once_ptr [OF assms(1), of l] by (cases "l = loc"; cases "ov s l = nullptr") (simp_all add: flds st)
  next
    fix q assume q: "ostamped ?t q" "0 < ostamp (oobj ?t q)"
    show "onext (oobj ?t q) = nullptr \<or> ostamped ?t (onext (oobj ?t q))"
    proof (cases "q = newv")
      case True
      then show ?thesis using wf_once_ptr [OF assms(1), of loc] by (simp add: flds st) blast
    next
      case False
      then show ?thesis using q assms(1) by (auto simp: flds st wf_once_def)
    qed
  qed (use assms(1,4,5) st in \<open>auto simp: flds wf_once_def\<close>)
  assume ls: "0 \<le> ls" and r: "once_value gws (Suc fuel) ls l' s = Some r"
  have old: "once_at ls n (ov s l'') ?t = once_at ls n (ov s l'') s" for n l''
    by (rule once_at_kept [OF assms(1) kept wf_once_ptr [OF assms(1)] ls])
  show "once_value gws (Suc (Suc fuel)) ls l' ?t
      = Some (if l' = loc then if ?ts \<le> ls then Inr newv else if ov s loc = nullptr then Inl Null_Dereference else r else r)"
  proof (cases "l' = loc")
    case True
    have "once_at ls (Suc (Suc fuel)) newv ?t = (if ?ts \<le> ls then Some (Inr newv) else once_at ls (Suc fuel) (ov s loc) s)"
      using n0 by (subst once_at.simps(2)) (auto simp: flds old simp del: once_at.simps)
    moreover have "once_at ls (Suc fuel) (ov s loc) s = (if ov s loc = nullptr then Some (Inl Null_Dereference) else Some r)"
      using r True by (cases "ov s loc = nullptr") (simp_all add: once_value_at [OF assms(1)])
    ultimately show ?thesis using True n0 by (simp add: once_value_at [OF wf] flds del: once_at.simps)
  next
    case False
    have "once_at ls (Suc (Suc fuel)) (ov s l') s = Some r" if "ov s l' \<noteq> nullptr"
      using r that once_at_more [of ls "Suc fuel"] by (simp add: once_value_at [OF assms(1)] del: once_at.simps)
    then show ?thesis
      using False r old [of "Suc (Suc fuel)" l']
      by (auto simp: once_value_at [OF wf] once_value_at [OF assms(1)] flds simp del: once_at.simps)
  qed
qed

section \<open>Properties\<close>

text \<open>C23: a store through a record-once pointer that runs alone: storing null or an object that was stored
  before aborts with the corresponding error and every other store succeeds. Then the state is well-formed
  again, a snapshot with a stamp not less than that of the store reads the new object, and an
  older one reads what it read before, except that where the pointer was null it runs into the
  end of the version chain, which the code dereferences.\<close>

theorem once_store_outcome:
  assumes "wf_once gws s" "newv = nullptr \<or> newv \<in> olive s"
    "0 < fst (gws (snd (gws (oclock s))))" "fst (gws (snd (gws (oclock s)))) < once_tbd"
  shows "case once_store gws (\<lambda>i s. s) loc newv s of
      Inl Recording_Null \<Rightarrow> newv = nullptr
    | Inl Recording_Twice \<Rightarrow> ostamped s newv
    | Inl Null_Dereference \<Rightarrow> False
    | Inr s' \<Rightarrow> newv \<noteq> nullptr \<and> \<not> ostamped s newv \<and> wf_once gws s'
        \<and> (\<forall>ls fuel l' r. 0 \<le> ls \<longrightarrow> once_value gws (Suc fuel) ls l' s = Some r \<longrightarrow>
             once_value gws (Suc (Suc fuel)) ls l' s'
               = Some (if l' = loc then if fst (gws (oclock s)) \<le> ls then Inr newv
                                        else if ov s loc = nullptr then Inl Null_Dereference else r
                       else r))"
proof (cases "newv = nullptr \<or> ostamp (oobj s newv) \<noteq> once_tbd")
  case True
  then show ?thesis using assms(2) by (cases "newv = nullptr") (simp_all add: once_store_def ostamped_def Let_def)
next
  case False
  then have n: "newv \<noteq> nullptr" "newv \<in> olive s" "ostamp (oobj s newv) = once_tbd" using assms(2) by auto
  note R = recorded_views [where loc = loc, OF assms(1) n(2,3) assms(3,4)]
  show ?thesis
    using R n(1,3) by (simp add: once_store_alone ostamped_def)
qed

text \<open>A pointer that is null and an object that can be stored.\<close>

definition demo_once :: "int ostate" where
  "demo_once = \<lparr>oobj = (\<lambda>p. \<lparr>ostamp = once_tbd, onext = bad_ptr\<rparr>), olive = {8}, ov = (\<lambda>loc. 0), oclock = 5\<rparr>"

theorem once_store_outcome_witness:
  "\<exists>s'. once_store (\<lambda>c. (c, c)) (\<lambda>i s. s) 0 8 demo_once = Inr s'
     \<and> once_value (\<lambda>c. (c, c)) 2 5 0 s' = Some (Inr 8) \<and> once_value (\<lambda>c. (c, c)) 2 4 0 s' = Some (Inl Null_Dereference)"
proof -
  let ?g = "\<lambda>c::int. (c, c)"
  have wf: "wf_once ?g demo_once" by (simp add: wf_once_def demo_once_def once_tbd_def ostamped_def)
  have "once_value ?g (Suc 0) ls 0 demo_once = Some (Inr 0)" for ls
    by (simp add: once_value_at [OF wf]) (simp add: demo_once_def)
  moreover have "once_store ?g (\<lambda>i s. s) 0 8 demo_once = Inr (recorded ?g 0 8 demo_once)"
    by (rule once_store_alone) (simp_all add: demo_once_def)
  moreover have "8 \<in> olive demo_once" "oclock demo_once = 5" "ov demo_once 0 = 0" "5 < once_tbd"
    by (simp_all add: demo_once_def once_tbd_def)
  ultimately show ?thesis
    using once_store_outcome [OF wf, of 8 0] by (simp add: numeral_2_eq_2)
qed

end
