(* ===== verification/Map_ADT.thy ===== *)
theory Map_ADT
  imports VL_Prelude
begin

text \<open>
  The contract that all structures of the library share: an ordered or unordered map with
  \<open>find\<close>, \<open>insert\<close> (which does not replace) and \<open>remove\<close>, each of which reports whether it
  changed the map; and \<open>try_loop\<close> of \<^verbatim>\<open>include/flock/flock.h\<close>, which repeats an attempt
  until it returns a value. The locale \<open>map_adt\<close> states what one operation promises about
  the abstract map; what it means for a whole history of operations is proved once inside
  it. Every structure interprets it.
\<close>

section \<open>Repeating an attempt\<close>

text \<open>
  \<open>f i s\<close> is the attempt of round \<open>i\<close>: \<open>None\<close> when the code returns an empty optional (a lock
  was taken or a validation failed). The fuel is the number of rounds.
\<close>

fun try_loop :: "(nat \<Rightarrow> 's \<Rightarrow> 'r option \<times> 's) \<Rightarrow> nat \<Rightarrow> 's \<Rightarrow> ('r \<times> 's) option" where
  "try_loop f 0 s = None"
| "try_loop f (Suc fuel) s =
     (case f fuel s of (Some r, s') \<Rightarrow> Some (r, s') | (None, s') \<Rightarrow> try_loop f fuel s')"

text \<open>The version that gives up after a number of rounds.\<close>

fun try_loop_rounds :: "nat \<Rightarrow> (nat \<Rightarrow> 's \<Rightarrow> 'r option \<times> 's) \<Rightarrow> 's \<Rightarrow> 'r option \<times> 's" where
  "try_loop_rounds 0 f s = (None, s)"
| "try_loop_rounds (Suc rounds) f s =
     (case f rounds s of (Some r, s') \<Rightarrow> (Some r, s') | (None, s') \<Rightarrow> try_loop_rounds rounds f s')"

lemma try_loop_first: "f fuel s = (Some r, s') \<Longrightarrow> try_loop f (Suc fuel) s = Some (r, s')"
  by simp

text \<open>If failing attempts change nothing and the attempt of some round succeeds, the loop returns its result.\<close>

lemma try_loop_succeeds:
  assumes "\<And>i. fst (f i s) = None \<Longrightarrow> snd (f i s) = s"
    and "j < fuel" "fst (f j s) \<noteq> None"
  obtains i r s' where "i < fuel" "f i s = (Some r, s')" "try_loop f fuel s = Some (r, s')"
  using assms(2)
proof (induction fuel arbitrary: thesis)
  case (Suc fuel)
  obtain x s' where x: "f fuel s = (x, s')" by (metis prod.exhaust)
  show ?case
  proof (cases x)
    case (Some r)
    with x Suc.prems(1) [of fuel r s'] show ?thesis by simp
  next
    case None
    with x assms(1) [of fuel] have s': "s' = s" by simp
    from None x assms(3) have "j \<noteq> fuel" by auto
    with Suc.prems(2) have "j < fuel" by simp
    then obtain i r t where "i < fuel" "f i s = (Some r, t)" "try_loop f fuel s = Some (r, t)"
      using Suc.IH by blast
    with Suc.prems(1) [of i r t] x None s' show ?thesis by simp
  qed
qed simp

lemma try_loop_rounds_eq:
  "try_loop_rounds n f s = (Some r, s') \<longleftrightarrow> try_loop f n s = Some (r, s')"
  by (induction n arbitrary: s) (auto split: prod.splits option.splits)

section \<open>Maps as an abstract data type\<close>

datatype ('k, 'v) map_op = Find 'k | Insert 'k 'v | Remove 'k

datatype 'v map_result = Found "'v option" | Inserted bool | Removed_key bool

fun spec_op :: "('k, 'v) map_op \<Rightarrow> ('k \<rightharpoonup> 'v) \<Rightarrow> 'v map_result \<times> ('k \<rightharpoonup> 'v)" where
  "spec_op (Find k) m = (Found (m k), m)"
| "spec_op (Insert k v) m = (if m k = None then (Inserted True, m(k \<mapsto> v)) else (Inserted False, m))"
| "spec_op (Remove k) m = (if m k = None then (Removed_key False, m) else (Removed_key True, m(k := None)))"

fun spec_run :: "('k, 'v) map_op list \<Rightarrow> ('k \<rightharpoonup> 'v) \<Rightarrow> 'v map_result list \<times> ('k \<rightharpoonup> 'v)" where
  "spec_run [] m = ([], m)"
| "spec_run (x # xs) m =
     (let (r, m1) = spec_op x m; (rs, m2) = spec_run xs m1 in (r # rs, m2))"

fun spec_updates :: "('k \<times> 'v option) list \<Rightarrow> ('k \<rightharpoonup> 'v) \<Rightarrow> bool list \<times> ('k \<rightharpoonup> 'v)" where
  "spec_updates [] m = ([], m)"
| "spec_updates ((k, Some v) # xs) m =
     (let (bs, m') = spec_updates xs (if m k = None then m(k \<mapsto> v) else m) in ((m k = None) # bs, m'))"
| "spec_updates ((k, None) # xs) m = (let (bs, m') = spec_updates xs (m(k := None)) in ((m k \<noteq> None) # bs, m'))"

text \<open>The updates alone: a structure may keep the map right and still answer lookups wrongly.\<close>

locale map_updates =
  fixes inv :: "'s \<Rightarrow> bool"
    and abs :: "'s \<Rightarrow> 'k \<rightharpoonup> 'v"
    and ins :: "'k \<Rightarrow> 'v \<Rightarrow> 's \<Rightarrow> bool \<times> 's"
    and rem :: "'k \<Rightarrow> 's \<Rightarrow> bool \<times> 's"
  assumes insert_abs: "inv s \<Longrightarrow> ins k v s = (b, s') \<Longrightarrow>
      inv s' \<and> (b \<longleftrightarrow> abs s k = None) \<and> abs s' = (if b then (abs s)(k \<mapsto> v) else abs s)"
    and remove_abs: "inv s \<Longrightarrow> rem k s = (b, s') \<Longrightarrow>
      inv s' \<and> (b \<longleftrightarrow> abs s k \<noteq> None) \<and> abs s' = (abs s)(k := None)"
begin

text \<open>A history of updates: an entry is an insertion, or a removal when there is no value.\<close>

fun update_run :: "('k \<times> 'v option) list \<Rightarrow> 's \<Rightarrow> bool list \<times> 's" where
  "update_run [] s = ([], s)"
| "update_run ((k, Some v) # xs) s = (let (b, s1) = ins k v s; (bs, s2) = update_run xs s1 in (b # bs, s2))"
| "update_run ((k, None) # xs) s = (let (b, s1) = rem k s; (bs, s2) = update_run xs s1 in (b # bs, s2))"

lemma update_run_refines:
  assumes "inv s" "update_run xs s = (bs, s')"
  shows "inv s' \<and> spec_updates xs (abs s) = (bs, abs s')"
  using assms
proof (induction xs s arbitrary: bs s' rule: update_run.induct)
  case (2 k v xs s)
  obtain b s1 where b: "ins k v s = (b, s1)" by (metis prod.exhaust)
  obtain cs s2 where cs: "update_run xs s1 = (cs, s2)" by (metis prod.exhaust)
  note i = insert_abs [OF "2.prems"(1) b]
  from "2.IH" [OF b [symmetric] refl _ cs] i have "inv s2 \<and> spec_updates xs (abs s1) = (cs, abs s2)" by simp
  with "2.prems"(2) b cs i show ?case by auto
next
  case (3 k xs s)
  obtain b s1 where b: "rem k s = (b, s1)" by (metis prod.exhaust)
  obtain cs s2 where cs: "update_run xs s1 = (cs, s2)" by (metis prod.exhaust)
  note i = remove_abs [OF "3.prems"(1) b]
  have "inv s2 \<and> spec_updates xs (abs s1) = (cs, abs s2)" by (rule "3.IH" [OF b [symmetric] refl _ cs]) (use i in simp)
  moreover have "abs s1 = (abs s)(k := None)" using i by blast
  ultimately have "inv s2 \<and> spec_updates xs ((abs s)(k := None)) = (cs, abs s2)" by (simp only:)
  with "3.prems"(2) b cs i show ?case by auto
qed simp

end

locale map_adt = map_updates inv abs ins rem
  for inv :: "'s \<Rightarrow> bool" and abs :: "'s \<Rightarrow> 'k \<rightharpoonup> 'v" and ins rem +
  fixes find :: "'k \<Rightarrow> 's \<Rightarrow> 'v option"
  assumes find_abs: "inv s \<Longrightarrow> find k s = abs s k"
begin

fun impl_op :: "('k, 'v) map_op \<Rightarrow> 's \<Rightarrow> 'v map_result \<times> 's" where
  "impl_op (Find k) s = (Found (find k s), s)"
| "impl_op (Insert k v) s = (let (b, s') = ins k v s in (Inserted b, s'))"
| "impl_op (Remove k) s = (let (b, s') = rem k s in (Removed_key b, s'))"

fun impl_run :: "('k, 'v) map_op list \<Rightarrow> 's \<Rightarrow> 'v map_result list \<times> 's" where
  "impl_run [] s = ([], s)"
| "impl_run (x # xs) s = (let (r, s1) = impl_op x s; (rs, s2) = impl_run xs s1 in (r # rs, s2))"

lemma impl_op_refines:
  assumes "inv s" "impl_op x s = (r, s')"
  shows "inv s'" "spec_op x (abs s) = (r, abs s')"
proof -
  have "inv s' \<and> spec_op x (abs s) = (r, abs s')"
  proof (cases x)
    case (Find k)
    with assms find_abs show ?thesis by auto
  next
    case (Insert k v)
    obtain b t where b: "ins k v s = (b, t)" by (metis prod.exhaust)
    with insert_abs [OF assms(1) b] assms(2) Insert show ?thesis by auto
  next
    case (Remove k)
    obtain b t where b: "rem k s = (b, t)" by (metis prod.exhaust)
    with remove_abs [OF assms(1) b] assms(2) Remove show ?thesis by auto
  qed
  then show "inv s'" "spec_op x (abs s) = (r, abs s')" by simp_all
qed

text \<open>A whole history of operations returns what the abstract map returns.\<close>

lemma impl_run_refines:
  assumes "inv s" "impl_run xs s = (rs, s')"
  shows "inv s' \<and> spec_run xs (abs s) = (rs, abs s')"
  using assms
proof (induction xs arbitrary: s rs s')
  case (Cons x xs)
  obtain r s1 where r: "impl_op x s = (r, s1)" by (metis prod.exhaust)
  obtain rs1 s2 where rs1: "impl_run xs s1 = (rs1, s2)" by (metis prod.exhaust)
  note o = impl_op_refines [OF Cons.prems(1) r]
  from Cons.prems(2) r rs1 have "rs = r # rs1" "s' = s2" by auto
  with Cons.IH [OF o(1) rs1] o(2) show ?case by simp
qed simp

lemma impl_run_answers:
  assumes "inv s" "abs s = m"
  shows "fst (impl_run xs s) = fst (spec_run xs m)"
  using impl_run_refines [OF assms(1), of xs "fst (impl_run xs s)" "snd (impl_run xs s)"] assms(2) by simp

lemma insert_then_find:
  assumes "inv s" "ins k v s = (b, s')"
  shows "find k s' = (if b then Some v else find k s) \<and> (k' \<noteq> k \<longrightarrow> find k' s' = find k' s)"
  using insert_abs [OF assms] find_abs assms(1) by auto

lemma remove_then_find:
  assumes "inv s" "rem k s = (b, s')"
  shows "find k s' = None \<and> (k' \<noteq> k \<longrightarrow> find k' s' = find k' s)"
  using remove_abs [OF assms] find_abs assms(1) by auto

end

end
