(* ===== verification/List_Map.thy ===== *)
theory List_Map
  imports Map_ADT
begin

text \<open>
  The ordered map on a singly linked list, \<^verbatim>\<open>structures/list/ordered_map.h\<close>. The nodes are
  a store of records by address. An operation searches without locks, while other threads
  change the list, then takes the lock of one or two nodes, validates what it found and
  changes the list. The search of the model runs under arbitrary interference that keeps
  keys, values and end marks of nodes; the validated change is one step, since the locks
  keep other changes of these nodes out. The theorems say that every successful attempt
  acts on the map that the list represents at the moment of the validation, and that the
  operations without interference refine the abstract map.
\<close>

section \<open>Nodes\<close>

record ('k, 'v) lnode =
  next_node :: addr
  key :: 'k
  val :: 'v
  is_end :: bool
  removed :: bool

record ('k, 'v) lmap =
  node :: "addr \<Rightarrow> ('k, 'v) lnode"
  nodes :: "addr set"
  root :: addr
  lretired :: "addr list"

text \<open>What other threads do between two accesses.\<close>

type_synonym ('k, 'v) lenv = "nat \<Rightarrow> ('k, 'v) lmap \<Rightarrow> ('k, 'v) lmap"

definition set_next_node :: "addr \<Rightarrow> addr \<Rightarrow> ('k, 'v) lmap \<Rightarrow> ('k, 'v) lmap" where
  "set_next_node p q s = s\<lparr>node := (node s)(p := (node s p)\<lparr>next_node := q\<rparr>)\<rparr>"

definition set_removed :: "addr \<Rightarrow> ('k, 'v) lmap \<Rightarrow> ('k, 'v) lmap" where
  "set_removed p s = s\<lparr>node := (node s)(p := (node s p)\<lparr>removed := True\<rparr>)\<rparr>"

definition new_lnode :: "(('k, 'v) lmap \<Rightarrow> addr) \<Rightarrow> 'k \<Rightarrow> 'v \<Rightarrow> addr \<Rightarrow> ('k, 'v) lmap \<Rightarrow> addr \<times> ('k, 'v) lmap" where
  "new_lnode alloc k v nxt s =
     (let p = alloc s
      in (p, s\<lparr>node := (node s)(p := \<lparr>next_node = nxt, key = k, val = v, is_end = False, removed = False\<rparr>),
               nodes := insert p (nodes s)\<rparr>))"

definition lretire :: "addr \<Rightarrow> ('k, 'v) lmap \<Rightarrow> ('k, 'v) lmap" where
  "lretire p s = s\<lparr>lretired := p # lretired s\<rparr>"

section \<open>Searching\<close>

text \<open>
  The loop of \<open>find_location\<close>; every load of a next pointer is an access between which the
  environment runs. The fuel bounds the number of rounds.
\<close>

fun find_loop :: "('k::linorder, 'v) lenv \<Rightarrow> 'k \<Rightarrow> nat \<Rightarrow> addr \<Rightarrow> addr \<Rightarrow> ('k, 'v) lmap
    \<Rightarrow> ((addr \<times> addr) \<times> ('k, 'v) lmap) option" where
  "find_loop env k 0 cur nxt s = None"
| "find_loop env k (Suc fuel) cur nxt s =
     (let nxt_nxt = next_node (node s nxt)
      in if is_end (node s nxt) \<or> \<not> key (node s nxt) < k then Some ((cur, nxt), s)
         else find_loop env k fuel nxt nxt_nxt (env fuel s))"

definition find_location :: "('k::linorder, 'v) lenv \<Rightarrow> nat \<Rightarrow> 'k \<Rightarrow> ('k, 'v) lmap
    \<Rightarrow> ((addr \<times> addr) \<times> ('k, 'v) lmap) option" where
  "find_location env fuel k s =
     (let cur = root s; nxt = next_node (node s cur) in find_loop env k fuel cur nxt (env fuel s))"

section \<open>Operations\<close>

text \<open>
  The outcome of an attempt is \<open>None\<close> when the code returns an empty optional. \<open>locked i\<close> says
  whether the \<open>i\<close>-th \<open>try_lock\<close> of the attempt gets its lock; \<open>e\<close> is what the others do before
  the validation.
\<close>

definition still_there :: "addr \<Rightarrow> addr \<Rightarrow> ('k, 'v) lmap \<Rightarrow> bool" where
  "still_there cur nxt s \<longleftrightarrow> next_node (node s cur) = nxt \<and> \<not> removed (node s cur)"

definition try_insert :: "('k::linorder, 'v) lenv \<Rightarrow> (('k, 'v) lmap \<Rightarrow> ('k, 'v) lmap) \<Rightarrow> (nat \<Rightarrow> bool)
    \<Rightarrow> (('k, 'v) lmap \<Rightarrow> addr) \<Rightarrow> nat \<Rightarrow> 'k \<Rightarrow> 'v \<Rightarrow> ('k, 'v) lmap \<Rightarrow> bool option \<times> ('k, 'v) lmap" where
  "try_insert env e locked alloc fuel k v s =
     (case find_location env fuel k s of
        None \<Rightarrow> (None, s)
      | Some ((cur, nxt), s1) \<Rightarrow>
          let s2 = e s1
          in if \<not> is_end (node s1 nxt) \<and> \<not> k < key (node s1 nxt)
             then (if still_there cur nxt s2 then (Some False, s2) else (None, s2))
             else if locked 0 \<and> still_there cur nxt s2
                  then let (new_node, s3) = new_lnode alloc k v nxt s2
                       in (Some True, set_next_node cur new_node s3)
                  else (None, s2))"

definition try_remove :: "('k::linorder, 'v) lenv \<Rightarrow> (('k, 'v) lmap \<Rightarrow> ('k, 'v) lmap) \<Rightarrow> (nat \<Rightarrow> bool)
    \<Rightarrow> nat \<Rightarrow> 'k \<Rightarrow> ('k, 'v) lmap \<Rightarrow> bool option \<times> ('k, 'v) lmap" where
  "try_remove env e locked fuel k s =
     (case find_location env fuel k s of
        None \<Rightarrow> (None, s)
      | Some ((cur, nxt), s1) \<Rightarrow>
          let s2 = e s1
          in if is_end (node s1 nxt) \<or> k < key (node s1 nxt)
             then (if still_there cur nxt s2 then (Some False, s2) else (None, s2))
             else if locked 0 \<and> still_there cur nxt s2 \<and> locked 1
                  then let nxtnxt = next_node (node s2 nxt)
                       in (Some True, lretire nxt (set_next_node cur nxtnxt (set_removed nxt s2)))
                  else (None, s2))"

definition try_find :: "('k::linorder, 'v) lenv \<Rightarrow> (('k, 'v) lmap \<Rightarrow> ('k, 'v) lmap) \<Rightarrow> nat \<Rightarrow> 'k
    \<Rightarrow> ('k, 'v) lmap \<Rightarrow> 'v option option \<times> ('k, 'v) lmap" where
  "try_find env e fuel k s =
     (case find_location env fuel k s of
        None \<Rightarrow> (None, s)
      | Some ((cur, nxt), s1) \<Rightarrow>
          let s2 = e s1
          in if still_there cur nxt s2
             then (Some (if \<not> is_end (node s2 nxt) \<and> \<not> k < key (node s2 nxt)
                         then Some (val (node s2 nxt)) else None), s2)
             else (None, s2))"

definition find_plain :: "('k::linorder, 'v) lenv \<Rightarrow> nat \<Rightarrow> 'k \<Rightarrow> ('k, 'v) lmap \<Rightarrow> 'v option option" where
  "find_plain env fuel k s =
     map_option (\<lambda>((cur, nxt), s1). if \<not> is_end (node s1 nxt) \<and> \<not> k < key (node s1 nxt)
                                     then Some (val (node s1 nxt)) else None)
       (find_location env fuel k s)"

text \<open>\<open>insert\<close> and \<open>remove\<close> repeat their attempt until it returns a value.\<close>

definition insert_map :: "(nat \<Rightarrow> ('k::linorder, 'v) lenv) \<Rightarrow> (nat \<Rightarrow> ('k, 'v) lmap \<Rightarrow> ('k, 'v) lmap) \<Rightarrow> (nat \<Rightarrow> nat \<Rightarrow> bool)
    \<Rightarrow> (('k, 'v) lmap \<Rightarrow> addr) \<Rightarrow> nat \<Rightarrow> nat \<Rightarrow> 'k \<Rightarrow> 'v \<Rightarrow> ('k, 'v) lmap \<Rightarrow> (bool \<times> ('k, 'v) lmap) option" where
  "insert_map env e locked alloc fuel rounds k v s =
     try_loop (\<lambda>i. try_insert (env i) (e i) (locked i) alloc fuel k v) rounds s"

definition remove_map :: "(nat \<Rightarrow> ('k::linorder, 'v) lenv) \<Rightarrow> (nat \<Rightarrow> ('k, 'v) lmap \<Rightarrow> ('k, 'v) lmap) \<Rightarrow> (nat \<Rightarrow> nat \<Rightarrow> bool)
    \<Rightarrow> nat \<Rightarrow> nat \<Rightarrow> 'k \<Rightarrow> ('k, 'v) lmap \<Rightarrow> (bool \<times> ('k, 'v) lmap) option" where
  "remove_map env e locked fuel rounds k s =
     try_loop (\<lambda>i. try_remove (env i) (e i) (locked i) fuel k) rounds s"

text \<open>The range query, with the two loops over the list.\<close>

fun skip_to :: "('k::linorder) \<Rightarrow> nat \<Rightarrow> addr \<Rightarrow> ('k, 'v) lmap \<Rightarrow> addr option" where
  "skip_to start 0 nxt s = None"
| "skip_to start (Suc fuel) nxt s =
     (if is_end (node s nxt) \<or> \<not> key (node s nxt) < start then Some nxt
      else skip_to start fuel (next_node (node s nxt)) s)"

fun add_until :: "('k::linorder) \<Rightarrow> nat \<Rightarrow> addr \<Rightarrow> ('k, 'v) lmap \<Rightarrow> ('k \<times> 'v) list option" where
  "add_until stop 0 nxt s = None"
| "add_until stop (Suc fuel) nxt s =
     (if \<not> is_end (node s nxt) \<and> \<not> stop < key (node s nxt)
      then map_option (\<lambda>xs. (key (node s nxt), val (node s nxt)) # xs) (add_until stop fuel (next_node (node s nxt)) s)
      else Some [])"

definition range_query :: "nat \<Rightarrow> ('k::linorder) \<Rightarrow> 'k \<Rightarrow> ('k, 'v) lmap \<Rightarrow> ('k \<times> 'v) list option" where
  "range_query fuel start stop s =
     (case skip_to start fuel (next_node (node s (root s))) s of
        None \<Rightarrow> None | Some nxt \<Rightarrow> add_until stop fuel nxt s)"

text \<open>The constructor, and the check of the key order (\<open>None\<close> when it aborts).\<close>

definition empty_lmap :: "addr \<Rightarrow> addr \<Rightarrow> 'k \<Rightarrow> 'v \<Rightarrow> ('k, 'v) lmap" where
  "empty_lmap r t k v =
     \<lparr>node = (\<lambda>p. if p = r then \<lparr>next_node = t, key = k, val = v, is_end = False, removed = False\<rparr>
                  else \<lparr>next_node = nullptr, key = k, val = v, is_end = True, removed = False\<rparr>),
      nodes = {r, t}, root = r, lretired = []\<rparr>"

fun check_loop :: "nat \<Rightarrow> ('k::linorder) \<Rightarrow> addr \<Rightarrow> int \<Rightarrow> ('k, 'v) lmap \<Rightarrow> int option" where
  "check_loop 0 k ptr i s = None"
| "check_loop (Suc fuel) k ptr i s =
     (if is_end (node s ptr) then Some i
      else if \<not> k < key (node s ptr) then None
      else check_loop fuel (key (node s ptr)) (next_node (node s ptr)) (i + 1) s)"

definition check :: "nat \<Rightarrow> ('k::linorder, 'v) lmap \<Rightarrow> int option" where
  "check fuel s =
     (let ptr = next_node (node s (root s))
      in if is_end (node s ptr) then Some 0
         else check_loop fuel (key (node s ptr)) (next_node (node s ptr)) 1 s)"

text \<open>The destructor retires the nodes from the end of the list backwards.\<close>

fun retire_recursive :: "nat \<Rightarrow> addr \<Rightarrow> ('k, 'v) lmap \<Rightarrow> ('k, 'v) lmap option" where
  "retire_recursive 0 p s = None"
| "retire_recursive (Suc fuel) p s =
     (if \<not> is_end (node s p)
      then map_option (lretire p) (retire_recursive fuel (next_node (node s p)) s)
      else Some (lretire p s))"

section \<open>The list in memory\<close>

definition linked :: "('k, 'v) lmap \<Rightarrow> addr list \<Rightarrow> bool" where
  "linked s xs \<longleftrightarrow> successively (\<lambda>a b. next_node (node s a) = b) xs"

text \<open>
  The list of a map: the nodes \<open>ns\<close> between the root and the end node \<open>t\<close>, with increasing
  keys. A node is on the list exactly when it is not marked as removed.
\<close>

definition lrep :: "('k::linorder, 'v) lmap \<Rightarrow> addr list \<Rightarrow> addr \<Rightarrow> bool" where
  "lrep s ns t \<longleftrightarrow>
     linked s (root s # ns @ [t]) \<and> distinct (root s # ns @ [t]) \<and>
     is_end (node s t) \<and> (\<forall>p\<in>set (root s # ns). \<not> is_end (node s p)) \<and>
     sorted_wrt (<) (map (\<lambda>p. key (node s p)) ns) \<and>
     finite (nodes s) \<and> set (root s # ns @ [t]) \<subseteq> nodes s \<and>
     (\<forall>p\<in>nodes s. \<not> removed (node s p) \<longleftrightarrow> p \<in> set (root s # ns @ [t])) \<and>
     (\<forall>p\<in>nodes s. \<not> is_end (node s p) \<longrightarrow> next_node (node s p) \<in> nodes s)"

definition wf_lmap :: "('k::linorder, 'v) lmap \<Rightarrow> bool" where
  "wf_lmap s \<longleftrightarrow> (\<exists>ns t. lrep s ns t)"

text \<open>The abstract map: what walking the list from the root finds.\<close>

fun walk :: "nat \<Rightarrow> addr \<Rightarrow> ('k, 'v) lmap \<Rightarrow> addr list" where
  "walk 0 p s = []"
| "walk (Suc n) p s = (if is_end (node s p) then [] else p # walk n (next_node (node s p)) s)"

definition entry_of :: "('k, 'v) lmap \<Rightarrow> addr \<Rightarrow> 'k \<times> 'v" where
  "entry_of s p = (key (node s p), val (node s p))"

definition lmap_abs :: "('k, 'v) lmap \<Rightarrow> 'k \<rightharpoonup> 'v" where
  "lmap_abs s = map_of (map (entry_of s) (walk (card (nodes s)) (next_node (node s (root s))) s))"

lemma linked_Cons: "linked s (a # b # xs) \<longleftrightarrow> next_node (node s a) = b \<and> linked s (b # xs)"
  by (simp add: linked_def)

lemma linked_join:
  "linked s (xs @ [a] @ b # ys) \<longleftrightarrow> linked s (xs @ [a]) \<and> next_node (node s a) = b \<and> linked s (b # ys)"
  by (auto simp: linked_def successively_append_iff)

lemma walk_linked:
  assumes "linked s (p # ns @ [t])" "is_end (node s t)" "\<forall>q\<in>set ns. \<not> is_end (node s q)" "length ns < n"
  shows "walk n (next_node (node s p)) s = ns"
  using assms
proof (induction ns arbitrary: p n)
  case Nil
  then show ?case by (cases n) (auto simp: linked_Cons)
next
  case (Cons a ns)
  then obtain m where "n = Suc m" by (cases n) auto
  with Cons show ?case by (auto simp: linked_Cons)
qed

lemma lrep_walk:
  assumes "lrep s ns t"
  shows "walk (card (nodes s)) (next_node (node s (root s))) s = ns"
proof (rule walk_linked)
  have "card (set (root s # ns @ [t])) = length (root s # ns @ [t])"
    using assms unfolding lrep_def by (intro distinct_card) simp
  then show "length ns < card (nodes s)"
    using assms card_mono [of "nodes s" "set (root s # ns @ [t])"] by (auto simp: lrep_def)
qed (use assms in \<open>auto simp: lrep_def\<close>)

lemma lrep_abs: "lrep s ns t \<Longrightarrow> lmap_abs s = map_of (map (entry_of s) ns)"
  by (simp add: lmap_abs_def lrep_walk)

text \<open>Which changes of other threads a search tolerates.\<close>

definition keeps :: "('k, 'v) lmap \<Rightarrow> ('k, 'v) lmap \<Rightarrow> bool" where
  "keeps s s' \<longleftrightarrow> root s' = root s \<and> nodes s \<subseteq> nodes s' \<and>
     (\<forall>p\<in>nodes s. key (node s' p) = key (node s p) \<and> val (node s' p) = val (node s p) \<and>
        is_end (node s' p) = is_end (node s p))"

interpretation lst: monotone_shared keeps wf_lmap
  by unfold_locales (auto simp: keeps_def)

definition left_ok :: "('k::linorder) \<Rightarrow> addr \<Rightarrow> ('k, 'v) lmap \<Rightarrow> bool" where
  "left_ok k cur s \<longleftrightarrow> cur \<in> nodes s \<and> (cur = root s \<or> \<not> is_end (node s cur) \<and> key (node s cur) < k)"

lemma left_ok_keeps: "left_ok k cur s \<Longrightarrow> keeps s s' \<Longrightarrow> left_ok k cur s'"
  by (auto simp: left_ok_def keeps_def)

lemma wf_next:
  assumes "wf_lmap s" "p \<in> nodes s" "\<not> is_end (node s p)"
  shows "next_node (node s p) \<in> nodes s"
  using assms unfolding wf_lmap_def lrep_def by blast

lemma find_loop_result:
  assumes "lst.rely env" "wf_lmap s" "left_ok k cur s" "nxt \<in> nodes s"
    and "find_loop env k fuel cur nxt s = Some ((c, n), s')"
  shows "lst.evolves s s' \<and> left_ok k c s' \<and> n \<in> nodes s' \<and> (is_end (node s' n) \<or> \<not> key (node s' n) < k)"
  using assms(2-)
proof (induction fuel arbitrary: cur nxt s)
  case (Suc fuel)
  show ?case
  proof (cases "is_end (node s nxt) \<or> \<not> key (node s nxt) < k")
    case True
    with Suc.prems show ?thesis by auto
  next
    case False
    let ?s = "env fuel s" and ?nn = "next_node (node s nxt)"
    have ev: "lst.evolves s ?s" by (rule lst.relyD [OF assms(1)])
    then have kp: "keeps s ?s" and wf: "wf_lmap ?s" using Suc.prems(1) by (simp_all add: lst.evolves_def)
    have l: "left_ok k nxt ?s"
      by (rule left_ok_keeps [OF _ kp]) (use False Suc.prems(3) in \<open>simp add: left_ok_def\<close>)
    have "?nn \<in> nodes s" by (rule wf_next) (use False Suc.prems in auto)
    then have nn: "?nn \<in> nodes ?s" using kp by (auto simp: keeps_def)
    have "find_loop env k fuel nxt ?nn ?s = Some ((c, n), s')" using Suc.prems(4) False by simp
    from Suc.IH [OF wf l nn this] ev lst.evolves_trans show ?thesis by blast
  qed
qed simp

lemma wf_root: "wf_lmap s \<Longrightarrow> root s \<in> nodes s \<and> \<not> is_end (node s (root s))"
  unfolding wf_lmap_def lrep_def by auto

lemma find_location_result:
  assumes "lst.rely env" "wf_lmap s" "find_location env fuel k s = Some ((cur, nxt), s')"
  shows "lst.evolves s s' \<and> left_ok k cur s' \<and> nxt \<in> nodes s' \<and>
    (is_end (node s' nxt) \<or> \<not> key (node s' nxt) < k)"
proof -
  let ?s = "env fuel s"
  have ev: "lst.evolves s ?s" by (rule lst.relyD [OF assms(1)])
  then have kp: "keeps s ?s" "wf_lmap ?s" using assms(2) by (simp_all add: lst.evolves_def)
  have n: "next_node (node s (root s)) \<in> nodes ?s"
    using wf_next [OF assms(2)] wf_root [OF assms(2)] kp(1) by (auto simp: keeps_def)
  have l: "left_ok k (root s) ?s" using wf_root [OF kp(2)] kp(1) by (auto simp: left_ok_def keeps_def)
  have "find_loop env k fuel (root s) (next_node (node s (root s))) ?s = Some ((cur, nxt), s')"
    using assms(3) by (simp add: find_location_def Let_def)
  from find_loop_result [OF assms(1) kp(2) l n this] ev show ?thesis
    by (blast intro: lst.evolves_trans)
qed

text \<open>A validated pair of nodes are neighbours on the list.\<close>

lemma validated_split:
  assumes "lrep s ns t" "cur \<in> nodes s" "\<not> is_end (node s cur)" "still_there cur nxt s"
  obtains as bs where "ns = as @ bs" "cur = last (root s # as)" "nxt = hd (bs @ [t])"
proof -
  have "cur \<in> set (root s # ns @ [t])" "cur \<noteq> t"
    using assms by (auto simp: lrep_def still_there_def)
  then have "cur \<in> set (root s # ns)" by auto
  then obtain pre bs where sp: "root s # ns = pre @ cur # bs" by (meson split_list)
  have "root s # ns @ [t] = (root s # ns) @ [t]" by simp
  also have "\<dots> = (pre @ [cur]) @ bs @ [t]" unfolding sp by simp
  finally have "linked s ((pre @ [cur]) @ bs @ [t])" using assms(1) by (simp only: lrep_def)
  then have "next_node (node s cur) = hd (bs @ [t])"
    using linked_join [of s pre cur "hd (bs @ [t])" "tl (bs @ [t])"] by simp
  then have n: "nxt = hd (bs @ [t])" using assms(4) by (simp add: still_there_def)
  show thesis
  proof (cases pre)
    case Nil
    with sp n that [of "[]" bs] show thesis by simp
  next
    case (Cons a as)
    with sp n that [of "as @ [cur]" bs] show thesis by simp
  qed
qed

lemma linked_frame:
  assumes "\<And>p. p \<in> set (butlast xs) \<Longrightarrow> next_node (node s' p) = next_node (node s p)"
  shows "linked s' xs \<longleftrightarrow> linked s xs"
  using assms
proof (induction xs)
  case (Cons a xs)
  then show ?case by (cases xs) (auto simp: linked_def)
qed (simp add: linked_def)

lemma sorted_keys_split:
  assumes "sorted_wrt (<) (map f (as @ bs))" "as \<noteq> [] \<longrightarrow> f (last as) < k" "bs \<noteq> [] \<longrightarrow> k \<le> f (hd bs)"
  shows "\<forall>a\<in>set as. f a < (k::'k::linorder)" "\<forall>b\<in>set bs. k \<le> f b"
proof -
  show "\<forall>a\<in>set as. f a < k"
  proof (cases "as = []")
    case False
    then obtain xs x where "as = xs @ [x]" by (metis rev_exhaust)
    with assms show ?thesis by (auto simp: sorted_wrt_append)
  qed simp
  show "\<forall>b\<in>set bs. k \<le> f b"
    using assms(1,3) by (cases bs) (auto simp: sorted_wrt_append intro: order_trans less_imp_le)
qed

text \<open>What the list says about a key that lies between two validated neighbours.\<close>

lemma keys_around:
  assumes "lrep s ns t" "ns = as @ bs" "left_ok k (last (root s # as)) s" "nxt = hd (bs @ [t])"
    and "is_end (node s nxt) \<or> \<not> key (node s nxt) < k"
  shows "\<forall>a\<in>set as. key (node s a) < k" "\<forall>b\<in>set bs. k \<le> key (node s b)"
proof -
  have "root s \<notin> set as" using assms(1,2) by (simp add: lrep_def)
  then have d: "as \<noteq> [] \<Longrightarrow> last as \<noteq> root s" using last_in_set [of as] by metis
  then have l: "as \<noteq> [] \<longrightarrow> key (node s (last as)) < k" using assms(3) by (auto simp: left_ok_def)
  have "bs \<noteq> [] \<Longrightarrow> \<not> is_end (node s (hd bs))" using assms(1,2) by (auto simp: lrep_def)
  then have r: "bs \<noteq> [] \<longrightarrow> k \<le> key (node s (hd bs))" using assms(4,5) by (auto simp: not_less)
  have "sorted_wrt (<) (map (\<lambda>p. key (node s p)) (as @ bs))" using assms(1,2) by (simp add: lrep_def)
  from sorted_keys_split [OF this l r]
  show "\<forall>a\<in>set as. key (node s a) < k" "\<forall>b\<in>set bs. k \<le> key (node s b)" by blast+
qed

lemma lookup_between:
  assumes "lrep s ns t" "ns = as @ bs" "left_ok k (last (root s # as)) s" "nxt = hd (bs @ [t])"
    and "is_end (node s nxt) \<or> \<not> key (node s nxt) < k"
  shows "lmap_abs s k = (if \<not> is_end (node s nxt) \<and> \<not> k < key (node s nxt) then Some (val (node s nxt)) else None)"
proof -
  note K = keys_around [OF assms]
  have abs: "lmap_abs s = map_of (map (entry_of s) (as @ bs))" using lrep_abs [OF assms(1)] assms(2) by simp
  have as: "map_of (map (entry_of s) as) k = None"
    using K(1) by (auto simp: map_of_eq_None_iff entry_of_def)
  show ?thesis
  proof (cases bs)
    case Nil
    with assms(1,4) have "is_end (node s nxt)" by (simp add: lrep_def)
    with Nil abs as show ?thesis by simp
  next
    case (Cons b bs')
    then have b: "nxt = b" "\<not> is_end (node s b)" using assms(1,2,4) by (auto simp: lrep_def)
    have "map_of (map (entry_of s) bs') k = None" if "k < key (node s b)"
      using assms(1,2) Cons that
      by (auto simp: lrep_def map_of_eq_None_iff entry_of_def sorted_wrt_append)
    moreover have "k \<le> key (node s b)" using K(2) Cons by simp
    ultimately show ?thesis
      using abs as b Cons by (auto simp: map_add_def entry_of_def)
  qed
qed

lemma new_lnode_simps:
  assumes "new_lnode alloc k v nxt s = (p, s')"
  shows "p = alloc s" "nodes s' = insert p (nodes s)" "root s' = root s"
    "node s' = (node s)(p := \<lparr>next_node = nxt, key = k, val = v, is_end = False, removed = False\<rparr>)"
  using assms by (auto simp: new_lnode_def Let_def)

lemma insert_lrep:
  assumes rep: "lrep s ns t" and ns: "ns = as @ bs" "cur = last (root s # as)" "nxt = hd (bs @ [t])"
    and new: "new_lnode alloc k v nxt s = (p, s1)" "p \<notin> nodes s"
    and keys: "\<forall>a\<in>set as. key (node s a) < k" "\<forall>b\<in>set bs. k < key (node s b)"
    and s': "s' = set_next_node cur p s1"
  shows "lrep s' (as @ p # bs) t" "lmap_abs s' = (lmap_abs s)(k \<mapsto> v)"
proof -
  note n = new_lnode_simps [OF new(1)]
  have R: "linked s (root s # ns @ [t])" "distinct (root s # ns @ [t])" "set (root s # ns @ [t]) \<subseteq> nodes s"
    using rep by (simp_all add: lrep_def)
  have cur: "cur \<in> set (root s # as)" unfolding ns(2) by (rule last_in_set) simp
  then have cp: "cur \<noteq> p" "cur \<in> nodes s" using R(3) new(2) ns(1) by auto
  have node': "node s' q = (if q = cur then (node s cur)\<lparr>next_node := p\<rparr>
      else if q = p then \<lparr>next_node = nxt, key = k, val = v, is_end = False, removed = False\<rparr> else node s q)" for q
    using cp by (simp add: s' set_next_node_def n)
  have same: "key (node s' q) = key (node s q)" "val (node s' q) = val (node s q)"
    "is_end (node s' q) = is_end (node s q)" "removed (node s' q) = removed (node s q)" if "q \<noteq> p" for q
    using that by (simp_all add: node')
  have s'r: "root s' = root s" "nodes s' = insert p (nodes s)" by (simp_all add: s' set_next_node_def n)
  obtain pre where pre: "root s # as = pre @ [cur]" using ns(2) by (metis append_butlast_last_id list.distinct(1))
  obtain ys where ys: "bs @ [t] = nxt # ys" using ns(3) by (metis append_is_Nil_conv list.collapse list.distinct(1))
  have L: "root s # ns @ [t] = pre @ [cur] @ nxt # ys"
  proof -
    have "root s # ns @ [t] = (root s # as) @ (bs @ [t])" using ns(1) by simp
    then show ?thesis unfolding pre ys by simp
  qed
  have L': "root s' # (as @ p # bs) @ [t] = pre @ [cur] @ p # nxt # ys"
  proof -
    have "root s' # (as @ p # bs) @ [t] = (root s # as) @ p # (bs @ [t])" by (simp add: s'r)
    then show ?thesis unfolding pre ys by simp
  qed
  have dis: "cur \<notin> set pre" "cur \<notin> set (nxt # ys)" "p \<notin> set (pre @ [cur] @ nxt # ys)"
    using R(2,3) new(2) unfolding L by auto
  have "linked s' (pre @ [cur]) \<longleftrightarrow> linked s (pre @ [cur])"
    by (rule linked_frame) (use dis in \<open>auto simp: node' butlast_append\<close>)
  moreover have "linked s' (nxt # ys) \<longleftrightarrow> linked s (nxt # ys)"
    by (rule linked_frame) (use dis in \<open>auto simp: node' dest: in_set_butlastD split: if_splits\<close>)
  ultimately have link: "linked s' (root s' # (as @ p # bs) @ [t])"
    using R(1) unfolding L L' linked_join by (simp add: linked_Cons node' cp cp(1) [symmetric])
  have pns: "p \<notin> set ns" "p \<noteq> t" "p \<noteq> root s" using R(3) new(2) by auto
  have keys': "map (\<lambda>q. key (node s' q)) as = map (\<lambda>q. key (node s q)) as"
    "map (\<lambda>q. key (node s' q)) bs = map (\<lambda>q. key (node s q)) bs" "key (node s' p) = k"
    using same(1) pns ns(1) cp by (auto simp: node')
  have "sorted_wrt (<) (map (\<lambda>q. key (node s' q)) (as @ p # bs))"
    using rep keys unfolding lrep_def ns(1) by (auto simp: keys' sorted_wrt_append)
  moreover have "\<forall>q\<in>nodes s'. \<not> is_end (node s' q) \<longrightarrow> next_node (node s' q) \<in> nodes s'"
    using rep R(3) L unfolding lrep_def s'r by (auto simp: node')
  moreover have "\<forall>q\<in>nodes s'. \<not> removed (node s' q) \<longleftrightarrow> q \<in> set (root s' # (as @ p # bs) @ [t])"
    using rep ns(1) same(4) pns cp unfolding lrep_def s'r by (auto simp: node')
  moreover have "is_end (node s' t)" "\<forall>q\<in>set (root s' # as @ p # bs). \<not> is_end (node s' q)"
    using rep ns(1) same(3) pns cp unfolding lrep_def s'r by (auto simp: node')
  moreover have "distinct (root s' # (as @ p # bs) @ [t])" "set (root s' # (as @ p # bs) @ [t]) \<subseteq> nodes s'"
    "finite (nodes s')"
    using rep ns(1) pns unfolding lrep_def s'r by auto
  ultimately show rep': "lrep s' (as @ p # bs) t"
    using link unfolding lrep_def by simp
  have "map (entry_of s') (as @ p # bs) = map (entry_of s) as @ (k, v) # map (entry_of s) bs"
    using same(1,2) pns ns(1) cp by (auto simp: entry_of_def node')
  then have "lmap_abs s' = map_of (map (entry_of s) as @ (k, v) # map (entry_of s) bs)"
    by (simp only: lrep_abs [OF rep'])
  moreover have "map_of (map (entry_of s) as) k = None"
    using keys(1) by (auto simp: map_of_eq_None_iff entry_of_def)
  ultimately show "lmap_abs s' = (lmap_abs s)(k \<mapsto> v)"
    using lrep_abs [OF rep] ns(1) by (auto simp: map_add_def fun_eq_iff split: option.splits)
qed

lemma remove_lrep:
  assumes rep: "lrep s ns t" and ns: "ns = as @ x # bs" "cur = last (root s # as)"
    and s': "s' = lretire x (set_next_node cur (next_node (node s x)) (set_removed x s))"
  shows "lrep s' (as @ bs) t" "lmap_abs s' = (lmap_abs s)(key (node s x) := None)"
proof -
  have R: "linked s (root s # ns @ [t])" "distinct (root s # ns @ [t])" "set (root s # ns @ [t]) \<subseteq> nodes s"
    using rep by (simp_all add: lrep_def)
  have cur: "cur \<in> set (root s # as)" unfolding ns(2) by (rule last_in_set) simp
  then have cp: "cur \<noteq> x" "cur \<in> nodes s" "x \<in> nodes s" using R(2,3) ns(1) by auto
  have node': "node s' q = (if q = cur then (node s cur)\<lparr>next_node := next_node (node s x)\<rparr>
      else if q = x then (node s x)\<lparr>removed := True\<rparr> else node s q)" for q
    using cp by (simp add: s' lretire_def set_next_node_def set_removed_def)
  have same: "key (node s' q) = key (node s q)" "val (node s' q) = val (node s q)"
    "is_end (node s' q) = is_end (node s q)" for q
    by (simp_all add: node')
  have s'r: "root s' = root s" "nodes s' = nodes s"
    by (simp_all add: s' lretire_def set_next_node_def set_removed_def)
  obtain pre where pre: "root s # as = pre @ [cur]" using ns(2) by (metis append_butlast_last_id list.distinct(1))
  obtain b ys where ys: "bs @ [t] = b # ys" by (cases bs) auto
  have L: "root s # ns @ [t] = pre @ [cur] @ x # b # ys"
  proof -
    have "root s # ns @ [t] = (root s # as) @ x # (bs @ [t])" using ns(1) by simp
    then show ?thesis unfolding pre ys by simp
  qed
  have L': "root s' # (as @ bs) @ [t] = pre @ [cur] @ b # ys"
  proof -
    have "root s' # (as @ bs) @ [t] = (root s # as) @ (bs @ [t])" by (simp add: s'r)
    then show ?thesis unfolding pre ys by simp
  qed
  have dis: "cur \<notin> set pre" "cur \<notin> set (b # ys)" "x \<notin> set (pre @ [cur] @ b # ys)"
    using R(2) unfolding L by auto
  have "linked s' (pre @ [cur]) \<longleftrightarrow> linked s (pre @ [cur])"
    by (rule linked_frame) (use dis in \<open>auto simp: node' butlast_append\<close>)
  moreover have "linked s' (b # ys) \<longleftrightarrow> linked s (b # ys)"
    by (rule linked_frame) (use dis in \<open>auto simp: node' dest: in_set_butlastD split: if_splits\<close>)
  ultimately have link: "linked s' (root s' # (as @ bs) @ [t])"
    using R(1) unfolding L L' linked_join by (simp add: linked_Cons node')
  have xns: "x \<notin> set (as @ bs)" "x \<noteq> t" "x \<noteq> root s" using R(2) ns(1) by auto
  have "sorted_wrt (<) (map (\<lambda>q. key (node s' q)) (as @ bs))"
    using rep unfolding lrep_def ns(1) by (auto simp: same sorted_wrt_append)
  moreover have "\<forall>q\<in>nodes s'. \<not> is_end (node s' q) \<longrightarrow> next_node (node s' q) \<in> nodes s'"
    using rep cp ns(1) unfolding lrep_def s'r by (auto simp: node')
  moreover have "\<forall>q\<in>nodes s'. \<not> removed (node s' q) \<longleftrightarrow> q \<in> set (root s' # (as @ bs) @ [t])"
  proof
    fix q assume "q \<in> nodes s'"
    then have q: "\<not> removed (node s q) \<longleftrightarrow> q \<in> set (root s # ns @ [t])" using rep unfolding lrep_def s'r by blast
    show "\<not> removed (node s' q) \<longleftrightarrow> q \<in> set (root s' # (as @ bs) @ [t])"
    proof (cases "q = x")
      case True
      with xns cp show ?thesis by (simp add: node' s'r)
    next
      case False
      with q ns(1) show ?thesis by (auto simp: node' s'r)
    qed
  qed
  moreover have "is_end (node s' t)" "\<forall>q\<in>set (root s' # as @ bs). \<not> is_end (node s' q)"
    using rep ns(1) unfolding lrep_def s'r by (auto simp: same)
  moreover have "distinct (root s' # (as @ bs) @ [t])" "set (root s' # (as @ bs) @ [t]) \<subseteq> nodes s'"
    "finite (nodes s')"
    using rep ns(1) unfolding lrep_def s'r by auto
  ultimately show rep': "lrep s' (as @ bs) t"
    using link unfolding lrep_def by simp
  have e: "entry_of s' = entry_of s" by (simp add: entry_of_def same fun_eq_iff)
  have "\<forall>a\<in>set as. key (node s a) < key (node s x)" "\<forall>b\<in>set bs. key (node s x) < key (node s b)"
    using rep unfolding lrep_def ns(1) by (auto simp: sorted_wrt_append)
  then have "map_of (map (entry_of s) as) (key (node s x)) = None" "map_of (map (entry_of s) bs) (key (node s x)) = None"
    by (auto simp: map_of_eq_None_iff entry_of_def)
  then show "lmap_abs s' = (lmap_abs s)(key (node s x) := None)"
    using lrep_abs [OF rep'] lrep_abs [OF rep] ns(1) e
    by (auto simp: map_add_def fun_eq_iff entry_of_def split: option.splits)
qed

section \<open>Attempts under interference\<close>

text \<open>The state \<open>s2\<close> at the validation, as the attempts compute it.\<close>

definition validation_state :: "('k::linorder, 'v) lenv \<Rightarrow> (('k, 'v) lmap \<Rightarrow> ('k, 'v) lmap) \<Rightarrow> nat \<Rightarrow> 'k
    \<Rightarrow> ('k, 'v) lmap \<Rightarrow> ('k, 'v) lmap" where
  "validation_state env e fuel k s =
     (case find_location env fuel k s of None \<Rightarrow> s | Some (_, s1) \<Rightarrow> e s1)"

lemma validated_location:
  assumes "lst.rely env" "lst.rely (\<lambda>_. e)" "wf_lmap s"
    and "find_location env fuel k s = Some ((cur, nxt), s1)" "still_there cur nxt (e s1)"
  obtains ns t as bs where "lrep (e s1) ns t" "ns = as @ bs" "cur = last (root (e s1) # as)"
    "nxt = hd (bs @ [t])" "left_ok k cur (e s1)" "is_end (node (e s1) nxt) \<or> \<not> key (node (e s1) nxt) < k"
    "key (node s1 nxt) = key (node (e s1) nxt)" "is_end (node s1 nxt) = is_end (node (e s1) nxt)"
proof -
  note r = find_location_result [OF assms(1,3,4)]
  have "lst.evolves s1 (e s1)" using lst.relyD [OF assms(2)] .
  then have kp: "keeps s1 (e s1)" and wf: "wf_lmap (e s1)"
    using r assms(3) by (auto simp: lst.evolves_def)
  have l: "left_ok k cur (e s1)" using r kp left_ok_keeps by blast
  have n: "key (node s1 nxt) = key (node (e s1) nxt)" "is_end (node s1 nxt) = is_end (node (e s1) nxt)"
    "is_end (node (e s1) nxt) \<or> \<not> key (node (e s1) nxt) < k"
    using r kp by (auto simp: keeps_def)
  obtain ns t where rep: "lrep (e s1) ns t" using wf unfolding wf_lmap_def by blast
  have "cur \<in> nodes (e s1)" "\<not> is_end (node (e s1) cur)" using l wf_root [OF wf] by (auto simp: left_ok_def)
  from validated_split [OF rep this assms(5)] that rep l n show thesis by metis
qed

lemma insert_attempt_atomic:
  assumes "lst.rely env" "lst.rely (\<lambda>_. e)" "wf_lmap s" "\<And>s. wf_lmap s \<Longrightarrow> alloc s \<notin> nodes s"
    and "try_insert env e locked alloc fuel k v s = (Some b, s')"
  shows "wf_lmap s' \<and> (b \<longleftrightarrow> lmap_abs (validation_state env e fuel k s) k = None) \<and>
    lmap_abs s' = (if b then (lmap_abs (validation_state env e fuel k s))(k \<mapsto> v)
                   else lmap_abs (validation_state env e fuel k s))"
proof -
  obtain cur nxt s1 where f: "find_location env fuel k s = Some ((cur, nxt), s1)"
    and st: "still_there cur nxt (e s1)"
    using assms(5) by (auto simp: try_insert_def Let_def split: option.splits if_splits)
  from validated_location [OF assms(1-3) f st] obtain ns t as bs where
    rep: "lrep (e s1) ns t" and ns: "ns = as @ bs" and cur: "cur = last (root (e s1) # as)"
    and nxt: "nxt = hd (bs @ [t])" and l: "left_ok k cur (e s1)"
    and n: "is_end (node (e s1) nxt) \<or> \<not> key (node (e s1) nxt) < k"
    and k1: "key (node s1 nxt) = key (node (e s1) nxt)" "is_end (node s1 nxt) = is_end (node (e s1) nxt)"
    by metis
  note look = lookup_between [OF rep ns l [unfolded cur] nxt n]
  have vs: "validation_state env e fuel k s = e s1" by (simp add: validation_state_def f)
  have wf: "wf_lmap (e s1)" using rep unfolding wf_lmap_def by blast
  show ?thesis
  proof (cases "\<not> is_end (node s1 nxt) \<and> \<not> k < key (node s1 nxt)")
    case True
    with assms(5) f st have "b = False" "s' = e s1" by (auto simp: try_insert_def Let_def)
    with True look k1 wf vs show ?thesis by simp
  next
    case False
    obtain p s3 where new: "new_lnode alloc k v nxt (e s1) = (p, s3)" by (metis prod.exhaust)
    then have p: "p \<notin> nodes (e s1)" using new_lnode_simps(1) [OF new] assms(4) [OF wf] by simp
    have b: "b" "s' = set_next_node cur p s3"
      using assms(5) f st False new by (auto simp: try_insert_def Let_def split: if_splits)
    note K = keys_around [OF rep ns l [unfolded cur] nxt n]
    have "k < key (node (e s1) x)" if "x \<in> set bs" for x
    proof (cases bs)
      case (Cons y ys)
      then have "\<not> is_end (node (e s1) nxt)" "nxt = y" using rep ns nxt by (auto simp: lrep_def)
      then have ky: "k < key (node (e s1) y)" using False k1 by auto
      moreover have "y = x \<or> key (node (e s1) y) < key (node (e s1) x)"
        using rep ns Cons that by (auto simp: lrep_def sorted_wrt_append)
      ultimately show ?thesis by auto
    qed (use that in simp)
    with insert_lrep [OF rep ns cur nxt new p K(1) _ b(2)] look False k1 vs b(1) show ?thesis
      by (auto simp: wf_lmap_def)
  qed
qed

lemma remove_attempt_atomic:
  assumes "lst.rely env" "lst.rely (\<lambda>_. e)" "wf_lmap s"
    and "try_remove env e locked fuel k s = (Some b, s')"
  shows "wf_lmap s' \<and> (b \<longleftrightarrow> lmap_abs (validation_state env e fuel k s) k \<noteq> None) \<and>
    lmap_abs s' = (lmap_abs (validation_state env e fuel k s))(k := None)"
proof -
  obtain cur nxt s1 where f: "find_location env fuel k s = Some ((cur, nxt), s1)"
    and st: "still_there cur nxt (e s1)"
    using assms(4) by (auto simp: try_remove_def Let_def split: option.splits if_splits)
  from validated_location [OF assms(1-3) f st] obtain ns t as bs where
    rep: "lrep (e s1) ns t" and ns: "ns = as @ bs" and cur: "cur = last (root (e s1) # as)"
    and nxt: "nxt = hd (bs @ [t])" and l: "left_ok k cur (e s1)"
    and n: "is_end (node (e s1) nxt) \<or> \<not> key (node (e s1) nxt) < k"
    and k1: "key (node s1 nxt) = key (node (e s1) nxt)" "is_end (node s1 nxt) = is_end (node (e s1) nxt)"
    by metis
  note look = lookup_between [OF rep ns l [unfolded cur] nxt n]
  have vs: "validation_state env e fuel k s = e s1" by (simp add: validation_state_def f)
  have wf: "wf_lmap (e s1)" using rep unfolding wf_lmap_def by blast
  show ?thesis
  proof (cases "is_end (node s1 nxt) \<or> k < key (node s1 nxt)")
    case True
    with assms(4) f st have "b = False" "s' = e s1" by (auto simp: try_remove_def Let_def)
    with True look k1 wf vs show ?thesis by (auto simp: fun_eq_iff)
  next
    case False
    then have b: "b" "s' = lretire nxt (set_next_node cur (next_node (node (e s1) nxt)) (set_removed nxt (e s1)))"
      using assms(4) f st by (auto simp: try_remove_def Let_def split: if_splits)
    have "bs \<noteq> []" using False rep nxt k1 by (auto simp: lrep_def)
    then obtain ys where bs: "bs = nxt # ys" using nxt by (cases bs) auto
    have kn: "key (node (e s1) nxt) = k" using n False k1 by auto
    from remove_lrep [OF rep _ cur b(2), of ys] ns bs kn look False k1 vs b(1) show ?thesis
      by (auto simp: wf_lmap_def)
  qed
qed

section \<open>Without interference\<close>

abbreviation (input) idle :: "('k, 'v) lenv" where
  "idle \<equiv> \<lambda>_ s. s"

lemma find_loop_total:
  assumes "linked s (cur # nxt # ns)" "is_end (node s (last (nxt # ns)))" "length ns < fuel"
  shows "\<exists>c n. find_loop idle k fuel cur nxt s = Some ((c, n), s) \<and> linked s [c, n] \<and> c \<in> set (cur # nxt # ns)
    \<and> (c = cur \<or> c \<in> set (butlast (nxt # ns)))"
  using assms
proof (induction ns arbitrary: cur nxt fuel)
  case Nil
  then obtain f where "fuel = Suc f" by (cases fuel) auto
  with Nil show ?case by (auto simp: linked_def Let_def)
next
  case (Cons a ns)
  then obtain f where f: "fuel = Suc f" by (cases fuel) auto
  have a: "next_node (node s nxt) = a" and l: "linked s (nxt # a # ns)" using Cons.prems(1) by (simp_all add: linked_Cons)
  show ?case
  proof (cases "is_end (node s nxt) \<or> \<not> key (node s nxt) < k")
    case True
    with Cons.prems(1) f show ?thesis by (auto simp: linked_def Let_def)
  next
    case False
    from Cons.IH [OF l, of f] Cons.prems(2,3) f a False show ?thesis by (auto simp: Let_def)
  qed
qed

lemma find_location_total:
  assumes "lrep s ns t" "length ns < fuel"
  shows "\<exists>cur nxt. find_location idle fuel k s = Some ((cur, nxt), s) \<and> still_there cur nxt s"
proof -
  obtain nxt ys where ys: "ns @ [t] = nxt # ys" by (cases ns) auto
  have lys: "linked s (root s # nxt # ys)" using assms(1) ys by (simp add: lrep_def)
  have "length (ns @ [t]) = length (nxt # ys)" "last (ns @ [t]) = last (nxt # ys)" using ys by simp_all
  then have "length ys < fuel" "is_end (node s (last (nxt # ys)))" using assms by (simp_all add: lrep_def)
  from find_loop_total [OF lys this(2,1), of k]
  obtain c n where c: "find_loop idle k fuel (root s) nxt s = Some ((c, n), s)" "linked s [c, n]"
    "c = root s \<or> c \<in> set (butlast (nxt # ys))" by blast
  have "set (butlast (nxt # ys)) = set ns" unfolding ys [symmetric] by simp
  then have "c \<in> set (root s # ns @ [t])" "c \<in> nodes s" using c(3) assms(1) by (auto simp: lrep_def)
  then have "\<not> removed (node s c)" using assms(1) unfolding lrep_def by blast
  moreover have "next_node (node s (root s)) = nxt" using lys by (simp add: linked_Cons)
  ultimately show ?thesis using c(1,2) by (auto simp: find_location_def still_there_def linked_def Let_def)
qed

lemma lrep_fuel: "lrep s ns t \<Longrightarrow> length ns < card (nodes s)"
proof -
  assume rep: "lrep s ns t"
  have "card (set (root s # ns @ [t])) = length (root s # ns @ [t])"
    using rep unfolding lrep_def by (intro distinct_card) simp
  then show "length ns < card (nodes s)"
    using rep card_mono [of "nodes s" "set (root s # ns @ [t])"] by (auto simp: lrep_def)
qed

lemma find_location_idle:
  assumes "wf_lmap s"
  obtains cur nxt where "find_location idle (card (nodes s)) k s = Some ((cur, nxt), s)" "still_there cur nxt s"
  using assms find_location_total lrep_fuel unfolding wf_lmap_def by metis

text \<open>The operations of one thread with the locks free: one round and a fuel that covers the list suffice.\<close>

definition list_find :: "'k::linorder \<Rightarrow> ('k, 'v) lmap \<Rightarrow> 'v option" where
  "list_find k s = (case find_plain idle (card (nodes s)) k s of Some r \<Rightarrow> r | None \<Rightarrow> None)"

definition fresh_addr :: "('k, 'v) lmap \<Rightarrow> addr" where
  "fresh_addr s = Suc (Max (nodes s))"

definition list_insert :: "'k::linorder \<Rightarrow> 'v \<Rightarrow> ('k, 'v) lmap \<Rightarrow> bool \<times> ('k, 'v) lmap" where
  "list_insert k v s =
     (case insert_map (\<lambda>_. idle) (\<lambda>_ s. s) (\<lambda>_ _. True) fresh_addr (card (nodes s)) 1 k v s of
        Some r \<Rightarrow> r | None \<Rightarrow> (False, s))"

definition list_remove :: "'k::linorder \<Rightarrow> ('k, 'v) lmap \<Rightarrow> bool \<times> ('k, 'v) lmap" where
  "list_remove k s =
     (case remove_map (\<lambda>_. idle) (\<lambda>_ s. s) (\<lambda>_ _. True) (card (nodes s)) 1 k s of
        Some r \<Rightarrow> r | None \<Rightarrow> (False, s))"

lemma fresh_addr_new: "wf_lmap s \<Longrightarrow> fresh_addr s \<notin> nodes s"
proof
  assume wf: "wf_lmap s" and "fresh_addr s \<in> nodes s"
  then have "Suc (Max (nodes s)) \<le> Max (nodes s)"
    by (intro Max_ge) (auto simp: wf_lmap_def lrep_def fresh_addr_def)
  then show False by simp
qed

lemma idle_validation: "wf_lmap s \<Longrightarrow> validation_state idle (\<lambda>s. s) (card (nodes s)) k s = s"
  by (rule find_location_idle [of s k]) (auto simp: validation_state_def)

lemma list_insert_run:
  assumes "wf_lmap s"
  shows "\<exists>b s'. try_insert idle (\<lambda>s. s) (\<lambda>_. True) fresh_addr (card (nodes s)) k v s = (Some b, s') \<and>
    list_insert k v s = (b, s')"
proof -
  obtain cur nxt where f: "find_location idle (card (nodes s)) k s = Some ((cur, nxt), s)" "still_there cur nxt s"
    by (rule find_location_idle [OF assms])
  then have "\<exists>b s'. try_insert idle (\<lambda>s. s) (\<lambda>_. True) fresh_addr (card (nodes s)) k v s = (Some b, s')"
    by (auto simp: try_insert_def Let_def split: prod.splits)
  then show ?thesis by (auto simp: list_insert_def insert_map_def)
qed

lemma list_remove_run:
  assumes "wf_lmap s"
  shows "\<exists>b s'. try_remove idle (\<lambda>s. s) (\<lambda>_. True) (card (nodes s)) k s = (Some b, s') \<and>
    list_remove k s = (b, s')"
proof -
  obtain cur nxt where f: "find_location idle (card (nodes s)) k s = Some ((cur, nxt), s)" "still_there cur nxt s"
    by (rule find_location_idle [OF assms])
  then have "\<exists>b s'. try_remove idle (\<lambda>s. s) (\<lambda>_. True) (card (nodes s)) k s = (Some b, s')"
    by (auto simp: try_remove_def Let_def)
  then show ?thesis by (auto simp: list_remove_def remove_map_def)
qed

lemma list_find_abs:
  assumes "wf_lmap s"
  shows "list_find k s = lmap_abs s k"
proof -
  obtain cur nxt where f: "find_location idle (card (nodes s)) k s = Some ((cur, nxt), s)" "still_there cur nxt s"
    by (rule find_location_idle [OF assms])
  from validated_location [OF lst.rely_idle lst.rely_idle assms f(1), of] f(2)
  obtain ns t as bs where rep: "lrep s ns t" "ns = as @ bs" "cur = last (root s # as)" "nxt = hd (bs @ [t])"
    "left_ok k cur s" "is_end (node s nxt) \<or> \<not> key (node s nxt) < k"
    by metis
  from lookup_between [OF rep(1,2) rep(5) [unfolded rep(3)] rep(4,6)] f(1) show ?thesis
    by (simp add: list_find_def find_plain_def)
qed

interpretation list_map: map_adt wf_lmap lmap_abs list_insert list_remove list_find
proof
  fix s :: "('a::linorder, 'b) lmap" and k v b s'
  assume wf: "wf_lmap s"
  show "list_find k s = lmap_abs s k" by (rule list_find_abs [OF wf])
  show "wf_lmap s' \<and> (b \<longleftrightarrow> lmap_abs s k = None) \<and> lmap_abs s' = (if b then (lmap_abs s)(k \<mapsto> v) else lmap_abs s)"
    if "list_insert k v s = (b, s')"
  proof -
    obtain b' t where run: "try_insert idle (\<lambda>s. s) (\<lambda>_. True) fresh_addr (card (nodes s)) k v s = (Some b', t)"
      "list_insert k v s = (b', t)" using list_insert_run [OF wf] by blast
    have "b' = b" "t = s'" using run(2) that by simp_all
    then show ?thesis
      using insert_attempt_atomic [OF lst.rely_idle lst.rely_idle wf fresh_addr_new run(1)]
      by (simp only: idle_validation [OF wf] simp_thms)
  qed
  show "wf_lmap s' \<and> (b \<longleftrightarrow> lmap_abs s k \<noteq> None) \<and> lmap_abs s' = (lmap_abs s)(k := None)"
    if "list_remove k s = (b, s')"
  proof -
    obtain b' t where run: "try_remove idle (\<lambda>s. s) (\<lambda>_. True) (card (nodes s)) k s = (Some b', t)"
      "list_remove k s = (b', t)" using list_remove_run [OF wf] by blast
    have "b' = b" "t = s'" using run(2) that by simp_all
    then show ?thesis
      using remove_attempt_atomic [OF lst.rely_idle lst.rely_idle wf run(1)]
      by (simp only: idle_validation [OF wf] simp_thms)
  qed
qed

section \<open>Range queries and the check\<close>

lemma skip_to_linked:
  assumes "linked s (p # ns @ [t])" "is_end (node s t)" "\<forall>q\<in>set ns. \<not> is_end (node s q)" "length ns < fuel"
  shows "skip_to start fuel (next_node (node s p)) s = Some (hd (dropWhile (\<lambda>q. key (node s q) < start) ns @ [t]))"
  using assms
proof (induction ns arbitrary: p fuel)
  case Nil
  then show ?case by (cases fuel) (auto simp: linked_Cons)
next
  case (Cons a ns)
  then obtain m where m: "fuel = Suc m" by (cases fuel) auto
  with Cons.prems have "linked s (a # ns @ [t])" "next_node (node s p) = a" by (auto simp: linked_Cons)
  with Cons m show ?case by auto
qed

lemma add_until_linked:
  assumes "linked s (ns @ [t])" "is_end (node s t)" "\<forall>q\<in>set ns. \<not> is_end (node s q)" "length ns < fuel"
  shows "add_until stop fuel (hd (ns @ [t])) s =
    Some (map (entry_of s) (takeWhile (\<lambda>q. key (node s q) \<le> stop) ns))"
  using assms
proof (induction ns arbitrary: fuel)
  case Nil
  then show ?case by (cases fuel) auto
next
  case (Cons a ns)
  then obtain m where m: "fuel = Suc m" by (cases fuel) auto
  have "linked s (ns @ [t])" "next_node (node s a) = hd (ns @ [t])"
    using Cons.prems(1) by (cases ns; simp add: linked_Cons linked_def)+
  with Cons m show ?case by (auto simp: entry_of_def not_less)
qed

lemma sorted_takeWhile_filter:
  assumes "sorted_wrt (<) (map f ns)"
  shows "takeWhile (\<lambda>q. f q \<le> b) ns = filter (\<lambda>q. f q \<le> (b::'k::linorder)) ns"
  using assms
proof (induction ns)
  case (Cons x ns)
  have "filter (\<lambda>q. f q \<le> b) ns = []" if "\<not> f x \<le> b"
    using Cons.prems that by (force simp: filter_empty_conv)
  with Cons show ?case by simp
qed simp

lemma sorted_dropWhile_filter:
  assumes "sorted_wrt (<) (map f ns)"
  shows "dropWhile (\<lambda>q. f q < a) ns = filter (\<lambda>q. (a::'k::linorder) \<le> f q) ns"
  using assms
proof (induction ns)
  case (Cons x ns)
  have "filter (\<lambda>q. a \<le> f q) ns = ns" if "\<not> f x < a"
    using Cons.prems that by (force simp: filter_id_conv)
  with Cons show ?case by (auto simp: not_less)
qed simp

lemma sorted_range_filter:
  assumes "sorted_wrt (<) (map f ns)"
  shows "takeWhile (\<lambda>q. f q \<le> b) (dropWhile (\<lambda>q. f q < a) ns) = filter (\<lambda>q. a \<le> f q \<and> f q \<le> (b::'k::linorder)) ns"
proof -
  have "sorted_wrt (<) (map f (filter (\<lambda>q. a \<le> f q) ns))"
    using assms by (simp add: sorted_wrt_map sorted_wrt_filter)
  from sorted_takeWhile_filter [OF this] show ?thesis
    unfolding sorted_dropWhile_filter [OF assms] by (simp add: conj_commute)
qed

lemma check_loop_linked:
  assumes "linked s (p # ns @ [t])" "is_end (node s t)" "\<forall>q\<in>set ns. \<not> is_end (node s q)" "length ns < fuel"
    and "sorted_wrt (<) (k # map (\<lambda>q. key (node s q)) ns)"
  shows "check_loop fuel k (next_node (node s p)) i s = Some (i + int (length ns))"
  using assms
proof (induction ns arbitrary: p fuel k i)
  case Nil
  then show ?case by (cases fuel) (auto simp: linked_Cons)
next
  case (Cons a ns)
  then obtain m where m: "fuel = Suc m" by (cases fuel) auto
  with Cons.prems have l: "linked s (a # ns @ [t])" "next_node (node s p) = a" by (auto simp: linked_Cons)
  with Cons.IH [OF l(1), of m "key (node s a)" "i + 1"] Cons.prems m show ?case by auto
qed

lemma range_query_entries:
  assumes "lrep s ns t" "length ns < fuel"
  shows "range_query fuel a b s = Some (filter (\<lambda>(k, _). a \<le> k \<and> k \<le> b) (map (entry_of s) ns))"
proof -
  let ?d = "dropWhile (\<lambda>q. key (node s q) < a) ns" and ?e = "takeWhile (\<lambda>q. key (node s q) < a) ns"
  have L: "linked s (root s # ns @ [t])" "is_end (node s t)" "\<forall>q\<in>set ns. \<not> is_end (node s q)"
    and so: "sorted_wrt (<) (map (\<lambda>p. key (node s p)) ns)"
    using assms(1) by (simp_all add: lrep_def)
  have "root s # ns @ [t] = (root s # ?e) @ ?d @ [t]" by simp
  then have "linked s (?d @ [t])" using L(1) unfolding linked_def by (metis successively_append_iff)
  moreover have "length ?d < fuel" using assms(2) length_dropWhile_le [of _ ns] le_less_trans by blast
  moreover have "\<forall>q\<in>set ?d. \<not> is_end (node s q)" using L(3) by (auto dest: set_dropWhileD)
  ultimately have "add_until b fuel (hd (?d @ [t])) s = Some (map (entry_of s) (takeWhile (\<lambda>q. key (node s q) \<le> b) ?d))"
    using L(2) by (intro add_until_linked)
  then show ?thesis
    unfolding range_query_def skip_to_linked [OF L assms(2)] sorted_range_filter [OF so]
    by (simp add: filter_map o_def entry_of_def)
qed

lemma check_counts:
  assumes "lrep s ns t" "length ns < fuel"
  shows "check fuel s = Some (int (length ns))"
proof (cases ns)
  case Nil
  with assms show ?thesis by (simp add: lrep_def check_def linked_Cons)
next
  case (Cons a ms)
  with assms(1) have a: "next_node (node s (root s)) = a" "\<not> is_end (node s a)" "linked s (a # ms @ [t])"
    by (simp_all add: lrep_def linked_Cons)
  have "check_loop fuel (key (node s a)) (next_node (node s a)) 1 s = Some (1 + int (length ms))"
    by (rule check_loop_linked [OF a(3)]) (use assms Cons in \<open>auto simp: lrep_def\<close>)
  with a Cons show ?thesis by (simp add: check_def Let_def)
qed

lemma retire_recursive_all:
  assumes "linked s (ns @ [t])" "is_end (node s t)" "\<forall>q\<in>set ns. \<not> is_end (node s q)" "length ns < fuel"
  shows "retire_recursive fuel (hd (ns @ [t])) s = Some (s\<lparr>lretired := ns @ t # lretired s\<rparr>)"
  using assms
proof (induction ns arbitrary: fuel)
  case Nil
  then show ?case by (cases fuel) (auto simp: lretire_def)
next
  case (Cons a ns)
  then obtain m where m: "fuel = Suc m" by (cases fuel) auto
  have "linked s (ns @ [t])" "next_node (node s a) = hd (ns @ [t])"
    using Cons.prems(1) by (cases ns; simp add: linked_Cons linked_def)+
  with Cons m show ?case by (auto simp: lretire_def)
qed

section \<open>The promises of the list\<close>

lemma lrep_empty_lmap: "r \<noteq> t \<Longrightarrow> lrep (empty_lmap r t (k::'k::linorder) v) [] t"
  by (auto simp: lrep_def linked_def empty_lmap_def)

lemma wf_empty_lmap: "r \<noteq> t \<Longrightarrow> wf_lmap (empty_lmap r t (k::'k::linorder) v)"
  unfolding wf_lmap_def by (intro exI) (rule lrep_empty_lmap)

lemma empty_lmap_abs: "r \<noteq> t \<Longrightarrow> lmap_abs (empty_lmap r t (k::'k::linorder) v) = Map.empty"
  using lrep_abs [OF lrep_empty_lmap] by simp

text \<open>C15: An insertion attempt that succeeds while other threads change the list acts atomically:
  it returns true exactly when the key is absent from the map that the list represents when
  the attempt is validated, and then the list represents that map with the new entry;
  otherwise the map is unchanged. The list stays well formed in both cases.\<close>

theorem list_try_insert_atomic:
  assumes "lst.rely env" "lst.rely (\<lambda>_. e)" "wf_lmap s" "\<And>s. wf_lmap s \<Longrightarrow> alloc s \<notin> nodes s"
    and "try_insert env e locked alloc fuel k v s = (Some b, s')"
  shows "wf_lmap s' \<and> (b \<longleftrightarrow> lmap_abs (validation_state env e fuel k s) k = None) \<and>
    lmap_abs s' = (if b then (lmap_abs (validation_state env e fuel k s))(k \<mapsto> v)
                   else lmap_abs (validation_state env e fuel k s))"
  by (rule insert_attempt_atomic [OF assms])

definition one_entry :: "(nat, nat) lmap" where
  "one_entry = snd (try_insert idle (\<lambda>s. s) (\<lambda>_. True) fresh_addr 2 5 50 (empty_lmap 1 2 0 0))"

lemmas list_eval = try_insert_def try_remove_def find_location_def new_lnode_def set_next_node_def set_removed_def
  lretire_def still_there_def empty_lmap_def fresh_addr_def validation_state_def numeral_2_eq_2 Let_def

theorem list_try_insert_atomic_witness:
  "wf_lmap one_entry \<and> lmap_abs one_entry = [5 \<mapsto> 50]"
proof -
  let ?s = "empty_lmap 1 2 (0::nat) (0::nat)"
  have run: "try_insert idle (\<lambda>s. s) (\<lambda>_. True) fresh_addr 2 5 50 ?s = (Some True, one_entry)"
    unfolding one_entry_def by (simp add: list_eval)
  have v: "validation_state idle (\<lambda>s. s) 2 5 ?s = ?s" by (simp add: list_eval)
  have wf: "wf_lmap ?s" by (simp add: wf_empty_lmap)
  from list_try_insert_atomic [OF lst.rely_idle lst.rely_idle wf fresh_addr_new run] v
  show ?thesis by (simp add: empty_lmap_abs)
qed

text \<open>A removal attempt that succeeds while other threads change the list acts atomically at
  its validation: it returns true exactly when the key is present there, and afterwards the
  list is well formed and represents the same map without the key.\<close>

theorem list_try_remove_atomic:
  assumes "lst.rely env" "lst.rely (\<lambda>_. e)" "wf_lmap s"
    and "try_remove env e locked fuel k s = (Some b, s')"
  shows "wf_lmap s' \<and> (b \<longleftrightarrow> lmap_abs (validation_state env e fuel k s) k \<noteq> None) \<and>
    lmap_abs s' = (lmap_abs (validation_state env e fuel k s))(k := None)"
  by (rule remove_attempt_atomic [OF assms])

lemma wf_one_entry: "wf_lmap one_entry"
proof -
  let ?s = "empty_lmap 1 2 (0::nat) (0::nat)"
  have run: "try_insert idle (\<lambda>s. s) (\<lambda>_. True) fresh_addr 2 5 50 ?s = (Some True, one_entry)"
    unfolding one_entry_def by (simp add: list_eval)
  have wf: "wf_lmap ?s" by (simp add: wf_empty_lmap)
  from insert_attempt_atomic [OF lst.rely_idle lst.rely_idle wf fresh_addr_new run] show ?thesis by simp
qed

theorem list_try_remove_atomic_witness:
  "wf_lmap (snd (try_remove idle (\<lambda>s. s) (\<lambda>_. True) 2 5 one_entry)) \<and>
   lmap_abs (snd (try_remove idle (\<lambda>s. s) (\<lambda>_. True) 2 5 one_entry)) 5 = None"
proof -
  obtain s' where run: "try_remove idle (\<lambda>s. s) (\<lambda>_. True) 2 5 one_entry = (Some True, s')"
    by (simp add: one_entry_def list_eval)
  from list_try_remove_atomic [OF lst.rely_idle lst.rely_idle wf_one_entry run] run
  show ?thesis by simp
qed

text \<open>Without interference every history of find, insert and remove on the list returns what
  the abstract map returns, and leaves a well-formed list that represents the final map.\<close>

theorem list_refines_map:
  assumes "wf_lmap s" "list_map.impl_run xs s = (rs, s')"
  shows "wf_lmap s' \<and> spec_run xs (lmap_abs s) = (rs, lmap_abs s')"
  by (rule list_map.impl_run_refines [OF assms])

theorem list_refines_map_witness:
  "fst (list_map.impl_run [Insert (3::nat) (30::nat), Find 3, Insert 3 31, Remove 3, Find 3] (empty_lmap 1 2 0 0)) =
     [Inserted True, Found (Some 30), Inserted False, Removed_key True, Found None]"
proof -
  let ?s = "empty_lmap 1 2 (0::nat) (0::nat)" and ?xs = "[Insert (3::nat) (30::nat), Find 3, Insert 3 31, Remove 3, Find 3]"
  have wf: "wf_lmap ?s" by (simp add: wf_empty_lmap)
  obtain rs s' where r: "list_map.impl_run ?xs ?s = (rs, s')" by (metis prod.exhaust)
  from list_refines_map [OF wf r] have "spec_run ?xs (lmap_abs ?s) = (rs, lmap_abs s')" by simp
  then show ?thesis unfolding r by (auto simp: empty_lmap_abs)
qed

text \<open>A range query whose fuel covers the list returns, in key order, exactly the entries of
  the map with keys between the two bounds.\<close>

theorem list_range_query:
  assumes "wf_lmap s" "card (nodes s) \<le> fuel"
  shows "\<exists>xs. range_query fuel a b s = Some xs \<and> sorted_wrt (<) (map fst xs) \<and>
    (\<forall>k v. (k, v) \<in> set xs \<longleftrightarrow> a \<le> k \<and> k \<le> b \<and> lmap_abs s k = Some v)"
proof -
  obtain ns t where rep: "lrep s ns t" using assms(1) by (auto simp: wf_lmap_def)
  then have "sorted_wrt (<) (map fst (map (entry_of s) ns))" by (simp add: lrep_def entry_of_def o_def)
  then have so: "sorted_wrt (<) (map fst (filter P (map (entry_of s) ns)))" "distinct (map fst (map (entry_of s) ns))" for P
    unfolding strict_sorted_iff by (simp_all only: sorted_filter distinct_map_filter simp_thms)
  have "range_query fuel a b s = Some (filter (\<lambda>(k, _). a \<le> k \<and> k \<le> b) (map (entry_of s) ns))"
    using range_query_entries [OF rep] lrep_fuel [OF rep] assms(2) by simp
  moreover have "lmap_abs s k = Some v \<longleftrightarrow> (k, v) \<in> set (map (entry_of s) ns)" for k v
    using so(2) unfolding lrep_abs [OF rep] by (rule map_of_eq_Some_iff)
  ultimately show ?thesis using so(1) by auto
qed

theorem list_range_query_witness:
  "range_query 3 4 (6::nat) one_entry = Some [(5, 50)]
   \<and> (\<exists>xs. range_query (card (nodes one_entry)) 4 6 one_entry = Some xs \<and> sorted_wrt (<) (map fst xs))"
  using list_range_query [OF wf_one_entry order.refl, of 4 6]
  by (auto simp: one_entry_def list_eval range_query_def numeral_3_eq_3)

end
