(* ===== verification/Leaf_Tree.thy ===== *)
theory Leaf_Tree
  imports Map_ADT "HOL-Library.Multiset"
begin

text \<open>
  The external binary search tree of \<^verbatim>\<open>structures/leaftree/ordered_map.h\<close>. Internal nodes
  direct the search, leaves hold the entries, and a sentinel leaf is leftmost. Nodes are a
  store of records by address. Searches run without locks under arbitrary interference; a
  node found by a search is useful only if it has not been removed when it is validated.
  The central notion is \<open>good\<close>: from a node that a search for \<open>k\<close> has visited, however
  outdated, every internal node that a walk for \<open>k\<close> meets and that is not removed lies on
  the current search path of \<open>k\<close>. Insertions and removals keep all good nodes good.
\<close>

section \<open>Nodes\<close>

record ('k, 'v) tnode =
  key :: 'k
  is_leaf :: bool
  is_sentinal :: bool
  removed :: bool
  left :: addr
  right :: addr
  val :: 'v

record ('k, 'v) ltree =
  node :: "addr \<Rightarrow> ('k, 'v) tnode"
  nodes :: "addr set"
  root :: addr
  internal_retired :: "addr list"
  leaf_retired :: "addr list"

type_synonym ('k, 'v) tenv = "nat \<Rightarrow> ('k, 'v) ltree \<Rightarrow> ('k, 'v) ltree"

definition Less :: "('k, 'v) ltree \<Rightarrow> 'k::linorder \<Rightarrow> addr \<Rightarrow> bool" where
  "Less s k a \<longleftrightarrow> \<not> is_sentinal (node s a) \<and> k < key (node s a)"

definition Equal :: "('k, 'v) ltree \<Rightarrow> 'k::linorder \<Rightarrow> addr \<Rightarrow> bool" where
  "Equal s k a \<longleftrightarrow> \<not> (is_sentinal (node s a) \<or> k < key (node s a) \<or> key (node s a) < k)"

text \<open>A pointer field: \<open>(p, True)\<close> is \<open>&p->left\<close> and \<open>(p, False)\<close> is \<open>&p->right\<close>.\<close>

type_synonym field = "addr \<times> bool"

fun ptr_load :: "field \<Rightarrow> ('k, 'v) ltree \<Rightarrow> addr" where
  "ptr_load (p, b) s = (if b then left (node s p) else right (node s p))"

fun ptr_store :: "field \<Rightarrow> addr \<Rightarrow> ('k, 'v) ltree \<Rightarrow> ('k, 'v) ltree" where
  "ptr_store (p, b) q s =
     s\<lparr>node := (node s)(p := if b then (node s p)\<lparr>left := q\<rparr> else (node s p)\<lparr>right := q\<rparr>)\<rparr>"

definition set_removed :: "addr \<Rightarrow> ('k, 'v) ltree \<Rightarrow> ('k, 'v) ltree" where
  "set_removed p s = s\<lparr>node := (node s)(p := (node s p)\<lparr>removed := True\<rparr>)\<rparr>"

definition new_leaf :: "(('k, 'v) ltree \<Rightarrow> addr) \<Rightarrow> 'k \<Rightarrow> 'v \<Rightarrow> ('k, 'v) ltree \<Rightarrow> addr \<times> ('k, 'v) ltree" where
  "new_leaf alloc k v s =
     (let p = alloc s
      in (p, s\<lparr>node := (node s)(p := \<lparr>key = k, is_leaf = True, is_sentinal = False, removed = False,
                                       left = nullptr, right = nullptr, val = v\<rparr>),
               nodes := insert p (nodes s)\<rparr>))"

text \<open>An internal node has no value; the field keeps whatever the storage held.\<close>

definition new_internal :: "(('k, 'v) ltree \<Rightarrow> addr) \<Rightarrow> 'k \<Rightarrow> addr \<Rightarrow> addr \<Rightarrow> ('k, 'v) ltree
    \<Rightarrow> addr \<times> ('k, 'v) ltree" where
  "new_internal alloc k l r s =
     (let p = alloc s
      in (p, s\<lparr>node := (node s)(p := \<lparr>key = k, is_leaf = False, is_sentinal = False, removed = False,
                                       left = l, right = r, val = val (node s p)\<rparr>),
               nodes := insert p (nodes s)\<rparr>))"

definition retire_internal :: "addr \<Rightarrow> ('k, 'v) ltree \<Rightarrow> ('k, 'v) ltree" where
  "retire_internal p s = s\<lparr>internal_retired := p # internal_retired s\<rparr>"

definition retire_leaf :: "addr \<Rightarrow> ('k, 'v) ltree \<Rightarrow> ('k, 'v) ltree" where
  "retire_leaf p s = s\<lparr>leaf_retired := p # leaf_retired s\<rparr>"

section \<open>Searching\<close>

text \<open>
  The environment runs before every load of a child pointer. The result is the tuple
  \<open>(gp, gp_left, p, p_left, l)\<close> of the code, with the state in which \<open>l\<close> was loaded.
\<close>

type_synonym location = "addr \<times> bool \<times> addr \<times> bool \<times> addr"

fun find_loop :: "('k::linorder, 'v) tenv \<Rightarrow> 'k \<Rightarrow> nat \<Rightarrow> location \<Rightarrow> ('k, 'v) ltree
    \<Rightarrow> (location \<times> ('k, 'v) ltree) option" where
  "find_loop env k 0 (gp, gp_left, p, p_left, l) s = None"
| "find_loop env k (Suc fuel) (gp, gp_left, p, p_left, l) s =
     (if \<not> is_leaf (node s l)
      then let s' = env fuel s; b = Less s' k l
           in find_loop env k fuel (p, p_left, l, b, ptr_load (l, b) s') s'
      else Some ((gp, gp_left, p, p_left, l), s))"

definition find_location :: "('k::linorder, 'v) tenv \<Rightarrow> nat \<Rightarrow> 'k \<Rightarrow> ('k, 'v) ltree
    \<Rightarrow> (location \<times> ('k, 'v) ltree) option" where
  "find_location env fuel k s =
     find_loop env k fuel (nullptr, False, root s, True, left (node s (root s))) s"

section \<open>Operations\<close>

text \<open>
  \<open>None\<close> stands for the empty optional. \<open>locked i\<close> is the outcome of the \<open>i\<close>-th \<open>try_lock\<close>, and
  \<open>e\<close> what other threads do between the search and the validation under the lock.
\<close>

definition linked_from :: "field \<Rightarrow> addr \<Rightarrow> ('k, 'v) ltree \<Rightarrow> bool" where
  "linked_from ptr c s \<longleftrightarrow> ptr_load ptr s = c \<and> \<not> removed (node s (fst ptr))"

text \<open>The thunk that \<open>try_insert\<close> runs under the lock of the parent.\<close>

definition splice_in :: "(('k::linorder, 'v) ltree \<Rightarrow> addr) \<Rightarrow> field \<Rightarrow> addr \<Rightarrow> 'k \<Rightarrow> 'v \<Rightarrow> ('k, 'v) ltree \<Rightarrow> ('k, 'v) ltree" where
  "splice_in alloc ptr l k v s =
     (let (new_l, s1) = new_leaf alloc k v s;
          (new_i, s2) = (if Less s1 k l then new_internal alloc (key (node s1 l)) new_l l s1
                         else new_internal alloc k l new_l s1)
      in ptr_store ptr new_i s2)"

fun try_insert :: "('k::linorder, 'v) tenv \<Rightarrow> (('k, 'v) ltree \<Rightarrow> ('k, 'v) ltree) \<Rightarrow> (nat \<Rightarrow> bool)
    \<Rightarrow> (('k, 'v) ltree \<Rightarrow> addr) \<Rightarrow> nat \<Rightarrow> 'k \<Rightarrow> 'v \<Rightarrow> bool \<Rightarrow> ('k, 'v) ltree \<Rightarrow> bool option \<times> ('k, 'v) ltree" where
  "try_insert env e locked alloc fuel k v upsert s =
     (case find_location env fuel k s of
        None \<Rightarrow> (None, s)
      | Some ((gp, gp_left, p, p_left, l), s1) \<Rightarrow>
          let s2 = e s1; ptr = (p, p_left)
          in if Equal s1 k l
             then (if linked_from ptr l s2 then (Some False, s2) else (None, s2))
             else if locked 0 \<and> linked_from ptr l s2
                  then (Some (\<not> Equal s2 k l), splice_in alloc ptr l k v s2)
                  else (None, s2))"

text \<open>The thunk of \<open>try_remove\<close> under the locks of grandparent and parent, with its validation.\<close>

definition splice_out :: "field \<Rightarrow> addr \<Rightarrow> bool \<Rightarrow> addr \<Rightarrow> ('k, 'v) ltree \<Rightarrow> bool \<times> ('k, 'v) ltree" where
  "splice_out ptr p p_left l s =
     (if \<not> linked_from ptr p s then (False, s)
      else let ll = ptr_load (p, \<not> p_left) s; lr = ptr_load (p, p_left) s
           in if lr \<noteq> l then (False, s)
              else (True, retire_leaf l (retire_internal p (ptr_store ptr ll (set_removed p s)))))"

fun try_remove :: "('k::linorder, 'v) tenv \<Rightarrow> (('k, 'v) ltree \<Rightarrow> ('k, 'v) ltree) \<Rightarrow> (nat \<Rightarrow> bool)
    \<Rightarrow> nat \<Rightarrow> 'k \<Rightarrow> ('k, 'v) ltree \<Rightarrow> bool option \<times> ('k, 'v) ltree" where
  "try_remove env e locked fuel k s =
     (case find_location env fuel k s of
        None \<Rightarrow> (None, s)
      | Some ((gp, gp_left, p, p_left, l), s1) \<Rightarrow>
          let s2 = e s1; ptr = (gp, gp_left)
          in if is_sentinal (node s1 l) then (Some False, s1)
             else if \<not> Equal s1 k l
             then (if linked_from ptr p s2 then (Some False, s2) else (None, s2))
             else if locked 0 \<and> locked 1
                  then (case splice_out ptr p p_left l s2 of
                          (True, s3) \<Rightarrow> (Some True, s3) | (False, s3) \<Rightarrow> (None, s3))
                  else (None, s2))"

fun find_leaf :: "('k::linorder, 'v) tenv \<Rightarrow> 'k \<Rightarrow> nat \<Rightarrow> addr \<Rightarrow> ('k, 'v) ltree \<Rightarrow> (addr \<times> ('k, 'v) ltree) option" where
  "find_leaf env k 0 l s = None"
| "find_leaf env k (Suc fuel) l s =
     (if \<not> is_leaf (node s l)
      then let s' = env fuel s in find_leaf env k fuel (ptr_load (l, Less s' k l) s') s'
      else Some (l, s))"

definition find_plain :: "('k::linorder, 'v) tenv \<Rightarrow> nat \<Rightarrow> 'k \<Rightarrow> ('k, 'v) ltree \<Rightarrow> 'v option option" where
  "find_plain env fuel k s =
     (case find_leaf env k fuel (left (node s (root s))) s of
        None \<Rightarrow> None
      | Some (ll, s1) \<Rightarrow> Some (if Equal s1 k ll then Some (val (node s1 ll)) else None))"

definition try_find :: "('k::linorder, 'v) tenv \<Rightarrow> (('k, 'v) ltree \<Rightarrow> ('k, 'v) ltree) \<Rightarrow> nat \<Rightarrow> 'k
    \<Rightarrow> ('k, 'v) ltree \<Rightarrow> 'v option option \<times> ('k, 'v) ltree" where
  "try_find env e fuel k s =
     (case find_location env fuel k s of
        None \<Rightarrow> (None, s)
      | Some ((gp, gp_left, p, p_left, l), s1) \<Rightarrow>
          let s2 = e s1
          in if linked_from (p, p_left) l s2
             then (Some (if Equal s2 k l then Some (val (node s2 l)) else None), s2)
             else (None, s2))"

definition insert_map :: "(nat \<Rightarrow> ('k::linorder, 'v) tenv) \<Rightarrow> (nat \<Rightarrow> ('k, 'v) ltree \<Rightarrow> ('k, 'v) ltree) \<Rightarrow> (nat \<Rightarrow> nat \<Rightarrow> bool)
    \<Rightarrow> (('k, 'v) ltree \<Rightarrow> addr) \<Rightarrow> nat \<Rightarrow> nat \<Rightarrow> 'k \<Rightarrow> 'v \<Rightarrow> ('k, 'v) ltree \<Rightarrow> (bool \<times> ('k, 'v) ltree) option" where
  "insert_map env e locked alloc fuel rounds k v s =
     try_loop (\<lambda>i. try_insert (env i) (e i) (locked i) alloc fuel k v False) rounds s"

definition upsert_map :: "(nat \<Rightarrow> ('k::linorder, 'v) tenv) \<Rightarrow> (nat \<Rightarrow> ('k, 'v) ltree \<Rightarrow> ('k, 'v) ltree) \<Rightarrow> (nat \<Rightarrow> nat \<Rightarrow> bool)
    \<Rightarrow> (('k, 'v) ltree \<Rightarrow> addr) \<Rightarrow> nat \<Rightarrow> nat \<Rightarrow> 'k \<Rightarrow> 'v \<Rightarrow> ('k, 'v) ltree \<Rightarrow> (bool \<times> ('k, 'v) ltree) option" where
  "upsert_map env e locked alloc fuel rounds k v s =
     try_loop (\<lambda>i. try_insert (env i) (e i) (locked i) alloc fuel k v True) rounds s"

definition remove_map :: "(nat \<Rightarrow> ('k::linorder, 'v) tenv) \<Rightarrow> (nat \<Rightarrow> ('k, 'v) ltree \<Rightarrow> ('k, 'v) ltree) \<Rightarrow> (nat \<Rightarrow> nat \<Rightarrow> bool)
    \<Rightarrow> nat \<Rightarrow> nat \<Rightarrow> 'k \<Rightarrow> ('k, 'v) ltree \<Rightarrow> (bool \<times> ('k, 'v) ltree) option" where
  "remove_map env e locked fuel rounds k s =
     try_loop (\<lambda>i. try_remove (env i) (e i) (locked i) fuel k) rounds s"

text \<open>The constructor: the root has the sentinel leaf as its left child.\<close>

definition empty_ltree :: "addr \<Rightarrow> addr \<Rightarrow> 'k \<Rightarrow> 'v \<Rightarrow> ('k, 'v) ltree" where
  "empty_ltree r l k v =
     \<lparr>node = (\<lambda>p. \<lparr>key = k, is_leaf = (p \<noteq> r), is_sentinal = True, removed = False,
                    left = (if p = r then l else nullptr), right = nullptr, val = v\<rparr>),
      nodes = {r, l}, root = r, internal_retired = [], leaf_retired = []\<rparr>"

text \<open>The destructor, the sum of leaf depths, and the check: its result and whether it reported a misplaced
  key; \<open>None\<close> when it aborts or the fuel runs out.\<close>

fun retire_tree :: "nat \<Rightarrow> addr \<Rightarrow> ('k, 'v) ltree \<Rightarrow> ('k, 'v) ltree option" where
  "retire_tree 0 p s = None"
| "retire_tree (Suc fuel) p s =
     (if p = nullptr then Some s
      else if is_leaf (node s p) then Some (retire_leaf p s)
      else (case retire_tree fuel (left (node s p)) s of
              None \<Rightarrow> None
            | Some s1 \<Rightarrow> (case retire_tree fuel (right (node s1 p)) s1 of
                             None \<Rightarrow> None | Some s2 \<Rightarrow> Some (retire_internal p s2))))"

fun total_height :: "nat \<Rightarrow> addr \<Rightarrow> nat \<Rightarrow> ('k, 'v) ltree \<Rightarrow> nat option" where
  "total_height 0 p depth s = None"
| "total_height (Suc fuel) p depth s =
     (if is_leaf (node s p) then Some depth
      else (case (total_height fuel (left (node s p)) (Suc depth) s, total_height fuel (right (node s p)) (Suc depth) s) of
              (Some d1, Some d2) \<Rightarrow> Some (d1 + d2) | _ \<Rightarrow> None))"

fun check_rec :: "nat \<Rightarrow> addr \<Rightarrow> bool \<Rightarrow> ('k::linorder, 'v) ltree \<Rightarrow> (('k \<times> 'k \<times> int) \<times> bool) option" where
  "check_rec 0 p leftmost s = None"
| "check_rec (Suc fuel) p leftmost s =
     (if is_leaf (node s p)
      then if leftmost
           then (if is_sentinal (node s p) then Some ((key (node s p), key (node s p), 0), True) else None)
           else (if is_sentinal (node s p) then None else Some ((key (node s p), key (node s p), 1), True))
      else if is_sentinal (node s p) then None
      else (case (check_rec fuel (left (node s p)) leftmost s, check_rec fuel (right (node s p)) False s) of
              (Some ((lmin, lmax, lsum), lok), Some ((rmin, rmax, rsum), rok)) \<Rightarrow>
                let ok = lok \<and> rok \<and> \<not> ((lsum \<noteq> 0 \<and> \<not> Less s lmax p) \<or> Less s rmin p)
                in Some (if lsum = 0 then (key (node s p), rmax, rsum) else (lmin, rmax, lsum + rsum), ok)
            | _ \<Rightarrow> None))"

definition check :: "nat \<Rightarrow> ('k::linorder, 'v) ltree \<Rightarrow> (int \<times> bool) option" where
  "check fuel s = map_option (\<lambda>((_, _, cnt), ok). (cnt, ok)) (check_rec fuel (left (node s (root s))) True s)"

section \<open>The tree in memory\<close>

datatype shape = Lf addr | Nd addr shape shape

fun top_addr :: "shape \<Rightarrow> addr" where
  "top_addr (Lf a) = a"
| "top_addr (Nd a l r) = a"

fun addrs :: "shape \<Rightarrow> addr list" where
  "addrs (Lf a) = [a]"
| "addrs (Nd a l r) = a # addrs l @ addrs r"

fun internals :: "shape \<Rightarrow> addr list" where
  "internals (Lf a) = []"
| "internals (Nd a l r) = a # internals l @ internals r"

fun leaves :: "shape \<Rightarrow> addr list" where
  "leaves (Lf a) = [a]"
| "leaves (Nd a l r) = leaves l @ leaves r"

fun trep :: "('k, 'v) ltree \<Rightarrow> shape \<Rightarrow> bool" where
  "trep s (Lf a) \<longleftrightarrow> is_leaf (node s a)"
| "trep s (Nd a l r) \<longleftrightarrow> \<not> is_leaf (node s a) \<and> \<not> is_sentinal (node s a) \<and>
     left (node s a) = top_addr l \<and> right (node s a) = top_addr r \<and> trep s l \<and> trep s r"

text \<open>Only the leftmost leaf is a sentinel.\<close>

fun senti :: "('k, 'v) ltree \<Rightarrow> bool \<Rightarrow> shape \<Rightarrow> bool" where
  "senti s b (Lf a) \<longleftrightarrow> is_sentinal (node s a) = b"
| "senti s b (Nd a l r) \<longleftrightarrow> senti s b l \<and> senti s False r"

definition leaf_keys :: "('k, 'v) ltree \<Rightarrow> shape \<Rightarrow> 'k set" where
  "leaf_keys s t = {key (node s a) | a. a \<in> set (leaves t) \<and> \<not> is_sentinal (node s a)}"

fun ordered :: "('k::linorder, 'v) ltree \<Rightarrow> shape \<Rightarrow> bool" where
  "ordered s (Lf a) \<longleftrightarrow> True"
| "ordered s (Nd a l r) \<longleftrightarrow> (\<forall>x\<in>leaf_keys s l. x < key (node s a)) \<and> (\<forall>x\<in>leaf_keys s r. key (node s a) \<le> x) \<and>
     ordered s l \<and> ordered s r"

definition tree_ok :: "('k::linorder, 'v) ltree \<Rightarrow> shape \<Rightarrow> bool" where
  "tree_ok s t \<longleftrightarrow>
     finite (nodes s) \<and> nullptr \<notin> nodes s \<and> root s \<in> nodes s \<and> \<not> is_leaf (node s (root s)) \<and> \<not> removed (node s (root s)) \<and>
     left (node s (root s)) = top_addr t \<and> trep s t \<and> distinct (root s # addrs t) \<and> set (addrs t) \<subseteq> nodes s \<and>
     (\<forall>p\<in>set (internals t). \<not> removed (node s p)) \<and> ordered s t \<and> senti s True t \<and>
     (\<forall>p\<in>nodes s. \<not> is_leaf (node s p) \<longrightarrow> left (node s p) \<in> nodes s - {root s} \<and>
        (p \<noteq> root s \<longrightarrow> right (node s p) \<in> nodes s - {root s} \<and> \<not> is_sentinal (node s p)))"

definition wf_ltree :: "('k::linorder, 'v) ltree \<Rightarrow> bool" where
  "wf_ltree s \<longleftrightarrow> (\<exists>t. tree_ok s t)"

text \<open>The abstract map is read off the leaves from left to right.\<close>

fun leaf_list :: "nat \<Rightarrow> addr \<Rightarrow> ('k, 'v) ltree \<Rightarrow> addr list" where
  "leaf_list 0 p s = []"
| "leaf_list (Suc n) p s =
     (if is_leaf (node s p) then [p] else leaf_list n (left (node s p)) s @ leaf_list n (right (node s p)) s)"

definition leaf_entries :: "('k, 'v) ltree \<Rightarrow> addr list \<Rightarrow> ('k \<times> 'v) list" where
  "leaf_entries s xs = map (\<lambda>a. (key (node s a), val (node s a))) (filter (\<lambda>a. \<not> is_sentinal (node s a)) xs)"

definition ltree_abs :: "('k, 'v) ltree \<Rightarrow> 'k \<rightharpoonup> 'v" where
  "ltree_abs s = map_of (leaf_entries s (leaf_list (card (nodes s)) (left (node s (root s))) s))"

lemma leaves_addrs: "set (leaves t) \<subseteq> set (addrs t)"
  by (induction t) auto

lemma internals_addrs: "set (internals t) \<subseteq> set (addrs t)"
  by (induction t) auto

lemma top_addrs: "top_addr t \<in> set (addrs t)"
  by (cases t) auto

lemma leaf_list_trep: "trep s t \<Longrightarrow> length (addrs t) \<le> n \<Longrightarrow> leaf_list n (top_addr t) s = leaves t"
proof (induction t arbitrary: n)
  case (Lf a)
  then show ?case by (cases n) auto
next
  case (Nd a l r)
  then show ?case by (cases n) auto
qed

lemma tree_ok_fuel: "tree_ok s t \<Longrightarrow> length (addrs t) < card (nodes s)"
proof -
  assume t: "tree_ok s t"
  then have "card (set (root s # addrs t)) = length (root s # addrs t)"
    unfolding tree_ok_def by (intro distinct_card) simp
  then show ?thesis
    using t card_mono [of "nodes s" "set (root s # addrs t)"] by (auto simp: tree_ok_def)
qed

lemma tree_ok_abs: "tree_ok s t \<Longrightarrow> ltree_abs s = map_of (leaf_entries s (leaves t))"
  using tree_ok_fuel [of s t] leaf_list_trep [of s t "card (nodes s)"]
  by (simp add: ltree_abs_def tree_ok_def)

section \<open>Search paths\<close>

text \<open>The child that a search for \<open>k\<close> takes, and the walk it makes.\<close>

definition child :: "('k::linorder, 'v) ltree \<Rightarrow> 'k \<Rightarrow> addr \<Rightarrow> addr" where
  "child s k p = ptr_load (p, p = root s \<or> Less s k p) s"

inductive reach :: "('k::linorder, 'v) ltree \<Rightarrow> 'k \<Rightarrow> addr \<Rightarrow> addr \<Rightarrow> bool" for s k p where
  reach_refl: "reach s k p p"
| reach_step: "reach s k p q \<Longrightarrow> \<not> is_leaf (node s q) \<Longrightarrow> reach s k p (child s k q)"

lemma reach_trans: "reach s k q r \<Longrightarrow> reach s k p q \<Longrightarrow> reach s k p r"
  by (induction rule: reach.induct) (auto intro: reach.intros)

definition good :: "('k::linorder, 'v) ltree \<Rightarrow> 'k \<Rightarrow> addr \<Rightarrow> bool" where
  "good s k p \<longleftrightarrow> (\<forall>q. reach s k p q \<and> \<not> is_leaf (node s q) \<and> \<not> removed (node s q) \<longrightarrow> reach s k (root s) q)"

lemma good_root [simp]: "good s k (root s)"
  by (simp add: good_def)

lemma good_child:
  assumes "good s k p" "\<not> is_leaf (node s p)"
  shows "good s k (child s k p)"
  using assms reach_trans reach_step [OF reach_refl assms(2)] unfolding good_def by blast

fun path :: "('k::linorder, 'v) ltree \<Rightarrow> 'k \<Rightarrow> shape \<Rightarrow> addr list" where
  "path s k (Lf a) = []"
| "path s k (Nd a l r) = a # path s k (if Less s k a then l else r)"

fun leaf_at :: "('k::linorder, 'v) ltree \<Rightarrow> 'k \<Rightarrow> shape \<Rightarrow> addr" where
  "leaf_at s k (Lf a) = a"
| "leaf_at s k (Nd a l r) = leaf_at s k (if Less s k a then l else r)"

lemma path_internals: "set (path s k t) \<subseteq> set (internals t)"
  by (induction t) auto

lemma leaf_at_leaves: "leaf_at s k t \<in> set (leaves t)"
  by (induction t) auto

lemma leaf_at_trep: "trep s t \<Longrightarrow> is_leaf (node s (leaf_at s k t))"
  by (induction t) auto

lemma child_top: "trep s (Nd a l r) \<Longrightarrow> a \<noteq> root s \<Longrightarrow> child s k a = top_addr (if Less s k a then l else r)"
  by (simp add: child_def)

lemma path_top: "trep s t \<Longrightarrow> top_addr t = hd (path s k t @ [leaf_at s k t])"
  by (cases t) auto

lemma path_child:
  assumes "trep s t" "root s \<notin> set (addrs t)" "q \<in> set (path s k t)"
  shows "child s k q \<in> set (path s k t) \<union> {leaf_at s k t}"
  using assms
proof (induction t)
  case (Nd a l r)
  let ?c = "if Less s k a then l else r"
  show ?case
  proof (cases "q = a")
    case True
    have "child s k a = top_addr ?c" by (rule child_top) (use Nd.prems in auto)
    moreover have "top_addr ?c \<in> set (path s k ?c) \<union> {leaf_at s k ?c}" by (cases ?c) auto
    ultimately show ?thesis using True by (auto split: if_splits)
  next
    case False
    with Nd show ?thesis by (auto split: if_splits)
  qed
qed simp

lemma path_last:
  assumes "trep s t" "root s \<notin> set (addrs t)" "q \<in> set (path s k t)" "is_leaf (node s (child s k q))"
  shows "child s k q = leaf_at s k t \<and> q = last (path s k t)"
  using assms
proof (induction t)
  case (Nd a l r)
  let ?c = "if Less s k a then l else r"
  show ?case
  proof (cases "q = a \<and> q \<notin> set (path s k ?c)")
    case True
    have "child s k q = top_addr ?c" unfolding conjunct1 [OF True] by (rule child_top) (use Nd.prems in auto)
    moreover obtain b where "?c = Lf b" using calculation Nd.prems(1,4) by (cases ?c) (auto split: if_splits)
    ultimately show ?thesis using True by (auto split: if_splits)
  next
    case False
    then have q: "q \<in> set (path s k ?c)" using Nd.prems(3) by auto
    have "trep s ?c" "root s \<notin> set (addrs ?c)" using Nd.prems by auto
    with Nd.IH Nd.prems(4) q have "child s k q = leaf_at s k ?c \<and> q = last (path s k ?c)" by (auto split: if_splits)
    with q show ?thesis by (auto split: if_splits)
  qed
qed simp

lemma reach_root_cases:
  assumes "tree_ok s t" "reach s k (root s) q"
  shows "q \<in> set (root s # path s k t @ [leaf_at s k t])"
  using assms(2)
proof (induction rule: reach.induct)
  case (reach_step q)
  have t: "trep s t" "root s \<notin> set (addrs t)" "left (node s (root s)) = top_addr t" using assms(1) by (auto simp: tree_ok_def)
  show ?case
  proof (cases "q \<in> set (path s k t)")
    case True
    with path_child [OF t(1,2)] show ?thesis by auto
  next
    case False
    with reach_step leaf_at_trep [OF t(1)] have "q = root s" by auto
    then have "child s k q = top_addr t" by (simp add: child_def t(3))
    then show ?thesis using path_top [OF t(1), of k] by (cases "path s k t") auto
  qed
qed simp

text \<open>A node on the search path whose child is a leaf is the last one, and the leaf is where the search ends.\<close>

lemma reach_root_leaf:
  assumes "tree_ok s t" "reach s k (root s) p" "\<not> is_leaf (node s p)" "is_leaf (node s (child s k p))"
  shows "child s k p = leaf_at s k t \<and> p = last (root s # path s k t)"
proof -
  have t: "trep s t" "root s \<notin> set (addrs t)" "left (node s (root s)) = top_addr t" using assms(1) by (auto simp: tree_ok_def)
  have "p \<in> set (root s # path s k t)" using reach_root_cases [OF assms(1,2)] assms(3) leaf_at_trep [OF t(1)] by auto
  then consider "p \<in> set (path s k t)" | "p = root s" by auto
  then show ?thesis
  proof cases
    case 1
    with path_last [OF t(1,2) _ assms(4)] show ?thesis by auto
  next
    case 2
    then have "child s k p = top_addr t" by (simp add: child_def t(3))
    with assms(4) t(1) obtain a where "t = Lf a" by (cases t) auto
    with 2 \<open>child s k p = top_addr t\<close> show ?thesis by simp
  qed
qed

text \<open>Every entry is found by the search for its key.\<close>

lemma own_leaf:
  assumes "ordered s t" "trep s t" "x \<in> set (leaves t)" "\<not> is_sentinal (node s x)"
  shows "leaf_at s (key (node s x)) t = x"
  using assms
proof (induction t)
  case (Nd a l r)
  have "key (node s x) < key (node s a)" if "x \<in> set (leaves l)"
    using Nd.prems that by (auto simp: leaf_keys_def)
  moreover have "key (node s a) \<le> key (node s x)" if "x \<in> set (leaves r)"
    using Nd.prems that by (auto simp: leaf_keys_def)
  ultimately show ?case using Nd by (fastforce simp: Less_def)
qed simp

lemma lookup_leaf:
  assumes "tree_ok s t"
  shows "ltree_abs s k = (if Equal s k (leaf_at s k t) then Some (val (node s (leaf_at s k t))) else None)"
proof -
  have t: "trep s t" "ordered s t" using assms by (auto simp: tree_ok_def)
  let ?l = "leaf_at s k t"
  have own: "x = ?l" if "x \<in> set (leaves t)" "\<not> is_sentinal (node s x)" "key (node s x) = k" for x
    using own_leaf [OF t(2,1) that(1,2)] that(3) by simp
  show ?thesis
  proof (cases "Equal s k ?l")
    case True
    then have "(k, val (node s ?l)) \<in> set (leaf_entries s (leaves t))"
      using leaf_at_leaves [of s k t] by (auto simp: leaf_entries_def Equal_def not_less intro!: image_eqI [of _ _ ?l])
    then obtain v where "map_of (leaf_entries s (leaves t)) k = Some v" using weak_map_of_SomeI by metis
    then have "v = val (node s ?l)" "ltree_abs s k = Some v"
      using own by (auto simp: leaf_entries_def tree_ok_abs [OF assms] dest!: map_of_SomeD)
    with True show ?thesis by simp
  next
    case False
    have "map_of (leaf_entries s (leaves t)) k = None"
      unfolding map_of_eq_None_iff using own False by (auto simp: leaf_entries_def Equal_def)
    with False show ?thesis by (simp add: tree_ok_abs [OF assms])
  qed
qed

section \<open>Replacing a subtree\<close>

text \<open>The subtree at depth \<open>n\<close> on the search path of \<open>k\<close>, and its replacement.\<close>

fun sub_at :: "('k::linorder, 'v) ltree \<Rightarrow> 'k \<Rightarrow> nat \<Rightarrow> shape \<Rightarrow> shape" where
  "sub_at s k (Suc n) (Nd a l r) = sub_at s k n (if Less s k a then l else r)"
| "sub_at s k _ t = t"

fun replace_at :: "('k::linorder, 'v) ltree \<Rightarrow> 'k \<Rightarrow> nat \<Rightarrow> shape \<Rightarrow> shape \<Rightarrow> shape" where
  "replace_at s k (Suc n) x (Nd a l r) =
     (if Less s k a then Nd a (replace_at s k n x l) r else Nd a l (replace_at s k n x r))"
| "replace_at s k _ x t = x"

lemma sub_at_0 [simp]: "sub_at s k 0 t = t" "replace_at s k 0 x t = x"
  by (cases t; simp)+

lemma top_replace_at: "n \<le> length (path s k t) \<Longrightarrow> top_addr (replace_at s k n x t) = (if n = 0 then top_addr x else top_addr t)"
  by (cases t; cases n) auto

lemma addrs_replace_at:
  "mset (addrs (replace_at s k n x t)) + mset (addrs (sub_at s k n t)) = mset (addrs t) + mset (addrs x)"
  by (induction s k n x t rule: replace_at.induct) (auto simp: ac_simps)

lemma leaves_replace_at:
  "mset (leaves (replace_at s k n x t)) + mset (leaves (sub_at s k n t)) = mset (leaves t) + mset (leaves x)"
  by (induction s k n x t rule: replace_at.induct) (auto simp: ac_simps)

lemma internals_replace_at:
  "set (internals (replace_at s k n x t)) \<subseteq> set (internals t) \<union> set (internals x)"
  by (induction s k n x t rule: replace_at.induct) auto

lemma sub_at_addrs: "set (addrs (sub_at s k n t)) \<subseteq> set (addrs t)"
  by (induction s k n t rule: sub_at.induct) auto

lemma path_addrs: "set (path s k t) \<subseteq> set (addrs t)"
  using path_internals internals_addrs by blast

lemma senti_replace_at:
  "senti s b t \<Longrightarrow> (\<And>b. senti s b (sub_at s k n t) \<Longrightarrow> senti s b x) \<Longrightarrow> senti s b (replace_at s k n x t)"
  by (induction s k n x t arbitrary: b rule: replace_at.induct) auto

lemma leaf_keys_Nd: "leaf_keys s (Nd a l r) = leaf_keys s l \<union> leaf_keys s r"
  by (auto simp: leaf_keys_def)

lemma leaf_keys_replace_at: "leaf_keys s (replace_at s k n x t) \<subseteq> leaf_keys s t \<union> leaf_keys s x"
  by (induction s k n x t rule: replace_at.induct) (auto simp: leaf_keys_Nd)

lemma leaf_keys_sub_at: "leaf_keys s (sub_at s k n t) \<subseteq> leaf_keys s t"
  by (induction s k n t rule: sub_at.induct) (auto simp: leaf_keys_Nd)

lemma ordered_replace_at:
  assumes "ordered s t" "\<forall>a\<in>set (internals t). \<not> is_sentinal (node s a)" "ordered s x"
    and "leaf_keys s x \<subseteq> insert k (leaf_keys s (sub_at s k n t))"
  shows "ordered s (replace_at s k n x t)"
  using assms
proof (induction s k n x t rule: replace_at.induct)
  case (1 s k n x a l r)
  let ?c = "if Less s k a then l else r"
  have x: "leaf_keys s x \<subseteq> insert k (leaf_keys s ?c)"
    using "1.prems"(4) leaf_keys_sub_at [of s k n ?c] by auto
  have "leaf_keys s (replace_at s k n x ?c) \<subseteq> insert k (leaf_keys s ?c)"
    using leaf_keys_replace_at [of s k n x ?c] x by blast
  with 1 show ?case by (auto simp: Less_def not_less split: if_splits)
qed auto

text \<open>The nodes of the old subtree are forgotten; only the pointer of their parent changes.\<close>

definition unchanged :: "('k, 'v) ltree \<Rightarrow> ('k, 'v) ltree \<Rightarrow> addr \<Rightarrow> bool" where
  "unchanged s s' q \<longleftrightarrow> is_leaf (node s' q) = is_leaf (node s q) \<and> is_sentinal (node s' q) = is_sentinal (node s q) \<and>
     key (node s' q) = key (node s q) \<and> val (node s' q) = val (node s q)"

lemma trep_frame:
  assumes "\<forall>q\<in>set (addrs t). unchanged s s' q \<and> left (node s' q) = left (node s q) \<and> right (node s' q) = right (node s q)"
  shows "trep s' t = trep s t"
  using assms by (induction t) (auto simp: unchanged_def)

lemma leaf_keys_frame:
  assumes "\<forall>q\<in>set (addrs t). unchanged s s' q"
  shows "leaf_keys s' t = leaf_keys s t"
proof -
  have "\<forall>q\<in>set (leaves t). unchanged s s' q" using assms leaves_addrs by blast
  then show ?thesis unfolding leaf_keys_def unchanged_def by (intro Collect_cong) metis
qed

lemma replace_frame:
  assumes "\<forall>q\<in>set (addrs t). unchanged s s' q"
  shows "ordered s' t = ordered s t" "senti s' b t = senti s b t"
  using assms
proof -
  show "senti s' b t = senti s b t" using assms by (induction t arbitrary: b) (auto simp: unchanged_def)
  show "ordered s' t = ordered s t" using assms
  proof (induction t)
    case (Nd a l r)
    then have "leaf_keys s' l = leaf_keys s l" "leaf_keys s' r = leaf_keys s r" "key (node s' a) = key (node s a)"
      using leaf_keys_frame [of l s s'] leaf_keys_frame [of r s s'] by (auto simp: unchanged_def)
    with Nd show ?case by simp
  qed simp
qed

lemma trep_replace_at:
  assumes "trep s t" "distinct (addrs t)" "n \<le> length (path s k t)" "trep s' x"
    and "\<forall>q\<in>set (addrs t) - set (addrs (sub_at s k n t)). unchanged s s' q \<and>
      (\<forall>b. 0 < n \<and> q = path s k t ! (n - 1) \<and> b = Less s k q \<or> ptr_load (q, b) s' = ptr_load (q, b) s)"
    and "0 < n \<longrightarrow> ptr_load (path s k t ! (n - 1), Less s k (path s k t ! (n - 1))) s' = top_addr x"
  shows "trep s' (replace_at s k n x t)"
  using assms
proof (induction n arbitrary: t)
  case (Suc n)
  then obtain a l r where t: "t = Nd a l r" by (cases t) auto
  let ?c = "if Less s k a then l else r" and ?d = "if Less s k a then r else l"
  have sub: "set (addrs (sub_at s k n ?c)) \<subseteq> set (addrs ?c)" by (rule sub_at_addrs)
  have dis: "a \<notin> set (addrs ?c)" "a \<notin> set (addrs ?d)" "set (addrs ?c) \<inter> set (addrs ?d) = {}" "distinct (addrs ?c)"
    using Suc.prems(2) t by auto
  have n: "n \<le> length (path s k ?c)" using Suc.prems(3) t by simp
  have pn: "path s k t ! n = (if n = 0 then a else path s k ?c ! (n - 1))" using t by (cases n) auto
  have pc: "0 < n \<Longrightarrow> path s k ?c ! (n - 1) \<in> set (addrs ?c)"
    using subsetD [OF path_addrs nth_mem, of "n - 1" s k ?c] n by simp
  have fr: "\<And>q b. q \<in> set (addrs t) \<Longrightarrow> q \<notin> set (addrs (sub_at s k n ?c)) \<Longrightarrow> unchanged s s' q \<and>
      (q = path s k t ! n \<and> b = Less s k q \<or> ptr_load (q, b) s' = ptr_load (q, b) s)"
    using Suc.prems(5) t by auto
  have "trep s' ?d"
  proof (subst trep_frame [of _ s])
    show "\<forall>q\<in>set (addrs ?d). unchanged s s' q \<and> left (node s' q) = left (node s q) \<and> right (node s' q) = right (node s q)"
    proof
      fix q assume q: "q \<in> set (addrs ?d)"
      then have "q \<in> set (addrs t)" "q \<notin> set (addrs (sub_at s k n ?c))" using t dis sub by (auto split: if_splits)
      moreover have "q \<noteq> path s k t ! n" using q dis pc pn by auto
      ultimately show "unchanged s s' q \<and> left (node s' q) = left (node s q) \<and> right (node s' q) = right (node s q)"
        using fr [of q True] fr [of q False] by simp
    qed
    show "trep s ?d" using Suc.prems(1) t by simp
  qed
  moreover have "trep s' (replace_at s k n x ?c)"
  proof (rule Suc.IH [OF _ dis(4) n Suc.prems(4)])
    show "trep s ?c" using Suc.prems(1) t by simp
    show "0 < n \<longrightarrow> ptr_load (path s k ?c ! (n - 1), Less s k (path s k ?c ! (n - 1))) s' = top_addr x"
      using Suc.prems(6) pn by auto
    show "\<forall>q\<in>set (addrs ?c) - set (addrs (sub_at s k n ?c)). unchanged s s' q \<and>
      (\<forall>b. 0 < n \<and> q = path s k ?c ! (n - 1) \<and> b = Less s k q \<or> ptr_load (q, b) s' = ptr_load (q, b) s)"
    proof (intro ballI conjI allI)
      fix q b assume q: "q \<in> set (addrs ?c) - set (addrs (sub_at s k n ?c))"
      then have q': "q \<in> set (addrs t)" "q \<notin> set (addrs (sub_at s k n ?c))" "q \<noteq> a" using t dis by (auto split: if_splits)
      then have "q = path s k t ! n \<longleftrightarrow> 0 < n \<and> q = path s k ?c ! (n - 1)" unfolding pn by simp
      with fr [OF q'(1,2), of b] show "unchanged s s' q"
        "0 < n \<and> q = path s k ?c ! (n - 1) \<and> b = Less s k q \<or> ptr_load (q, b) s' = ptr_load (q, b) s"
        by blast+
    qed
  qed
  moreover have "\<not> is_leaf (node s' a) \<and> \<not> is_sentinal (node s' a) \<and>
    ptr_load (a, Less s k a) s' = top_addr (replace_at s k n x ?c) \<and> ptr_load (a, \<not> Less s k a) s' = top_addr ?d"
  proof -
    have a: "a \<in> set (addrs t)" "a \<notin> set (addrs (sub_at s k n ?c))" using t dis sub by auto
    have "ptr_load (a, Less s k a) s = top_addr ?c" "ptr_load (a, \<not> Less s k a) s = top_addr ?d"
      using Suc.prems(1) t by auto
    moreover have "ptr_load (a, Less s k a) s' = (if n = 0 then top_addr x else ptr_load (a, Less s k a) s)"
      using fr [OF a, of "Less s k a"] Suc.prems(6) pn pc dis(1) by (cases "n = 0") auto
    ultimately show ?thesis
      using fr [OF a, of "\<not> Less s k a"] top_replace_at [OF n, of x] Suc.prems(1) t by (auto simp: unchanged_def)
  qed
  ultimately show ?case unfolding t by (auto split: if_splits)
qed simp

lemma replace_at_cong:
  assumes "\<forall>a\<in>set (addrs t). Less s' k a = Less s k a"
  shows "replace_at s' k n x t = replace_at s k n x t" "sub_at s' k n t = sub_at s k n t"
proof -
  show "replace_at s' k n x t = replace_at s k n x t"
    using assms by (induction s k n x t rule: replace_at.induct) auto
  show "sub_at s' k n t = sub_at s k n t"
    using assms by (induction s k n t rule: sub_at.induct) auto
qed

lemma trep_internals: "trep s t \<Longrightarrow> \<forall>a\<in>set (internals t). \<not> is_sentinal (node s a) \<and> \<not> is_leaf (node s a)"
  by (induction t) auto

text \<open>Exchanging a part of a duplicate-free collection.\<close>

lemma exchange_count:
  assumes "mset as + mset bs = mset cs + mset ds"
  shows "count (mset as) q + count (mset bs) q = count (mset cs) q + count (mset ds) q"
  using arg_cong [OF assms, of "\<lambda>m. count m q"] by simp

lemma distinct_exchange:
  assumes "mset as + mset bs = mset cs + mset ds" "distinct cs" "distinct ds" "set ds \<inter> set cs \<subseteq> set bs"
  shows "distinct as"
  unfolding distinct_count_atmost_1
proof
  fix q
  have c: "count (mset cs) q = (if q \<in> set cs then 1 else 0)" "count (mset ds) q = (if q \<in> set ds then 1 else 0)"
    using assms(2,3) by (simp_all add: distinct_count_atmost_1)
  have b: "q \<in> set bs \<Longrightarrow> 0 < count (mset bs) q" by (simp add: count_greater_zero_iff)
  have "count (mset as) q \<le> 1"
  proof (cases "q \<in> set cs \<and> q \<in> set ds")
    case True
    with assms(4) b have "0 < count (mset bs) q" by blast
    moreover from c True have "count (mset cs) q = 1" "count (mset ds) q = 1" by simp_all
    ultimately show ?thesis using exchange_count [OF assms(1), of q] by linarith
  next
    case False
    with c have "count (mset cs) q + count (mset ds) q \<le> 1" by auto
    with exchange_count [OF assms(1), of q] show ?thesis by linarith
  qed
  moreover have "q \<in> set as \<longleftrightarrow> 0 < count (mset as) q" by simp
  ultimately show "count (mset as) q = (if q \<in> set as then 1 else 0)"
    by (cases "q \<in> set as"; simp only: if_True if_False; linarith)
qed

lemma exchange_gone:
  assumes "mset as + mset bs = mset cs + mset ds" "distinct cs" "q \<in> set bs" "q \<notin> set ds"
  shows "q \<notin> set as"
proof
  assume "q \<in> set as"
  then have "0 < count (mset as) q" "0 < count (mset bs) q" "count (mset ds) q = 0" "count (mset cs) q \<le> 1"
    using assms(2-4) by (simp_all add: distinct_count_atmost_1)
  with exchange_count [OF assms(1), of q] show False by linarith
qed

lemma tree_ok_replace:
  assumes ok: "tree_ok s t" and n: "n \<le> length (path s k t)" and par: "P = (root s # path s k t) ! n"
    and same: "root s' = root s" "nodes s \<subseteq> nodes s'" "finite (nodes s')" "nullptr \<notin> nodes s'"
      "\<forall>q\<in>nodes s. unchanged s s' q"
    and ptrs: "\<forall>q\<in>nodes s. \<forall>b. ptr_load (q, b) s' =
      (if q = P \<and> b = (P = root s \<or> Less s k P) then top_addr x else ptr_load (q, b) s)"
    and x: "trep s' x" "distinct (addrs x)" "set (addrs x) \<subseteq> nodes s'" "ordered s' x"
      "set (addrs x) \<inter> nodes s \<subseteq> set (addrs (sub_at s k n t))" "\<forall>p\<in>set (internals x). \<not> removed (node s' p)"
      "leaf_keys s' x \<subseteq> insert k (leaf_keys s' (sub_at s k n t))" "\<And>b. senti s' b (sub_at s k n t) \<Longrightarrow> senti s' b x"
    and rem: "\<forall>q\<in>nodes s. removed (node s' q) \<longrightarrow> removed (node s q) \<or> q \<in> set (addrs (sub_at s k n t)) - set (addrs x)"
    and closed: "\<forall>q\<in>nodes s' - nodes s. \<not> is_leaf (node s' q) \<longrightarrow>
      left (node s' q) \<in> nodes s' - {root s} \<and> right (node s' q) \<in> nodes s' - {root s} \<and> \<not> is_sentinal (node s' q)"
  shows "tree_ok s' (replace_at s k n x t)"
proof -
  have T: "trep s t" "distinct (addrs t)" "root s \<notin> set (addrs t)" "set (addrs t) \<subseteq> nodes s" "root s \<in> nodes s"
    "\<not> removed (node s (root s))" "\<not> is_leaf (node s (root s))" "left (node s (root s)) = top_addr t"
    "\<forall>p\<in>set (internals t). \<not> removed (node s p)"
    using ok by (auto simp: tree_ok_def)
  have un: "\<forall>q\<in>set (addrs t). unchanged s s' q" using same(5) T(4) by blast
  have pmem: "path s k t ! (n - 1) \<in> set (addrs t)" if "0 < n"
    using subsetD [OF path_addrs nth_mem, of "n - 1" s k t] n that by simp
  have P: "P = (if n = 0 then root s else path s k t ! (n - 1))" using par by (cases n) auto
  have Proot: "P = root s \<longleftrightarrow> n = 0" using P pmem T(3) by auto
  have sub: "set (addrs (sub_at s k n t)) \<subseteq> set (addrs t)" by (rule sub_at_addrs)
  let ?t = "replace_at s k n x t"
  have ms: "mset (addrs ?t) + mset (addrs (sub_at s k n t)) = mset (addrs t) + mset (addrs x)"
    by (rule addrs_replace_at)
  have rep: "trep s' ?t"
  proof (rule trep_replace_at [OF T(1,2) n x(1)])
    show "0 < n \<longrightarrow> ptr_load (path s k t ! (n - 1), Less s k (path s k t ! (n - 1))) s' = top_addr x"
    proof
      assume "0 < n"
      then have "P = path s k t ! (n - 1)" "P \<in> nodes s" "P \<noteq> root s" using P Proot pmem T(4) by auto
      then show "ptr_load (path s k t ! (n - 1), Less s k (path s k t ! (n - 1))) s' = top_addr x" using ptrs by metis
    qed
    show "\<forall>q\<in>set (addrs t) - set (addrs (sub_at s k n t)). unchanged s s' q \<and>
      (\<forall>b. 0 < n \<and> q = path s k t ! (n - 1) \<and> b = Less s k q \<or> ptr_load (q, b) s' = ptr_load (q, b) s)"
    proof (intro ballI conjI allI)
      fix q b assume q: "q \<in> set (addrs t) - set (addrs (sub_at s k n t))"
      then have "q \<in> nodes s" "q \<noteq> root s" using T by auto
      with un q ptrs P Proot show "unchanged s s' q"
        "0 < n \<and> q = path s k t ! (n - 1) \<and> b = Less s k q \<or> ptr_load (q, b) s' = ptr_load (q, b) s"
        by auto
    qed
  qed
  have mem: "set (addrs ?t) \<subseteq> set (addrs t) \<union> set (addrs x)"
    using arg_cong [OF ms, of set_mset] by auto
  have dis: "distinct (addrs ?t)" by (rule distinct_exchange [OF ms T(2) x(2)]) (use x(5) T(4) in blast)
  have "\<not> removed (node s' p)" if p: "p \<in> set (internals ?t)" for p
  proof (cases "p \<in> set (internals x)")
    case False
    then have pt: "p \<in> set (internals t)" using p internals_replace_at by blast
    then have ps: "p \<in> nodes s" "\<not> removed (node s p)" "p \<in> set (addrs t)" "p \<in> set (addrs ?t)"
      using T(4,9) internals_addrs p by blast+
    show ?thesis
    proof
      assume "removed (node s' p)"
      with rem ps have "p \<in> set (addrs (sub_at s k n t))" "p \<notin> set (addrs x)" by blast+
      with exchange_gone [OF ms T(2)] ps(4) show False by blast
    qed
  qed (use x(6) in blast)
  moreover have "\<not> removed (node s' (root s))" using rem T sub by blast
  moreover have "left (node s' (root s)) = top_addr ?t"
    using ptrs T(5,8) Proot top_replace_at [OF n, of x]
    by (metis (full_types) ptr_load.simps)
  moreover have "root s \<notin> set (addrs ?t)" using mem x(5) T(3,5) sub by blast
  moreover have "ordered s' ?t"
  proof -
    have less: "\<forall>a\<in>set (addrs t). Less s' k a = Less s k a" using un by (auto simp: Less_def unchanged_def)
    have "\<forall>a\<in>set (internals t). \<not> is_sentinal (node s' a)"
      using trep_internals [OF T(1)] un internals_addrs [of t] by (auto simp: unchanged_def)
    then have "ordered s' (replace_at s' k n x t)"
      by (rule ordered_replace_at [rotated])
        (use x(4,7) ok replace_frame(1) [OF un] replace_at_cong(2) [OF less] in \<open>auto simp: tree_ok_def\<close>)
    then show ?thesis using replace_at_cong(1) [OF less] by simp
  qed
  moreover have "senti s' True ?t"
  proof -
    have "senti s' True t" using ok replace_frame(2) [OF un] by (simp add: tree_ok_def)
    have less: "\<forall>a\<in>set (addrs t). Less s' k a = Less s k a" using un by (auto simp: Less_def unchanged_def)
    from senti_replace_at [OF \<open>senti s' True t\<close>, of k n x] x(8) show ?thesis
      by (simp only: replace_at_cong [OF less])
  qed
  moreover have "\<forall>p\<in>nodes s'. \<not> is_leaf (node s' p) \<longrightarrow> left (node s' p) \<in> nodes s' - {root s'} \<and>
      (p \<noteq> root s' \<longrightarrow> right (node s' p) \<in> nodes s' - {root s'} \<and> \<not> is_sentinal (node s' p))"
  proof (intro ballI impI)
    fix p assume p: "p \<in> nodes s'" "\<not> is_leaf (node s' p)"
    show "left (node s' p) \<in> nodes s' - {root s'} \<and>
      (p \<noteq> root s' \<longrightarrow> right (node s' p) \<in> nodes s' - {root s'} \<and> \<not> is_sentinal (node s' p))"
    proof (cases "p \<in> nodes s")
      case True
      have xt: "top_addr x \<in> nodes s' - {root s}" using top_addrs [of x] x(3,5) sub T(3,5) by (metis DiffI IntI singletonD subsetD)
      have u: "unchanged s s' p" using True same(5) by blast
      then have "ptr_load (p, True) s \<in> nodes s - {root s}"
        "p \<noteq> root s \<Longrightarrow> ptr_load (p, False) s \<in> nodes s - {root s} \<and> \<not> is_sentinal (node s p)"
        using ok p True by (auto simp: tree_ok_def unchanged_def)
      then show ?thesis
        using ptrs [rule_format, OF True, of True] ptrs [rule_format, OF True, of False] u same(1,2) xt
        by (auto simp: unchanged_def)
    qed (use p closed same(1) in simp)
  qed
  moreover have "set (addrs ?t) \<subseteq> nodes s'" using mem T(4) same(2) x(3) by blast
  moreover have "\<not> is_leaf (node s' (root s))" using same(5) T(5,7) by (auto simp: unchanged_def)
  ultimately show ?thesis
    using same T(5) rep dis unfolding tree_ok_def by auto
qed

section \<open>Interference\<close>

text \<open>
  What the other threads guarantee: nodes keep their contents, a removed node stays removed,
  and a node that a search may hold stays good. Insertions and removals of this structure
  satisfy it (\<open>splice_in_keeps\<close>, \<open>splice_out_keeps\<close> below).
\<close>

definition keeps :: "('k::linorder, 'v) ltree \<Rightarrow> ('k, 'v) ltree \<Rightarrow> bool" where
  "keeps s s' \<longleftrightarrow> root s' = root s \<and> nodes s \<subseteq> nodes s' \<and>
     (\<forall>p\<in>nodes s. unchanged s s' p \<and> (removed (node s p) \<longrightarrow> removed (node s' p)) \<and> (\<forall>k. good s k p \<longrightarrow> good s' k p))"

lemma keeps_refl [simp]: "keeps s s"
  by (simp add: keeps_def unchanged_def)

interpretation lt: monotone_shared keeps wf_ltree
proof
  show "keeps s s" for s :: "('a::linorder, 'b) ltree" by simp
  show "keeps s u" if "keeps s t" "keeps t u" for s t u :: "('a::linorder, 'b) ltree"
    using that unfolding keeps_def unchanged_def by (smt (verit) subsetD subset_trans)
qed

lemma wf_children:
  assumes "wf_ltree s" "p \<in> nodes s" "\<not> is_leaf (node s p)"
  shows "child s k p \<in> nodes s - {root s}"
  using assms unfolding wf_ltree_def tree_ok_def child_def by (auto split: if_splits)

lemma ltree_root: "wf_ltree s \<Longrightarrow> root s \<in> nodes s \<and> \<not> is_leaf (node s (root s)) \<and> root s \<noteq> nullptr"
  unfolding wf_ltree_def tree_ok_def by metis

lemma wf_null: "wf_ltree s \<Longrightarrow> nullptr \<notin> nodes s"
  unfolding wf_ltree_def tree_ok_def by blast

text \<open>What a search knows of an internal node it holds: \<open>b\<close> says on which side it went on.\<close>

definition held :: "('k::linorder, 'v) ltree \<Rightarrow> 'k \<Rightarrow> addr \<Rightarrow> bool \<Rightarrow> bool" where
  "held s k p b \<longleftrightarrow> p \<in> nodes s \<and> \<not> is_leaf (node s p) \<and> good s k p \<and> b = (p = root s \<or> Less s k p)"

lemma held_child: "held s k p b \<Longrightarrow> ptr_load (p, b) s = child s k p"
  by (simp only: held_def child_def)

lemma held_keeps: "held s k p b \<Longrightarrow> keeps s s' \<Longrightarrow> held s' k p b"
  by (auto simp: held_def keeps_def unchanged_def Less_def)

definition at_location :: "('k::linorder, 'v) ltree \<Rightarrow> 'k \<Rightarrow> location \<Rightarrow> bool" where
  "at_location s k = (\<lambda>(gp, gp_left, p, p_left, l).
     held s k p p_left \<and> ptr_load (p, p_left) s = l \<and> l \<in> nodes s \<and>
     (if p = root s then gp = nullptr else held s k gp gp_left))"

lemma held_down:
  assumes "wf_ltree s" "held s k p b" "\<not> is_leaf (node s (child s k p))" "keeps s s'"
  shows "held s' k (child s k p) (Less s' k (child s k p))" "child s k p \<noteq> root s'"
proof -
  have p: "p \<in> nodes s" "\<not> is_leaf (node s p)" "good s k p" using assms(2) by (simp_all add: held_def)
  have c: "child s k p \<in> nodes s - {root s}" "good s k (child s k p)"
    by (rule wf_children [OF assms(1) p(1,2)], rule good_child [OF p(3,2)])
  with assms(3,4) show "held s' k (child s k p) (Less s' k (child s k p))" "child s k p \<noteq> root s'"
    by (auto simp: held_def keeps_def unchanged_def)
qed

lemma tree_loop_result:
  assumes "lt.rely env" "wf_ltree s" "at_location s k (gp, gl, p, pl, l)"
    and "find_loop env k fuel (gp, gl, p, pl, l) s = Some (loc, s')"
  shows "lt.evolves s s' \<and> wf_ltree s' \<and> at_location s' k loc \<and> is_leaf (node s' (snd (snd (snd (snd loc)))))"
  using assms(2-)
proof (induction fuel arbitrary: gp gl p pl l s)
  case (Suc fuel)
  show ?case
  proof (cases "is_leaf (node s l)")
    case True
    with Suc.prems show ?thesis by auto
  next
    case False
    let ?s = "env fuel s" and ?b = "Less (env fuel s) k l"
    have ev: "lt.evolves s ?s" by (rule lt.relyD [OF assms(1)])
    then have kp: "keeps s ?s" and wf: "wf_ltree ?s" using Suc.prems(1) by (simp_all add: lt.evolves_def)
    have h: "held s k p pl" and l: "l = child s k p"
      using Suc.prems(2) held_child by (auto simp: at_location_def)
    have hl: "held ?s k l ?b" "l \<noteq> root ?s"
      using held_down [OF Suc.prems(1) h _ kp] False unfolding l by simp_all
    have "ptr_load (l, ?b) ?s \<in> nodes ?s"
      using wf_children [OF wf] hl held_child [OF hl(1)] by (auto simp: held_def)
    then have at: "at_location ?s k (p, pl, l, ?b, ptr_load (l, ?b) ?s)"
      using hl held_keeps [OF h kp] by (simp add: at_location_def)
    have "find_loop env k fuel (p, pl, l, ?b, ptr_load (l, ?b) ?s) ?s = Some (loc, s')"
      using Suc.prems(3) False by (simp only: find_loop.simps Let_def if_True simp_thms)
    from Suc.IH [OF wf at this] ev show ?thesis by (blast intro: lt.evolves_trans)
  qed
qed simp

lemma tree_location_result:
  assumes "lt.rely env" "wf_ltree s" "find_location env fuel k s = Some ((gp, gl, p, pl, l), s')"
  shows "lt.evolves s s' \<and> wf_ltree s' \<and> at_location s' k (gp, gl, p, pl, l) \<and> is_leaf (node s' l)"
proof -
  have "at_location s k (nullptr, False, root s, True, left (node s (root s)))"
    using ltree_root [OF assms(2)] wf_children [OF assms(2), of "root s" k]
    by (auto simp: at_location_def held_def child_def)
  from tree_loop_result [OF assms(1,2) this] assms(3) show ?thesis
    unfolding find_location_def by fastforce
qed

section \<open>Inserting a leaf\<close>

text \<open>An allocator returns storage that is not in use.\<close>

definition allocates :: "(('k, 'v) ltree \<Rightarrow> addr) \<Rightarrow> bool" where
  "allocates alloc \<longleftrightarrow> (\<forall>s. finite (nodes s) \<longrightarrow> alloc s \<notin> nodes s \<and> alloc s \<noteq> nullptr)"

lemma splice_in_facts:
  assumes "allocates alloc" "finite (nodes s)" "nullptr \<notin> nodes s" "l \<in> nodes s" "p \<in> nodes s"
  obtains m n where "m \<notin> nodes s" "n \<notin> nodes s" "m \<noteq> n" "m \<noteq> nullptr" "n \<noteq> nullptr"
    "nodes (splice_in alloc (p, b) l k v s) = insert n (insert m (nodes s))"
    "root (splice_in alloc (p, b) l k v s) = root s"
    "node (splice_in alloc (p, b) l k v s) m = \<lparr>key = k, is_leaf = True, is_sentinal = False, removed = False,
        left = nullptr, right = nullptr, val = v\<rparr>"
    "node (splice_in alloc (p, b) l k v s) n = \<lparr>key = (if Less s k l then key (node s l) else k), is_leaf = False,
        is_sentinal = False, removed = False, left = (if Less s k l then m else l),
        right = (if Less s k l then l else m), val = val (node (splice_in alloc (p, b) l k v s) n)\<rparr>"
    "\<forall>q\<in>nodes s. unchanged s (splice_in alloc (p, b) l k v s) q \<and>
       removed (node (splice_in alloc (p, b) l k v s) q) = removed (node s q) \<and>
       (\<forall>c. ptr_load (q, c) (splice_in alloc (p, b) l k v s) = (if q = p \<and> c = b then n else ptr_load (q, c) s))"
proof -
  define m s1 where m: "m = alloc s" and s1: "s1 = snd (new_leaf alloc k v s)"
  define n where n: "n = alloc s1"
  have m': "m \<notin> nodes s" "m \<noteq> nullptr" using assms(1,2) by (auto simp: m allocates_def)
  have s1': "nodes s1 = insert m (nodes s)" "root s1 = root s" "node s1 = (node s)(m := \<lparr>key = k, is_leaf = True,
      is_sentinal = False, removed = False, left = nullptr, right = nullptr, val = v\<rparr>)"
    by (simp_all add: s1 m new_leaf_def Let_def)
  have "finite (nodes s1)" using s1'(1) assms(2) by simp
  then have n': "n \<notin> nodes s1" "n \<noteq> nullptr" using assms(1) by (simp_all add: n allocates_def)
  have nl: "new_leaf alloc k v s = (m, s1)" by (simp add: m s1 new_leaf_def Let_def)
  have le: "Less s1 k l = Less s k l" "key (node s1 l) = key (node s l)" using assms(4) m' s1'(3) by (auto simp: Less_def)
  have dis: "l \<noteq> m" "p \<noteq> m" "l \<noteq> n" "p \<noteq> n" "m \<noteq> n" using m' n' s1'(1) assms(4,5) by auto
  let ?s = "splice_in alloc (p, b) l k v s"
  have s': "?s = ptr_store (p, b) n (snd (if Less s k l then new_internal alloc (key (node s l)) m l s1
                                           else new_internal alloc k l m s1))"
    by (simp add: splice_in_def nl le new_internal_def Let_def n)
  show thesis
  proof (rule that [of m n])
    show "\<forall>q\<in>nodes s. unchanged s ?s q \<and> removed (node ?s q) = removed (node s q) \<and>
       (\<forall>c. ptr_load (q, c) ?s = (if q = p \<and> c = b then n else ptr_load (q, c) s))"
    proof
      fix q assume "q \<in> nodes s"
      then have "q \<noteq> m" "q \<noteq> n" using m' n' s1'(1) by auto
      then show "unchanged s ?s q \<and> removed (node ?s q) = removed (node s q) \<and>
       (\<forall>c. ptr_load (q, c) ?s = (if q = p \<and> c = b then n else ptr_load (q, c) s))"
        using dis unfolding s' by (auto simp: new_internal_def Let_def s1' n [symmetric] unchanged_def)
    qed
  qed (use m' n' s1' dis in \<open>auto simp: s' new_internal_def Let_def n [symmetric]\<close>)
qed

lemma sub_at_path: "n = length (path s k t) \<Longrightarrow> sub_at s k n t = Lf (leaf_at s k t)"
  by (induction t arbitrary: n) auto

lemma ltree_abs_iff:
  assumes "tree_ok s t"
  shows "ltree_abs s k = Some v \<longleftrightarrow> (\<exists>x\<in>set (leaves t). \<not> is_sentinal (node s x) \<and> key (node s x) = k \<and> val (node s x) = v)"
proof -
  have t: "trep s t" "ordered s t" using assms by (auto simp: tree_ok_def)
  have "leaf_at s k t = x" if "x \<in> set (leaves t)" "\<not> is_sentinal (node s x)" "key (node s x) = k" for x
    using own_leaf [OF t(2,1) that(1,2)] that(3) by simp
  moreover have "leaf_at s k t \<in> set (leaves t)" by (rule leaf_at_leaves)
  moreover have "Equal s k x \<longleftrightarrow> \<not> is_sentinal (node s x) \<and> key (node s x) = k" for x
    by (auto simp: Equal_def)
  ultimately show ?thesis unfolding lookup_leaf [OF assms, of k] by (metis option.distinct(1) option.inject)
qed

lemma map_eq_someI: "(\<And>k v. m k = Some v \<longleftrightarrow> m' k = Some v) \<Longrightarrow> m = m'"
  by (rule ext) (metis not_Some_eq)

lemma held_on_path:
  assumes "held s k p b" "\<not> removed (node s p)"
  shows "reach s k (root s) p"
  using assms reach_refl by (fastforce simp: held_def good_def)

lemma splice_in_tree:
  assumes al: "allocates alloc" and ok: "tree_ok s t" and h: "held s k p b" "\<not> removed (node s p)"
    and l: "ptr_load (p, b) s = l" "is_leaf (node s l)" "\<not> Equal s k l"
    and s': "s' = splice_in alloc (p, b) l k v s"
  shows "wf_ltree s' \<and> ltree_abs s k = None \<and> ltree_abs s' = (ltree_abs s)(k \<mapsto> v)"
proof -
  have T: "trep s t" "distinct (addrs t)" "root s \<notin> set (addrs t)" "set (addrs t) \<subseteq> nodes s" "finite (nodes s)" "nullptr \<notin> nodes s"
    "root s \<in> nodes s"
    using ok by (auto simp: tree_ok_def)
  have p: "p \<in> nodes s" "\<not> is_leaf (node s p)" using h(1) by (auto simp: held_def)
  have lc: "l = child s k p" using l(1) held_child [OF h(1)] by simp
  have pl: "l = leaf_at s k t" "p = last (root s # path s k t)"
    using reach_root_leaf [OF ok held_on_path [OF h] p(2)] l(2) lc by auto
  then have lt: "l \<in> set (leaves t)" "l \<in> set (addrs t)" using leaf_at_leaves leaves_addrs by blast+
  then have ln: "l \<in> nodes s" using T(4) by blast
  let ?n = "length (path s k t)"
  have sub: "sub_at s k ?n t = Lf l" using sub_at_path pl(1) by blast
  obtain m n where N: "m \<notin> nodes s" "n \<notin> nodes s" "m \<noteq> n" "m \<noteq> nullptr" "n \<noteq> nullptr"
    "nodes s' = insert n (insert m (nodes s))" "root s' = root s"
    "node s' m = \<lparr>key = k, is_leaf = True, is_sentinal = False, removed = False, left = nullptr, right = nullptr, val = v\<rparr>"
    "node s' n = \<lparr>key = (if Less s k l then key (node s l) else k), is_leaf = False, is_sentinal = False, removed = False,
        left = (if Less s k l then m else l), right = (if Less s k l then l else m), val = val (node s' n)\<rparr>"
    "\<forall>q\<in>nodes s. unchanged s s' q \<and> removed (node s' q) = removed (node s q) \<and>
       (\<forall>c. ptr_load (q, c) s' = (if q = p \<and> c = b then n else ptr_load (q, c) s))"
    unfolding s' by (rule splice_in_facts [OF al T(5,6) ln p(1), of b k v])
  have unl: "unchanged s s' l" using N(10) ln by blast
  define x where "x = (if Less s k l then Nd n (Lf m) (Lf l) else Nd n (Lf l) (Lf m))"
  have Nn: "\<not> is_leaf (node s' n)" "\<not> is_sentinal (node s' n)" "\<not> removed (node s' n)"
    "left (node s' n) = (if Less s k l then m else l)" "right (node s' n) = (if Less s k l then l else m)"
    "key (node s' n) = (if Less s k l then key (node s l) else k)"
    by (subst N(9), simp)+
  have lmn: "l \<noteq> m" "l \<noteq> n" using ln N(1,2) by auto
  have ok': "tree_ok s' (replace_at s k ?n x t)"
  proof (rule tree_ok_replace [OF ok order.refl, where P = p])
    show "p = (root s # path s k t) ! ?n" using pl(2) by (simp add: last_conv_nth)
    show "trep s' x" "\<forall>q\<in>set (internals x). \<not> removed (node s' q)"
      using l(2) unl Nn by (auto simp: x_def N(8) unchanged_def)
    show "ordered s' x"
      using Nn(6) unl l(3) by (auto simp: x_def leaf_keys_def N(8) unchanged_def Less_def Equal_def)
    show "leaf_keys s' x \<subseteq> insert k (leaf_keys s' (sub_at s k ?n t))"
      unfolding sub by (auto simp: x_def leaf_keys_def N(8))
    show "senti s' b (sub_at s k ?n t) \<Longrightarrow> senti s' b x" for b
      unfolding sub using unl by (auto simp: x_def N(8) unchanged_def Less_def)
    show "\<forall>q\<in>nodes s. \<forall>c. ptr_load (q, c) s' = (if q = p \<and> c = (p = root s \<or> Less s k p) then top_addr x else ptr_load (q, c) s)"
      using N(10) h(1) by (auto simp: held_def x_def)
    show "\<forall>q\<in>nodes s' - nodes s. \<not> is_leaf (node s' q) \<longrightarrow>
      left (node s' q) \<in> nodes s' - {root s} \<and> right (node s' q) \<in> nodes s' - {root s} \<and> \<not> is_sentinal (node s' q)"
    proof -
      have "nodes s' - nodes s = {n, m}" using N(1,2,6) by auto
      moreover have "l \<noteq> root s" "m \<noteq> root s" using lt(2) T(3,7) N(1) by auto
      ultimately show ?thesis by (simp add: Nn N(6,8) ln)
    qed
  qed (use N(1-7,10) T(5,6) ln lmn in \<open>auto simp: x_def sub\<close>)
  have "mset (leaves (replace_at s k ?n x t)) + mset [l] = mset (leaves t) + mset (leaves x)"
    using leaves_replace_at [of s k ?n x t] sub by simp
  then have "mset (leaves (replace_at s k ?n x t)) = add_mset m (mset (leaves t))" by (auto simp: x_def)
  then have lv: "set (leaves (replace_at s k ?n x t)) = insert m (set (leaves t))"
    by (metis set_mset_add_mset_insert set_mset_mset)
  have none: "ltree_abs s k = None" using lookup_leaf [OF ok, of k] pl(1) l(3) by simp
  have un: "unchanged s s' q" if "q \<in> set (leaves t)" for q using N(10) that leaves_addrs T(4) by blast
  have "ltree_abs s' j = Some w \<longleftrightarrow> ((ltree_abs s)(k \<mapsto> v)) j = Some w" for j w
  proof -
    have "(\<exists>x\<in>set (leaves t). \<not> is_sentinal (node s' x) \<and> key (node s' x) = j \<and> val (node s' x) = w) \<longleftrightarrow>
        (\<exists>x\<in>set (leaves t). \<not> is_sentinal (node s x) \<and> key (node s x) = j \<and> val (node s x) = w)"
      by (rule bex_cong [OF refl]) (use un in \<open>simp add: unchanged_def\<close>)
    then have "ltree_abs s' j = Some w \<longleftrightarrow> k = j \<and> v = w \<or> ltree_abs s j = Some w"
      unfolding ltree_abs_iff [OF ok'] ltree_abs_iff [OF ok] lv by (simp add: N(8))
    with none show ?thesis by auto
  qed
  then have "ltree_abs s' = (ltree_abs s)(k \<mapsto> v)" by (rule map_eq_someI)
  with ok' none show ?thesis unfolding wf_ltree_def by blast
qed

lemma reach_nodes: "wf_ltree s \<Longrightarrow> x \<in> nodes s \<Longrightarrow> reach s k x q \<Longrightarrow> q \<in> nodes s"
  by (rotate_tac 2, induction rule: reach.induct) (use wf_children in auto)

text \<open>Walks after an insertion: what they meet they met before, except the two new nodes.\<close>

lemma splice_in_keeps:
  assumes al: "allocates alloc" and ok: "tree_ok s t" and p: "p \<in> nodes s" "\<not> removed (node s p)" "\<not> is_leaf (node s p)"
    and l: "ptr_load (p, b) s = l" "is_leaf (node s l)" "l \<in> nodes s"
    and s': "s' = splice_in alloc (p, b) l k v s"
  shows "keeps s s'"
proof -
  have T: "finite (nodes s)" "nullptr \<notin> nodes s" using ok by (auto simp: tree_ok_def)
  have wf: "wf_ltree s" using ok by (auto simp: wf_ltree_def)
  obtain m n where M: "m \<notin> nodes s" "n \<notin> nodes s" "m \<noteq> n" "m \<noteq> nullptr" "n \<noteq> nullptr"
    "nodes s' = insert n (insert m (nodes s))" "root s' = root s"
    "node s' m = \<lparr>key = k, is_leaf = True, is_sentinal = False, removed = False, left = nullptr, right = nullptr, val = v\<rparr>"
    "node s' n = \<lparr>key = (if Less s k l then key (node s l) else k), is_leaf = False, is_sentinal = False, removed = False,
        left = (if Less s k l then m else l), right = (if Less s k l then l else m), val = val (node s' n)\<rparr>"
    "\<forall>q\<in>nodes s. unchanged s s' q \<and> removed (node s' q) = removed (node s q) \<and>
       (\<forall>c. ptr_load (q, c) s' = (if q = p \<and> c = b then n else ptr_load (q, c) s))"
    unfolding s' by (rule splice_in_facts [OF al T l(3) p(1), of b k v])
  have n: "\<not> is_leaf (node s' n)" "{left (node s' n), right (node s' n)} \<subseteq> {l, m}" by (subst M(9), simp)+
  have "is_leaf (node s' m)" by (simp add: M(8))
  note N = M(1,2,3,6,7) this n M(10)
  have N': "unchanged s s' q" "removed (node s' q) = removed (node s q)" "is_leaf (node s' q) = is_leaf (node s q)"
    if "q \<in> nodes s" for q
    using N(9) that by (auto simp: unchanged_def)
  have dir: "(q = root s' \<or> Less s' j q) = (q = root s \<or> Less s j q)" if "q \<in> nodes s" for q j
    using N'(1) [OF that] N(5) by (simp add: unchanged_def Less_def)
  have ch: "child s' j q = (if q = p \<and> b = (q = root s \<or> Less s j q) then n else child s j q)"
    if "q \<in> nodes s" for q j
    using N(9) that unfolding child_def dir [OF that] by auto
  have "good s' j x" if x: "x \<in> nodes s" "good s j x" for j x
  proof -
    have fwd: "q \<in> nodes s \<and> reach s j x q \<or> q \<in> {n, m} \<and> reach s j x p \<and> b = (p = root s \<or> Less s j p)"
      if "reach s' j x q" for q
      using that
    proof (induction rule: reach.induct)
      case reach_refl
      show ?case using x by (simp add: reach.reach_refl)
    next
      case (reach_step q)
      show ?case
      proof (cases "q \<in> nodes s \<and> reach s j x q")
        case True
        then have q: "q \<in> nodes s" "reach s j x q" "\<not> is_leaf (node s q)" using reach_step.hyps N'(3) by auto
        then have "child s j q \<in> nodes s" "reach s j x (child s j q)"
          using wf_children [OF wf q(1,3)] reach.reach_step by auto
        with q ch [OF q(1), of j] show ?thesis by auto
      next
        case False
        with reach_step.IH reach_step.hyps N(6) have q: "q = n" "reach s j x p" "b = (p = root s \<or> Less s j p)" by auto
        then have "child s j p = l" using l(1) by (simp add: child_def)
        then have "reach s j x l" using q(2) p(3) reach.reach_step by metis
        moreover have "child s' j n \<in> {l, m}" using N(8) by (auto simp: child_def)
        ultimately show ?thesis using q l(3) by auto
      qed
    qed
    have bwd: "reach s' j (root s) q" if "reach s j (root s) q" "\<not> is_leaf (node s q)" for q
      using that
    proof (induction rule: reach.induct)
      case (reach_step q)
      have qn: "q \<in> nodes s" by (rule reach_nodes [OF wf _ reach_step.hyps(1)]) (use ltree_root [OF wf] in simp)
      have "child s j q = l" if "q = p \<and> b = (q = root s \<or> Less s j q)"
      proof -
        from that have "(q, q = root s \<or> Less s j q) = (p, b)" by simp
        with l(1) show ?thesis by (simp only: child_def)
      qed
      then have "\<not> (q = p \<and> b = (q = root s \<or> Less s j q))" using reach_step.prems l(2) by auto
      then have "child s' j q = child s j q" using ch [OF qn] by auto
      with reach.reach_step [OF reach_step.IH [OF reach_step.hyps(2)]] N'(3) [OF qn] reach_step.hyps(2) show ?case by metis
    qed (rule reach.reach_refl)
    show ?thesis
      unfolding good_def
    proof (intro allI impI, elim conjE)
      fix q assume q: "reach s' j x q" "\<not> is_leaf (node s' q)" "\<not> removed (node s' q)"
      show "reach s' j (root s') q"
      proof (cases "q \<in> nodes s \<and> reach s j x q")
        case True
        then show ?thesis using q x(2) bwd N'(2,3) N(5) unfolding good_def by metis
      next
        case False
        with fwd [OF q(1)] q(2) N(6) have qn: "q = n" "reach s j x p" "b = (p = root s \<or> Less s j p)" by auto
        then have "reach s' j (root s) p" using bwd x(2) p(2,3) by (auto simp: good_def)
        then have "reach s' j (root s) (child s' j p)" using reach.reach_step N'(3) [OF p(1)] p(3) by metis
        then show ?thesis using ch [OF p(1), of j] qn N(5) by simp
      qed
    qed
  qed
  then show ?thesis using N(4,5) N' unfolding keeps_def by auto
qed

section \<open>Removing a leaf\<close>

lemma path_nth:
  assumes "trep s t" "root s \<notin> set (addrs t)" "i < length (path s k t)"
  shows "child s k (path s k t ! i) = (path s k t @ [leaf_at s k t]) ! Suc i"
  using assms
proof (induction t arbitrary: i)
  case (Nd a l r)
  let ?c = "if Less s k a then l else r"
  have c: "trep s ?c" "root s \<notin> set (addrs ?c)" using Nd.prems by auto
  show ?case
  proof (cases i)
    case 0
    have "child s k a = top_addr ?c" by (rule child_top) (use Nd.prems in auto)
    with 0 path_top [OF c(1), of k] show ?thesis by (simp add: hd_conv_nth)
  next
    case (Suc j)
    have "child s k (path s k ?c ! j) = (path s k ?c @ [leaf_at s k ?c]) ! Suc j"
      using Nd.IH Nd.prems Suc by (auto split: if_splits)
    with Suc show ?thesis by simp
  qed
qed simp

lemma distinct_path: "distinct (addrs t) \<Longrightarrow> distinct (path s k t)"
proof (induction t)
  case (Nd a l r)
  then show ?case using path_addrs [of s k l] path_addrs [of s k r] by auto
qed simp

lemma path_parent:
  assumes ok: "tree_ok s t" and "g \<in> set (root s # path s k t)" "child s k g = last (path s k t)" "path s k t \<noteq> []"
  shows "g = (root s # path s k t) ! (length (path s k t) - 1)"
proof -
  have T: "trep s t" "root s \<notin> set (addrs t)" "distinct (addrs t)" "left (node s (root s)) = top_addr t"
    using ok by (auto simp: tree_ok_def)
  let ?p = "path s k t" and ?q = "root s # path s k t"
  obtain i where i: "i \<le> length ?p" "g = ?q ! i" using assms(2) by (metis in_set_conv_nth length_Cons less_Suc_eq_le)
  have step: "child s k (?q ! i) = (?p @ [leaf_at s k t]) ! i"
  proof (cases i)
    case 0
    then show ?thesis using path_top [OF T(1), of k] T(4) by (simp add: child_def hd_conv_nth)
  next
    case (Suc j)
    with path_nth [OF T(1,2), of j] i(1) show ?thesis by simp
  qed
  have "i \<noteq> length ?p"
  proof
    assume "i = length ?p"
    with step i assms(3) have "last ?p = leaf_at s k t" by simp
    then show False using assms(4) trep_internals [OF T(1)] path_internals [of s k t] leaf_at_trep [OF T(1), of k] last_in_set by fastforce
  qed
  with i(1) have lt: "i < length ?p" by simp
  have "last ?p = ?p ! (length ?p - 1)" using assms(4) by (simp add: last_conv_nth)
  moreover have "last ?p = ?p ! i" using step i(2) assms(3) lt by (simp add: nth_append)
  ultimately have "i = length ?p - 1" using distinct_path [OF T(3), of s k] lt assms(4) by (simp add: nth_eq_iff_index_eq)
  with i(2) show ?thesis by simp
qed

lemma sub_at_last:
  "path s k t \<noteq> [] \<Longrightarrow> \<exists>l r. sub_at s k (length (path s k t) - 1) t = Nd (last (path s k t)) l r \<and>
     (if Less s k (last (path s k t)) then l else r) = Lf (leaf_at s k t)"
proof (induction t)
  case (Nd a l r)
  let ?c = "if Less s k a then l else r"
  show ?case
  proof (cases "path s k ?c = []")
    case True
    then obtain x where "?c = Lf x" by (cases ?c) auto
    then show ?thesis by (auto split: if_splits)
  next
    case False
    then obtain m where m: "length (path s k ?c) = Suc m" by (cases "path s k ?c") auto
    have "\<exists>l r. sub_at s k m ?c = Nd (last (path s k ?c)) l r \<and> (if Less s k (last (path s k ?c)) then l else r) = Lf (leaf_at s k ?c)"
      using Nd.IH False m by (cases "Less s k a") auto
    with m False show ?thesis by simp
  qed
qed simp

lemma sub_at_props:
  "trep s t \<Longrightarrow> trep s (sub_at s k n t)" "ordered s t \<Longrightarrow> ordered s (sub_at s k n t)"
  "set (internals (sub_at s k n t)) \<subseteq> set (internals t)" "distinct (addrs t) \<Longrightarrow> distinct (addrs (sub_at s k n t))"
  by (induction s k n t rule: sub_at.induct) auto

lemma distinct_leaves: "distinct (addrs t) \<Longrightarrow> distinct (leaves t)"
proof (induction t)
  case (Nd a l r)
  then show ?case using leaves_addrs [of l] leaves_addrs [of r] by auto
qed simp

lemma sub_at_above:
  assumes "distinct (addrs t)" "i < n" "n \<le> length (path s k t)"
  shows "path s k t ! i \<notin> set (addrs (sub_at s k n t))"
  using assms
proof (induction n arbitrary: t i)
  case (Suc n)
  then obtain a l r where t: "t = Nd a l r" by (cases t) auto
  let ?c = "if Less s k a then l else r"
  have "distinct (addrs ?c)" "a \<notin> set (addrs ?c)" "n \<le> length (path s k ?c)" using Suc.prems t by auto
  with Suc.IH [of ?c "i - 1"] Suc.prems(2) sub_at_addrs [of s k n ?c] t show ?case by (cases i) auto
qed simp

lemma splice_out_facts:
  assumes "splice_out (gp, gb) p pb l s = (True, s')" "gp \<noteq> p"
  shows "nodes s' = nodes s" "root s' = root s" "\<And>q. unchanged s s' q" "linked_from (gp, gb) p s" "ptr_load (p, pb) s = l"
    "\<And>q. removed (node s' q) \<longleftrightarrow> q = p \<or> removed (node s q)"
    "\<And>q c. ptr_load (q, c) s' = (if q = gp \<and> c = gb then ptr_load (p, \<not> pb) s else ptr_load (q, c) s)"
  using assms
  by (auto simp: splice_out_def Let_def retire_leaf_def retire_internal_def set_removed_def unchanged_def split: if_splits)

lemma splice_out_tree:
  assumes ok: "tree_ok s t" and h: "held s k gp gb" "held s k p pb" "p \<noteq> root s"
    and run: "splice_out (gp, gb) p pb l s = (True, s')" and l: "is_leaf (node s l)" "Equal s k l"
  shows "wf_ltree s' \<and> ltree_abs s k = Some (val (node s l)) \<and> ltree_abs s' = (ltree_abs s)(k := None)"
proof -
  have T: "trep s t" "distinct (addrs t)" "root s \<notin> set (addrs t)" "set (addrs t) \<subseteq> nodes s" "finite (nodes s)" "nullptr \<notin> nodes s"
    "ordered s t" "\<forall>p\<in>set (internals t). \<not> removed (node s p)"
    using ok by (auto simp: tree_ok_def)
  have pl0: "ptr_load (gp, gb) s = p" "\<not> removed (node s gp)" "ptr_load (p, pb) s = l"
    using run by (auto simp: splice_out_def linked_from_def Let_def split: if_splits)
  have cg: "child s k gp = p" "child s k p = l" using pl0 held_child h(1,2) by metis+
  have hg: "\<not> is_leaf (node s gp)" "\<not> is_leaf (node s p)" using h by (auto simp: held_def)
  have rg: "reach s k (root s) gp" by (rule held_on_path [OF h(1) pl0(2)])
  then have "reach s k (root s) p" using reach_step [OF rg hg(1)] cg(1) by simp
  with reach_root_leaf [OF ok this hg(2)] cg(2) l(1) have pl: "l = leaf_at s k t" "p = last (root s # path s k t)" by auto
  then have ne: "path s k t \<noteq> []" and p: "p = last (path s k t)" using h(3) by (auto split: if_splits)
  have "gp \<in> set (root s # path s k t)" using reach_root_cases [OF ok rg] hg(1) leaf_at_trep [OF T(1)] by auto
  from path_parent [OF ok this _ ne] cg(1) p have gp: "gp = (root s # path s k t) ! (length (path s k t) - 1)" by simp
  have gpp: "gp \<noteq> p" using cg hg(2) l(1) by auto
  note F = splice_out_facts [OF run gpp]
  let ?n = "length (path s k t) - 1"
  obtain L R where sub: "sub_at s k ?n t = Nd p L R" "(if Less s k p then L else R) = Lf l"
    using sub_at_last [OF ne] p pl(1) by auto
  define x where "x = (if Less s k p then R else L)"
  have pb: "pb = Less s k p" using h(2,3) by (simp add: held_def)
  have S: "trep s (Nd p L R)" "ordered s (Nd p L R)" "set (internals (Nd p L R)) \<subseteq> set (internals t)" "distinct (addrs (Nd p L R))"
    "set (addrs (Nd p L R)) \<subseteq> nodes s"
    using sub_at_props(1) [OF T(1), of k ?n] sub_at_props(2) [OF T(7), of k ?n] sub_at_props(3) [of s k ?n t]
      sub_at_props(4) [OF T(2), of s k ?n] sub_at_addrs [of s k ?n t] T(4) unfolding sub(1) by auto
  have tx: "ptr_load (p, \<not> pb) s = top_addr x" using S(1) pb by (auto simp: x_def)
  have ax: "set (addrs x) \<subseteq> set (addrs (Nd p L R))" "p \<notin> set (addrs x)" using S(4) by (auto simp: x_def)
  have un: "\<forall>q\<in>A. unchanged s s' q" for A using F(3) by blast
  have ix: "q \<noteq> p \<and> \<not> removed (node s q)" if "q \<in> set (internals x)" for q
    using that S(3) T(8) ax(2) internals_addrs [of x] by (auto simp: x_def split: if_splits)
  have ptr': "\<forall>q\<in>nodes s. \<forall>c. ptr_load (q, c) s' = (if q = gp \<and> c = (gp = root s \<or> Less s k gp) then top_addr x else ptr_load (q, c) s)"
    using F(7) h(1) tx by (simp add: held_def)
  have xp: "\<And>q. q \<in> set (addrs x) \<Longrightarrow> left (node s' q) = left (node s q) \<and> right (node s' q) = right (node s q)"
  proof -
    fix q assume q: "q \<in> set (addrs x)"
    have "gp \<notin> set (addrs (Nd p L R))"
    proof (cases ?n)
      case 0
      with gp T(3) sub_at_addrs [of s k ?n t] show ?thesis unfolding sub(1) by auto
    next
      case (Suc i)
      have "gp = path s k t ! i" using gp unfolding Suc by simp
      with Suc sub_at_above [OF T(2), of i ?n s k] show ?thesis unfolding sub(1) by simp
    qed
    then have "q \<noteq> gp" using q ax(1) by auto
    with F(7) [of q True] F(7) [of q False] show "left (node s' q) = left (node s q) \<and> right (node s' q) = right (node s q)" by simp
  qed
  have ok': "tree_ok s' (replace_at s k ?n x t)"
  proof (rule tree_ok_replace [OF ok _ gp])
    show "trep s' x" using trep_frame [of x s s'] F(3) xp S(1) by (auto simp: x_def)
    show "ordered s' x" using replace_frame(1) [OF un] S(2) by (auto simp: x_def)
    show "leaf_keys s' x \<subseteq> insert k (leaf_keys s' (sub_at s k ?n t))"
      unfolding sub(1) by (auto simp: x_def leaf_keys_Nd)
    show "senti s' b (sub_at s k ?n t) \<Longrightarrow> senti s' b x" for b
      using l(2) sub(2) F(3) [of l] unfolding sub(1) by (auto simp: x_def Equal_def unchanged_def split: if_splits)
    show "\<forall>q\<in>nodes s. removed (node s' q) \<longrightarrow> removed (node s q) \<or> q \<in> set (addrs (sub_at s k ?n t)) - set (addrs x)"
      using F(6) ax(2) unfolding sub(1) by auto
    show "\<forall>q\<in>set (internals x). \<not> removed (node s' q)" using ix F(6) by auto
    show "set (addrs x) \<subseteq> nodes s'" "set (addrs x) \<inter> nodes s \<subseteq> set (addrs (sub_at s k ?n t))"
      using ax(1) S(5) F(1) unfolding sub(1) by blast+
    show "distinct (addrs x)" using S(4) by (simp add: x_def)
    show "\<forall>q\<in>nodes s. \<forall>c. ptr_load (q, c) s' = (if q = gp \<and> c = (gp = root s \<or> Less s k gp) then top_addr x else ptr_load (q, c) s)"
      by (rule ptr')
  qed (use F(1,2) T(5,6) un in simp_all)
  have ms: "mset (leaves (replace_at s k ?n x t)) + mset (leaves (Nd p L R)) = mset (leaves t) + mset (leaves x)"
    using leaves_replace_at [of s k ?n x t] sub(1) by simp
  have "mset (leaves (Nd p L R)) = add_mset l (mset (leaves x))" using sub(2) by (auto simp: x_def split: if_splits)
  with ms have "add_mset l (mset (leaves (replace_at s k ?n x t))) = mset (leaves t)" by simp
  then have lv: "set (leaves t) = insert l (set (leaves (replace_at s k ?n x t)))"
    by (metis set_mset_add_mset_insert set_mset_mset)
  have own: "q = l" if "q \<in> set (leaves t)" "\<not> is_sentinal (node s q)" "key (node s q) = k" for q
    using own_leaf [OF T(7,1) that(1,2)] that(3) pl(1) by simp
  have lk: "\<not> is_sentinal (node s l)" "key (node s l) = k" using l(2) by (auto simp: Equal_def)
  have "mset (l # leaves (replace_at s k ?n x t)) = mset (leaves t)"
    using \<open>add_mset l (mset (leaves (replace_at s k ?n x t))) = mset (leaves t)\<close> by simp
  then have gone: "l \<notin> set (leaves (replace_at s k ?n x t))"
    using distinct_leaves [OF T(2)] mset_eq_imp_distinct_iff by fastforce
  have "ltree_abs s' j = Some w \<longleftrightarrow> ((ltree_abs s)(k := None)) j = Some w" for j w
  proof -
    let ?e = "\<lambda>u q. \<not> is_sentinal (node u q) \<and> key (node u q) = j \<and> val (node u q) = w"
    have "ltree_abs s' j = Some w \<longleftrightarrow> (\<exists>q\<in>set (leaves (replace_at s k ?n x t)). ?e s q)"
      unfolding ltree_abs_iff [OF ok'] by (rule bex_cong [OF refl]) (use F(3) in \<open>simp add: unchanged_def\<close>)
    also have "\<dots> \<longleftrightarrow> j \<noteq> k \<and> (\<exists>q\<in>set (leaves t). ?e s q)" using own gone lk(2) unfolding lv by blast
    also have "\<dots> \<longleftrightarrow> ((ltree_abs s)(k := None)) j = Some w" using ltree_abs_iff [OF ok, of j w] by simp
    finally show ?thesis .
  qed
  then have "ltree_abs s' = (ltree_abs s)(k := None)" by (rule map_eq_someI)
  moreover have "ltree_abs s k = Some (val (node s l))" using lookup_leaf [OF ok, of k] pl(1) l(2) by simp
  ultimately show ?thesis using ok' unfolding wf_ltree_def by blast
qed

lemma splice_out_keeps:
  assumes ok: "tree_ok s t" and h: "gp \<in> nodes s" "p \<in> nodes s" "gp \<noteq> p" "p \<noteq> root s" "\<not> is_leaf (node s gp)" "\<not> is_leaf (node s p)"
    and run: "splice_out (gp, gb) p pb l s = (True, s')" and l: "is_leaf (node s l)"
  shows "keeps s s'"
proof -
  have wf: "wf_ltree s" using ok by (auto simp: wf_ltree_def)
  note F = splice_out_facts [OF run h(3)]
  let ?ll = "ptr_load (p, \<not> pb) s"
  have gp: "ptr_load (gp, gb) s = p" "\<not> removed (node s gp)" using F(4) by (auto simp: linked_from_def)
  have lf: "is_leaf (node s' q) = is_leaf (node s q)" for q using F(3) [of q] by (simp add: unchanged_def)
  have dir: "(q = root s' \<or> Less s' j q) = (q = root s \<or> Less s j q)" for q j
    using F(2) F(3) [of q] by (simp add: unchanged_def Less_def)
  have ch: "child s' j q = (if q = gp \<and> gb = (q = root s \<or> Less s j q) then ?ll else child s j q)" for q j
    unfolding child_def dir F(7) by auto
  have via: "child s j gp = p" if "gb = (gp = root s \<or> Less s j gp)" for j
    using gp(1) that by (simp only: child_def)
  have cp: "child s j p \<in> {?ll, l}" for j using F(5) by (auto simp: child_def)
  have "good s' j x" if x: "x \<in> nodes s" "good s j x" for j x
  proof -
    have fwd: "reach s j x q \<or> reach s j x gp \<and> gb = (gp = root s \<or> Less s j gp) \<and> reach s' j ?ll q"
      if "reach s' j x q" for q
      using that
    proof (induction rule: reach.induct)
      case (reach_step q)
      then have q: "\<not> is_leaf (node s q)" using lf by simp
      from reach_step.IH show ?case
      proof
        assume r: "reach s j x q"
        show ?thesis
        proof (cases "q = gp \<and> gb = (q = root s \<or> Less s j q)")
          case True
          with r ch [of j q] show ?thesis by (auto intro: reach.reach_refl)
        next
          case False
          with reach.reach_step [OF r q] ch [of j q] show ?thesis by auto
        qed
      next
        assume "reach s j x gp \<and> gb = (gp = root s \<or> Less s j gp) \<and> reach s' j ?ll q"
        with reach_step.hyps(2) show ?thesis by (blast intro: reach.reach_step)
      qed
    qed (simp add: reach.reach_refl)
    have bwd: "reach s' j (root s) q \<or> q = p \<and> reach s' j (root s) gp \<and> gb = (gp = root s \<or> Less s j gp) \<or> is_leaf (node s q)"
      if "reach s j (root s) q" for q
      using that
    proof (induction rule: reach.induct)
      case (reach_step q)
      show ?case
      proof (cases "q = p \<and> reach s' j (root s) gp \<and> gb = (gp = root s \<or> Less s j gp)")
        case True
        then have "reach s' j (root s) ?ll" using reach.reach_step [of s' j "root s" gp] ch [of j gp] lf h(5) by simp
        with True cp [of j] l show ?thesis by auto
      next
        case False
        with reach_step have r: "reach s' j (root s) q" by blast
        show ?thesis
        proof (cases "q = gp \<and> gb = (q = root s \<or> Less s j q)")
          case True
          with via r show ?thesis by auto
        next
          case False
          with reach.reach_step [OF r] ch [of j q] lf reach_step.hyps(2) show ?thesis by auto
        qed
      qed
    qed (simp add: reach.reach_refl)
    show ?thesis
      unfolding good_def
    proof (intro allI impI, elim conjE)
      fix q assume q: "reach s' j x q" "\<not> is_leaf (node s' q)" "\<not> removed (node s' q)"
      then have q': "\<not> is_leaf (node s q)" "\<not> removed (node s q)" "q \<noteq> p" using lf F(6) by auto
      show "reach s' j (root s') q"
      proof (cases "reach s j x q")
        case True
        with q' x(2) have "reach s j (root s) q" by (auto simp: good_def)
        with bwd q' F(2) show ?thesis by auto
      next
        case False
        with fwd [OF q(1)] have r: "reach s j x gp" "gb = (gp = root s \<or> Less s j gp)" "reach s' j ?ll q" by auto
        then have "reach s j (root s) gp" using x(2) gp(2) h(5) by (auto simp: good_def)
        then have "reach s' j (root s) gp" using bwd h(3,5) by blast
        then have "reach s' j (root s) ?ll" using reach.reach_step [of s' j "root s" gp] ch [of j gp] lf h(5) r(2) by simp
        then show ?thesis using reach_trans [OF r(3)] F(2) by simp
      qed
    qed
  qed
  then show ?thesis using F unfolding keeps_def by auto
qed

section \<open>Attempts under interference\<close>

text \<open>The leaf that the search finds, the state in which it was loaded, and the state of the validation.\<close>

definition load_state :: "('k::linorder, 'v) tenv \<Rightarrow> nat \<Rightarrow> 'k \<Rightarrow> ('k, 'v) ltree \<Rightarrow> ('k, 'v) ltree" where
  "load_state env fuel k s = (case find_location env fuel k s of None \<Rightarrow> s | Some (_, s1) \<Rightarrow> s1)"

definition found_sentinal :: "('k::linorder, 'v) tenv \<Rightarrow> nat \<Rightarrow> 'k \<Rightarrow> ('k, 'v) ltree \<Rightarrow> bool" where
  "found_sentinal env fuel k s =
     (case find_location env fuel k s of None \<Rightarrow> False | Some ((_, _, _, _, l), s1) \<Rightarrow> is_sentinal (node s1 l))"

lemma validated_leaf:
  assumes "tree_ok s t" "held s k p b" "linked_from (p, b) l s" "is_leaf (node s l)"
  shows "l = leaf_at s k t"
proof -
  have r: "reach s k (root s) p" using assms(2,3) by (intro held_on_path) (auto simp: linked_from_def)
  have "child s k p = l" using held_child [OF assms(2)] assms(3) by (simp add: linked_from_def)
  with reach_root_leaf [OF assms(1) r] assms(2,4) show ?thesis by (simp add: held_def)
qed

lemma equal_unchanged: "unchanged s s' l \<Longrightarrow> Equal s' k l = Equal s k l"
  by (simp add: unchanged_def Equal_def)

lemma found_later:
  assumes "lt.rely env" "lt.rely (\<lambda>_. e)" "wf_ltree s" "find_location env fuel k s = Some ((gp, gl, p, pl, l), s1)"
  shows "wf_ltree s1" "wf_ltree (e s1)" "keeps s1 (e s1)" "held s1 k p pl" "held (e s1) k p pl" "l \<in> nodes (e s1)"
    "ptr_load (p, pl) s1 = l" "is_leaf (node s1 l)" "is_leaf (node (e s1) l)" "Equal (e s1) k l = Equal s1 k l"
    "is_sentinal (node (e s1) l) = is_sentinal (node s1 l)"
    "p \<noteq> root s1 \<Longrightarrow> held s1 k gp gl \<and> held (e s1) k gp gl" "root (e s1) = root s1"
proof -
  note R = tree_location_result [OF assms(1,3,4)]
  have ev: "lt.evolves s1 (e s1)" using lt.relyD [OF assms(2)] .
  then show wf: "wf_ltree s1" "wf_ltree (e s1)" and kp: "keeps s1 (e s1)" using R by (auto simp: lt.evolves_def)
  have at: "at_location s1 k (gp, gl, p, pl, l)" using R by blast
  then have l: "l \<in> nodes s1" by (simp add: at_location_def)
  then have u: "unchanged s1 (e s1) l" using kp by (auto simp: keeps_def)
  show h: "held s1 k p pl" and "ptr_load (p, pl) s1 = l" using at by (auto simp: at_location_def)
  show "held (e s1) k p pl" by (rule held_keeps [OF h kp])
  show "l \<in> nodes (e s1)" using l kp by (auto simp: keeps_def)
  show "is_leaf (node s1 l)" using R by blast
  then show "is_leaf (node (e s1) l)" using u by (simp add: unchanged_def)
  show "Equal (e s1) k l = Equal s1 k l" by (rule equal_unchanged [OF u])
  show "is_sentinal (node (e s1) l) = is_sentinal (node s1 l)" using u by (simp add: unchanged_def)
  show "root (e s1) = root s1" using kp by (simp add: keeps_def)
  show "held s1 k gp gl \<and> held (e s1) k gp gl" if "p \<noteq> root s1"
    using at that held_keeps [OF _ kp] by (auto simp: at_location_def)
qed

lemma insert_tree_atomic:
  assumes al: "allocates alloc" and rely: "lt.rely env" "lt.rely (\<lambda>_. e)" and wf: "wf_ltree s"
    and run: "try_insert env e locked alloc fuel k v upsert s = (Some b, s')"
  shows "wf_ltree s' \<and> keeps (e (load_state env fuel k s)) s' \<and> (b \<longleftrightarrow> ltree_abs (e (load_state env fuel k s)) k = None) \<and>
    ltree_abs s' = (if b then (ltree_abs (e (load_state env fuel k s)))(k \<mapsto> v) else ltree_abs (e (load_state env fuel k s)))"
proof -
  obtain gp gl p pl l s1 where f: "find_location env fuel k s = Some ((gp, gl, p, pl, l), s1)"
    and lk: "linked_from (p, pl) l (e s1)"
    using run by (auto simp: Let_def split: option.splits if_splits)
  note R = found_later [OF rely wf f]
  obtain t where ok: "tree_ok (e s1) t" using R(2) by (auto simp: wf_ltree_def)
  have ls: "load_state env fuel k s = s1" by (simp add: load_state_def f)
  show ?thesis
  proof (cases "Equal s1 k l")
    case True
    with run f lk have "b = False" "s' = e s1" by (auto simp: Let_def)
    moreover have "ltree_abs (e s1) k \<noteq> None"
      using lookup_leaf [OF ok, of k] validated_leaf [OF ok R(5) lk R(9)] True R(10) by simp
    ultimately show ?thesis using R(2) ls by simp
  next
    case False
    then have b: "b" "s' = splice_in alloc (p, pl) l k v (e s1)"
      using run f lk R(10) by (auto simp: Let_def split: if_splits)
    have pl: "ptr_load (p, pl) (e s1) = l" "\<not> removed (node (e s1) p)" using lk by (auto simp: linked_from_def)
    have "wf_ltree s' \<and> ltree_abs (e s1) k = None \<and> ltree_abs s' = (ltree_abs (e s1))(k \<mapsto> v)"
      by (rule splice_in_tree [OF al ok R(5) pl(2,1) R(9) _ b(2)]) (use False R(10) in simp)
    moreover have "keeps (e s1) s'"
      by (rule splice_in_keeps [OF al ok _ pl(2) _ pl(1) R(9,6) b(2)]) (use R(5) in \<open>simp_all add: held_def\<close>)
    ultimately show ?thesis using b(1) ls by simp
  qed
qed

lemma root_leaf_sentinal:
  assumes "wf_ltree s" "held s k (root s) b" "ptr_load (root s, b) s = l" "is_leaf (node s l)"
  shows "is_sentinal (node s l)"
proof -
  obtain t where ok: "tree_ok s t" using assms(1) by (auto simp: wf_ltree_def)
  then have "top_addr t = l" "trep s t" "senti s True t" using assms(2,3) by (auto simp: tree_ok_def held_def)
  with assms(4) show ?thesis by (cases t) auto
qed

lemma remove_tree_atomic:
  assumes rely: "lt.rely env" "lt.rely (\<lambda>_. e)" and wf: "wf_ltree s"
    and run: "try_remove env e locked fuel k s = (Some b, s')"
  shows "wf_ltree s' \<and>
    (b \<longrightarrow> keeps (e (load_state env fuel k s)) s' \<and> ltree_abs (e (load_state env fuel k s)) k \<noteq> None \<and>
       ltree_abs s' = (ltree_abs (e (load_state env fuel k s)))(k := None)) \<and>
    (\<not> b \<longrightarrow> s' \<in> {load_state env fuel k s, e (load_state env fuel k s)} \<and>
       (found_sentinal env fuel k s \<or> ltree_abs (load_state env fuel k s) k = None))"
proof -
  obtain gp gl p pl l s1 where f: "find_location env fuel k s = Some ((gp, gl, p, pl, l), s1)"
    using run by (auto split: option.splits)
  note R = found_later [OF rely wf f]
  obtain t where ok: "tree_ok (e s1) t" using R(2) by (auto simp: wf_ltree_def)
  have ls: "load_state env fuel k s = s1" "found_sentinal env fuel k s = is_sentinal (node s1 l)"
    by (simp_all add: load_state_def found_sentinal_def f)
  show ?thesis
  proof (cases "is_sentinal (node s1 l)")
    case True
    with run f have "b = False" "s' = s1" by (auto simp: Let_def)
    with True R(1) ls show ?thesis by simp
  next
    case False
    then have pr: "p \<noteq> root s1" using root_leaf_sentinal [OF R(1) _ _ R(8)] R(4,7) by blast
    note g = R(12) [OF pr]
    show ?thesis
    proof (cases "Equal s1 k l")
      case True
      then have so: "splice_out (gp, gl) p pl l (e s1) = (True, s')" "b"
        using run f False by (auto simp: Let_def split: if_splits prod.splits bool.splits)
      have h: "held (e s1) k gp gl" "p \<noteq> root (e s1)" using g pr R(13) by simp_all
      have "wf_ltree s' \<and> ltree_abs (e s1) k = Some (val (node (e s1) l)) \<and> ltree_abs s' = (ltree_abs (e s1))(k := None)"
        by (rule splice_out_tree [OF ok h(1) R(5) h(2) so(1) R(9)]) (use True R(10) in simp)
      moreover have "gp \<noteq> p"
      proof
        assume "gp = p"
        then have "child (e s1) k p = p" "child (e s1) k p = l"
          using so(1) held_child [OF h(1)] held_child [OF R(5)]
          by (auto simp: splice_out_def linked_from_def Let_def split: if_splits)
        with R(5,9) show False by (simp add: held_def)
      qed
      then have "keeps (e s1) s'"
        by (intro splice_out_keeps [OF ok _ _ _ h(2) _ _ so(1) R(9)]) (use h(1) R(5) in \<open>auto simp: held_def\<close>)
      ultimately show ?thesis using so(2) ls by simp
    next
      case ne: False
      then have lk: "linked_from (gp, gl) p (e s1)" "b = False" "s' = e s1"
        using run f False by (auto simp: Let_def split: if_splits)
      have rg: "reach (e s1) k (root (e s1)) gp" using g lk(1) by (intro held_on_path) (auto simp: linked_from_def)
      have "child (e s1) k gp = p" using lk(1) held_child [OF conjunct2 [OF g]] by (simp only: linked_from_def)
      then have gn: "\<not> is_leaf (node (e s1) gp)" "child (e s1) k gp = p" "\<not> is_leaf (node (e s1) p)"
        using g R(5) by (simp_all add: held_def)
      have tr: "trep (e s1) t" using ok by (simp add: tree_ok_def)
      have "p \<in> set (root (e s1) # path (e s1) k t)"
        using reach_root_cases [OF ok reach_step [OF rg gn(1)]] gn leaf_at_trep [OF tr] by auto
      then have "\<not> removed (node (e s1) p)" using ok path_internals by (fastforce simp: tree_ok_def)
      then have "\<not> removed (node s1 p)" using R(3,4) by (auto simp: keeps_def held_def)
      then have "linked_from (p, pl) l s1" using R(7) by (simp add: linked_from_def)
      moreover obtain u where u: "tree_ok s1 u" using R(1) by (auto simp: wf_ltree_def)
      ultimately have "l = leaf_at s1 k u" using validated_leaf [OF u R(4)] R(8) by blast
      then have "ltree_abs s1 k = None" using lookup_leaf [OF u, of k] ne by simp
      then show ?thesis using lk(2,3) R(2) ls by simp
    qed
  qed
qed

section \<open>Without interference\<close>

abbreviation (input) idle :: "('k, 'v) tenv" where
  "idle \<equiv> \<lambda>_ s. s"

lemma tree_loop_total:
  assumes "trep s t" "length (path s k t) < fuel" "ptr_load (p, pb) s = top_addr t"
  shows "\<exists>gp' gb' p' pb'. find_loop idle k fuel (gp, gb, p, pb, top_addr t) s = Some ((gp', gb', p', pb', leaf_at s k t), s) \<and>
    p' \<in> set (p # path s k t) \<and> ptr_load (p', pb') s = leaf_at s k t \<and>
    (path s k t = [] \<and> p' = p \<or> gp' \<in> set (p # path s k t) \<and> ptr_load (gp', gb') s = p')"
  using assms
proof (induction t arbitrary: fuel gp gb p pb)
  case (Lf a)
  then show ?case by (cases fuel) auto
next
  case (Nd a l r)
  let ?c = "if Less s k a then l else r"
  obtain m where m: "fuel = Suc m" using Nd.prems(2) by (cases fuel) auto
  have c: "trep s ?c" "length (path s k ?c) < m" "ptr_load (a, Less s k a) s = top_addr ?c" using Nd.prems m by auto
  from Nd.IH c have "\<exists>gp' gb' p' pb'. find_loop idle k m (p, pb, a, Less s k a, top_addr ?c) s = Some ((gp', gb', p', pb', leaf_at s k ?c), s) \<and>
    p' \<in> set (a # path s k ?c) \<and> ptr_load (p', pb') s = leaf_at s k ?c \<and>
    (path s k ?c = [] \<and> p' = a \<or> gp' \<in> set (a # path s k ?c) \<and> ptr_load (gp', gb') s = p')"
    by (cases "Less s k a") (simp_all del: ptr_load.simps)
  then obtain gp' gb' p' pb' where F: "find_loop idle k m (p, pb, a, Less s k a, top_addr ?c) s = Some ((gp', gb', p', pb', leaf_at s k ?c), s)"
    and P: "p' \<in> set (a # path s k ?c)" "ptr_load (p', pb') s = leaf_at s k ?c"
    and G: "path s k ?c = [] \<and> p' = a \<or> gp' \<in> set (a # path s k ?c) \<and> ptr_load (gp', gb') s = p'"
    by blast
  have "find_loop idle k fuel (gp, gb, p, pb, a) s = Some ((gp', gb', p', pb', leaf_at s k ?c), s)"
    using F c(3) Nd.prems(1) m by (simp del: ptr_load.simps add: Let_def)
  moreover have "gp' \<in> set (p # a # path s k ?c) \<and> ptr_load (gp', gb') s = p'"
  proof (cases "path s k ?c = [] \<and> p' = a")
    case True
    then obtain x where "?c = Lf x" by (cases ?c) auto
    then have "trep s ?c \<and> is_leaf (node s (top_addr ?c))" using c(1) by (metis top_addr.simps(1) trep.simps(1))
    then have "gp' = p" "gb' = pb" using F c(2) by (cases m; simp)+
    with True Nd.prems(3) show ?thesis by simp
  qed (use G in auto)
  ultimately show ?case using P by (intro exI [of _ gp'] exI [of _ gb'] exI [of _ p'] exI [of _ pb']) (simp del: ptr_load.simps)
qed

lemma path_fuel:
  assumes "tree_ok s t"
  shows "length (path s k t) < card (nodes s)"
proof -
  have "length (path s k t) \<le> length (addrs t)" by (induction t) auto
  then show ?thesis using tree_ok_fuel [OF assms] by simp
qed

lemma tree_location_idle:
  assumes "wf_ltree s"
  obtains gp gb p pb l where "find_location idle (card (nodes s)) k s = Some ((gp, gb, p, pb, l), s)"
    "linked_from (p, pb) l s" "p = root s \<or> linked_from (gp, gb) p s" "ltree_abs s k = (if Equal s k l then Some (val (node s l)) else None)"
    "is_leaf (node s l)"
proof -
  obtain t where ok: "tree_ok s t" using assms by (auto simp: wf_ltree_def)
  then have T: "trep s t" "ptr_load (root s, True) s = top_addr t" "\<And>q. q \<in> set (root s # path s k t) \<Longrightarrow> \<not> removed (node s q)"
    using path_internals by (fastforce simp: tree_ok_def)+
  from tree_loop_total [OF T(1) path_fuel [OF ok] T(2), of k nullptr False]
  obtain gp gb p pb where F: "find_location idle (card (nodes s)) k s = Some ((gp, gb, p, pb, leaf_at s k t), s)"
    and P: "p \<in> set (root s # path s k t)" "ptr_load (p, pb) s = leaf_at s k t"
    and G: "path s k t = [] \<and> p = root s \<or> gp \<in> set (root s # path s k t) \<and> ptr_load (gp, gb) s = p"
    using T(2) unfolding find_location_def by auto
  have "p = root s \<or> linked_from (gp, gb) p s" using G T(3) by (auto simp: linked_from_def)
  with that [OF F] P T(3) lookup_leaf [OF ok, of k] leaf_at_trep [OF T(1)] show thesis
    by (simp add: linked_from_def)
qed

text \<open>Both searches of the code end at the same leaf.\<close>

lemma find_leaf_location:
  "find_leaf env k fuel l s = map_option (\<lambda>((gp, gb, p, pb, l), s'). (l, s')) (find_loop env k fuel (gp, gb, p, pb, l) s)"
  by (induction fuel arbitrary: gp gb p pb l s) (simp_all add: Let_def)

definition fresh_addr :: "('k, 'v) ltree \<Rightarrow> addr" where
  "fresh_addr s = Suc (Max (insert 0 (nodes s)))"

lemma allocates_fresh: "allocates fresh_addr"
  unfolding allocates_def
proof (intro allI impI conjI notI)
  fix s :: "('a, 'b) ltree" assume "finite (nodes s)" "fresh_addr s \<in> nodes s"
  then have "Suc (Max (insert 0 (nodes s))) \<le> Max (insert 0 (nodes s))" by (intro Max_ge) (auto simp: fresh_addr_def)
  then show False by simp
qed (simp add: fresh_addr_def)

definition tree_find :: "'k::linorder \<Rightarrow> ('k, 'v) ltree \<Rightarrow> 'v option" where
  "tree_find k s = (case find_plain idle (card (nodes s)) k s of Some r \<Rightarrow> r | None \<Rightarrow> None)"

definition tree_insert :: "'k::linorder \<Rightarrow> 'v \<Rightarrow> ('k, 'v) ltree \<Rightarrow> bool \<times> ('k, 'v) ltree" where
  "tree_insert k v s =
     (case insert_map (\<lambda>_. idle) (\<lambda>_ s. s) (\<lambda>_ _. True) fresh_addr (card (nodes s)) 1 k v s of
        Some r \<Rightarrow> r | None \<Rightarrow> (False, s))"

definition tree_remove :: "'k::linorder \<Rightarrow> ('k, 'v) ltree \<Rightarrow> bool \<times> ('k, 'v) ltree" where
  "tree_remove k s =
     (case remove_map (\<lambda>_. idle) (\<lambda>_ s. s) (\<lambda>_ _. True) (card (nodes s)) 1 k s of
        Some r \<Rightarrow> r | None \<Rightarrow> (False, s))"

lemma tree_find_abs:
  assumes "wf_ltree s"
  shows "tree_find k s = ltree_abs s k"
proof (rule tree_location_idle [OF assms, of k])
  fix gp gb p pb l
  assume "find_location idle (card (nodes s)) k s = Some ((gp, gb, p, pb, l), s)"
    "ltree_abs s k = (if Equal s k l then Some (val (node s l)) else None)"
  then show ?thesis
    unfolding tree_find_def find_plain_def find_location_def
    by (simp add: find_leaf_location [where gp = nullptr and gb = False and p = "root s" and pb = True])
qed

lemma tree_insert_abs:
  assumes wf: "wf_ltree s" and run: "tree_insert k v s = (b, s')"
  shows "wf_ltree s' \<and> (b \<longleftrightarrow> ltree_abs s k = None) \<and> ltree_abs s' = (if b then (ltree_abs s)(k \<mapsto> v) else ltree_abs s)"
proof (rule tree_location_idle [OF wf, of k])
  fix gp gb p pb l
  assume F: "find_location idle (card (nodes s)) k s = Some ((gp, gb, p, pb, l), s)" "linked_from (p, pb) l s"
  have "load_state idle (card (nodes s)) k s = s" by (simp add: load_state_def F(1))
  moreover have "try_insert idle (\<lambda>s. s) (\<lambda>_. True) fresh_addr (card (nodes s)) k v False s = (Some b, s')"
    using run F by (auto simp: tree_insert_def insert_map_def Let_def split: if_splits)
  ultimately show ?thesis
    using insert_tree_atomic [OF allocates_fresh lt.rely_idle lt.rely_idle wf, of "\<lambda>_. True" "card (nodes s)" k v False b s'] by simp
qed

lemma tree_remove_abs:
  assumes wf: "wf_ltree s" and run: "tree_remove k s = (b, s')"
  shows "wf_ltree s' \<and> (b \<longleftrightarrow> ltree_abs s k \<noteq> None) \<and> ltree_abs s' = (ltree_abs s)(k := None)"
proof (rule tree_location_idle [OF wf, of k])
  fix gp gb p pb l
  assume F: "find_location idle (card (nodes s)) k s = Some ((gp, gb, p, pb, l), s)" "linked_from (p, pb) l s"
    "p = root s \<or> linked_from (gp, gb) p s" "ltree_abs s k = (if Equal s k l then Some (val (node s l)) else None)"
    "is_leaf (node s l)"
  note R = found_later [OF lt.rely_idle lt.rely_idle wf F(1)]
  have ls: "load_state idle (card (nodes s)) k s = s" by (simp add: load_state_def F(1))
  have gp: "linked_from (gp, gb) p s" if "\<not> is_sentinal (node s l)"
    using F(3) root_leaf_sentinal [OF R(1)] R(4,7,8) that by blast
  obtain r where r: "try_remove idle (\<lambda>s. s) (\<lambda>_. True) (card (nodes s)) k s = (Some r, s')" "r = b"
    using run F(1,2) gp by (auto simp: tree_remove_def remove_map_def splice_out_def linked_from_def Let_def split: if_splits)
  have sent: "is_sentinal (node s l) \<Longrightarrow> ltree_abs s k = None" using F(4) by (simp add: Equal_def)
  have fs: "found_sentinal idle (card (nodes s)) k s = is_sentinal (node s l)" by (simp add: found_sentinal_def F(1))
  from remove_tree_atomic [OF lt.rely_idle lt.rely_idle wf r(1)] r(2) sent show ?thesis
    unfolding ls fs by (cases b) auto
qed

interpretation leaf_tree: map_adt wf_ltree ltree_abs tree_insert tree_remove tree_find
  by unfold_locales (rule tree_insert_abs, assumption+, rule tree_remove_abs, assumption+, rule tree_find_abs, assumption)

section \<open>The check and the destructor\<close>

lemma check_rec_tree:
  assumes "trep s t" "ordered s t" "senti s lm t" "length (addrs t) \<le> fuel"
  shows "\<exists>mn mx. check_rec fuel (top_addr t) lm s =
      Some ((mn, mx, int (length (leaves t)) - (if lm then 1 else 0)), True) \<and>
    (leaf_keys s t \<noteq> {} \<longrightarrow> mx \<in> leaf_keys s t) \<and> (\<not> lm \<longrightarrow> mn \<in> leaf_keys s t) \<and>
    (leaf_keys s t = {} \<longleftrightarrow> lm \<and> length (leaves t) = 1)"
  using assms
proof (induction t arbitrary: lm fuel)
  case (Lf a)
  then obtain m where "fuel = Suc m" by (cases fuel) auto
  with Lf show ?case by (auto simp: leaf_keys_def)
next
  case (Nd a l r)
  then obtain m where m: "fuel = Suc m" by (cases fuel) auto
  have pos: "0 < length (leaves t)" for t by (induction t) auto
  obtain lmin lmax where L: "check_rec m (top_addr l) lm s = Some ((lmin, lmax, int (length (leaves l)) - (if lm then 1 else 0)), True)"
    "leaf_keys s l \<noteq> {} \<longrightarrow> lmax \<in> leaf_keys s l" "\<not> lm \<longrightarrow> lmin \<in> leaf_keys s l"
    "leaf_keys s l = {} \<longleftrightarrow> lm \<and> length (leaves l) = 1"
    using Nd.IH(1) [of lm m] Nd.prems m by auto
  obtain rmin rmax where R: "check_rec m (top_addr r) False s = Some ((rmin, rmax, int (length (leaves r))), True)"
    "leaf_keys s r \<noteq> {}" "rmax \<in> leaf_keys s r" "rmin \<in> leaf_keys s r"
    using Nd.IH(2) [of False m] Nd.prems m by auto
  have "lmax < key (node s a)" if "int (length (leaves l)) - (if lm then 1 else 0) \<noteq> 0"
    using L(2,4) that Nd.prems(2) by (auto split: if_splits)
  moreover have "\<not> Less s rmin a" using R(4) Nd.prems(2) by (auto simp: Less_def not_less)
  moreover have "Less s lmax a = (lmax < key (node s a))" using Nd.prems(1) by (simp add: Less_def)
  moreover obtain i j where "length (leaves l) = Suc i" "length (leaves r) = Suc j"
    using pos [of l] pos [of r] by (metis gr0_implies_Suc)
  ultimately show ?case
    using L R Nd.prems(1) m by (auto simp: leaf_keys_Nd)
qed

lemma check_tree:
  assumes "tree_ok s t" "card (nodes s) \<le> fuel"
  shows "check fuel s = Some (int (length (leaves t)) - 1, True)"
proof -
  have "length (addrs t) \<le> fuel" using tree_ok_fuel [OF assms(1)] assms(2) by simp
  with check_rec_tree [of s t True fuel] assms(1) show ?thesis by (auto simp: check_def tree_ok_def)
qed

lemma retire_tree_all:
  assumes "trep s t" "length (addrs t) \<le> fuel" "nullptr \<notin> set (addrs t)"
  shows "\<exists>s'. retire_tree fuel (top_addr t) s = Some s' \<and> node s' = node s \<and>
    mset (internal_retired s') = mset (internals t) + mset (internal_retired s) \<and>
    mset (leaf_retired s') = mset (leaves t) + mset (leaf_retired s)"
  using assms
proof (induction t arbitrary: fuel s)
  case (Lf a)
  then show ?case by (cases fuel) (auto simp: retire_leaf_def)
next
  case (Nd a l r)
  then obtain m where m: "fuel = Suc m" by (cases fuel) auto
  obtain s1 where s1: "retire_tree m (top_addr l) s = Some s1" "node s1 = node s"
    "mset (internal_retired s1) = mset (internals l) + mset (internal_retired s)"
    "mset (leaf_retired s1) = mset (leaves l) + mset (leaf_retired s)"
    using Nd.IH(1) [of s m] Nd.prems m by auto
  have "trep s1 r" using Nd.prems(1) s1(2) trep_frame [of r s s1] by (simp add: unchanged_def)
  then obtain s2 where "retire_tree m (top_addr r) s1 = Some s2" "node s2 = node s1"
    "mset (internal_retired s2) = mset (internals r) + mset (internal_retired s1)"
    "mset (leaf_retired s2) = mset (leaves r) + mset (leaf_retired s1)"
    using Nd.IH(2) [of s1 m] Nd.prems m by auto
  with s1 Nd.prems m show ?case by (auto simp: retire_internal_def)
qed

section \<open>The promises of the tree\<close>

lemma tree_ok_empty: "r \<noteq> l \<Longrightarrow> r \<noteq> nullptr \<Longrightarrow> l \<noteq> nullptr \<Longrightarrow> tree_ok (empty_ltree r l (k::'k::linorder) v) (Lf l)"
  by (auto simp: tree_ok_def empty_ltree_def)

lemma wf_empty_ltree: "r \<noteq> l \<Longrightarrow> r \<noteq> nullptr \<Longrightarrow> l \<noteq> nullptr \<Longrightarrow> wf_ltree (empty_ltree r l (k::'k::linorder) v)"
  unfolding wf_ltree_def by (intro exI) (rule tree_ok_empty)

lemma empty_ltree_abs: "r \<noteq> l \<Longrightarrow> r \<noteq> nullptr \<Longrightarrow> l \<noteq> nullptr \<Longrightarrow> ltree_abs (empty_ltree r l (k::'k::linorder) v) = Map.empty"
  using tree_ok_abs [OF tree_ok_empty] by (simp add: leaf_entries_def empty_ltree_def)

text \<open>C16: An insertion attempt on the leaf tree that succeeds while other threads insert and remove
  acts atomically: it returns true exactly when the key is absent from the map that the tree
  represents at the validation, and then adds the entry. The tree stays well formed, and the
  change keeps to what other searches rely on.\<close>

theorem tree_try_insert_atomic:
  assumes "allocates alloc" "lt.rely env" "lt.rely (\<lambda>_. e)" "wf_ltree s"
    and "try_insert env e locked alloc fuel k v upsert s = (Some b, s')"
  shows "wf_ltree s' \<and> keeps (e (load_state env fuel k s)) s' \<and> (b \<longleftrightarrow> ltree_abs (e (load_state env fuel k s)) k = None) \<and>
    ltree_abs s' = (if b then (ltree_abs (e (load_state env fuel k s)))(k \<mapsto> v) else ltree_abs (e (load_state env fuel k s)))"
  by (rule insert_tree_atomic [OF assms])

definition one_leaf :: "(nat, nat) ltree" where
  "one_leaf = snd (try_insert idle (\<lambda>s. s) (\<lambda>_. True) fresh_addr 3 5 50 False (empty_ltree 1 2 0 0))"

lemmas tree_eval = find_location_def splice_in_def new_leaf_def new_internal_def Less_def Equal_def
  linked_from_def empty_ltree_def fresh_addr_def load_state_def numeral_3_eq_3 Let_def

lemma one_leaf_run:
  "try_insert idle (\<lambda>s. s) (\<lambda>_. True) fresh_addr 3 5 50 False (empty_ltree 1 2 0 0) = (Some True, one_leaf)"
  unfolding one_leaf_def by (simp add: tree_eval)

lemma wf_one_leaf: "wf_ltree one_leaf"
  using insert_tree_atomic [OF allocates_fresh lt.rely_idle lt.rely_idle wf_empty_ltree one_leaf_run] by simp

theorem tree_try_insert_atomic_witness: "wf_ltree one_leaf \<and> ltree_abs one_leaf = [5 \<mapsto> 50]"
proof -
  have "load_state idle 3 5 (empty_ltree 1 2 (0::nat) (0::nat)) = empty_ltree 1 2 0 0" by (simp add: tree_eval)
  with tree_try_insert_atomic [OF allocates_fresh lt.rely_idle lt.rely_idle wf_empty_ltree one_leaf_run]
  show ?thesis by (simp add: empty_ltree_abs)
qed

text \<open>A removal attempt on the leaf tree under interference: a successful one removes a key that
  is present at the validation and nothing else; one that reports an absent key changes
  nothing, and the key was absent when the leaf was loaded (unless the search met the
  sentinel, which is reported without validation).\<close>

theorem tree_try_remove_atomic:
  assumes "lt.rely env" "lt.rely (\<lambda>_. e)" "wf_ltree s" "try_remove env e locked fuel k s = (Some b, s')"
  shows "wf_ltree s' \<and>
    (b \<longrightarrow> keeps (e (load_state env fuel k s)) s' \<and> ltree_abs (e (load_state env fuel k s)) k \<noteq> None \<and>
       ltree_abs s' = (ltree_abs (e (load_state env fuel k s)))(k := None)) \<and>
    (\<not> b \<longrightarrow> s' \<in> {load_state env fuel k s, e (load_state env fuel k s)} \<and>
       (found_sentinal env fuel k s \<or> ltree_abs (load_state env fuel k s) k = None))"
  by (rule remove_tree_atomic [OF assms])

theorem tree_try_remove_atomic_witness:
  "wf_ltree (snd (try_remove idle (\<lambda>s. s) (\<lambda>_. True) 3 5 one_leaf)) \<and>
   ltree_abs (snd (try_remove idle (\<lambda>s. s) (\<lambda>_. True) 3 5 one_leaf)) 5 = None"
proof -
  obtain s' where run: "try_remove idle (\<lambda>s. s) (\<lambda>_. True) 3 5 one_leaf = (Some True, s')"
    by (simp add: one_leaf_def tree_eval splice_out_def)
  from tree_try_remove_atomic [OF lt.rely_idle lt.rely_idle wf_one_leaf run] run show ?thesis by simp
qed

text \<open>Without interference every history of find, insert and remove on the leaf tree returns what
  the abstract map returns and leaves a well-formed tree for the final map.\<close>

theorem leaf_tree_refines_map:
  assumes "wf_ltree s" "leaf_tree.impl_run xs s = (rs, s')"
  shows "wf_ltree s' \<and> spec_run xs (ltree_abs s) = (rs, ltree_abs s')"
  by (rule leaf_tree.impl_run_refines [OF assms])

theorem leaf_tree_refines_map_witness:
  "fst (leaf_tree.impl_run [Insert (3::nat) (30::nat), Insert 7 70, Find 3, Remove 3, Find 3] (empty_ltree 1 2 0 0)) =
     [Inserted True, Inserted True, Found (Some 30), Removed_key True, Found None]"
proof -
  let ?s = "empty_ltree 1 2 (0::nat) (0::nat)" and ?xs = "[Insert (3::nat) (30::nat), Insert 7 70, Find 3, Remove 3, Find 3]"
  have wf: "wf_ltree ?s" by (simp add: wf_empty_ltree)
  obtain rs s' where r: "leaf_tree.impl_run ?xs ?s = (rs, s')" by (metis prod.exhaust)
  from leaf_tree_refines_map [OF wf r] have "spec_run ?xs (ltree_abs ?s) = (rs, ltree_abs s')" by simp
  then show ?thesis unfolding r by (auto simp: empty_ltree_abs)
qed

end
