(* ===== verification/Hash_Block.thy ===== *)
theory Hash_Block
  imports Map_ADT
begin

text \<open>
  The hash table of \<^verbatim>\<open>structures/hash_block/unordered_map.h\<close>: a fixed array of buckets, each a
  versioned pointer to an immutable block of entries, which an update copies. Blocks come
  from pools of five sizes; the pool of a block is never stored, every place computes it
  from the number of entries. The model keeps both the pool a block was allocated from and
  the pool to which the code gives it back. An attempt loads the bucket, prepares a new
  block and installs it under the lock of the bucket if the pointer has not changed; the
  environment \<open>e\<close> runs between. The hash function is an argument.
\<close>

unbundle bit_operations_syntax

section \<open>Blocks\<close>

datatype pool = Pool1 | Pool3 | Pool7 | Pool31 | PoolBig

text \<open>\<open>entries\<close> is the array inside a \<open>Node\<close> and \<open>big_entries\<close> the vector of a \<open>BigNode\<close>; the code picks one by
  the count alone, whatever the block really is.\<close>

record ('k, 'v) block =
  pool_of :: pool
  cnt :: nat
  entries :: "('k \<times> 'v) list"
  big_entries :: "('k \<times> 'v) list"

fun capacity :: "pool \<Rightarrow> nat option" where
  "capacity Pool1 = Some 1"
| "capacity Pool3 = Some 3"
| "capacity Pool7 = Some 7"
| "capacity Pool31 = Some 31"
| "capacity PoolBig = None"

fun find_in_range_from :: "('k \<times> 'v) list \<Rightarrow> nat \<Rightarrow> nat \<Rightarrow> 'k \<Rightarrow> int" where
  "find_in_range_from xs i 0 k = -1"
| "find_in_range_from xs i (Suc n) k = (if fst (xs ! i) = k then int i else find_in_range_from xs (Suc i) n k)"

definition find_in_range :: "('k \<times> 'v) list \<Rightarrow> nat \<Rightarrow> 'k \<Rightarrow> int" where
  "find_in_range xs n k = find_in_range_from xs 0 n k"

definition copy_and_insert :: "('k \<times> 'v) list \<Rightarrow> nat \<Rightarrow> 'k \<Rightarrow> 'v \<Rightarrow> ('k \<times> 'v) list" where
  "copy_and_insert xs n k v = map (\<lambda>i. xs ! i) [0..<n] @ [(k, v)]"

text \<open>The loop that copies up to the key; \<open>None\<close> when it reads behind the last entry.\<close>

fun copy_until :: "('k \<times> 'v) list \<Rightarrow> 'k \<Rightarrow> nat \<Rightarrow> nat \<Rightarrow> (('k \<times> 'v) list \<times> nat) option" where
  "copy_until xs k 0 i = None"
| "copy_until xs k (Suc n) i =
     (if k \<noteq> fst (xs ! i) then map_option (\<lambda>(ys, j). (xs ! i # ys, j)) (copy_until xs k n (Suc i)) else Some ([], i))"

definition copy_and_update :: "('k \<times> 'v) list \<Rightarrow> nat \<Rightarrow> 'k \<Rightarrow> ('v option \<Rightarrow> 'v) \<Rightarrow> ('k \<times> 'v) list option" where
  "copy_and_update xs n k f =
     map_option (\<lambda>(ys, i). ys @ (fst (xs ! i), f (Some (snd (xs ! i)))) # map (\<lambda>j. xs ! j) [Suc i..<n])
       (copy_until xs k (length xs) 0)"

definition copy_and_remove :: "('k \<times> 'v) list \<Rightarrow> nat \<Rightarrow> 'k \<Rightarrow> ('k \<times> 'v) list option" where
  "copy_and_remove xs n k =
     map_option (\<lambda>(ys, i). ys @ map (\<lambda>j. xs ! (j + 1)) [i..<n - 1]) (copy_until xs k (length xs) 0)"

definition find_index :: "('k, 'v) block \<Rightarrow> 'k \<Rightarrow> int" where
  "find_index b k = (if cnt b \<le> 31 then find_in_range (entries b) (cnt b) k else find_in_range (big_entries b) (cnt b) k)"

text \<open>\<open>entries+1\<close> is the array without its first entry; the index found there is used on the whole array.\<close>

definition block_find :: "('k, 'v) block \<Rightarrow> 'k \<Rightarrow> 'v option" where
  "block_find b k =
     (if cnt b \<le> 31
      then if fst (entries b ! 0) = k then Some (snd (entries b ! 0))
           else let i = find_in_range (tl (entries b)) (cnt b - 1) k
                in if i = -1 then None else Some (snd (entries b ! nat i))
      else let i = find_in_range (big_entries b) (cnt b) k
           in if i = -1 then None else Some (snd (big_entries b ! nat i)))"

text \<open>The constructors of \<open>Node\<close> and \<open>BigNode\<close>; \<open>old\<close> is \<open>None\<close> for a null pointer.\<close>

definition Node_insert :: "pool \<Rightarrow> ('k, 'v) block option \<Rightarrow> 'k \<Rightarrow> 'v \<Rightarrow> ('k, 'v) block" where
  "Node_insert p old k v =
     (let n = (case old of None \<Rightarrow> 1 | Some b \<Rightarrow> cnt b + 1);
          xs = (case old of None \<Rightarrow> [] | Some b \<Rightarrow> entries b)
      in \<lparr>pool_of = p, cnt = n, entries = copy_and_insert xs (n - 1) k v, big_entries = []\<rparr>)"

definition Node_update :: "pool \<Rightarrow> ('k, 'v) block \<Rightarrow> 'k \<Rightarrow> ('v option \<Rightarrow> 'v) \<Rightarrow> ('k, 'v) block option" where
  "Node_update p old k f =
     map_option (\<lambda>xs. \<lparr>pool_of = p, cnt = cnt old, entries = xs, big_entries = []\<rparr>)
       (copy_and_update (entries old) (cnt old) k f)"

definition Node_remove :: "pool \<Rightarrow> ('k, 'v) block \<Rightarrow> 'k \<Rightarrow> ('k, 'v) block option" where
  "Node_remove p old k =
     (let n = cnt old - 1
      in map_option (\<lambda>xs. \<lparr>pool_of = p, cnt = n, entries = xs, big_entries = []\<rparr>)
           (if n = 31 then copy_and_remove (big_entries old) (n + 1) k else copy_and_remove (entries old) (n + 1) k))"

definition BigNode_insert :: "('k, 'v) block \<Rightarrow> 'k \<Rightarrow> 'v \<Rightarrow> ('k, 'v) block" where
  "BigNode_insert old k v =
     \<lparr>pool_of = PoolBig, cnt = cnt old + 1, entries = [],
      big_entries = (if cnt old = 31 then copy_and_insert (entries old) (cnt old) k v
                     else copy_and_insert (big_entries old) (cnt old) k v)\<rparr>"

definition BigNode_update :: "('k, 'v) block \<Rightarrow> 'k \<Rightarrow> ('v option \<Rightarrow> 'v) \<Rightarrow> ('k, 'v) block option" where
  "BigNode_update old k f =
     map_option (\<lambda>xs. \<lparr>pool_of = PoolBig, cnt = cnt old, entries = [], big_entries = xs\<rparr>)
       (copy_and_update (big_entries old) (cnt old) k f)"

definition BigNode_remove :: "('k, 'v) block \<Rightarrow> 'k \<Rightarrow> ('k, 'v) block option" where
  "BigNode_remove old k =
     (let n = cnt old - 1
      in map_option (\<lambda>xs. \<lparr>pool_of = PoolBig, cnt = n, entries = [], big_entries = xs\<rparr>)
           (copy_and_remove (big_entries old) (n + 1) k))"

section \<open>Choosing the pool\<close>

fun insert_to_node :: "('k, 'v) block option \<Rightarrow> 'k \<Rightarrow> 'v \<Rightarrow> ('k, 'v) block" where
  "insert_to_node None k v = Node_insert Pool1 None k v"
| "insert_to_node (Some old) k v =
     (if cnt old < 3 then Node_insert Pool3 (Some old) k v
      else if cnt old < 7 then Node_insert Pool7 (Some old) k v
      else if cnt old < 31 then Node_insert Pool31 (Some old) k v
      else BigNode_insert old k v)"

definition update_node :: "('k, 'v) block \<Rightarrow> 'k \<Rightarrow> ('v option \<Rightarrow> 'v) \<Rightarrow> ('k, 'v) block option" where
  "update_node old k f =
     (if cnt old = 1 then Node_update Pool1 old k f
      else if cnt old \<le> 3 then Node_update Pool3 old k f
      else if cnt old \<le> 7 then Node_update Pool7 old k f
      else if cnt old \<le> 31 then Node_update Pool31 old k f
      else BigNode_update old k f)"

text \<open>The result is \<open>Some None\<close> for the null pointer and \<open>None\<close> when a copy loop leaves its array.\<close>

definition remove_from_node :: "('k, 'v) block \<Rightarrow> 'k \<Rightarrow> ('k, 'v) block option option" where
  "remove_from_node old k =
     (if cnt old = 1 then Some None
      else map_option Some
        (if cnt old = 2 then Node_remove Pool1 old k
         else if cnt old \<le> 4 then Node_remove Pool3 old k
         else if cnt old \<le> 8 then Node_remove Pool7 old k
         else if cnt old \<le> 32 then Node_remove Pool31 old k
         else BigNode_remove old k))"

text \<open>The pool that \<open>retire_node\<close> and \<open>destruct_node\<close> give a block back to.\<close>

definition release_pool :: "('k, 'v) block \<Rightarrow> pool" where
  "release_pool b =
     (if cnt b = 1 then Pool1 else if cnt b \<le> 3 then Pool3 else if cnt b \<le> 7 then Pool7
      else if cnt b \<le> 31 then Pool31 else PoolBig)"

text \<open>\<open>update_node\<close> of \<^verbatim>\<open>new_unordered_map.h\<close>, which chooses the pool as for an insertion.\<close>

definition new_update_node :: "('k, 'v) block \<Rightarrow> 'k \<Rightarrow> ('v option \<Rightarrow> 'v) \<Rightarrow> ('k, 'v) block option" where
  "new_update_node old k f =
     (if cnt old < 3 then Node_update Pool3 old k f
      else if cnt old < 7 then Node_update Pool7 old k f
      else if cnt old < 31 then Node_update Pool31 old k f
      else BigNode_update old k f)"

section \<open>The table\<close>

record ('k, 'v) htable =
  blocks :: "addr \<Rightarrow> ('k, 'v) block"
  block_addrs :: "addr set"
  table :: "addr list"
  hsize :: u64
  given_back :: "(pool \<times> addr) list"

fun log2_up_loop :: "nat \<Rightarrow> nat" where
  "log2_up_loop b = (if b > 0 then Suc (log2_up_loop (b div 2)) else 0)"

declare log2_up_loop.simps [simp del]

definition log2_up :: "nat \<Rightarrow> nat" where
  "log2_up i = log2_up_loop (i - 1)"

definition new_Table :: "nat \<Rightarrow> ('k, 'v) block \<Rightarrow> ('k, 'v) htable" where
  "new_Table n junk =
     (let size = push_bit (log2_up n) (1 :: u64)
      in \<lparr>blocks = (\<lambda>_. junk), block_addrs = {}, table = replicate (unat size) nullptr, hsize = size, given_back = []\<rparr>)"

definition get_bucket :: "('k \<Rightarrow> u64) \<Rightarrow> 'k \<Rightarrow> ('k, 'v) htable \<Rightarrow> nat" where
  "get_bucket Hash k s = unat (Hash k AND (hsize s - 1))"

definition load_block :: "addr \<Rightarrow> ('k, 'v) htable \<Rightarrow> ('k, 'v) block option" where
  "load_block a s = (if a = nullptr then None else Some (blocks s a))"

definition new_block :: "(('k, 'v) htable \<Rightarrow> addr) \<Rightarrow> ('k, 'v) block \<Rightarrow> ('k, 'v) htable \<Rightarrow> addr \<times> ('k, 'v) htable" where
  "new_block alloc b s = (let a = alloc s in (a, s\<lparr>blocks := (blocks s)(a := b), block_addrs := insert a (block_addrs s)\<rparr>))"

definition set_bucket :: "nat \<Rightarrow> addr \<Rightarrow> ('k, 'v) htable \<Rightarrow> ('k, 'v) htable" where
  "set_bucket i a s = s\<lparr>table := (table s)[i := a]\<rparr>"

definition retire_node :: "addr \<Rightarrow> ('k, 'v) htable \<Rightarrow> ('k, 'v) htable" where
  "retire_node a s = (if a = nullptr then s else s\<lparr>given_back := (release_pool (blocks s a), a) # given_back s\<rparr>)"

definition destruct_node :: "addr \<Rightarrow> ('k, 'v) htable \<Rightarrow> ('k, 'v) htable" where
  "destruct_node a s = (if a = nullptr then s else s\<lparr>given_back := (release_pool (blocks s a), a) # given_back s\<rparr>)"

section \<open>Operations\<close>

text \<open>\<open>e\<close> is what other threads do before the lock of the bucket is taken, \<open>locked\<close> whether it is.\<close>

definition try_update :: "(('k, 'v) htable \<Rightarrow> ('k, 'v) htable) \<Rightarrow> bool \<Rightarrow> nat \<Rightarrow> addr \<Rightarrow> addr \<Rightarrow> bool
    \<Rightarrow> ('k, 'v) htable \<Rightarrow> bool option \<times> ('k, 'v) htable" where
  "try_update e locked i old_node new_node ret_val s =
     (let s1 = e s
      in if locked \<and> table s1 ! i = old_node
         then (Some ret_val, retire_node old_node (set_bucket i new_node s1))
         else (None, destruct_node new_node s1))"

definition try_insert_at :: "(('k, 'v) htable \<Rightarrow> ('k, 'v) htable) \<Rightarrow> bool \<Rightarrow> (('k, 'v) htable \<Rightarrow> addr) \<Rightarrow> nat \<Rightarrow> 'k \<Rightarrow> 'v
    \<Rightarrow> ('k, 'v) htable \<Rightarrow> bool option \<times> ('k, 'v) htable" where
  "try_insert_at e locked alloc i k v s =
     (let old_node = table s ! i
      in if old_node \<noteq> nullptr \<and> find_index (blocks s old_node) k \<noteq> -1
         then let s1 = e s in if table s1 ! i = old_node then (Some False, s1) else (None, s1)
         else let (new_node, s1) = new_block alloc (insert_to_node (load_block old_node s) k v) s
              in try_update e locked i old_node new_node True s1)"

text \<open>In an update of a present key the new block is made under the lock.\<close>

definition try_upsert_at :: "(('k, 'v) htable \<Rightarrow> ('k, 'v) htable) \<Rightarrow> bool \<Rightarrow> (('k, 'v) htable \<Rightarrow> addr) \<Rightarrow> nat \<Rightarrow> 'k
    \<Rightarrow> ('v option \<Rightarrow> 'v) \<Rightarrow> ('k, 'v) htable \<Rightarrow> bool option \<times> ('k, 'v) htable" where
  "try_upsert_at e locked alloc i k f s =
     (let old_node = table s ! i
      in if \<not> (old_node \<noteq> nullptr \<and> find_index (blocks s old_node) k \<noteq> -1)
         then let (new_node, s1) = new_block alloc (insert_to_node (load_block old_node s) k (f None)) s
              in try_update e locked i old_node new_node True s1
         else let s1 = e s
              in if locked \<and> table s1 ! i = old_node
                 then (case update_node (blocks s1 old_node) k f of
                         None \<Rightarrow> (None, s1)
                       | Some b \<Rightarrow> let (new_node, s2) = new_block alloc b s1
                                   in (Some False, retire_node old_node (set_bucket i new_node s2)))
                 else (None, s1))"

definition try_remove_at :: "(('k, 'v) htable \<Rightarrow> ('k, 'v) htable) \<Rightarrow> bool \<Rightarrow> (('k, 'v) htable \<Rightarrow> addr) \<Rightarrow> nat \<Rightarrow> 'k
    \<Rightarrow> ('k, 'v) htable \<Rightarrow> bool option \<times> ('k, 'v) htable" where
  "try_remove_at e locked alloc i k s =
     (let old_node = table s ! i
      in if old_node = nullptr \<or> find_index (blocks s old_node) k = -1
         then let s1 = e s in if table s1 ! i = old_node then (Some False, s1) else (None, s1)
         else (case remove_from_node (blocks s old_node) k of
                 None \<Rightarrow> (None, s)
               | Some None \<Rightarrow> try_update e locked i old_node nullptr True s
               | Some (Some b) \<Rightarrow> let (new_node, s1) = new_block alloc b s
                                  in try_update e locked i old_node new_node True s1))"

definition find_at :: "addr \<Rightarrow> 'k \<Rightarrow> ('k, 'v) htable \<Rightarrow> 'v option" where
  "find_at x k s = (if x = nullptr then None else block_find (blocks s x) k)"

definition hash_find :: "('k \<Rightarrow> u64) \<Rightarrow> 'k \<Rightarrow> ('k, 'v) htable \<Rightarrow> 'v option" where
  "hash_find Hash k s = find_at (table s ! get_bucket Hash k s) k s"

definition hash_insert :: "('k \<Rightarrow> u64) \<Rightarrow> (nat \<Rightarrow> ('k, 'v) htable \<Rightarrow> ('k, 'v) htable) \<Rightarrow> (nat \<Rightarrow> bool) \<Rightarrow> (('k, 'v) htable \<Rightarrow> addr)
    \<Rightarrow> nat \<Rightarrow> 'k \<Rightarrow> 'v \<Rightarrow> ('k, 'v) htable \<Rightarrow> (bool \<times> ('k, 'v) htable) option" where
  "hash_insert Hash e locked alloc rounds k v s =
     try_loop (\<lambda>r. try_insert_at (e r) (locked r) alloc (get_bucket Hash k s) k v) rounds s"

definition hash_upsert :: "('k \<Rightarrow> u64) \<Rightarrow> (nat \<Rightarrow> ('k, 'v) htable \<Rightarrow> ('k, 'v) htable) \<Rightarrow> (nat \<Rightarrow> bool) \<Rightarrow> (('k, 'v) htable \<Rightarrow> addr)
    \<Rightarrow> nat \<Rightarrow> 'k \<Rightarrow> ('v option \<Rightarrow> 'v) \<Rightarrow> ('k, 'v) htable \<Rightarrow> (bool \<times> ('k, 'v) htable) option" where
  "hash_upsert Hash e locked alloc rounds k f s =
     try_loop (\<lambda>r. try_upsert_at (e r) (locked r) alloc (get_bucket Hash k s) k f) rounds s"

definition hash_remove :: "('k \<Rightarrow> u64) \<Rightarrow> (nat \<Rightarrow> ('k, 'v) htable \<Rightarrow> ('k, 'v) htable) \<Rightarrow> (nat \<Rightarrow> bool) \<Rightarrow> (('k, 'v) htable \<Rightarrow> addr)
    \<Rightarrow> nat \<Rightarrow> 'k \<Rightarrow> ('k, 'v) htable \<Rightarrow> (bool \<times> ('k, 'v) htable) option" where
  "hash_remove Hash e locked alloc rounds k s =
     try_loop (\<lambda>r. try_remove_at (e r) (locked r) alloc (get_bucket Hash k s) k) rounds s"

definition hash_size :: "('k, 'v) htable \<Rightarrow> nat" where
  "hash_size s = sum_list (map (\<lambda>a. if a = nullptr then 0 else cnt (blocks s a)) (table s))"

definition hash_destroy :: "('k, 'v) htable \<Rightarrow> ('k, 'v) htable" where
  "hash_destroy s = fold retire_node (table s) s"

section \<open>Blocks as lists\<close>

definition block_list :: "('k, 'v) block \<Rightarrow> ('k \<times> 'v) list" where
  "block_list b = (if cnt b \<le> 31 then entries b else big_entries b)"

definition wf_block :: "('k, 'v) block \<Rightarrow> bool" where
  "wf_block b \<longleftrightarrow> cnt b = length (block_list b) \<and> 1 \<le> cnt b \<and> distinct (map fst (block_list b)) \<and> pool_of b = release_pool b"

lemma find_in_range_from_spec:
  assumes "i + n \<le> length xs"
  shows "find_in_range_from xs i n k = -1 \<and> k \<notin> fst ` set (take n (drop i xs)) \<or>
    (\<exists>j. find_in_range_from xs i n k = int j \<and> i \<le> j \<and> j < i + n \<and> fst (xs ! j) = k)"
  using assms
proof (induction xs i n k rule: find_in_range_from.induct)
  case (2 xs i n k)
  have d: "take (Suc n) (drop i xs) = xs ! i # take n (drop (Suc i) xs)"
    using "2.prems" by (simp add: Cons_nth_drop_Suc [symmetric])
  show ?case
  proof (cases "fst (xs ! i) = k")
    case False
    with 2 have "find_in_range_from xs (Suc i) n k = -1 \<and> k \<notin> fst ` set (take n (drop (Suc i) xs)) \<or>
      (\<exists>j. find_in_range_from xs (Suc i) n k = int j \<and> Suc i \<le> j \<and> j < Suc i + n \<and> fst (xs ! j) = k)" by auto
    with False d show ?thesis by (auto intro: Suc_leD)
  qed auto
qed simp

lemma find_in_range_absent: "find_in_range xs (length xs) k = -1 \<longleftrightarrow> k \<notin> fst ` set xs"
proof -
  from find_in_range_from_spec [of 0 "length xs" xs k]
  consider "find_in_range xs (length xs) k = -1" "k \<notin> fst ` set xs"
    | j where "find_in_range xs (length xs) k = int j" "j < length xs" "fst (xs ! j) = k"
    by (auto simp: find_in_range_def)
  then show ?thesis by cases (simp, metis image_eqI nth_mem of_nat_0_le_iff int_one_le_iff_zero_less neg_0_le_iff_le not_one_le_zero of_nat_0_less_iff)
qed

lemma find_in_range_present:
  assumes "find_in_range xs (length xs) k \<noteq> -1"
  obtains j where "find_in_range xs (length xs) k = int j" "j < length xs" "fst (xs ! j) = k"
  using find_in_range_from_spec [of 0 "length xs" xs k] assms by (auto simp: find_in_range_def)

lemma find_index_absent: "wf_block b \<Longrightarrow> find_index b k = -1 \<longleftrightarrow> k \<notin> fst ` set (block_list b)"
  using find_in_range_absent [of "block_list b" k] by (auto simp: find_index_def block_list_def wf_block_def)

lemma copy_until_split:
  assumes "xs = pre @ ys @ (k, v) # zs" "length pre = i" "k \<notin> fst ` set ys" "length ys < n"
  shows "copy_until xs k n i = Some (ys, i + length ys)"
  using assms
proof (induction ys arbitrary: pre i n)
  case Nil
  then show ?case by (cases n) (auto simp: nth_append)
next
  case (Cons y ys)
  then obtain m where m: "n = Suc m" by (cases n) auto
  have "copy_until xs k m (Suc i) = Some (ys, Suc i + length ys)"
    by (rule Cons.IH [of "pre @ [y]"]) (use Cons.prems m in auto)
  with Cons.prems m show ?case by (auto simp: nth_append)
qed

lemma map_nth_tail: "map (\<lambda>j. (ys @ zs) ! j) [length ys..<length ys + length zs] = zs"
  by (rule nth_equalityI) (auto simp: nth_append)

lemma copy_and_update_split:
  assumes "xs = ys @ (k, v) # zs" "k \<notin> fst ` set ys"
  shows "copy_and_update xs (length xs) k f = Some (ys @ (k, f (Some v)) # zs)"
proof -
  have c: "copy_until xs k (length xs) 0 = Some (ys, length ys)"
    using copy_until_split [of xs "[]" ys k v zs 0 "length xs"] assms by simp
  have "map (\<lambda>j. xs ! j) [Suc (length ys)..<length xs] = zs"
    using map_nth_tail [of "ys @ [(k, v)]" zs] assms(1) by simp
  with c assms(1) show ?thesis by (simp add: copy_and_update_def nth_append)
qed

lemma copy_and_remove_split:
  assumes "xs = ys @ (k, v) # zs" "k \<notin> fst ` set ys"
  shows "copy_and_remove xs (length xs) k = Some (ys @ zs)"
proof -
  have c: "copy_until xs k (length xs) 0 = Some (ys, length ys)"
    using copy_until_split [of xs "[]" ys k v zs 0 "length xs"] assms by simp
  have "map (\<lambda>j. xs ! (j + 1)) [length ys..<length xs - 1] = zs"
    using assms(1) by (intro nth_equalityI) (auto simp: nth_append)
  with c show ?thesis by (simp add: copy_and_remove_def)
qed

lemma split_first:
  assumes "k \<in> fst ` set xs"
  obtains ys v zs where "xs = ys @ (k, v) # zs" "k \<notin> fst ` set ys"
proof -
  from assms have "\<exists>x\<in>set xs. fst x = k" by auto
  from split_list_first_prop [OF this] obtain ys x zs where "xs = ys @ x # zs" "fst x = k" "\<forall>y\<in>set ys. fst y \<noteq> k" by auto
  with that [of ys "snd x" zs] show thesis by (cases x) auto
qed

text \<open>A new block holds the updated entries, comes from the pool it will go back to, and fits.\<close>

lemma insert_to_node_wf:
  assumes "case old of None \<Rightarrow> True | Some b \<Rightarrow> wf_block b \<and> k \<notin> fst ` set (block_list b)"
  shows "wf_block (insert_to_node old k v) \<and>
    block_list (insert_to_node old k v) = (case old of None \<Rightarrow> [] | Some b \<Rightarrow> block_list b) @ [(k, v)]"
proof (cases old)
  case None
  then show ?thesis
    by (simp add: Node_insert_def copy_and_insert_def wf_block_def block_list_def release_pool_def)
next
  case (Some b)
  with assms have b: "cnt b = length (block_list b)" "1 \<le> cnt b" "distinct (map fst (block_list b))" "k \<notin> fst ` set (block_list b)"
    by (auto simp: wf_block_def)
  have m: "copy_and_insert (block_list b) (cnt b) k v = block_list b @ [(k, v)]"
    using b(1) by (simp add: copy_and_insert_def map_nth)
  consider "cnt b < 31" | "cnt b = 31" | "cnt b > 31" by linarith
  then show ?thesis
  proof cases
    case 1
    then have e: "block_list b = entries b" by (simp add: block_list_def)
    define p where "p = (if cnt b < 3 then Pool3 else if cnt b < 7 then Pool7 else Pool31)"
    have new: "insert_to_node old k v = \<lparr>pool_of = p, cnt = cnt b + 1, entries = entries b @ [(k, v)], big_entries = []\<rparr>"
      using 1 m unfolding Some e by (simp add: Node_insert_def p_def)
    have "release_pool (insert_to_node old k v) = p" unfolding new release_pool_def p_def using 1 b(2) by simp
    with 1 b show ?thesis unfolding Some option.case e wf_block_def block_list_def new [unfolded Some] by simp
  next
    case 2
    then have e: "block_list b = entries b" by (simp add: block_list_def)
    have "insert_to_node old k v = BigNode_insert b k v" using 2 by (simp add: Some)
    also have "\<dots> = \<lparr>pool_of = PoolBig, cnt = 32, entries = [], big_entries = entries b @ [(k, v)]\<rparr>"
      using m unfolding e by (simp add: BigNode_insert_def 2)
    finally have new: "insert_to_node old k v = \<lparr>pool_of = PoolBig, cnt = 32, entries = [], big_entries = entries b @ [(k, v)]\<rparr>" .
    have "length (entries b) = 31" using b(1) e 2 by simp
    with b 2 show ?thesis unfolding Some option.case e wf_block_def block_list_def release_pool_def new [unfolded Some] by simp
  next
    case 3
    then have e: "block_list b = big_entries b" by (simp add: block_list_def)
    have new: "insert_to_node old k v = \<lparr>pool_of = PoolBig, cnt = cnt b + 1, entries = [], big_entries = big_entries b @ [(k, v)]\<rparr>"
      using 3 m unfolding Some e by (simp add: BigNode_insert_def)
    from 3 b show ?thesis unfolding Some option.case e wf_block_def block_list_def release_pool_def new [unfolded Some] by auto
  qed
qed

lemma update_node_wf:
  assumes "wf_block b" "block_list b = ys @ (k, v) # zs" "k \<notin> fst ` set ys"
  shows "\<exists>b'. update_node b k f = Some b' \<and> wf_block b' \<and> block_list b' = ys @ (k, f (Some v)) # zs"
proof -
  have c: "copy_and_update (block_list b) (cnt b) k f = Some (ys @ (k, f (Some v)) # zs)"
    using copy_and_update_split [OF assms(2,3)] assms(1) by (simp add: wf_block_def)
  show ?thesis
    using c assms by (auto simp: update_node_def Node_update_def BigNode_update_def wf_block_def block_list_def release_pool_def)
qed

lemma remove_from_node_wf:
  assumes "wf_block b" "block_list b = ys @ (k, v) # zs" "k \<notin> fst ` set ys"
  shows "\<exists>r. remove_from_node b k = Some r \<and> (case r of None \<Rightarrow> ys @ zs = [] | Some b' \<Rightarrow> wf_block b' \<and> block_list b' = ys @ zs)"
proof -
  have n: "cnt b = Suc (length ys + length zs)" using assms(1,2) by (simp add: wf_block_def)
  have c: "copy_and_remove (block_list b) (cnt b) k = Some (ys @ zs)"
    using copy_and_remove_split [OF assms(2,3)] assms(1) by (simp add: wf_block_def)
  have d: "distinct (map fst (ys @ zs))" using assms(1,2) by (auto simp: wf_block_def)
  consider "cnt b = 1" | "1 < cnt b" "cnt b \<le> 31" | "cnt b = 32" | "cnt b > 32" using n by linarith
  then show ?thesis
  proof cases
    case 1
    then show ?thesis using n by (simp add: remove_from_node_def)
  next
    case 2
    then have e: "block_list b = entries b" by (simp add: block_list_def)
    obtain m where "length ys + length zs = Suc m" using 2(1) n by (cases "length ys + length zs") auto
    with 2 e c d n show ?thesis
      by (auto simp: remove_from_node_def Node_remove_def wf_block_def block_list_def release_pool_def)
  next
    case 3
    then have e: "block_list b = big_entries b" by (simp add: block_list_def)
    with 3 c d n show ?thesis
      by (auto simp: remove_from_node_def Node_remove_def wf_block_def block_list_def release_pool_def)
  next
    case 4
    then have e: "block_list b = big_entries b" by (simp add: block_list_def)
    with 4 c d n show ?thesis
      by (auto simp: remove_from_node_def BigNode_remove_def wf_block_def block_list_def release_pool_def)
  qed
qed

lemma wf_block_fits:
  assumes "wf_block b" "capacity (pool_of b) = Some c"
  shows "cnt b \<le> c \<and> cnt b = length (entries b)"
  using assms by (auto simp: wf_block_def release_pool_def block_list_def split: if_splits)

section \<open>The table as a map\<close>

definition block_of :: "addr \<Rightarrow> ('k, 'v) htable \<Rightarrow> ('k \<times> 'v) list" where
  "block_of a s = (case load_block a s of None \<Rightarrow> [] | Some b \<Rightarrow> block_list b)"

definition hash_abs :: "('k \<Rightarrow> u64) \<Rightarrow> ('k, 'v) htable \<Rightarrow> 'k \<rightharpoonup> 'v" where
  "hash_abs Hash s k = map_of (block_of (table s ! get_bucket Hash k s) s) k"

text \<open>A bucket pointer that may be installed at index \<open>i\<close>.\<close>

definition bucket_ok :: "('k \<Rightarrow> u64) \<Rightarrow> nat \<Rightarrow> addr \<Rightarrow> ('k, 'v) htable \<Rightarrow> bool" where
  "bucket_ok Hash i a s \<longleftrightarrow> a = nullptr \<or>
     a \<in> block_addrs s \<and> wf_block (blocks s a) \<and> (\<forall>k\<in>fst ` set (block_list (blocks s a)). get_bucket Hash k s = i)"

definition wf_htable :: "('k \<Rightarrow> u64) \<Rightarrow> ('k, 'v) htable \<Rightarrow> bool" where
  "wf_htable Hash s \<longleftrightarrow> finite (block_addrs s) \<and> nullptr \<notin> block_addrs s \<and>
     (\<exists>bits<64. hsize s = push_bit bits 1) \<and> length (table s) = unat (hsize s) \<and>
     (\<forall>i<length (table s). bucket_ok Hash i (table s ! i) s)"

lemma get_bucket_bound:
  assumes "wf_htable Hash s"
  shows "get_bucket Hash k s < length (table s)"
proof -
  obtain bits where b: "bits < 64" "hsize s = push_bit bits 1" "length (table s) = unat (hsize s)"
    using assms by (auto simp: wf_htable_def)
  have "hsize s - 1 = mask bits" by (simp add: b(2) mask_eq_exp_minus_1 push_bit_of_1)
  then have "get_bucket Hash k s = unat (take_bit bits (Hash k))" by (simp add: get_bucket_def take_bit_eq_mask)
  also have "\<dots> < 2 ^ bits" by (simp add: unat_take_bit_mod)
  also have "2 ^ bits = unat (of_nat (2 ^ bits) :: u64)" using power_strict_increasing [OF b(1), of "2::nat"] by (intro unat_of_nat_small [symmetric]) simp
  also have "\<dots> = unat (hsize s)" by (simp add: b(2) push_bit_of_1)
  finally show ?thesis using b(3) by simp
qed

definition keeps :: "('k, 'v) htable \<Rightarrow> ('k, 'v) htable \<Rightarrow> bool" where
  "keeps s s' \<longleftrightarrow> hsize s' = hsize s \<and> block_addrs s \<subseteq> block_addrs s' \<and> (\<forall>a\<in>block_addrs s. blocks s' a = blocks s a)"

interpretation ht: monotone_shared keeps "wf_htable Hash" for Hash
  by unfold_locales (auto simp: keeps_def)

lemma get_bucket_keeps: "keeps s s' \<Longrightarrow> get_bucket Hash k s' = get_bucket Hash k s"
  by (simp add: keeps_def get_bucket_def)

lemma retire_node_simps [simp]:
  "table (retire_node a s) = table s" "blocks (retire_node a s) = blocks s" "block_addrs (retire_node a s) = block_addrs s"
  "hsize (retire_node a s) = hsize s" "get_bucket Hash k (retire_node a s) = get_bucket Hash k s"
  "block_of x (retire_node a s) = block_of x s" "hash_abs Hash (retire_node a s) = hash_abs Hash s"
  "wf_htable Hash (retire_node a s) = wf_htable Hash s"
  by (auto simp: retire_node_def get_bucket_def block_of_def load_block_def hash_abs_def wf_htable_def bucket_ok_def fun_eq_iff)

definition allocates :: "(('k, 'v) htable \<Rightarrow> addr) \<Rightarrow> bool" where
  "allocates alloc \<longleftrightarrow> (\<forall>s. finite (block_addrs s) \<longrightarrow> alloc s \<notin> block_addrs s \<and> alloc s \<noteq> nullptr)"

lemma new_block_facts:
  assumes "allocates alloc" "wf_htable Hash s" "new_block alloc b s = (a, s')"
  shows "a \<notin> block_addrs s" "a \<noteq> nullptr" "table s' = table s" "hsize s' = hsize s" "keeps s s'" "wf_htable Hash s'"
    "blocks s' a = b" "a \<in> block_addrs s'" "hash_abs Hash s' = hash_abs Hash s"
proof -
  have s': "s' = s\<lparr>blocks := (blocks s)(a := b), block_addrs := insert a (block_addrs s)\<rparr>" and al: "a = alloc s"
    using assms(3) by (auto simp: new_block_def Let_def)
  show a: "a \<notin> block_addrs s" "a \<noteq> nullptr" using assms(1,2) by (auto simp: al allocates_def wf_htable_def)
  show "table s' = table s" "hsize s' = hsize s" "blocks s' a = b" "a \<in> block_addrs s'" by (simp_all add: s')
  show "keeps s s'" using a by (auto simp: s' keeps_def)
  have gb: "get_bucket Hash k s' = get_bucket Hash k s" for k by (simp add: s' get_bucket_def)
  have ok: "bucket_ok Hash i x s'" if "bucket_ok Hash i x s" for i x
  proof -
    from that a have "x = nullptr \<or> x \<in> block_addrs s' \<and> blocks s' x = blocks s x" by (auto simp: bucket_ok_def s')
    with that show ?thesis by (auto simp: bucket_ok_def gb)
  qed
  then show "wf_htable Hash s'" using assms(2) a by (auto simp: wf_htable_def s')
  show "hash_abs Hash s' = hash_abs Hash s"
  proof
    fix k
    have "bucket_ok Hash (get_bucket Hash k s) (table s ! get_bucket Hash k s) s"
      using assms(2) get_bucket_bound [OF assms(2)] by (auto simp: wf_htable_def)
    then have "table s ! get_bucket Hash k s \<noteq> a" using a by (auto simp: bucket_ok_def)
    then show "hash_abs Hash s' k = hash_abs Hash s k" by (simp add: hash_abs_def gb block_of_def load_block_def) (simp add: s')
  qed
qed

lemma set_bucket_facts:
  assumes "wf_htable Hash s" "i < length (table s)" "bucket_ok Hash i a s"
  shows "wf_htable Hash (set_bucket i a s)"
    "hash_abs Hash (set_bucket i a s) k = (if get_bucket Hash k s = i then map_of (block_of a s) k else hash_abs Hash s k)"
proof -
  have gb: "get_bucket Hash k (set_bucket i a s) = get_bucket Hash k s" for k by (simp add: set_bucket_def get_bucket_def)
  have bo: "block_of x (set_bucket i a s) = block_of x s" for x by (simp add: block_of_def load_block_def set_bucket_def)
  have ok: "bucket_ok Hash j x (set_bucket i a s) = bucket_ok Hash j x s" for j x
    unfolding bucket_ok_def gb by (simp add: set_bucket_def)
  have t: "table (set_bucket i a s) = (table s)[i := a]" by (simp add: set_bucket_def)
  show "wf_htable Hash (set_bucket i a s)"
    unfolding wf_htable_def ok t using assms by (auto simp: wf_htable_def nth_list_update set_bucket_def)
  show "hash_abs Hash (set_bucket i a s) k = (if get_bucket Hash k s = i then map_of (block_of a s) k else hash_abs Hash s k)"
    unfolding hash_abs_def gb bo t using assms(2) by simp
qed

lemma bucket_keeps:
  assumes "keeps s s'" "bucket_ok Hash i a s"
  shows "bucket_ok Hash i a s'" "block_of a s' = block_of a s"
  using assms by (auto simp: bucket_ok_def keeps_def get_bucket_def block_of_def load_block_def)

section \<open>Attempts under interference\<close>

lemma bucket_okD:
  assumes "wf_htable Hash s"
  shows "bucket_ok Hash (get_bucket Hash k s) (table s ! get_bucket Hash k s) s"
  using assms get_bucket_bound [OF assms] by (auto simp: wf_htable_def)

lemma found_abs:
  assumes "wf_htable Hash s" "a = table s ! get_bucket Hash k s"
  shows "a \<noteq> nullptr \<and> find_index (blocks s a) k \<noteq> -1 \<longleftrightarrow> hash_abs Hash s k \<noteq> None"
proof -
  have "bucket_ok Hash (get_bucket Hash k s) a s" using bucket_okD [OF assms(1)] assms(2) by simp
  then show ?thesis
    using assms(2) find_index_absent [of "blocks s a" k]
    by (auto simp: bucket_ok_def hash_abs_def block_of_def load_block_def map_of_eq_None_iff)
qed

text \<open>The entries of other keys in the bucket decide nothing but their own lookups.\<close>

lemma map_of_insert_end: "k \<notin> fst ` set xs \<Longrightarrow> map_of (xs @ [(k, v)]) = (map_of xs)(k \<mapsto> v)"
proof -
  assume "k \<notin> fst ` set xs"
  then have "map_of xs k = None" by (simp add: map_of_eq_None_iff)
  then show ?thesis by (auto simp: map_add_def fun_eq_iff split: option.splits)
qed

lemma map_of_replace:
  "distinct (map fst (ys @ (k, v) # zs)) \<Longrightarrow> map_of (ys @ (k, w) # zs) = (map_of (ys @ (k, v) # zs))(k \<mapsto> w)"
  by (auto simp: map_add_def fun_eq_iff split: option.splits)
    (metis image_eqI fst_conv map_of_SomeD)+

lemma map_of_delete:
  "distinct (map fst (ys @ (k, v) # zs)) \<Longrightarrow> map_of (ys @ zs) = (map_of (ys @ (k, v) # zs))(k := None)"
  by (auto simp: map_add_def fun_eq_iff map_of_eq_None_iff split: option.splits)
    (metis image_eqI fst_conv map_of_SomeD)+

text \<open>Installing a block whose entries are those of the old one changed at \<open>k\<close> changes the map at \<open>k\<close>.\<close>

lemma install_abs:
  assumes wf: "wf_htable Hash s" and ok: "bucket_ok Hash (get_bucket Hash k s) a s"
    and upd: "\<And>j. map_of (block_of a s) j = ((map_of (block_of (table s ! get_bucket Hash k s) s))(k := w)) j"
  shows "wf_htable Hash (set_bucket (get_bucket Hash k s) a s) \<and>
    hash_abs Hash (set_bucket (get_bucket Hash k s) a s) = (hash_abs Hash s)(k := w)"
proof -
  note F = set_bucket_facts [OF wf get_bucket_bound [OF wf] ok]
  have "hash_abs Hash (set_bucket (get_bucket Hash k s) a s) j = ((hash_abs Hash s)(k := w)) j" for j
    unfolding F(2) upd by (auto simp: hash_abs_def)
  with F(1) show ?thesis by auto
qed

lemma try_update_atomic:
  assumes rely: "ht.rely Hash (\<lambda>_. e)" and wf: "wf_htable Hash s" and i: "i = get_bucket Hash k s"
    and new: "bucket_ok Hash i a s" "\<And>j. map_of (block_of a s) j = ((map_of (block_of (table s ! i) s))(k := w)) j"
    and run: "try_update e locked i (table s ! i) a r s = (Some b, s')"
  shows "wf_htable Hash (e s) \<and> hash_abs Hash (e s) k = hash_abs Hash s k \<and> b = r \<and> wf_htable Hash s' \<and>
    hash_abs Hash s' = (hash_abs Hash (e s))(k := w)"
proof -
  have ev: "ht.evolves Hash s (e s)" using ht.relyD [OF rely] .
  then have kp: "keeps s (e s)" and wf': "wf_htable Hash (e s)" using wf by (simp_all add: ht.evolves_def)
  have t: "table (e s) ! i = table s ! i" "b = r" "s' = retire_node (table s ! i) (set_bucket i a (e s))"
    using run by (auto simp: try_update_def Let_def split: if_splits)
  have i': "i = get_bucket Hash k (e s)" using i get_bucket_keeps [OF kp] by simp
  have old: "block_of (table s ! i) (e s) = block_of (table s ! i) s"
    using bucket_keeps(2) [OF kp] bucket_okD [OF wf, of k] i by simp
  have "map_of (block_of a (e s)) j = ((map_of (block_of (table (e s) ! i) (e s)))(k := w)) j" for j
    unfolding t(1) old bucket_keeps(2) [OF kp new(1)] by (rule new(2))
  with install_abs [OF wf', of k a w] bucket_keeps(1) [OF kp new(1)] i'
  have "wf_htable Hash (set_bucket i a (e s)) \<and> hash_abs Hash (set_bucket i a (e s)) = (hash_abs Hash (e s))(k := w)" by simp
  moreover have "hash_abs Hash (e s) k = hash_abs Hash s k"
    unfolding hash_abs_def i [symmetric] i' [symmetric] t(1) old ..
  ultimately show ?thesis using wf' t(2,3) by simp
qed

text \<open>The state in which an attempt takes the lock.\<close>

definition lock_state :: "(('k, 'v) htable \<Rightarrow> ('k, 'v) htable) \<Rightarrow> (('k, 'v) htable \<Rightarrow> addr) \<Rightarrow> ('k, 'v) htable \<Rightarrow> ('k, 'v) htable \<Rightarrow> bool" where
  "lock_state e alloc s u \<longleftrightarrow> u = e s \<or> (\<exists>b. u = e (snd (new_block alloc b s)))"

lemma unchanged_bucket:
  assumes rely: "ht.rely Hash (\<lambda>_. e)" and wf: "wf_htable Hash s"
    and t: "table (e s) ! get_bucket Hash k s = table s ! get_bucket Hash k s"
  shows "wf_htable Hash (e s) \<and> keeps s (e s) \<and> hash_abs Hash (e s) k = hash_abs Hash s k"
proof -
  have ev: "ht.evolves Hash s (e s)" using ht.relyD [OF rely] .
  then have kp: "keeps s (e s)" and wf': "wf_htable Hash (e s)" using wf by (simp_all add: ht.evolves_def)
  have "hash_abs Hash (e s) k = hash_abs Hash s k"
    unfolding hash_abs_def get_bucket_keeps [OF kp] t bucket_keeps(2) [OF kp bucket_okD [OF wf]] ..
  with kp wf' show ?thesis by simp
qed

lemma new_block_table:
  assumes "allocates alloc" "wf_htable Hash s" "new_block alloc b s = (a, s1)" "wf_block b"
    and "\<forall>j\<in>fst ` set (block_list b). get_bucket Hash j s = i" "i = get_bucket Hash k s"
  shows "bucket_ok Hash i a s1" "block_of a s1 = block_list b" "table s1 ! i = table s ! i" "i = get_bucket Hash k s1"
    "block_of (table s ! i) s1 = block_of (table s ! i) s"
proof -
  note F = new_block_facts [OF assms(1-3)]
  show "block_of a s1 = block_list b" using F(2,7) by (simp add: block_of_def load_block_def)
  show "table s1 ! i = table s ! i" "i = get_bucket Hash k s1" using F(3) get_bucket_keeps [OF F(5)] assms(6) by simp_all
  show "bucket_ok Hash i a s1" using F(7,8) assms(4,5) get_bucket_keeps [OF F(5)] by (simp add: bucket_ok_def)
  show "block_of (table s ! i) s1 = block_of (table s ! i) s"
    using bucket_keeps(2) [OF F(5)] bucket_okD [OF assms(2), of k] assms(6) by simp
qed

lemma bucket_keys:
  assumes "wf_htable Hash s" "i = get_bucket Hash k s" "j \<in> fst ` set (block_of (table s ! i) s)"
  shows "get_bucket Hash j s = i"
  using bucket_okD [OF assms(1), of k] assms(2,3)
  by (auto simp: bucket_ok_def block_of_def load_block_def split: if_splits)

lemma bucket_distinct:
  assumes "wf_htable Hash s" "i = get_bucket Hash k s"
  shows "distinct (map fst (block_of (table s ! i) s))" "table s ! i \<noteq> nullptr \<Longrightarrow> wf_block (blocks s (table s ! i))"
  using bucket_okD [OF assms(1), of k] assms(2)
  by (auto simp: bucket_ok_def block_of_def load_block_def wf_block_def)

lemma fresh_insert_atomic:
  assumes al: "allocates alloc" and rely: "ht.rely Hash (\<lambda>_. e)" and wf: "wf_htable Hash s" and i: "i = get_bucket Hash k s"
    and abs: "hash_abs Hash s k = None"
    and new: "new_block alloc (insert_to_node (load_block (table s ! i) s) k v) s = (a, s1)"
    and run: "try_update e locked i (table s ! i) a True s1 = (Some b, s')"
  shows "b \<and> wf_htable Hash (e s1) \<and> hash_abs Hash (e s1) k = None \<and> wf_htable Hash s' \<and> hash_abs Hash s' = (hash_abs Hash (e s1))(k \<mapsto> v)"
proof -
  let ?old = "load_block (table s ! i) s" and ?b = "insert_to_node (load_block (table s ! i) s) k v"
  have k: "k \<notin> fst ` set (block_of (table s ! i) s)" using abs i by (simp add: hash_abs_def map_of_eq_None_iff)
  have "case ?old of None \<Rightarrow> True | Some b \<Rightarrow> wf_block b \<and> k \<notin> fst ` set (block_list b)"
    using k bucket_distinct(2) [OF wf i] by (auto simp: load_block_def block_of_def)
  from insert_to_node_wf [OF this, of v]
  have b: "wf_block ?b" "block_list ?b = block_of (table s ! i) s @ [(k, v)]" by (auto simp: block_of_def)
  have "\<forall>j\<in>fst ` set (block_list ?b). get_bucket Hash j s = i"
  proof
    fix j assume "j \<in> fst ` set (block_list ?b)"
    then have "j = k \<or> j \<in> fst ` set (block_of (table s ! i) s)" unfolding b(2) by auto
    then show "get_bucket Hash j s = i" using bucket_keys [OF wf i] i by blast
  qed
  note N = new_block_table [OF al wf new b(1) this i] and F = new_block_facts [OF al wf new]
  have m: "map_of (block_of a s1) j = ((map_of (block_of (table s1 ! i) s1))(k \<mapsto> v)) j" for j
    unfolding N(2,3,5) b(2) map_of_insert_end [OF k] ..
  have "wf_htable Hash (e s1) \<and> hash_abs Hash (e s1) k = hash_abs Hash s1 k \<and> b = True \<and> wf_htable Hash s' \<and>
    hash_abs Hash s' = (hash_abs Hash (e s1))(k \<mapsto> v)"
    by (rule try_update_atomic [OF rely F(6) N(4,1) m]) (use run N(3) in simp)
  with F(9) abs show ?thesis by simp
qed

lemma insert_hash_atomic:
  assumes al: "allocates alloc" and rely: "ht.rely Hash (\<lambda>_. e)" and wf: "wf_htable Hash s"
    and run: "try_insert_at e locked alloc (get_bucket Hash k s) k v s = (Some b, s')"
  shows "\<exists>u. lock_state e alloc s u \<and> wf_htable Hash s' \<and> (b \<longleftrightarrow> hash_abs Hash u k = None) \<and>
    hash_abs Hash s' = (if b then (hash_abs Hash u)(k \<mapsto> v) else hash_abs Hash u)"
proof -
  define i where "i = get_bucket Hash k s"
  note fa = found_abs [OF wf, of "table s ! i" k, folded i_def]
  show ?thesis
  proof (cases "hash_abs Hash s k = None")
    case False
    then have "b = False" "s' = e s" "table (e s) ! i = table s ! i"
      using run fa i_def by (auto simp: try_insert_at_def Let_def split: if_splits)
    with unchanged_bucket [OF rely wf, of k] False i_def show ?thesis by (auto simp: lock_state_def)
  next
    case True
    obtain a s1 where new: "new_block alloc (insert_to_node (load_block (table s ! i) s) k v) s = (a, s1)" by (metis prod.exhaust)
    have "try_update e locked i (table s ! i) a True s1 = (Some b, s')"
      using run fa True i_def new by (auto simp: try_insert_at_def Let_def)
    from fresh_insert_atomic [OF al rely wf i_def True new this] new show ?thesis
      unfolding lock_state_def by (intro exI [of _ "e s1"]) (auto intro!: exI [of _ "insert_to_node (load_block (table s ! i) s) k v"])
  qed
qed

lemma upsert_hash_atomic:
  assumes al: "allocates alloc" and rely: "ht.rely Hash (\<lambda>_. e)" and wf: "wf_htable Hash s"
    and run: "try_upsert_at e locked alloc (get_bucket Hash k s) k f s = (Some b, s')"
  shows "\<exists>u. lock_state e alloc s u \<and> wf_htable Hash s' \<and> (b \<longleftrightarrow> hash_abs Hash u k = None) \<and>
    hash_abs Hash s' = (hash_abs Hash u)(k \<mapsto> f (hash_abs Hash u k))"
proof -
  define i where "i = get_bucket Hash k s"
  note fa = found_abs [OF wf, of "table s ! i" k, folded i_def]
  show ?thesis
  proof (cases "hash_abs Hash s k = None")
    case True
    obtain a s1 where new: "new_block alloc (insert_to_node (load_block (table s ! i) s) k (f None)) s = (a, s1)" by (metis prod.exhaust)
    have "try_update e locked i (table s ! i) a True s1 = (Some b, s')"
      using run fa True i_def new by (auto simp: try_upsert_at_def Let_def)
    from fresh_insert_atomic [OF al rely wf i_def True new this] new show ?thesis
      unfolding lock_state_def by (intro exI [of _ "e s1"]) (auto intro!: exI [of _ "insert_to_node (load_block (table s ! i) s) k (f None)"])
  next
    case False
    let ?x = "table s ! i"
    have x: "?x \<noteq> nullptr" using False fa by simp
    have t: "table (e s) ! i = ?x" using run fa False i_def by (auto simp: try_upsert_at_def Let_def split: if_splits)
    from unchanged_bucket [OF rely wf, of k] t i_def
    have E: "wf_htable Hash (e s)" "keeps s (e s)" "hash_abs Hash (e s) k = hash_abs Hash s k" by auto
    have i: "i = get_bucket Hash k (e s)" using i_def get_bucket_keeps [OF E(2)] by simp
    have bl: "block_of ?x (e s) = block_list (blocks (e s) ?x)" using x by (simp add: block_of_def load_block_def)
    have wb: "wf_block (blocks (e s) ?x)" using bucket_distinct(2) [OF E(1) i] t x by simp
    have "hash_abs Hash (e s) k \<noteq> None" using False E(3) by simp
    then have "k \<in> fst ` set (block_list (blocks (e s) ?x))"
      unfolding hash_abs_def i [symmetric] t bl map_of_eq_None_iff by blast
    then obtain ys v zs where sp: "block_list (blocks (e s) ?x) = ys @ (k, v) # zs" "k \<notin> fst ` set ys" by (rule split_first)
    from update_node_wf [OF wb sp, of f] obtain c where c: "update_node (blocks (e s) ?x) k f = Some c" "wf_block c"
      "block_list c = ys @ (k, f (Some v)) # zs" by blast
    obtain a s2 where new: "new_block alloc c (e s) = (a, s2)" by (metis prod.exhaust)
    have r: "b = False" "s' = retire_node ?x (set_bucket i a s2)"
      using run fa False i_def c(1) new by (auto simp: try_upsert_at_def Let_def split: if_splits)
    have d: "distinct (map fst (ys @ (k, v) # zs))" using wb sp(1) by (simp add: wf_block_def)
    have "\<forall>j\<in>fst ` set (block_list c). get_bucket Hash j (e s) = i"
      using bucket_keys [OF E(1) i] unfolding t bl sp(1) c(3) by auto
    note N = new_block_table [OF al E(1) new c(2) this i] and F = new_block_facts [OF al E(1) new]
    have "map_of (block_of a s2) j = ((map_of (block_of (table s2 ! i) s2))(k \<mapsto> f (Some v))) j" for j
      unfolding N(2) N(3) t N(5) [unfolded t] bl sp(1) c(3) map_of_replace [OF d, of "f (Some v)"] ..
    with install_abs [OF F(6), of k a "Some (f (Some v))"] N(1,4) F(9)
    have "wf_htable Hash (set_bucket i a s2) \<and> hash_abs Hash (set_bucket i a s2) = (hash_abs Hash (e s))(k \<mapsto> f (Some v))" by simp
    moreover have "hash_abs Hash (e s) k = Some v"
      unfolding hash_abs_def i [symmetric] t bl sp(1) using sp(2) by (simp add: map_add_def map_of_eq_None_iff split: option.splits)
         (metis fst_conv image_eqI map_of_SomeD)
    ultimately show ?thesis using r by (intro exI [of _ "e s"]) (simp add: lock_state_def)
  qed
qed

lemma remove_hash_atomic:
  assumes al: "allocates alloc" and rely: "ht.rely Hash (\<lambda>_. e)" and wf: "wf_htable Hash s"
    and run: "try_remove_at e locked alloc (get_bucket Hash k s) k s = (Some b, s')"
  shows "\<exists>u. lock_state e alloc s u \<and> wf_htable Hash s' \<and> (b \<longleftrightarrow> hash_abs Hash u k \<noteq> None) \<and>
    hash_abs Hash s' = (hash_abs Hash u)(k := None)"
proof -
  define i where "i = get_bucket Hash k s"
  note fa = found_abs [OF wf, of "table s ! i" k, folded i_def]
  let ?x = "table s ! i"
  show ?thesis
  proof (cases "hash_abs Hash s k = None")
    case True
    then have "b = False" "s' = e s" "table (e s) ! i = ?x"
      using run fa i_def by (auto simp: try_remove_at_def Let_def split: if_splits)
    with unchanged_bucket [OF rely wf, of k] True i_def show ?thesis by (auto simp: lock_state_def fun_eq_iff)
  next
    case False
    then have x: "?x \<noteq> nullptr" "find_index (blocks s ?x) k \<noteq> -1" using fa by auto
    have bl: "block_of ?x s = block_list (blocks s ?x)" using x by (simp add: block_of_def load_block_def)
    have wb: "wf_block (blocks s ?x)" using bucket_distinct(2) [OF wf i_def] x by simp
    have "k \<in> fst ` set (block_list (blocks s ?x))"
      using False i_def bl by (auto simp: hash_abs_def map_of_eq_None_iff)
    then obtain ys v zs where sp: "block_list (blocks s ?x) = ys @ (k, v) # zs" "k \<notin> fst ` set ys" by (rule split_first)
    have d: "distinct (map fst (ys @ (k, v) # zs))" using wb sp(1) by (simp add: wf_block_def)
    from remove_from_node_wf [OF wb sp] obtain r where r: "remove_from_node (blocks s ?x) k = Some r"
      "case r of None \<Rightarrow> ys @ zs = [] | Some c \<Rightarrow> wf_block c \<and> block_list c = ys @ zs" by blast
    show ?thesis
    proof (cases r)
      case None
      then have tu: "try_update e locked i ?x nullptr True s = (Some b, s')"
        using run x r(1) i_def by (simp add: try_remove_at_def Let_def)
      have "map_of (block_of nullptr s) j = ((map_of (block_of (table s ! i) s))(k := None)) j" for j
        using r(2) None unfolding bl sp(1) map_of_delete [OF d, symmetric] by (simp add: block_of_def load_block_def)
      from try_update_atomic [OF rely wf i_def _ this tu] False show ?thesis
        by (intro exI [of _ "e s"]) (auto simp: lock_state_def bucket_ok_def)
    next
      case (Some c)
      obtain a s1 where new: "new_block alloc c s = (a, s1)" by (metis prod.exhaust)
      have tu: "try_update e locked i ?x a True s1 = (Some b, s')"
        using run x r(1) i_def Some new by (simp add: try_remove_at_def Let_def)
      have c: "wf_block c" "block_list c = ys @ zs" using r(2) Some by auto
      have "\<forall>j\<in>fst ` set (block_list c). get_bucket Hash j s = i"
        using bucket_keys [OF wf i_def] unfolding bl sp(1) c(2) by auto
      note N = new_block_table [OF al wf new c(1) this i_def] and F = new_block_facts [OF al wf new]
      have m: "map_of (block_of a s1) j = ((map_of (block_of (table s1 ! i) s1))(k := None)) j" for j
        unfolding N(2) N(3) N(5) bl sp(1) c(2) map_of_delete [OF d] ..
      from try_update_atomic [OF rely F(6) N(4,1) m] tu N(3) F(9) False new show ?thesis
        unfolding lock_state_def by (intro exI [of _ "e s1"]) (auto intro!: exI [of _ c])
    qed
  qed
qed

section \<open>Without interference\<close>

definition fresh_block :: "('k, 'v) htable \<Rightarrow> addr" where
  "fresh_block s = Suc (Max (insert 0 (block_addrs s)))"

lemma allocates_fresh_block: "allocates fresh_block"
  unfolding allocates_def
proof (intro allI impI conjI notI)
  fix s :: "('a, 'b) htable" assume "finite (block_addrs s)" "fresh_block s \<in> block_addrs s"
  then have "Suc (Max (insert 0 (block_addrs s))) \<le> Max (insert 0 (block_addrs s))" by (intro Max_ge) (auto simp: fresh_block_def)
  then show False by simp
qed (simp add: fresh_block_def)

definition table_insert :: "('k \<Rightarrow> u64) \<Rightarrow> 'k \<Rightarrow> 'v \<Rightarrow> ('k, 'v) htable \<Rightarrow> bool \<times> ('k, 'v) htable" where
  "table_insert Hash k v s =
     (case hash_insert Hash (\<lambda>_ s. s) (\<lambda>_. True) fresh_block 1 k v s of Some r \<Rightarrow> r | None \<Rightarrow> (False, s))"

definition table_remove :: "('k \<Rightarrow> u64) \<Rightarrow> 'k \<Rightarrow> ('k, 'v) htable \<Rightarrow> bool \<times> ('k, 'v) htable" where
  "table_remove Hash k s =
     (case hash_remove Hash (\<lambda>_ s. s) (\<lambda>_. True) fresh_block 1 k s of Some r \<Rightarrow> r | None \<Rightarrow> (False, s))"

lemma lock_state_idle:
  assumes "wf_htable Hash s" "lock_state (\<lambda>s. s) fresh_block s u"
  shows "hash_abs Hash u = hash_abs Hash s"
  using assms(2) new_block_facts(9) [OF allocates_fresh_block assms(1)]
  by (auto simp: lock_state_def) (metis prod.collapse)

lemma insert_idle_run:
  "\<exists>b s'. try_insert_at (\<lambda>s. s) True fresh_block (get_bucket Hash k s) k v s = (Some b, s')"
  by (auto simp: try_insert_at_def try_update_def new_block_def Let_def)

lemma remove_idle_run:
  assumes wf: "wf_htable Hash s"
  shows "\<exists>b s'. try_remove_at (\<lambda>s. s) True fresh_block (get_bucket Hash k s) k s = (Some b, s')"
proof (cases "hash_abs Hash s k = None")
  case True
  then show ?thesis using found_abs [OF wf refl, of k] by (auto simp: try_remove_at_def Let_def)
next
  case False
  let ?x = "table s ! get_bucket Hash k s"
  have x: "?x \<noteq> nullptr" using found_abs [OF wf refl, of k] False by simp
  have "k \<in> fst ` set (block_list (blocks s ?x))"
    using False x by (auto simp: hash_abs_def block_of_def load_block_def map_of_eq_None_iff)
  then obtain ys v zs where "block_list (blocks s ?x) = ys @ (k, v) # zs" "k \<notin> fst ` set ys" by (rule split_first)
  from remove_from_node_wf [OF bucket_distinct(2) [OF wf refl x] this]
  obtain r where "remove_from_node (blocks s ?x) k = Some r" by blast
  then show ?thesis
    by (cases r) (auto simp: try_remove_at_def try_update_def new_block_def Let_def)
qed

interpretation hash_block: map_updates "wf_htable Hash" "hash_abs Hash" "table_insert Hash" "table_remove Hash" for Hash
proof
  fix s :: "('a, 'b) htable" and k v b s'
  assume wf: "wf_htable Hash s"
  show "wf_htable Hash s' \<and> (b \<longleftrightarrow> hash_abs Hash s k = None) \<and>
      hash_abs Hash s' = (if b then (hash_abs Hash s)(k \<mapsto> v) else hash_abs Hash s)"
    if run: "table_insert Hash k v s = (b, s')"
  proof -
    have "try_insert_at (\<lambda>s. s) True fresh_block (get_bucket Hash k s) k v s = (Some b, s')"
      using run insert_idle_run [of Hash k s v] by (auto simp: table_insert_def hash_insert_def)
    from insert_hash_atomic [OF allocates_fresh_block ht.rely_idle wf this] lock_state_idle [OF wf] show ?thesis by metis
  qed
  show "wf_htable Hash s' \<and> (b \<longleftrightarrow> hash_abs Hash s k \<noteq> None) \<and> hash_abs Hash s' = (hash_abs Hash s)(k := None)"
    if run: "table_remove Hash k s = (b, s')"
  proof -
    have "try_remove_at (\<lambda>s. s) True fresh_block (get_bucket Hash k s) k s = (Some b, s')"
      using run remove_idle_run [OF wf, of k] by (auto simp: table_remove_def hash_remove_def)
    from remove_hash_atomic [OF allocates_fresh_block ht.rely_idle wf this] lock_state_idle [OF wf] show ?thesis by metis
  qed
qed

section \<open>The promises of the table\<close>

lemma log2_up_loop_small: "n < 2 ^ m \<Longrightarrow> log2_up_loop n \<le> m"
proof (induction m arbitrary: n)
  case (Suc m)
  then have "log2_up_loop (n div 2) \<le> m" by simp
  then show ?case by (subst log2_up_loop.simps) simp
qed (simp add: log2_up_loop.simps)

lemma wf_new_Table:
  assumes "n < 2 ^ 63"
  shows "wf_htable Hash (new_Table n junk)"
proof -
  have "log2_up n \<le> 63" unfolding log2_up_def by (rule log2_up_loop_small) (use assms in simp)
  then show ?thesis by (auto simp: wf_htable_def new_Table_def Let_def bucket_ok_def intro!: exI [of _ "log2_up n"])
qed

lemma new_Table_abs:
  assumes "n < 2 ^ 63"
  shows "hash_abs Hash (new_Table n junk) = Map.empty"
proof
  fix k
  have "get_bucket Hash k (new_Table n junk) < length (table (new_Table n junk))"
    by (rule get_bucket_bound [OF wf_new_Table [OF assms]])
  then show "hash_abs Hash (new_Table n junk) k = None"
    by (simp add: hash_abs_def new_Table_def Let_def block_of_def load_block_def)
qed

text \<open>C17: The upsert of the hash table is atomic: an attempt that returns a value acts on the map as it is
  when the bucket's lock is taken, whatever other threads did since the bucket was read. It
  reports whether the key was absent and stores the function's value for what was there.\<close>

theorem hash_upsert_atomic:
  assumes "allocates alloc" "ht.rely Hash (\<lambda>_. e)" "wf_htable Hash s"
    and "try_upsert_at e locked alloc (get_bucket Hash k s) k f s = (Some b, s')"
  shows "\<exists>u. lock_state e alloc s u \<and> wf_htable Hash s' \<and> (b \<longleftrightarrow> hash_abs Hash u k = None) \<and>
    hash_abs Hash s' = (hash_abs Hash u)(k \<mapsto> f (hash_abs Hash u k))"
  by (rule upsert_hash_atomic [OF assms])

definition demo_hash :: "nat \<Rightarrow> u64" where
  "demo_hash k = of_nat k"

definition demo_table :: "(nat, nat) htable" where
  "demo_table = \<lparr>blocks = (\<lambda>_. \<lparr>pool_of = Pool3, cnt = 2, entries = [(4, 40), (6, 60)], big_entries = []\<rparr>),
     block_addrs = {1}, table = [1, 0], hsize = 2, given_back = []\<rparr>"

lemma wf_demo_table: "wf_htable demo_hash demo_table"
proof -
  have "push_bit 1 1 = (2 :: u64)" by simp
  moreover have "bucket_ok demo_hash i (table demo_table ! i) demo_table" if "i < 2" for i
    using that
    by (cases i) (simp_all add: bucket_ok_def demo_table_def wf_block_def block_list_def release_pool_def get_bucket_def demo_hash_def)
  ultimately show ?thesis
    unfolding wf_htable_def by (intro conjI) (auto simp: demo_table_def intro!: exI [of _ 1])
qed

theorem hash_upsert_atomic_witness:
  "\<exists>b s'. try_upsert_at (\<lambda>s. s) True fresh_block (get_bucket demo_hash 6 demo_table) 6 (\<lambda>_. 61) demo_table = (Some b, s') \<and>
     \<not> b \<and> hash_abs demo_hash s' 6 = Some 61"
proof -
  have "get_bucket demo_hash 6 demo_table = 0" by (simp add: get_bucket_def demo_hash_def demo_table_def)
  then obtain s' where run: "try_upsert_at (\<lambda>s. s) True fresh_block (get_bucket demo_hash 6 demo_table) 6 (\<lambda>_. 61) demo_table = (Some False, s')"
    by (simp add: try_upsert_at_def demo_table_def find_index_def find_in_range_def update_node_def Node_update_def
        copy_and_update_def new_block_def numeral_2_eq_2 Let_def)
  from hash_upsert_atomic [OF allocates_fresh_block ht.rely_idle wf_demo_table run] run show ?thesis by auto
qed

text \<open>The removal of the hash table is atomic at the moment the bucket's lock is taken: it reports
  whether the key was present there and leaves the map without it.\<close>

theorem hash_remove_atomic:
  assumes "allocates alloc" "ht.rely Hash (\<lambda>_. e)" "wf_htable Hash s"
    and "try_remove_at e locked alloc (get_bucket Hash k s) k s = (Some b, s')"
  shows "\<exists>u. lock_state e alloc s u \<and> wf_htable Hash s' \<and> (b \<longleftrightarrow> hash_abs Hash u k \<noteq> None) \<and>
    hash_abs Hash s' = (hash_abs Hash u)(k := None)"
  by (rule remove_hash_atomic [OF assms])

theorem hash_remove_atomic_witness:
  "\<exists>b s'. try_remove_at (\<lambda>s. s) True fresh_block (get_bucket demo_hash 4 demo_table) 4 demo_table = (Some b, s') \<and>
     hash_abs demo_hash s' 4 = None"
proof -
  obtain b s' where run: "try_remove_at (\<lambda>s. s) True fresh_block (get_bucket demo_hash 4 demo_table) 4 demo_table = (Some b, s')"
    using remove_idle_run [OF wf_demo_table] by blast
  from hash_remove_atomic [OF allocates_fresh_block ht.rely_idle wf_demo_table run] run show ?thesis by auto
qed

text \<open>Without interference every history of insertions and removals on the hash table reports what
  the abstract map reports and leaves a table for the final map.\<close>

theorem hash_updates_refine:
  assumes "wf_htable Hash s" "hash_block.update_run Hash xs s = (bs, s')"
  shows "wf_htable Hash s' \<and> spec_updates xs (hash_abs Hash s) = (bs, hash_abs Hash s')"
  by (rule hash_block.update_run_refines [OF assms])

theorem hash_updates_refine_witness:
  "fst (hash_block.update_run demo_hash [(3, Some (30::nat)), (5, Some 50), (3, Some 31), (3, None), (3, None)]
     (new_Table 2 \<lparr>pool_of = Pool1, cnt = 0, entries = [], big_entries = []\<rparr>)) = [True, True, False, True, False]"
proof -
  let ?s = "new_Table 2 \<lparr>pool_of = Pool1, cnt = 0, entries = [], big_entries = []\<rparr> :: (nat, nat) htable"
  let ?xs = "[(3, Some 30), (5, Some 50), (3, Some 31), (3, None), (3, None)] :: (nat \<times> nat option) list"
  obtain bs s' where r: "hash_block.update_run demo_hash ?xs ?s = (bs, s')" by (metis prod.exhaust)
  have "spec_updates ?xs (hash_abs demo_hash ?s) = (bs, hash_abs demo_hash s')"
    by (rule conjunct2 [OF hash_updates_refine [OF wf_new_Table r]]) simp
  moreover have "hash_abs demo_hash ?s = Map.empty" by (rule new_Table_abs) simp
  ultimately have "bs = fst (spec_updates ?xs Map.empty)" by (metis fst_conv)
  then show ?thesis unfolding r by simp
qed

text \<open>C18: Blocks fit and go back to where they came from: a block made by an insertion, an update or a
  removal holds no more entries than its pool has room for, and the pool computed from its
  count, to which it is given back, is the one it was allocated from.\<close>

theorem block_pools:
  assumes "wf_block b"
  shows "(k \<notin> fst ` set (block_list b) \<longrightarrow> pool_of (insert_to_node (Some b) k v) = release_pool (insert_to_node (Some b) k v) \<and>
      (\<forall>c. capacity (pool_of (insert_to_node (Some b) k v)) = Some c \<longrightarrow> length (entries (insert_to_node (Some b) k v)) \<le> c)) \<and>
    (k \<in> fst ` set (block_list b) \<longrightarrow>
      (\<exists>b'. update_node b k f = Some b' \<and> pool_of b' = release_pool b' \<and>
        (\<forall>c. capacity (pool_of b') = Some c \<longrightarrow> length (entries b') \<le> c)) \<and>
      (\<exists>r. remove_from_node b k = Some r \<and> (\<forall>b'. r = Some b' \<longrightarrow> pool_of b' = release_pool b' \<and>
        (\<forall>c. capacity (pool_of b') = Some c \<longrightarrow> length (entries b') \<le> c))))"
proof (intro conjI impI)
  have fits: "pool_of c = release_pool c \<and> (\<forall>m. capacity (pool_of c) = Some m \<longrightarrow> length (entries c) \<le> m)" if "wf_block c" for c :: "('a, 'b) block"
    using that wf_block_fits [OF that] by (auto simp: wf_block_def)
  show "pool_of (insert_to_node (Some b) k v) = release_pool (insert_to_node (Some b) k v)"
    "\<forall>c. capacity (pool_of (insert_to_node (Some b) k v)) = Some c \<longrightarrow> length (entries (insert_to_node (Some b) k v)) \<le> c"
    if "k \<notin> fst ` set (block_list b)"
    using insert_to_node_wf [where old = "Some b" and k = k and v = v] assms that fits by (simp_all del: insert_to_node.simps)
  assume "k \<in> fst ` set (block_list b)"
  then obtain ys w zs where sp: "block_list b = ys @ (k, w) # zs" "k \<notin> fst ` set ys" by (rule split_first)
  from update_node_wf [OF assms sp] fits
  show "\<exists>b'. update_node b k f = Some b' \<and> pool_of b' = release_pool b' \<and>
        (\<forall>c. capacity (pool_of b') = Some c \<longrightarrow> length (entries b') \<le> c)" by blast
  from remove_from_node_wf [OF assms sp] obtain r where "remove_from_node b k = Some r"
    "case r of None \<Rightarrow> ys @ zs = [] | Some b' \<Rightarrow> wf_block b' \<and> block_list b' = ys @ zs" by blast
  with fits show "\<exists>r. remove_from_node b k = Some r \<and> (\<forall>b'. r = Some b' \<longrightarrow> pool_of b' = release_pool b' \<and>
        (\<forall>c. capacity (pool_of b') = Some c \<longrightarrow> length (entries b') \<le> c))" by auto
qed

theorem block_pools_witness:
  "let b = \<lparr>pool_of = Pool3, cnt = 3, entries = [(1, 10), (2, 20), (3, 30)], big_entries = []\<rparr> :: (nat, nat) block
   in pool_of (insert_to_node (Some b) 4 40) = release_pool (insert_to_node (Some b) 4 40) \<and>
      length (entries (insert_to_node (Some b) 4 40)) \<le> 7"
proof -
  let ?b = "\<lparr>pool_of = Pool3, cnt = 3, entries = [(1, 10), (2, 20), (3, 30)], big_entries = []\<rparr> :: (nat, nat) block"
  have "wf_block ?b" by (simp add: wf_block_def block_list_def release_pool_def)
  from block_pools [OF this, of 4 40 undefined] show ?thesis
    by (simp add: block_list_def Node_insert_def)
qed

lemma small_block_find:
  assumes "wf_block b" "cnt b \<le> 31"
  shows "(k \<notin> fst ` set (block_list b) \<longrightarrow> block_find b k = None) \<and>
    (\<forall>j<cnt b. block_find b (fst (block_list b ! j)) = Some (snd (block_list b ! (if 0 < j then j - 1 else j))))"
proof -
  have e: "block_list b = entries b" "cnt b = length (entries b)" "distinct (map fst (entries b))" "1 \<le> cnt b"
    using assms by (auto simp: wf_block_def block_list_def)
  then obtain x xs where x: "entries b = x # xs" by (cases "entries b") auto
  have f: "block_find b k = (if fst x = k then Some (snd x) else let i = find_in_range xs (length xs) k
      in if i = -1 then None else Some (snd ((x # xs) ! nat i)))" for k
    using assms(2) e(2) by (simp add: block_find_def x Let_def)
  have "block_find b (fst (entries b ! j)) = Some (snd (entries b ! (j - 1)))" if j: "0 < j" "j < cnt b" for j
  proof -
    obtain i where i: "j = Suc i" "i < length xs" using j e(2) x by (cases j) auto
    have ne: "fst x \<noteq> fst (xs ! i)" using e(3) x i(2) by auto
    have "fst (xs ! i) \<in> fst ` set xs" using i(2) by simp
    then have "find_in_range xs (length xs) (fst (xs ! i)) \<noteq> -1" using find_in_range_absent by metis
    then obtain m where m: "find_in_range xs (length xs) (fst (xs ! i)) = int m" "m < length xs" "fst (xs ! m) = fst (xs ! i)"
      by (rule find_in_range_present)
    then have "m = i" using e(3) x i(2) nth_eq_iff_index_eq [of "map fst xs" m i] by simp
    with m(1) ne i(1) show ?thesis unfolding f by (simp add: x Let_def)
  qed
  moreover have "block_find b (fst (entries b ! 0)) = Some (snd (entries b ! 0))" unfolding f by (simp add: x)
  moreover have "block_find b k = None" if "k \<notin> fst ` set (entries b)"
    using that find_in_range_absent [of xs k] unfolding f by (auto simp: x Let_def)
  ultimately show ?thesis unfolding e(1) by auto
qed

lemma big_block_find:
  assumes "wf_block b" "31 < cnt b"
  shows "(k \<notin> fst ` set (block_list b) \<longrightarrow> block_find b k = None) \<and>
    (\<forall>j<cnt b. block_find b (fst (block_list b ! j)) = Some (snd (block_list b ! j)))"
proof -
  have e: "block_list b = big_entries b" "cnt b = length (big_entries b)" "distinct (map fst (big_entries b))"
    using assms by (auto simp: wf_block_def block_list_def)
  have f: "block_find b k = (let i = find_in_range (big_entries b) (length (big_entries b)) k
      in if i = -1 then None else Some (snd (big_entries b ! nat i)))" for k
    using assms(2) e(2) by (simp add: block_find_def)
  have "block_find b (fst (big_entries b ! j)) = Some (snd (big_entries b ! j))" if j: "j < cnt b" for j
  proof -
    have "fst (big_entries b ! j) \<in> fst ` set (big_entries b)" using j e(2) by simp
    then have "find_in_range (big_entries b) (length (big_entries b)) (fst (big_entries b ! j)) \<noteq> -1"
      using find_in_range_absent by metis
    then obtain m where m: "find_in_range (big_entries b) (length (big_entries b)) (fst (big_entries b ! j)) = int m"
      "m < length (big_entries b)" "fst (big_entries b ! m) = fst (big_entries b ! j)"
      by (rule find_in_range_present)
    then have "m = j" using e(2,3) j nth_eq_iff_index_eq [of "map fst (big_entries b)" m j] by simp
    with m(1) show ?thesis unfolding f by (simp add: Let_def)
  qed
  moreover have "block_find b k = None" if "k \<notin> fst ` set (big_entries b)"
    using that find_in_range_absent [of "big_entries b" k] unfolding f by (simp add: Let_def)
  ultimately show ?thesis unfolding e(1) by auto
qed

text \<open>C19: What \<open>find\<close> answers on a block: it recognises every key, but in a block of at most 31 entries it
  returns for every key but the first the value of the entry before it. Only the first key,
  and the keys of big blocks, get their own value.\<close>

theorem block_find_value:
  assumes "wf_block b"
  shows "(k \<notin> fst ` set (block_list b) \<longrightarrow> block_find b k = None) \<and>
    (\<forall>j<cnt b. block_find b (fst (block_list b ! j)) =
       Some (snd (block_list b ! (if cnt b \<le> 31 \<and> 0 < j then j - 1 else j))))"
proof (cases "cnt b \<le> 31")
  case True
  with small_block_find [OF assms True, of k] show ?thesis by simp
next
  case False
  with big_block_find [OF assms, of k] show ?thesis by simp
qed

theorem block_find_value_witness:
  "let b = \<lparr>pool_of = Pool3, cnt = 2, entries = [(1, 10), (2, 20)], big_entries = []\<rparr> :: (nat, nat) block
   in block_find b 2 = Some 10 \<and> map_of (block_list b) 2 = Some 20"
proof -
  let ?b = "\<lparr>pool_of = Pool3, cnt = 2, entries = [(1, 10), (2, 20)], big_entries = []\<rparr> :: (nat, nat) block"
  have "wf_block ?b" by (simp add: wf_block_def block_list_def release_pool_def)
  from conjunct2 [OF block_find_value [OF this, of 0], rule_format, of 1] show ?thesis by (simp add: block_list_def)
qed

text \<open>The update of \<^verbatim>\<open>new_unordered_map.h\<close> takes the new block from a pool to which it is not given back.\<close>

lemma new_update_wrong_pool:
  "\<exists>b'. new_update_node \<lparr>pool_of = Pool1, cnt = 1, entries = [(1, 10)], big_entries = []\<rparr> (1::nat) f = Some b' \<and>
     pool_of b' = Pool3 \<and> release_pool b' = Pool1"
  by (simp add: new_update_node_def Node_update_def copy_and_update_def release_pool_def)

end
