(* ===== verification/B_Tree.thy ===== *)
theory B_Tree
  imports Map_ADT
begin

text \<open>
  The (a,b)-tree map, \<^verbatim>\<open>structures/btree/ordered_map.h\<close>: nodes are split or joined on the way
  down so that a leaf always has room for an insertion and enough entries for a removal. Nodes
  and leaves are immutable but for the child pointers, which the code replaces under locks; the
  tree is modelled as a value and the operations as they run alone, so that a validation under
  a lock succeeds. The theory shows that every rebalancing step keeps the
  entries and the size bounds, that the descent ends, and that the tree is a map.
\<close>

section \<open>Nodes and leaves\<close>

datatype status = isOver | isUnder | OK

text \<open>The header's fields \<open>is_leaf\<close> and \<open>size\<close> are the constructor and the length of the lists.\<close>

datatype ('k, 'v) bnode =
    BLeaf (bstatus: status) (keyvals: "('k \<times> 'v) list")
  | BNode (bstatus: status) (bkeys: "'k list") (children: "('k, 'v) bnode list")

definition bis_leaf :: "('k, 'v) bnode \<Rightarrow> bool" where
  "bis_leaf t = (case t of BLeaf _ _ \<Rightarrow> True | BNode _ _ _ \<Rightarrow> False)"

definition bsize :: "('k, 'v) bnode \<Rightarrow> nat" where
  "bsize t = (case t of BLeaf _ kvs \<Rightarrow> length kvs | BNode _ _ cs \<Rightarrow> length cs)"

text \<open>The capacities depend on the sizes of keys and values; both are at least 5.\<close>

record blocks =
  leaf_block_size :: nat
  node_block_size :: nat

definition block_size :: "nat \<Rightarrow> nat \<Rightarrow> nat" where
  "block_size bytes entry = max (bytes div entry) 5"

definition block_sizes :: "nat \<Rightarrow> nat \<Rightarrow> nat \<Rightarrow> nat \<Rightarrow> blocks" where
  "block_sizes header lock_bytes key kv =
     \<lparr>leaf_block_size = block_size (64 * 8 - header) kv,
      node_block_size = block_size (64 * 6 - header - lock_bytes + key) (key + 8)\<rparr>"

definition leaf_min_size :: "blocks \<Rightarrow> nat" where
  "leaf_min_size b = leaf_block_size b div 5"

definition leaf_join_cutoff :: "blocks \<Rightarrow> nat" where
  "leaf_join_cutoff b = leaf_min_size b * 4"

definition node_min_size :: "blocks \<Rightarrow> nat" where
  "node_min_size b = node_block_size b div 5"

definition node_join_cutoff :: "blocks \<Rightarrow> nat" where
  "node_join_cutoff b = node_min_size b * 4"

definition size_status :: "nat \<Rightarrow> nat \<Rightarrow> nat \<Rightarrow> status" where
  "size_status low high n = (if n = low then isUnder else if n = high then isOver else OK)"

text \<open>The constructors.\<close>

definition new_leaf :: "blocks \<Rightarrow> ('k \<times> 'v) list \<Rightarrow> ('k, 'v) bnode" where
  "new_leaf b kvs = BLeaf (size_status (leaf_min_size b) (leaf_block_size b) (length kvs)) kvs"

definition new_root :: "('k, 'v) bnode \<times> 'k \<times> ('k, 'v) bnode \<Rightarrow> ('k, 'v) bnode" where
  "new_root nec = (let (l, k, r) = nec in BNode OK [k] [l, r])"

definition copy :: "blocks \<Rightarrow> nat \<Rightarrow> (nat \<Rightarrow> 'k) \<Rightarrow> (nat \<Rightarrow> ('k, 'v) bnode) \<Rightarrow> ('k, 'v) bnode" where
  "copy b n get_key get_child =
     BNode (size_status (node_min_size b) (node_block_size b) n) (map get_key [0..<n - 1]) (map get_child [0..<n])"

definition copy_node :: "blocks \<Rightarrow> ('k, 'v) bnode \<Rightarrow> ('k, 'v) bnode" where
  "copy_node b p = copy b (bsize p) (\<lambda>i. bkeys p ! i) (\<lambda>i. children p ! i)"

section \<open>Searching in a node\<close>

text \<open>The loops of \<open>node::find\<close>. The first has no bound in the code: it ends at the middle key at the latest.\<close>

function skip_keys :: "'k::linorder list \<Rightarrow> 'k \<Rightarrow> nat \<Rightarrow> nat" where
  "skip_keys ks k i = (if i < length ks \<and> \<not> k < ks ! i then skip_keys ks k (i + 1) else i)"
  by auto
termination by (relation "measure (\<lambda>(ks, k, i). length ks - i)") auto

declare skip_keys.simps [simp del]

definition bt_find :: "'k::linorder list \<Rightarrow> nat \<Rightarrow> 'k \<Rightarrow> nat \<Rightarrow> nat" where
  "bt_find ks n k i =
     (if n = 1 then 0
      else let mid = (n - 1) div 2
           in if k < ks ! mid then skip_keys ks k i
              else skip_keys ks k (max i (mid + 1)))"

fun leaf_prev :: "('k::linorder \<times> 'v) list \<Rightarrow> 'k \<Rightarrow> nat" where
  "leaf_prev [] k = 0"
| "leaf_prev ((k', v) # kvs) k = (if k' < k then Suc (leaf_prev kvs k) else 0)"

text \<open>\<open>prev\<close> with a start index.\<close>

definition leaf_prev_from :: "('k::linorder \<times> 'v) list \<Rightarrow> 'k \<Rightarrow> nat \<Rightarrow> nat" where
  "leaf_prev_from kvs k i = i + leaf_prev (drop i kvs) k"

definition leaf_find :: "('k::linorder \<times> 'v) list \<Rightarrow> 'k \<Rightarrow> 'v option" where
  "leaf_find kvs k =
     (let i = leaf_prev kvs k
      in if i = length kvs \<or> k < fst (kvs ! i) then None else Some (snd (kvs ! i)))"

section \<open>Rebuilding nodes\<close>

definition split_mid :: "blocks \<Rightarrow> nat \<Rightarrow> (nat \<Rightarrow> 'k) \<Rightarrow> (nat \<Rightarrow> ('k, 'v) bnode)
    \<Rightarrow> ('k, 'v) bnode \<times> 'k \<times> ('k, 'v) bnode" where
  "split_mid b n get_key get_child =
     (let lsize = n div 2;
          new_l = copy b lsize get_key get_child;
          new_r = copy b (n - lsize) (\<lambda>i. get_key (i + lsize)) (\<lambda>i. get_child (i + lsize))
      in (new_l, get_key (lsize - 1), new_r))"

definition bsplit :: "blocks \<Rightarrow> ('k, 'v) bnode \<Rightarrow> ('k, 'v) bnode \<times> 'k \<times> ('k, 'v) bnode" where
  "bsplit b p = split_mid b (bsize p) (\<lambda>i. bkeys p ! i) (\<lambda>i. children p ! i)"

text \<open>The keys and children of two neighbours with the key between them.\<close>

definition both_keys :: "('k, 'v) bnode \<Rightarrow> 'k \<Rightarrow> ('k, 'v) bnode \<Rightarrow> nat \<Rightarrow> 'k" where
  "both_keys c1 k c2 i =
     (if i < bsize c1 - 1 then bkeys c1 ! i else if i = bsize c1 - 1 then k else bkeys c2 ! (i - bsize c1))"

definition both_children :: "('k, 'v) bnode \<Rightarrow> ('k, 'v) bnode \<Rightarrow> nat \<Rightarrow> ('k, 'v) bnode" where
  "both_children c1 c2 i = (if i < bsize c1 then children c1 ! i else children c2 ! (i - bsize c1))"

definition rebalance :: "blocks \<Rightarrow> ('k, 'v) bnode \<Rightarrow> 'k \<Rightarrow> ('k, 'v) bnode \<Rightarrow> ('k, 'v) bnode \<times> 'k \<times> ('k, 'v) bnode" where
  "rebalance b c1 k c2 = split_mid b (bsize c1 + bsize c2) (both_keys c1 k c2) (both_children c1 c2)"

definition bjoin :: "blocks \<Rightarrow> ('k, 'v) bnode \<Rightarrow> 'k \<Rightarrow> ('k, 'v) bnode \<Rightarrow> ('k, 'v) bnode" where
  "bjoin b c1 k c2 = copy b (bsize c1 + bsize c2) (both_keys c1 k c2) (both_children c1 c2)"

definition add_child :: "blocks \<Rightarrow> ('k, 'v) bnode \<Rightarrow> ('k, 'v) bnode \<times> 'k \<times> ('k, 'v) bnode \<Rightarrow> nat \<Rightarrow> ('k, 'v) bnode" where
  "add_child b p newc pos =
     (let (c1, k, c2) = newc
      in copy b (bsize p + 1)
           (\<lambda>i. if i < pos then bkeys p ! i else if i = pos then k else bkeys p ! (i - 1))
           (\<lambda>i. if i < pos then children p ! i else if i = pos then c1 else if i = pos + 1 then c2 else children p ! (i - 1)))"

definition join_children :: "blocks \<Rightarrow> ('k, 'v) bnode \<Rightarrow> ('k, 'v) bnode \<Rightarrow> nat \<Rightarrow> ('k, 'v) bnode" where
  "join_children b p c pos =
     copy b (bsize p - 1)
       (\<lambda>i. if i < pos then bkeys p ! i else bkeys p ! (i + 1))
       (\<lambda>i. if i < pos then children p ! i else if i = pos then c else children p ! (i + 1))"

definition rebalance_children :: "blocks \<Rightarrow> ('k, 'v) bnode \<Rightarrow> ('k, 'v) bnode \<times> 'k \<times> ('k, 'v) bnode \<Rightarrow> nat \<Rightarrow> ('k, 'v) bnode" where
  "rebalance_children b p newc pos =
     (let (c1, k, c2) = newc
      in copy b (bsize p)
           (\<lambda>i. if i = pos then k else bkeys p ! i)
           (\<lambda>i. if i = pos then c1 else if i = pos + 1 then c2 else children p ! i))"

section \<open>Rebuilding leaves\<close>

definition copy_leaf :: "blocks \<Rightarrow> ('k, 'v) bnode \<Rightarrow> ('k, 'v) bnode" where
  "copy_leaf b l = new_leaf b (keyvals l)"

definition insert_leaf :: "blocks \<Rightarrow> ('k::linorder, 'v) bnode \<Rightarrow> 'k \<Rightarrow> 'v \<Rightarrow> bool \<Rightarrow> ('k, 'v) bnode" where
  "insert_leaf b l k v upsert =
     (let i = leaf_prev (keyvals l) k
      in new_leaf b (take i (keyvals l) @ (k, v) # drop (if upsert then i + 1 else i) (keyvals l)))"

definition remove_leaf :: "blocks \<Rightarrow> ('k::linorder, 'v) bnode \<Rightarrow> 'k \<Rightarrow> ('k, 'v) bnode" where
  "remove_leaf b l k =
     (let i = leaf_prev (keyvals l) k
      in new_leaf b (take (bsize l - 1) (take i (keyvals l) @ drop (i + 1) (keyvals l))))"

definition split_mid_leaf :: "blocks \<Rightarrow> nat \<Rightarrow> (nat \<Rightarrow> 'k \<times> 'v) \<Rightarrow> ('k, 'v) bnode \<times> 'k \<times> ('k, 'v) bnode" where
  "split_mid_leaf b n get_kv =
     (let lsize = n div 2;
          new_l = new_leaf b (map get_kv [0..<lsize]);
          rsize = n - lsize;
          new_r = new_leaf b (map (\<lambda>i. get_kv (i + lsize)) [0..<rsize])
      in (new_l, fst (get_kv lsize), new_r))"

definition split_leaf :: "blocks \<Rightarrow> ('k, 'v) bnode \<Rightarrow> ('k, 'v) bnode \<times> 'k \<times> ('k, 'v) bnode" where
  "split_leaf b p = split_mid_leaf b (bsize p) (\<lambda>i. keyvals p ! i)"

definition both_keyvals :: "('k, 'v) bnode \<Rightarrow> ('k, 'v) bnode \<Rightarrow> nat \<Rightarrow> 'k \<times> 'v" where
  "both_keyvals l r i = (if i < bsize l then keyvals l ! i else keyvals r ! (i - bsize l))"

definition rebalance_leaf :: "blocks \<Rightarrow> ('k, 'v) bnode \<Rightarrow> ('k, 'v) bnode \<Rightarrow> ('k, 'v) bnode \<times> 'k \<times> ('k, 'v) bnode" where
  "rebalance_leaf b l r = split_mid_leaf b (bsize l + bsize r) (both_keyvals l r)"

definition join_leaf :: "blocks \<Rightarrow> ('k, 'v) bnode \<Rightarrow> ('k, 'v) bnode \<Rightarrow> ('k, 'v) bnode" where
  "join_leaf b l r = new_leaf b (map (both_keyvals l r) [0..<bsize l + bsize r])"

section \<open>Fixing nodes on the way down\<close>

text \<open>
  \<open>overfull_node\<close> and \<open>underfull_node\<close> for a child \<open>c\<close> at position \<open>cidx\<close> of \<open>p\<close>: the node that replaces \<open>p\<close> in
  its parent, and the nodes that are retired.
\<close>

definition overfull_node :: "blocks \<Rightarrow> ('k, 'v) bnode \<Rightarrow> nat \<Rightarrow> ('k, 'v) bnode \<Rightarrow> ('k, 'v) bnode \<times> ('k, 'v) bnode list" where
  "overfull_node b p cidx c =
     (if bis_leaf c then (add_child b p (split_leaf b c) cidx, [c, p])
      else (add_child b p (bsplit b c) cidx, [c, p]))"

definition underfull_node :: "blocks \<Rightarrow> ('k, 'v) bnode \<Rightarrow> nat \<Rightarrow> ('k, 'v) bnode \<Rightarrow> ('k, 'v) bnode \<times> ('k, 'v) bnode list" where
  "underfull_node b p cidx c =
     (let other_c = children p ! (if cidx = 0 then cidx + 1 else cidx - 1);
          (li, lc, rc) = (if cidx = 0 then (0, c, other_c) else (cidx - 1, other_c, c))
      in if bis_leaf c
         then (if bsize lc + bsize rc < leaf_join_cutoff b then join_children b p (join_leaf b lc rc) li
               else rebalance_children b p (rebalance_leaf b lc rc) li, [p, lc, rc])
         else let k = bkeys p ! li
              in (if bsize lc + bsize rc < node_join_cutoff b then join_children b p (bjoin b lc k rc) li
                  else rebalance_children b p (rebalance b lc k rc) li, [p, lc, rc]))"

definition fix_node :: "blocks \<Rightarrow> ('k, 'v) bnode \<Rightarrow> nat \<Rightarrow> ('k, 'v) bnode \<Rightarrow> ('k, 'v) bnode \<times> ('k, 'v) bnode list" where
  "fix_node b p cidx c = (if bstatus c = isOver then overfull_node b p cidx c else underfull_node b p cidx c)"

text \<open>\<open>fix_root\<close>, of a build that need not copy the only child of the node that is taken out.\<close>

definition fix_root :: "blocks \<Rightarrow> ('k, 'v) bnode \<Rightarrow> ('k, 'v) bnode \<times> ('k, 'v) bnode list" where
  "fix_root b c =
     (if bstatus c = isOver
      then (new_root (if bis_leaf c then split_leaf b c else bsplit b c), [c])
      else (children c ! 0, [c]))"

text \<open>The build with record-once pointers copies the only child, which may be linked once only.\<close>

definition copy_node_or_leaf :: "blocks \<Rightarrow> ('k, 'v) bnode \<Rightarrow> ('k, 'v) bnode \<times> ('k, 'v) bnode list" where
  "copy_node_or_leaf b p = (if bis_leaf p then (copy_leaf b p, [p]) else (copy_node b p, [p]))"

definition fix_root_once :: "blocks \<Rightarrow> ('k, 'v) bnode \<Rightarrow> ('k, 'v) bnode \<times> ('k, 'v) bnode list" where
  "fix_root_once b c =
     (if bstatus c = isOver
      then (new_root (if bis_leaf c then split_leaf b c else bsplit b c), [c])
      else let (r, ret) = copy_node_or_leaf b (children c ! 0) in (r, ret @ [c]))"

text \<open>
  The inner loop of \<open>find_and_fix\<close> below a node: nothing when it reaches a leaf, otherwise the
  node after the first fix. \<open>set_child\<close> is the assignment to \<open>gp->children[pidx]\<close>.
\<close>

definition set_child :: "('k, 'v) bnode \<Rightarrow> nat \<Rightarrow> ('k, 'v) bnode \<Rightarrow> ('k, 'v) bnode" where
  "set_child p i c = BNode (bstatus p) (bkeys p) ((children p)[i := c])"

lemma size_nth_le: "i < length cs \<Longrightarrow> size (cs ! i) \<le> size_list size cs"
  by (rule size_list_estimation' [OF nth_mem order_refl])

function fix_path :: "blocks \<Rightarrow> 'k::linorder \<Rightarrow> ('k, 'v) bnode \<Rightarrow> (('k, 'v) bnode \<times> ('k, 'v) bnode list) option" where
  "fix_path b k (BLeaf st kvs) = None"
| "fix_path b k (BNode st ks cs) =
     (let cidx = bt_find ks (length cs) k 0
      in if cidx < length cs
         then if bstatus (cs ! cidx) \<noteq> OK then Some (fix_node b (BNode st ks cs) cidx (cs ! cidx))
              else map_option (\<lambda>(c, ret). (set_child (BNode st ks cs) cidx c, ret)) (fix_path b k (cs ! cidx))
         else None)"
  by pat_completeness auto
termination by (relation "measure (\<lambda>(b, k, t). size t)") (auto dest: size_nth_le)

text \<open>The tree without its fixed root node, which has one child and is never replaced.\<close>

definition fix_round :: "blocks \<Rightarrow> 'k::linorder \<Rightarrow> ('k, 'v) bnode \<Rightarrow> (('k, 'v) bnode \<times> ('k, 'v) bnode list) option" where
  "fix_round b k c =
     (if bstatus c = isOver \<or> (\<not> bis_leaf c \<and> bsize c = 1) then Some (fix_root b c) else fix_path b k c)"

text \<open>The outer loop of \<open>find_and_fix\<close>, with fuel (the code aborts after \<open>100000000\<close> rounds).\<close>

fun find_and_fix :: "blocks \<Rightarrow> nat \<Rightarrow> 'k::linorder \<Rightarrow> ('k, 'v) bnode \<Rightarrow> ('k, 'v) bnode option" where
  "find_and_fix b 0 k c = None"
| "find_and_fix b (Suc fuel) k c =
     (case fix_round b k c of None \<Rightarrow> Some c | Some (c', _) \<Rightarrow> find_and_fix b fuel k c')"

text \<open>The leaf at the end of the search path, and the tree with another leaf in its place.\<close>

function find_no_fix :: "'k::linorder \<Rightarrow> ('k, 'v) bnode \<Rightarrow> ('k, 'v) bnode" where
  "find_no_fix k (BLeaf st kvs) = BLeaf st kvs"
| "find_no_fix k (BNode st ks cs) =
     (let cidx = bt_find ks (length cs) k 0
      in if cidx < length cs then find_no_fix k (cs ! cidx) else BNode st ks cs)"
  by pat_completeness auto
termination by (relation "measure (\<lambda>(k, t). size t)") (auto dest: size_nth_le)

function put_leaf :: "'k::linorder \<Rightarrow> ('k, 'v) bnode \<Rightarrow> ('k, 'v) bnode \<Rightarrow> ('k, 'v) bnode" where
  "put_leaf k l (BLeaf st kvs) = l"
| "put_leaf k l (BNode st ks cs) =
     (let cidx = bt_find ks (length cs) k 0
      in if cidx < length cs then set_child (BNode st ks cs) cidx (put_leaf k l (cs ! cidx)) else BNode st ks cs)"
  by pat_completeness auto
termination by (relation "measure (\<lambda>(k, l, t). size t)") (auto dest: size_nth_le)

section \<open>Operations of the map\<close>

definition bt_try_insert :: "blocks \<Rightarrow> nat \<Rightarrow> 'k::linorder \<Rightarrow> 'v \<Rightarrow> bool \<Rightarrow> ('k, 'v) bnode \<Rightarrow> (bool \<times> ('k, 'v) bnode) option" where
  "bt_try_insert b fuel k v upsert t =
     (case find_and_fix b fuel k t of
        None \<Rightarrow> None
      | Some t1 \<Rightarrow>
          let l = find_no_fix k t1
          in if \<not> upsert \<and> leaf_find (keyvals l) k \<noteq> None then Some (False, t1)
             else let upsert_leaf = (upsert \<and> leaf_find (keyvals l) k \<noteq> None)
                  in Some (True, put_leaf k (insert_leaf b l k v upsert_leaf) t1))"

definition bt_try_remove :: "blocks \<Rightarrow> nat \<Rightarrow> 'k::linorder \<Rightarrow> ('k, 'v) bnode \<Rightarrow> (bool \<times> ('k, 'v) bnode) option" where
  "bt_try_remove b fuel k t =
     (case find_and_fix b fuel k t of
        None \<Rightarrow> None
      | Some t1 \<Rightarrow>
          let l = find_no_fix k t1
          in if leaf_find (keyvals l) k = None then Some (False, t1)
             else Some (True, put_leaf k (remove_leaf b l k) t1))"

definition bt_lookup :: "'k::linorder \<Rightarrow> ('k, 'v) bnode \<Rightarrow> 'v option" where
  "bt_lookup k t = leaf_find (keyvals (find_no_fix k t)) k"

function range_internal :: "'k::linorder \<Rightarrow> 'k \<Rightarrow> ('k, 'v) bnode \<Rightarrow> ('k \<times> 'v) list" where
  "range_internal start stop (BLeaf st kvs) =
     (let s = leaf_prev_from kvs start 0; e = leaf_prev_from kvs stop s in map (\<lambda>i. kvs ! i) [s..<e])"
| "range_internal start stop (BNode st ks cs) =
     (let s = bt_find ks (length cs) start 0;
          e = bt_find ks (length cs) stop s
      in concat (map (\<lambda>i. if i < length cs then range_internal start stop (cs ! i) else []) [s..<Suc e]))"
  by pat_completeness auto
termination by (relation "measure (\<lambda>(s, e, t). size t)") (auto dest: size_nth_le)

definition empty_btree :: "blocks \<Rightarrow> ('k, 'v) bnode" where
  "empty_btree b = new_leaf b []"

text \<open>The destructor: the nodes in the order in which they are retired.\<close>

fun retire_recursive :: "('k, 'v) bnode \<Rightarrow> ('k, 'v) bnode list" where
  "retire_recursive (BLeaf st kvs) = [BLeaf st kvs]"
| "retire_recursive (BNode st ks cs) = concat (map retire_recursive cs) @ [BNode st ks cs]"

text \<open>The self check: smallest and largest key and the number of entries, \<open>None\<close> for the calls of
  \<open>abort\<close>; \<open>any\<close> stands for the key in an unused place, which is read for an empty leaf.\<close>

definition leaf_min_max :: "'k::linorder \<Rightarrow> ('k \<times> 'v) list \<Rightarrow> 'k \<times> 'k" where
  "leaf_min_max any kvs =
     (case kvs of [] \<Rightarrow> (any, any)
      | kv # rest \<Rightarrow> fold (\<lambda>(k, _) (lo, hi). (if k < lo then k else lo, if hi < k then k else hi)) rest (fst kv, fst kv))"

fun check_recursive :: "blocks \<Rightarrow> 'k::linorder \<Rightarrow> bool \<Rightarrow> ('k, 'v) bnode \<Rightarrow> ('k \<times> 'k \<times> nat) option" where
  "check_recursive b any is_root (BLeaf st kvs) =
     (let (lo, hi) = leaf_min_max any kvs in Some (lo, hi, length kvs))"
| "check_recursive b any is_root (BNode st ks cs) =
     (if \<not> is_root \<and> length cs < node_min_size b then None
      else let r = map (check_recursive b any False) cs
           in if None \<in> set r then None
              else let rs = map the r; total = sum_list (map (\<lambda>(_, _, n). n) rs)
                   in if \<exists>i < length cs - 1. \<not> fst (snd (rs ! i)) < ks ! i \<or> fst (rs ! (i + 1)) < ks ! i then None
                      else Some (fst (rs ! 0), fst (snd (rs ! (length rs - 1))), total))"

definition bt_check :: "blocks \<Rightarrow> 'k::linorder \<Rightarrow> ('k, 'v) bnode \<Rightarrow> nat option" where
  "bt_check b any t = map_option (\<lambda>(_, _, n). n) (check_recursive b any True t)"

text \<open>The sum of the depths of the entries; the fixed root node has depth 0, so the tree below it has depth 1.\<close>

fun height_rec :: "nat \<Rightarrow> ('k, 'v) bnode \<Rightarrow> nat" where
  "height_rec depth (BLeaf st kvs) = depth * length kvs"
| "height_rec depth (BNode st ks cs) = sum_list (map (height_rec (depth + 1)) cs)"

definition total_height :: "('k, 'v) bnode \<Rightarrow> nat" where
  "total_height t = height_rec 1 t"

section \<open>The rebuilding functions on lists\<close>

abbreviation nstat :: "blocks \<Rightarrow> nat \<Rightarrow> status" where
  "nstat b \<equiv> size_status (node_min_size b) (node_block_size b)"

lemma bnode_sel [simp]:
  "bis_leaf (BLeaf st kvs)" "\<not> bis_leaf (BNode st ks cs)"
  "bsize (BLeaf st kvs) = length kvs" "bsize (BNode st ks cs) = length cs"
  by (simp_all add: bis_leaf_def bsize_def)

lemma map_nth_upt: "n \<le> length xs \<Longrightarrow> map ((!) xs) [0..<n] = take n xs"
  by (rule nth_equalityI) simp_all

lemma map_nth_upt_shift: "n + l \<le> length xs \<Longrightarrow> map (\<lambda>i. xs ! (i + l)) [0..<n] = take n (drop l xs)"
  by (rule nth_equalityI) (simp_all add: add.commute)

lemma copy_cong:
  "(\<And>i. i < n - 1 \<Longrightarrow> f i = ks ! i) \<Longrightarrow> (\<And>i. i < n \<Longrightarrow> g i = cs ! i) \<Longrightarrow> length ks = n - 1 \<Longrightarrow> length cs = n \<Longrightarrow>
   copy b n f g = BNode (nstat b n) ks cs"
  by (auto simp: copy_def intro!: nth_equalityI)

lemma split_mid_list:
  assumes "length cs = Suc (length ks)" "2 \<le> length cs"
  shows "split_mid b (length cs) ((!) ks) ((!) cs) =
    (let l = length cs div 2
     in (BNode (nstat b l) (take (l - 1) ks) (take l cs), ks ! (l - 1),
         BNode (nstat b (length cs - l)) (drop l ks) (drop l cs)))"
proof -
  let ?l = "length cs div 2"
  have "copy b ?l ((!) ks) ((!) cs) = BNode (nstat b ?l) (take (?l - 1) ks) (take ?l cs)"
    by (rule copy_cong) (use assms in auto)
  moreover have "copy b (length cs - ?l) (\<lambda>i. ks ! (i + ?l)) (\<lambda>i. cs ! (i + ?l))
      = BNode (nstat b (length cs - ?l)) (drop ?l ks) (drop ?l cs)"
    by (rule copy_cong) (use assms in \<open>auto simp: add.commute\<close>)
  ultimately show ?thesis by (simp add: split_mid_def Let_def)
qed

lemma split_mid_cong:
  assumes "\<And>i. i < n - 1 \<Longrightarrow> f i = ks ! i" "\<And>i. i < n \<Longrightarrow> g i = cs ! i" "length cs = n" "length cs = Suc (length ks)" "2 \<le> n"
  shows "split_mid b n f g = split_mid b (length cs) ((!) ks) ((!) cs)"
proof -
  let ?l = "n div 2"
  have "copy b ?l f g = copy b ?l ((!) ks) ((!) cs)"
    unfolding copy_def using assms by (auto intro!: map_cong)
  moreover have "copy b (n - ?l) (\<lambda>i. f (i + ?l)) (\<lambda>i. g (i + ?l)) = copy b (n - ?l) (\<lambda>i. ks ! (i + ?l)) (\<lambda>i. cs ! (i + ?l))"
    unfolding copy_def using assms by (auto intro!: map_cong)
  moreover have "f (?l - 1) = ks ! (?l - 1)" by (rule assms(1)) (use assms(5) in auto)
  ultimately show ?thesis using assms(3) by (simp add: split_mid_def Let_def)
qed

lemma both_children_nth: "i < length cs1 + length cs2 \<Longrightarrow> both_children (BNode s1 ks1 cs1) (BNode s2 ks2 cs2) i = (cs1 @ cs2) ! i"
  by (simp add: both_children_def nth_append)

lemma both_keys_nth:
  assumes "length cs1 = Suc (length ks1)" "length cs2 = Suc (length ks2)" "i < length cs1 + length cs2 - 1"
  shows "both_keys (BNode s1 ks1 cs1) k (BNode s2 ks2 cs2) i = (ks1 @ k # ks2) ! i"
  using assms
  by (auto simp: both_keys_def nth_append nth_Cons')

lemma rebalance_list:
  assumes "length cs1 = Suc (length ks1)" "length cs2 = Suc (length ks2)"
  shows "rebalance b (BNode s1 ks1 cs1) k (BNode s2 ks2 cs2) =
    split_mid b (length (cs1 @ cs2)) ((!) (ks1 @ k # ks2)) ((!) (cs1 @ cs2))"
  unfolding rebalance_def bnode_sel
  by (rule split_mid_cong) (use assms in \<open>auto simp: both_keys_nth both_children_nth\<close>)

lemma bjoin_list:
  assumes "length cs1 = Suc (length ks1)" "length cs2 = Suc (length ks2)"
  shows "bjoin b (BNode s1 ks1 cs1) k (BNode s2 ks2 cs2) =
    BNode (nstat b (length cs1 + length cs2)) (ks1 @ k # ks2) (cs1 @ cs2)"
  unfolding bjoin_def bnode_sel
  by (rule copy_cong) (use assms in \<open>auto simp: both_keys_nth both_children_nth\<close>)

text \<open>A node as what is left and right of one child, or of two neighbours.\<close>

lemma add_child_list:
  assumes "length ks1 = length cs1" "length ks2 = length cs2"
  shows "add_child b (BNode st (ks1 @ ks2) (cs1 @ c # cs2)) (c1, k, c2) (length cs1) =
    BNode (nstat b (length cs1 + length cs2 + 2)) (ks1 @ k # ks2) (cs1 @ c1 # c2 # cs2)"
  unfolding add_child_def prod.case Let_def bnode_sel bnode.sel
  apply (subst copy_cong [where ks = "ks1 @ k # ks2" and cs = "cs1 @ c1 # c2 # cs2"])
  using assms by (auto simp: nth_append nth_Cons')

lemma join_children_list:
  assumes "length ks1 = length cs1" "length ks2 = length cs2"
  shows "join_children b (BNode st (ks1 @ k # ks2) (cs1 @ c1 # c2 # cs2)) c (length cs1) =
    BNode (nstat b (length cs1 + length cs2 + 1)) (ks1 @ ks2) (cs1 @ c # cs2)"
  unfolding join_children_def bnode_sel bnode.sel
  apply (subst copy_cong [where ks = "ks1 @ ks2" and cs = "cs1 @ c # cs2"])
  using assms by (auto simp: nth_append nth_Cons' Suc_diff_le)

lemma rebalance_children_list:
  assumes "length ks1 = length cs1" "length ks2 = length cs2"
  shows "rebalance_children b (BNode st (ks1 @ k # ks2) (cs1 @ c1 # c2 # cs2)) (d1, m, d2) (length cs1) =
    BNode (nstat b (length cs1 + length cs2 + 2)) (ks1 @ m # ks2) (cs1 @ d1 # d2 # cs2)"
  unfolding rebalance_children_def prod.case Let_def bnode_sel bnode.sel
  apply (subst copy_cong [where ks = "ks1 @ m # ks2" and cs = "cs1 @ d1 # d2 # cs2"])
  using assms by (auto simp: nth_append nth_Cons')

lemma split_mid_leaf_list:
  assumes "\<And>i. i < n \<Longrightarrow> f i = kvs ! i" "length kvs = n" "2 \<le> n"
  shows "split_mid_leaf b n f = (new_leaf b (take (n div 2) kvs), fst (kvs ! (n div 2)), new_leaf b (drop (n div 2) kvs))"
proof -
  have "map f [0..<n div 2] = take (n div 2) kvs" using assms by (auto intro!: nth_equalityI)
  moreover have "map (\<lambda>i. f (i + n div 2)) [0..<n - n div 2] = drop (n div 2) kvs"
    using assms by (auto intro!: nth_equalityI simp: add.commute)
  ultimately show ?thesis using assms by (simp add: split_mid_leaf_def Let_def)
qed

lemma both_keyvals_nth: "both_keyvals (BLeaf s1 kvs1) (BLeaf s2 kvs2) i = (kvs1 @ kvs2) ! i"
  by (simp add: both_keyvals_def nth_append)

lemma join_leaf_list: "join_leaf b (BLeaf s1 kvs1) (BLeaf s2 kvs2) = new_leaf b (kvs1 @ kvs2)"
proof -
  have "map (both_keyvals (BLeaf s1 kvs1) (BLeaf s2 kvs2)) [0..<length kvs1 + length kvs2] = kvs1 @ kvs2"
    by (rule nth_equalityI) (simp_all add: both_keyvals_nth)
  then show ?thesis by (simp add: join_leaf_def)
qed

section \<open>Ordered nodes\<close>

text \<open>Bounds of a subtree: the keys are at least the lower and below the upper one, where there is one.\<close>

definition within :: "'k::linorder option \<Rightarrow> 'k \<Rightarrow> 'k option \<Rightarrow> bool" where
  "within lo k hi \<longleftrightarrow> (case lo of None \<Rightarrow> True | Some l \<Rightarrow> l \<le> k) \<and> (case hi of None \<Rightarrow> True | Some h \<Rightarrow> k < h)"

definition nonempty_range :: "'k::linorder option \<Rightarrow> 'k option \<Rightarrow> bool" where
  "nonempty_range lo hi \<longleftrightarrow> (\<forall>l h. lo = Some l \<longrightarrow> hi = Some h \<longrightarrow> l < h)"

text \<open>The children with their bounds: \<open>kids\<close> for all of a node, \<open>left_ok\<close> and \<open>right_ok\<close> for those before and after one child.\<close>

fun kids :: "('k option \<Rightarrow> 'k option \<Rightarrow> 't \<Rightarrow> bool) \<Rightarrow> 'k option \<Rightarrow> 'k option \<Rightarrow> 'k list \<Rightarrow> 't list \<Rightarrow> bool" where
  "kids P lo hi [] [c] \<longleftrightarrow> P lo hi c"
| "kids P lo hi (k # ks) (c # cs) \<longleftrightarrow> P lo (Some k) c \<and> kids P (Some k) hi ks cs"
| "kids P lo hi ks cs \<longleftrightarrow> False"

fun left_ok :: "('k option \<Rightarrow> 'k option \<Rightarrow> 't \<Rightarrow> bool) \<Rightarrow> 'k option \<Rightarrow> 'k list \<Rightarrow> 't list \<Rightarrow> 'k option \<Rightarrow> bool" where
  "left_ok P lo [] [] m \<longleftrightarrow> m = lo"
| "left_ok P lo (k # ks) (c # cs) m \<longleftrightarrow> P lo (Some k) c \<and> left_ok P (Some k) ks cs m"
| "left_ok P lo ks cs m \<longleftrightarrow> False"

fun right_ok :: "('k option \<Rightarrow> 'k option \<Rightarrow> 't \<Rightarrow> bool) \<Rightarrow> 'k option \<Rightarrow> 'k list \<Rightarrow> 't list \<Rightarrow> 'k option \<Rightarrow> bool" where
  "right_ok P h [] [] hi \<longleftrightarrow> h = hi"
| "right_ok P h (k # ks) (c # cs) hi \<longleftrightarrow> h = Some k \<and> kids P (Some k) hi ks (c # cs)"
| "right_ok P h ks cs hi \<longleftrightarrow> False"

lemma kids_length: "kids P lo hi ks cs \<Longrightarrow> length cs = Suc (length ks)"
  by (induction P lo hi ks cs rule: kids.induct) auto

lemma left_ok_length: "left_ok P lo ks cs m \<Longrightarrow> length cs = length ks"
  by (induction P lo ks cs m rule: left_ok.induct) auto

lemma right_ok_length: "right_ok P h ks cs hi \<Longrightarrow> length cs = length ks"
  by (cases ks; cases cs) (auto dest: kids_length)

lemma kids_append: "length ks1 = length cs1 \<Longrightarrow>
  kids P lo hi (ks1 @ ks2) (cs1 @ c # cs2) \<longleftrightarrow> (\<exists>m. left_ok P lo ks1 cs1 m \<and> kids P m hi ks2 (c # cs2))"
proof (induction ks1 cs1 arbitrary: lo rule: list_induct2)
  case (Cons k ks d ds)
  then show ?case by (cases ds) auto
qed simp

lemma kids_first: "kids P m hi ks (c # cs) \<longleftrightarrow> (\<exists>h. P m h c \<and> right_ok P h ks cs hi)"
  by (cases ks; cases cs) auto

lemma kids_at: "length ks1 = length cs1 \<Longrightarrow>
  kids P lo hi (ks1 @ ks2) (cs1 @ c # cs2) \<longleftrightarrow> (\<exists>m h. left_ok P lo ks1 cs1 m \<and> P m h c \<and> right_ok P h ks2 cs2 hi)"
  by (auto simp: kids_append kids_first)

lemma kids_at_two: "length ks1 = length cs1 \<Longrightarrow>
  kids P lo hi (ks1 @ k # ks2) (cs1 @ c1 # c2 # cs2) \<longleftrightarrow>
    (\<exists>m h. left_ok P lo ks1 cs1 m \<and> P m (Some k) c1 \<and> P (Some k) h c2 \<and> right_ok P h ks2 cs2 hi)"
  by (auto simp: kids_append kids_first)

text \<open>Where every child has an entry, the separating keys are in order.\<close>

definition has_room :: "('k::linorder option \<Rightarrow> 'k option \<Rightarrow> 't \<Rightarrow> bool) \<Rightarrow> bool" where
  "has_room P \<longleftrightarrow> (\<forall>lo hi c. P lo hi c \<longrightarrow> nonempty_range lo hi)"

lemma kids_sorted:
  assumes "has_room P" "kids P lo hi ks cs"
  shows "sorted_wrt (<) ks \<and> (\<forall>k\<in>set ks. nonempty_range lo (Some k) \<and> nonempty_range (Some k) hi) \<and> nonempty_range lo hi"
  using assms(2)
proof (induction ks arbitrary: lo cs)
  case Nil
  then show ?case using assms(1) by (cases cs; cases "tl cs") (auto simp: has_room_def)
next
  case (Cons k ks)
  then obtain c cs' where cs: "cs = c # cs'" "P lo (Some k) c" "kids P (Some k) hi ks cs'" by (cases cs) auto
  note IH = Cons.IH [OF cs(3)]
  have lo: "nonempty_range lo (Some k)" using assms(1) cs(2) by (auto simp: has_room_def)
  show ?case using IH lo unfolding nonempty_range_def by (cases lo; cases hi) fastforce+
qed

section \<open>Searching\<close>

definition num_le :: "'k::linorder list \<Rightarrow> 'k \<Rightarrow> nat" where
  "num_le ks k = length (takeWhile (\<lambda>x. x \<le> k) ks)"

lemma num_le_nth:
  assumes "sorted_wrt (<) ks" "i < length ks"
  shows "i < num_le ks k \<longleftrightarrow> ks ! i \<le> k"
proof
  assume "i < num_le ks k"
  then show "ks ! i \<le> k" unfolding num_le_def
    by (metis (mono_tags, lifting) nth_mem set_takeWhileD takeWhile_nth)
next
  assume le: "ks ! i \<le> k"
  show "i < num_le ks k"
  proof (rule ccontr)
    assume "\<not> i < num_le ks k"
    then have n: "num_le ks k \<le> i" by simp
    then have "\<not> ks ! num_le ks k \<le> k"
      using nth_length_takeWhile [of "\<lambda>x. x \<le> k" ks] assms(2) by (simp add: num_le_def)
    moreover have "ks ! num_le ks k \<le> ks ! i"
      using sorted_wrt_nth_less [OF assms(1), of "num_le ks k" i] n assms(2) by (cases "num_le ks k = i") auto
    ultimately show False using le by simp
  qed
qed

lemma num_le_length: "num_le ks k \<le> length ks"
  by (simp add: num_le_def length_takeWhile_le)

lemma skip_keys_max:
  assumes "sorted_wrt (<) ks"
  shows "skip_keys ks k i = max i (num_le ks k)"
  using assms
proof (induction ks k i rule: skip_keys.induct)
  case (1 ks k i)
  show ?case
  proof (cases "i < length ks \<and> \<not> k < ks ! i")
    case True
    then have "i < num_le ks k" using num_le_nth [OF "1.prems"] by auto
    moreover have "skip_keys ks k (i + 1) = max (i + 1) (num_le ks k)" by (rule "1.IH" [OF True "1.prems"])
    ultimately show ?thesis using True by (subst skip_keys.simps) simp
  next
    case False
    have "num_le ks k \<le> i"
    proof (cases "i < length ks")
      case True
      then show ?thesis using False num_le_nth [OF "1.prems" True, of k] by (metis leD leI True)
    qed (use num_le_length [of ks k] in simp)
    then show ?thesis using False by (subst skip_keys.simps) auto
  qed
qed

lemma bt_find_num_le:
  assumes "sorted_wrt (<) ks" "n = Suc (length ks)" "ks \<noteq> [] \<or> i = 0"
  shows "bt_find ks n k i = max i (num_le ks k)"
proof (cases "ks = []")
  case True
  then show ?thesis using assms by (simp add: bt_find_def num_le_def)
next
  case False
  let ?m = "length ks div 2"
  have m: "?m < length ks" using False by (cases ks) auto
  show ?thesis
  proof (cases "k < ks ! ?m")
    case True
    then show ?thesis using False assms(1,2) by (simp add: bt_find_def skip_keys_max Let_def)
  next
    case ge: False
    then have "?m < num_le ks k" using num_le_nth [OF assms(1) m] by auto
    then show ?thesis using False ge assms(1,2) by (simp add: bt_find_def skip_keys_max Let_def)
  qed
qed

lemma child_on_path:
  assumes "has_room P" "kids P lo hi ks cs" "within lo k hi"
  obtains cs1 c cs2 ks1 ks2 m h where "cs = cs1 @ c # cs2" "ks = ks1 @ ks2" "length ks1 = length cs1" "length ks2 = length cs2"
    "bt_find ks (length cs) k 0 = length cs1" "left_ok P lo ks1 cs1 m" "P m h c" "right_ok P h ks2 cs2 hi" "within m k h"
proof -
  have *: "\<exists>cs1 c cs2 ks1 ks2 m h. cs = cs1 @ c # cs2 \<and> ks = ks1 @ ks2 \<and> length ks1 = length cs1 \<and> length ks2 = length cs2
      \<and> num_le ks k = length cs1 \<and> left_ok P lo ks1 cs1 m \<and> P m h c \<and> right_ok P h ks2 cs2 hi \<and> within m k h"
    using assms(2,3)
  proof (induction ks arbitrary: lo cs)
    case Nil
    then obtain c where "cs = [c]" "P lo hi c" by (cases cs; cases "tl cs") auto
    then show ?case using Nil.prems(2)
      by (intro exI [of _ "[]"] exI [of _ c] exI [of _ lo] exI [of _ hi]) (simp add: num_le_def)
  next
    case (Cons x ks)
    then obtain c cs' where cs: "cs = c # cs'" "P lo (Some x) c" "kids P (Some x) hi ks cs'" by (cases cs) auto
    show ?case
    proof (cases "x \<le> k")
      case True
      then have "within (Some x) k hi" using Cons.prems(2) by (auto simp: within_def split: option.splits)
      from Cons.IH [OF cs(3) this] obtain cs1 d cs2 ks1 ks2 m h where
        IH: "cs' = cs1 @ d # cs2" "ks = ks1 @ ks2" "length ks1 = length cs1" "length ks2 = length cs2"
          "num_le ks k = length cs1" "left_ok P (Some x) ks1 cs1 m" "P m h d" "right_ok P h ks2 cs2 hi" "within m k h" by blast
      then show ?thesis using cs True
        by (intro exI [of _ "c # cs1"] exI [of _ d] exI [of _ cs2] exI [of _ "x # ks1"] exI [of _ ks2] exI [of _ m] exI [of _ h])
          (simp add: num_le_def)
    next
      case False
      then have w: "within lo k (Some x)" using Cons.prems(2) by (auto simp: within_def split: option.splits)
      have "right_ok P (Some x) (x # ks) cs' hi" using cs(3) kids_length [OF cs(3)] by (cases cs') auto
      then show ?thesis using cs False w kids_length [OF cs(3)]
        by (intro exI [of _ "[]"] exI [of _ c] exI [of _ cs'] exI [of _ "[]"] exI [of _ "x # ks"] exI [of _ lo] exI [of _ "Some x"])
          (simp add: num_le_def)
    qed
  qed
  have "bt_find ks (length cs) k 0 = num_le ks k"
    using bt_find_num_le [of ks "length cs" 0 k] kids_sorted [OF assms(1,2)] kids_length [OF assms(2)] by simp
  with * that show thesis by metis
qed

section \<open>The invariant\<close>

fun bentries :: "('k, 'v) bnode \<Rightarrow> ('k \<times> 'v) list" where
  "bentries (BLeaf st kvs) = kvs"
| "bentries (BNode st ks cs) = concat (map bentries cs)"

abbreviation bkeyset :: "('k, 'v) bnode \<Rightarrow> 'k set" where
  "bkeyset t \<equiv> fst ` set (bentries t)"

abbreviation lstat :: "blocks \<Rightarrow> nat \<Rightarrow> status" where
  "lstat b \<equiv> size_status (leaf_min_size b) (leaf_block_size b)"

definition leaf_ok :: "blocks \<Rightarrow> bool \<Rightarrow> 'k::linorder option \<Rightarrow> 'k option \<Rightarrow> status \<Rightarrow> ('k \<times> 'v) list \<Rightarrow> bool" where
  "leaf_ok b root lo hi st kvs \<longleftrightarrow> sorted_wrt (<) (map fst kvs) \<and> (\<forall>k \<in> fst ` set kvs. within lo k hi)
     \<and> length kvs \<le> leaf_block_size b \<and> st = lstat b (length kvs) \<and> (root \<or> leaf_min_size b \<le> length kvs)"

definition node_sizes :: "blocks \<Rightarrow> bool \<Rightarrow> status \<Rightarrow> nat \<Rightarrow> bool" where
  "node_sizes b root st n \<longleftrightarrow> n \<le> node_block_size b \<and> (st = isOver \<longleftrightarrow> n = node_block_size b)
     \<and> (root \<or> node_min_size b \<le> n \<and> st = nstat b n)"

text \<open>
  A tree of height \<open>h\<close>: all leaves at one depth, keys in order and between the separating keys,
  sizes between the minimum and the capacity, and the status that belongs to the size. The topmost
  node may be smaller.
\<close>

primrec bt_ok :: "blocks \<Rightarrow> nat \<Rightarrow> bool \<Rightarrow> 'k::linorder option \<Rightarrow> 'k option \<Rightarrow> ('k, 'v) bnode \<Rightarrow> bool" where
  "bt_ok b 0 root lo hi t \<longleftrightarrow> (case t of BLeaf st kvs \<Rightarrow> leaf_ok b root lo hi st kvs | BNode _ _ _ \<Rightarrow> False)"
| "bt_ok b (Suc h) root lo hi t \<longleftrightarrow>
     (case t of BLeaf _ _ \<Rightarrow> False | BNode st ks cs \<Rightarrow> kids (bt_ok b h False) lo hi ks cs \<and> node_sizes b root st (length cs))"

definition wf_blocks :: "blocks \<Rightarrow> bool" where
  "wf_blocks b \<longleftrightarrow> 5 \<le> leaf_block_size b \<and> 5 \<le> node_block_size b"

lemma block_sizes_wf: "wf_blocks (block_sizes header lock_bytes key kv)"
  by (simp add: wf_blocks_def block_sizes_def block_size_def)

lemma min_sizes: "wf_blocks b \<Longrightarrow> 0 < leaf_min_size b \<and> 0 < node_min_size b"
  by (auto simp: wf_blocks_def leaf_min_size_def node_min_size_def)

lemma bt_ok_leaf [simp]: "bt_ok b h root lo hi (BLeaf st kvs) \<longleftrightarrow> h = 0 \<and> leaf_ok b root lo hi st kvs"
  by (cases h) auto

lemma bt_ok_node: "bt_ok b h root lo hi (BNode st ks cs) \<longleftrightarrow>
    (\<exists>h'. h = Suc h' \<and> kids (bt_ok b h' False) lo hi ks cs \<and> node_sizes b root st (length cs))"
  by (cases h) auto

lemma bt_ok_Suc: "bt_ok b (Suc h) root lo hi t \<Longrightarrow> \<exists>st ks cs. t = BNode st ks cs"
  by (cases t) auto

lemma bt_ok_0: "bt_ok b 0 root lo hi t \<Longrightarrow> \<exists>st kvs. t = BLeaf st kvs"
  by (cases t) auto

lemma within_trans:
  assumes "within m k h" "\<And>l. lo = Some l \<Longrightarrow> \<exists>m'. m = Some m' \<and> l \<le> m'" "\<And>u. hi = Some u \<Longrightarrow> \<exists>h'. h = Some h' \<and> h' \<le> u"
  shows "within lo k hi"
  using assms by (cases lo; cases hi) (force simp: within_def)+

text \<open>A node that is not the topmost has an entry, so its bounds leave room for one.\<close>

lemma bt_ok_range:
  assumes "wf_blocks b" "bt_ok b h False lo hi t"
  shows "nonempty_range lo hi"
  using assms(2)
proof (induction h arbitrary: lo hi t)
  case 0
  then obtain st kvs where t: "t = BLeaf st kvs" "leaf_ok b False lo hi st kvs" by (cases t) auto
  then have "kvs \<noteq> []" using min_sizes [OF assms(1)] by (auto simp: leaf_ok_def)
  then obtain k where "within lo k hi" using t(2) by (cases kvs) (auto simp: leaf_ok_def)
  then show ?case by (auto simp: nonempty_range_def within_def)
next
  case (Suc h)
  then obtain st ks cs where t: "t = BNode st ks cs" "kids (bt_ok b h False) lo hi ks cs" by (cases t) auto
  then show ?case using kids_sorted [of "bt_ok b h False", OF _ t(2)] Suc.IH unfolding has_room_def by blast
qed

lemma bt_ok_room: "wf_blocks b \<Longrightarrow> has_room (bt_ok b h False)"
  using bt_ok_range by (auto simp: has_room_def)

text \<open>The entries of a well-formed tree are in order of their keys and within the bounds.\<close>

definition entries_ok :: "'k::linorder option \<Rightarrow> 'k option \<Rightarrow> ('k \<times> 'v) list \<Rightarrow> bool" where
  "entries_ok lo hi kvs \<longleftrightarrow> sorted_wrt (<) (map fst kvs) \<and> (\<forall>k \<in> fst ` set kvs. within lo k hi)"

lemma entries_ok_append:
  assumes "entries_ok lo (Some k) xs" "entries_ok (Some k) hi ys" "nonempty_range lo (Some k)" "nonempty_range (Some k) hi"
  shows "entries_ok lo hi (xs @ ys)"
proof -
  have "x < y" if "x \<in> fst ` set xs" "y \<in> fst ` set ys" for x y
    using assms(1,2) that by (fastforce simp: entries_ok_def within_def)
  moreover have "within lo x hi" if "x \<in> fst ` set xs" for x
    using assms(1,4) that by (fastforce simp: entries_ok_def nonempty_range_def within_def split: option.splits)
  moreover have "within lo y hi" if "y \<in> fst ` set ys" for y
    using assms(2,3) that by (fastforce simp: entries_ok_def nonempty_range_def within_def split: option.splits)
  ultimately show ?thesis
    using assms(1,2) unfolding entries_ok_def by (simp add: sorted_wrt_append ball_Un image_Un)
qed

lemma kids_entries:
  assumes "has_room P" "\<And>lo hi c. P lo hi c \<Longrightarrow> entries_ok lo hi (bentries c)" "kids P lo hi ks cs"
  shows "entries_ok lo hi (concat (map bentries cs))"
  using assms(3)
proof (induction ks arbitrary: lo cs)
  case Nil
  then show ?case using assms(2) by (cases cs; cases "tl cs") auto
next
  case (Cons k ks)
  then obtain c cs' where cs: "cs = c # cs'" "P lo (Some k) c" "kids P (Some k) hi ks cs'" by (cases cs) auto
  have "nonempty_range (Some k) hi" using kids_sorted [OF assms(1) cs(3)] by blast
  then show ?case
    using entries_ok_append [OF assms(2) [OF cs(2)] Cons.IH [OF cs(3)]] assms(1) cs(1,2) unfolding has_room_def by simp
qed

lemma bt_ok_entries:
  assumes "wf_blocks b" "bt_ok b h root lo hi t"
  shows "entries_ok lo hi (bentries t)"
  using assms(2)
proof (induction h arbitrary: root lo hi t)
  case 0
  then show ?case by (cases t) (auto simp: leaf_ok_def entries_ok_def)
next
  case (Suc h)
  then obtain st ks cs where t: "t = BNode st ks cs" "kids (bt_ok b h False) lo hi ks cs" by (cases t) auto
  then show ?case using kids_entries [OF bt_ok_room [OF assms(1)] Suc.IH t(2)] by simp
qed

section \<open>Paths\<close>

text \<open>The child on the path of a key, and the status of the nodes below a node on the path.\<close>

definition pchild :: "'k::linorder \<Rightarrow> 'k list \<Rightarrow> ('k, 'v) bnode list \<Rightarrow> ('k, 'v) bnode" where
  "pchild k ks cs = cs ! num_le ks k"

lemma pchild_size: "num_le ks k < length cs \<Longrightarrow> size (pchild k ks cs) \<le> size_list size cs"
  by (simp add: pchild_def size_nth_le)

function path_stats :: "'k::linorder \<Rightarrow> ('k, 'v) bnode \<Rightarrow> status list" where
  "path_stats k (BLeaf st kvs) = []"
| "path_stats k (BNode st ks cs) =
     (if num_le ks k < length cs then bstatus (pchild k ks cs) # path_stats k (pchild k ks cs) else [])"
  by pat_completeness auto
termination by (relation "measure (\<lambda>(k, t). size t)") (auto dest: pchild_size)

lemma num_le_append:
  assumes "\<forall>x\<in>set ks1. x < y" "\<forall>x\<in>set ks2. y < x"
  shows "num_le (ks1 @ y # ks2) k = (if k < y then num_le ks1 k else length ks1 + 1 + num_le ks2 k)"
proof (cases "k < y")
  case True
  have "takeWhile (\<lambda>x. x \<le> k) (ks1 @ y # ks2) = takeWhile (\<lambda>x. x \<le> k) ks1"
    using True by (induction ks1) (auto simp: not_le)
  then show ?thesis using True by (simp add: num_le_def)
next
  case False
  have "\<forall>x\<in>set ks1. x \<le> k" using False assms(1) by (meson leI less_imp_le order_less_le_trans)
  then have "takeWhile (\<lambda>x. x \<le> k) (ks1 @ y # ks2) = ks1 @ y # takeWhile (\<lambda>x. x \<le> k) ks2"
    using False by (simp add: takeWhile_append2)
  then show ?thesis using False by (simp add: num_le_def)
qed

lemma kids_split:
  "length cs1 = Suc (length ks1) \<Longrightarrow>
   kids P lo hi (ks1 @ k # ks2) (cs1 @ cs2) \<longleftrightarrow> kids P lo (Some k) ks1 cs1 \<and> kids P (Some k) hi ks2 cs2"
proof (induction ks1 arbitrary: lo cs1)
  case Nil
  then obtain c where "cs1 = [c]" by (cases cs1; cases "tl cs1") auto
  then show ?case by simp
next
  case (Cons x ks1)
  then obtain c cs' where "cs1 = c # cs'" "length cs' = Suc (length ks1)" by (cases cs1) auto
  then show ?case using Cons.IH by simp
qed

text \<open>The separating keys around a place.\<close>

lemma kids_split_keys:
  assumes "has_room P" "kids P lo (Some y) ks1 cs1" "kids P (Some y) hi ks2 cs2"
  shows "\<forall>x\<in>set ks1. x < y" "\<forall>x\<in>set ks2. y < x"
  using kids_sorted [OF assms(1,2)] kids_sorted [OF assms(1,3)] by (auto simp: nonempty_range_def)

lemma pchild_split:
  assumes "has_room P" "kids P lo (Some y) ks1 cs1" "kids P (Some y) hi ks2 cs2"
  shows "num_le (ks1 @ y # ks2) k < length (cs1 @ cs2)"
    "pchild k (ks1 @ y # ks2) (cs1 @ cs2) = (if k < y then pchild k ks1 cs1 else pchild k ks2 cs2)"
proof -
  note l = kids_length [OF assms(2)] kids_length [OF assms(3)] num_le_length [of ks1 k] num_le_length [of ks2 k]
  note n = num_le_append [OF kids_split_keys [OF assms]]
  show "num_le (ks1 @ y # ks2) k < length (cs1 @ cs2)" using l by (simp add: n)
  show "pchild k (ks1 @ y # ks2) (cs1 @ cs2) = (if k < y then pchild k ks1 cs1 else pchild k ks2 cs2)"
    using l by (auto simp: pchild_def n nth_append)
qed

lemma path_stats_split:
  assumes "has_room P" "kids P lo (Some y) ks1 cs1" "kids P (Some y) hi ks2 cs2"
  shows "path_stats k (BNode st (ks1 @ y # ks2) (cs1 @ cs2)) =
    (if k < y then path_stats k (BNode s1 ks1 cs1) else path_stats k (BNode s2 ks2 cs2))"
  using pchild_split [OF assms, of k] kids_length [OF assms(2)] kids_length [OF assms(3)]
    num_le_length [of ks1 k] num_le_length [of ks2 k] by simp

text \<open>The child whose bounds contain the key is the one on its path.\<close>

lemma locate:
  assumes "has_room P" "left_ok P lo ks1 cs1 m" "P m h c" "right_ok P h ks2 cs2 hi" "within m k h"
  shows "num_le (ks1 @ ks2) k = length cs1" "pchild k (ks1 @ ks2) (cs1 @ c # cs2) = c"
proof -
  have "(\<forall>x\<in>set ks1. x \<le> k) \<and> length cs1 = length ks1"
    using assms(2,5)
  proof (induction ks1 arbitrary: lo cs1)
    case Nil
    then show ?case by (cases cs1) auto
  next
    case (Cons x ks1)
    then obtain d cs' where cs: "cs1 = d # cs'" "left_ok P (Some x) ks1 cs' m" by (cases cs1) auto
    note IH = Cons.IH [OF cs(2) Cons.prems(2)]
    have "x \<le> k"
    proof (cases ks1)
      case Nil
      then have "m = Some x" using cs(2) by (cases cs') auto
      then show ?thesis using Cons.prems(2) by (simp add: within_def)
    next
      case (Cons y ys)
      then have "P (Some x) (Some y) (hd cs')" using cs(2) by (cases cs') auto
      then have "x < y" using assms(1) by (auto simp: has_room_def nonempty_range_def)
      then show ?thesis using IH Cons by auto
    qed
    then show ?case using IH cs(1) by simp
  qed
  moreover have "ks2 = [] \<or> k < hd ks2"
    using assms(4,5) by (cases ks2; cases cs2) (auto simp: within_def)
  then have "takeWhile (\<lambda>x. x \<le> k) ks2 = []" by (cases ks2) auto
  ultimately show "num_le (ks1 @ ks2) k = length cs1"
    by (simp add: num_le_def takeWhile_append2)
  then show "pchild k (ks1 @ ks2) (cs1 @ c # cs2) = c" by (simp add: pchild_def)
qed

lemma left_ok_snoc: "left_ok P lo ks cs m \<Longrightarrow> P m (Some x) d \<Longrightarrow> left_ok P lo (ks @ [x]) (cs @ [d]) (Some x)"
  by (induction P lo ks cs m rule: left_ok.induct) auto

text \<open>Putting one child, or two and the key between them, in the place of others.\<close>

lemma splice_one:
  assumes "has_room P" "left_ok P lo ks1 cs1 m" "right_ok P h ks2 cs2 hi" "P m h d" "within m k h"
  shows "kids P lo hi (ks1 @ ks2) (cs1 @ d # cs2)" "pchild k (ks1 @ ks2) (cs1 @ d # cs2) = d"
  using kids_at [of ks1 cs1 P lo hi ks2 d cs2] left_ok_length [OF assms(2)] locate(2) [OF assms(1,2,4,3,5)] assms(2-4) by auto

lemma splice_two:
  assumes "has_room P" "left_ok P lo ks1 cs1 m" "right_ok P h ks2 cs2 hi" "P m (Some x) d1" "P (Some x) h d2" "within m k h"
  shows "kids P lo hi (ks1 @ x # ks2) (cs1 @ d1 # d2 # cs2)"
    "pchild k (ks1 @ x # ks2) (cs1 @ d1 # d2 # cs2) = (if k < x then d1 else d2)"
proof -
  show "kids P lo hi (ks1 @ x # ks2) (cs1 @ d1 # d2 # cs2)"
    using kids_at_two [of ks1 cs1 P lo hi x ks2 d1 d2 cs2] left_ok_length [OF assms(2)] assms(2-5) by auto
  show "pchild k (ks1 @ x # ks2) (cs1 @ d1 # d2 # cs2) = (if k < x then d1 else d2)"
  proof (cases "k < x")
    case True
    then have "within m k (Some x)" using assms(6) by (simp add: within_def)
    moreover have "right_ok P (Some x) (x # ks2) (d2 # cs2) hi"
      using assms(3,5) by (auto simp: kids_first)
    ultimately show ?thesis using locate(2) [OF assms(1,2,4)] True by simp
  next
    case False
    then have "within (Some x) k h" using assms(6) by (simp add: within_def)
    then show ?thesis
      using locate(2) [OF assms(1) left_ok_snoc [OF assms(2,4)] assms(5,3)] False by simp
  qed
qed

section \<open>Sizes after splitting and joining\<close>

lemma half_sizes:
  fixes B n :: nat
  assumes "5 \<le> B" "B div 5 * 4 \<le> n" "n \<le> B + B div 5"
  shows "B div 5 < n div 2 \<and> n div 2 < B \<and> B div 5 < n - n div 2 \<and> n - n div 2 < B"
proof -
  define q l where "q = B div 5" and "l = n div 2"
  have "1 \<le> q" using assms(1) by (simp add: q_def)
  moreover have "5 * q \<le> B" "B < 5 * q + 5" "2 * l \<le> n" "n < 2 * l + 2" by (simp_all add: q_def l_def)
  ultimately have "q < l \<and> l < B \<and> q < n - l \<and> n - l < B" using assms unfolding q_def [symmetric] by (intro conjI; linarith)
  then show ?thesis by (simp add: q_def l_def)
qed

lemma join_sizes:
  fixes B n :: nat
  assumes "5 \<le> B" "2 * (B div 5) \<le> n" "n < B div 5 * 4"
  shows "B div 5 < n \<and> n < B"
proof -
  define q where "q = B div 5"
  have "1 \<le> q" using assms(1) by (simp add: q_def)
  moreover have "5 * q \<le> B" "B < 5 * q + 5" by (simp_all add: q_def)
  ultimately show ?thesis using assms unfolding q_def [symmetric] by linarith
qed

lemma size_status_OK: "low < n \<Longrightarrow> n < high \<Longrightarrow> size_status low high n = OK"
  by (simp add: size_status_def)

text \<open>
  What replaces one or two children with bounds \<open>m\<close> and \<open>hh\<close>, entries \<open>es\<close> and \<open>stats\<close> below them on
  the path of \<open>k\<close>: nodes of good size with these entries and the same path below.
\<close>

definition good_one :: "blocks \<Rightarrow> nat \<Rightarrow> 'k::linorder option \<Rightarrow> 'k option \<Rightarrow> 'k \<Rightarrow> ('k \<times> 'v) list \<Rightarrow> status list \<Rightarrow> ('k, 'v) bnode \<Rightarrow> bool" where
  "good_one b h m hh k es stats d \<longleftrightarrow> bt_ok b h False m hh d \<and> bstatus d = OK \<and> bentries d = es \<and> path_stats k d = stats"

definition good_two :: "blocks \<Rightarrow> nat \<Rightarrow> 'k::linorder option \<Rightarrow> 'k option \<Rightarrow> 'k \<Rightarrow> ('k \<times> 'v) list \<Rightarrow> status list
    \<Rightarrow> ('k, 'v) bnode \<times> 'k \<times> ('k, 'v) bnode \<Rightarrow> bool" where
  "good_two b h m hh k es stats nec \<longleftrightarrow> (case nec of (d1, x, d2) \<Rightarrow>
     bt_ok b h False m (Some x) d1 \<and> bt_ok b h False (Some x) hh d2 \<and> bstatus d1 = OK \<and> bstatus d2 = OK
     \<and> bentries d1 @ bentries d2 = es \<and> path_stats k (if k < x then d1 else d2) = stats)"

lemma split_leaf_good:
  assumes "wf_blocks b" "entries_ok m hh kvs" "leaf_min_size b * 4 \<le> length kvs" "length kvs \<le> leaf_block_size b + leaf_min_size b"
    "\<And>i. i < length kvs \<Longrightarrow> f i = kvs ! i"
  shows "good_two b 0 m hh k kvs [] (split_mid_leaf b (length kvs) f)"
proof -
  let ?n = "length kvs" let ?l = "?n div 2" let ?x = "fst (kvs ! ?l)"
  have B: "5 \<le> leaf_block_size b" using assms(1) by (simp add: wf_blocks_def)
  note h = half_sizes [OF B, of ?n] assms(3,4)
  have sz: "leaf_min_size b < ?l" "?l < leaf_block_size b" "leaf_min_size b < ?n - ?l" "?n - ?l < leaf_block_size b"
    using h by (auto simp: leaf_min_size_def)
  have l: "?l < ?n" "2 \<le> ?n" using sz by auto
  have sorted: "sorted_wrt (<) (map fst kvs)" and w: "\<And>y. y \<in> set kvs \<Longrightarrow> within m (fst y) hh"
    using assms(2) by (auto simp: entries_ok_def)
  have lt: "fst (kvs ! i) < fst (kvs ! j)" if "i < j" "j < ?n" for i j
    using sorted_wrt_nth_less [OF sorted, of i j] that by simp
  have "leaf_ok b False m (Some ?x) (lstat b ?l) (take ?l kvs)"
  proof -
    have "within m (fst y) (Some ?x)" if y: "y \<in> set (take ?l kvs)" for y
    proof -
      obtain i where "i < ?l" "y = kvs ! i" using y by (auto simp: in_set_conv_nth)
      then have "fst y < ?x" using lt l by simp
      moreover have "within m (fst y) hh" using w [OF in_set_takeD [OF y]] .
      ultimately show ?thesis by (simp add: within_def)
    qed
    moreover have "sorted_wrt (<) (map fst (take ?l kvs))" using sorted by (simp add: take_map [symmetric] sorted_wrt_take)
    ultimately show ?thesis using sz by (auto simp: leaf_ok_def)
  qed
  moreover have "leaf_ok b False (Some ?x) hh (lstat b (?n - ?l)) (drop ?l kvs)"
  proof -
    have "within (Some ?x) (fst y) hh" if y: "y \<in> set (drop ?l kvs)" for y
    proof -
      obtain i where "i < ?n - ?l" "y = kvs ! (?l + i)" using y by (auto simp: in_set_conv_nth)
      then have "?x \<le> fst y" using lt [of ?l "?l + i"] l by (cases "i = 0") (simp_all add: less_imp_le less_diff_conv2)
      moreover have "within m (fst y) hh" using w [OF in_set_dropD [OF y]] .
      ultimately show ?thesis by (simp add: within_def)
    qed
    moreover have "sorted_wrt (<) (map fst (drop ?l kvs))" using sorted by (simp add: drop_map [symmetric] sorted_wrt_drop)
    ultimately show ?thesis using sz by (auto simp: leaf_ok_def)
  qed
  moreover have "split_mid_leaf b ?n f = (new_leaf b (take ?l kvs), ?x, new_leaf b (drop ?l kvs))"
    by (rule split_mid_leaf_list [OF assms(5) refl l(2)])
  ultimately show ?thesis
    using sz l by (simp add: good_two_def new_leaf_def size_status_OK)
qed

lemma split_node_good:
  assumes "wf_blocks b" "kids (bt_ok b h False) m hh ks cs" "node_min_size b * 4 \<le> length cs"
    "length cs \<le> node_block_size b + node_min_size b"
  shows "good_two b (Suc h) m hh k (concat (map bentries cs)) (path_stats k (BNode st ks cs))
    (split_mid b (length cs) ((!) ks) ((!) cs))"
proof -
  let ?n = "length cs" let ?l = "?n div 2" let ?x = "ks ! (?l - 1)"
  have B: "5 \<le> node_block_size b" using assms(1) by (simp add: wf_blocks_def)
  note hs = half_sizes [OF B, of ?n] assms(3,4)
  have sz: "node_min_size b < ?l" "?l < node_block_size b" "node_min_size b < ?n - ?l" "?n - ?l < node_block_size b"
    using hs by (auto simp: node_min_size_def)
  have len: "?n = Suc (length ks)" using kids_length [OF assms(2)] .
  have l: "0 < ?l" "?l < ?n" "2 \<le> ?n" using sz by auto
  have ks: "take (?l - 1) ks @ ?x # drop ?l ks = ks"
    using id_take_nth_drop [of "?l - 1" ks] l len by simp
  have split: "kids (bt_ok b h False) m (Some ?x) (take (?l - 1) ks) (take ?l cs)"
    "kids (bt_ok b h False) (Some ?x) hh (drop ?l ks) (drop ?l cs)"
    using kids_split [of "take ?l cs" "take (?l - 1) ks" "bt_ok b h False" m hh ?x "drop ?l ks" "drop ?l cs"] assms(2) ks l len
    by auto
  have "path_stats k (BNode st ks cs) = (if k < ?x then path_stats k (BNode OK (take (?l - 1) ks) (take ?l cs))
      else path_stats k (BNode OK (drop ?l ks) (drop ?l cs)))"
    using path_stats_split [OF bt_ok_room [OF assms(1)] split, of k st OK OK] unfolding ks append_take_drop_id .
  moreover have "concat (map bentries (take ?l cs)) @ concat (map bentries (drop ?l cs)) = concat (map bentries cs)"
    by (metis append_take_drop_id concat_append map_append)
  ultimately show ?thesis
    using split_mid_list [OF len l(3), of b] split sz l
    by (auto simp: good_two_def Let_def size_status_OK node_sizes_def)
qed

lemma join_leaf_good:
  assumes "wf_blocks b" "entries_ok m hh kvs" "2 * leaf_min_size b \<le> length kvs" "length kvs < leaf_join_cutoff b"
  shows "good_one b 0 m hh k kvs [] (new_leaf b kvs)"
proof -
  have B: "5 \<le> leaf_block_size b" using assms(1) by (simp add: wf_blocks_def)
  have sz: "leaf_min_size b < length kvs" "length kvs < leaf_block_size b"
    using join_sizes [OF B, of "length kvs"] assms(3,4) by (auto simp: leaf_min_size_def leaf_join_cutoff_def)
  show ?thesis using assms(2) sz by (simp add: good_one_def new_leaf_def leaf_ok_def entries_ok_def size_status_OK)
qed

lemma join_node_good:
  assumes "wf_blocks b" "kids (bt_ok b h False) m hh ks cs" "2 * node_min_size b \<le> length cs" "length cs < node_join_cutoff b"
  shows "good_one b (Suc h) m hh k (concat (map bentries cs)) (path_stats k (BNode st ks cs)) (BNode (nstat b (length cs)) ks cs)"
proof -
  have B: "5 \<le> node_block_size b" using assms(1) by (simp add: wf_blocks_def)
  have sz: "node_min_size b < length cs" "length cs < node_block_size b"
    using join_sizes [OF B, of "length cs"] assms(3,4) by (auto simp: node_min_size_def node_join_cutoff_def)
  show ?thesis using assms(2) sz by (simp add: good_one_def node_sizes_def size_status_OK)
qed

section \<open>Fixing a child\<close>

lemma five_fifths: "5 \<le> B \<Longrightarrow> B div 5 * 4 \<le> (B :: nat)"
  by linarith

lemma split_over_good:
  assumes "wf_blocks b" "bt_ok b h root m hh c" "bstatus c = isOver"
  shows "good_two b h m hh k (bentries c) (path_stats k c) (if bis_leaf c then split_leaf b c else bsplit b c)"
proof (cases c)
  case (BLeaf st kvs)
  have h: "h = 0" "leaf_ok b root m hh st kvs" using assms(2) BLeaf by auto
  have "lstat b (length kvs) = isOver" using h(2) assms(3) BLeaf by (simp add: leaf_ok_def)
  then have len: "length kvs = leaf_block_size b" by (auto simp: size_status_def split: if_splits)
  have B: "5 \<le> leaf_block_size b" using assms(1) by (simp add: wf_blocks_def)
  have "good_two b 0 m hh k kvs [] (split_mid_leaf b (length kvs) ((!) kvs))"
    by (rule split_leaf_good) (use assms(1) h(2) len five_fifths [OF B] in \<open>auto simp: leaf_ok_def entries_ok_def leaf_min_size_def\<close>)
  then show ?thesis using BLeaf h(1) by (simp add: split_leaf_def)
next
  case (BNode st ks cs)
  then obtain h' where h: "h = Suc h'" "kids (bt_ok b h' False) m hh ks cs" "node_sizes b root st (length cs)"
    using assms(2) by (auto simp: bt_ok_node)
  have len: "length cs = node_block_size b" using h(3) assms(3) BNode by (simp add: node_sizes_def)
  have B: "5 \<le> node_block_size b" using assms(1) by (simp add: wf_blocks_def)
  have "good_two b (Suc h') m hh k (concat (map bentries cs)) (path_stats k (BNode st ks cs)) (split_mid b (length cs) ((!) ks) ((!) cs))"
    by (rule split_node_good [OF assms(1) h(2)]) (use len five_fifths [OF B] in \<open>auto simp: node_min_size_def\<close>)
  then show ?thesis using BNode h(1) by (simp add: bsplit_def)
qed

text \<open>Two neighbours of which one is underfull.\<close>

definition join_or_rebalance :: "blocks \<Rightarrow> ('k, 'v) bnode \<Rightarrow> 'k \<Rightarrow> ('k, 'v) bnode \<Rightarrow> ('k, 'v) bnode + ('k, 'v) bnode \<times> 'k \<times> ('k, 'v) bnode" where
  "join_or_rebalance b lc x rc =
     (if bis_leaf lc
      then if bsize lc + bsize rc < leaf_join_cutoff b then Inl (join_leaf b lc rc) else Inr (rebalance_leaf b lc rc)
      else if bsize lc + bsize rc < node_join_cutoff b then Inl (bjoin b lc x rc) else Inr (rebalance b lc x rc))"

lemma join_or_rebalance_good:
  assumes "wf_blocks b" "bt_ok b h False m (Some x) lc" "bt_ok b h False (Some x) hh rc" "bstatus lc = isUnder \<or> bstatus rc = isUnder"
  shows "case join_or_rebalance b lc x rc of
      Inl d \<Rightarrow> good_one b h m hh k (bentries lc @ bentries rc) (path_stats k (if k < x then lc else rc)) d
    | Inr nec \<Rightarrow> good_two b h m hh k (bentries lc @ bentries rc) (path_stats k (if k < x then lc else rc)) nec"
proof (cases lc)
  case (BLeaf s1 kvs1)
  then have h: "h = 0" "leaf_ok b False m (Some x) s1 kvs1" using assms(2) by auto
  then obtain s2 kvs2 where rc: "rc = BLeaf s2 kvs2" "leaf_ok b False (Some x) hh s2 kvs2"
    using assms(3) bt_ok_0 [of b False "Some x" hh rc] by auto
  let ?kvs = "kvs1 @ kvs2"
  have e: "entries_ok m hh ?kvs"
    using entries_ok_append [OF bt_ok_entries [OF assms(1,2)] bt_ok_entries [OF assms(1,3)] bt_ok_range [OF assms(1,2)] bt_ok_range [OF assms(1,3)]]
      BLeaf rc(1) by simp
  have mins: "leaf_min_size b \<le> length kvs1" "leaf_min_size b \<le> length kvs2" "length kvs1 \<le> leaf_block_size b" "length kvs2 \<le> leaf_block_size b"
    using h(2) rc(2) by (auto simp: leaf_ok_def)
  have "length kvs1 = leaf_min_size b \<or> length kvs2 = leaf_min_size b"
    using assms(4) h(2) rc BLeaf by (auto simp: leaf_ok_def size_status_def split: if_splits)
  then have up: "length ?kvs \<le> leaf_block_size b + leaf_min_size b" "2 * leaf_min_size b \<le> length ?kvs" using mins by auto
  show ?thesis
  proof (cases "length ?kvs < leaf_join_cutoff b")
    case True
    then show ?thesis using join_leaf_good [OF assms(1) e up(2)] BLeaf rc(1) h(1)
      by (simp add: join_or_rebalance_def join_leaf_list)
  next
    case False
    have "good_two b 0 m hh k ?kvs [] (split_mid_leaf b (length ?kvs) (both_keyvals lc rc))"
      by (rule split_leaf_good [OF assms(1) e _ up(1)]) (use False BLeaf rc(1) in \<open>auto simp: leaf_join_cutoff_def both_keyvals_nth\<close>)
    then show ?thesis using False BLeaf rc(1) h(1) by (simp add: join_or_rebalance_def rebalance_leaf_def)
  qed
next
  case (BNode s1 ks1 cs1)
  then obtain h' where h: "h = Suc h'" "kids (bt_ok b h' False) m (Some x) ks1 cs1" "node_sizes b False s1 (length cs1)"
    using assms(2) by (auto simp: bt_ok_node)
  then obtain s2 ks2 cs2 where rc: "rc = BNode s2 ks2 cs2" "kids (bt_ok b h' False) (Some x) hh ks2 cs2" "node_sizes b False s2 (length cs2)"
    using assms(3) bt_ok_Suc [of b h' False "Some x" hh rc] by auto
  let ?ks = "ks1 @ x # ks2" and ?cs = "cs1 @ cs2"
  note len = kids_length [OF h(2)] kids_length [OF rc(2)]
  have kd: "kids (bt_ok b h' False) m hh ?ks ?cs" using kids_split [OF len(1), of "bt_ok b h' False" m hh x ks2 cs2] h(2) rc(2) by simp
  have st: "path_stats k (BNode OK ?ks ?cs) = path_stats k (if k < x then lc else rc)"
    using path_stats_split [OF bt_ok_room [OF assms(1)] h(2) rc(2), of k OK s1 s2] BNode rc(1) by simp
  have mins: "node_min_size b \<le> length cs1" "node_min_size b \<le> length cs2" "length cs1 \<le> node_block_size b" "length cs2 \<le> node_block_size b"
    using h(3) rc(3) by (auto simp: node_sizes_def)
  have "length cs1 = node_min_size b \<or> length cs2 = node_min_size b"
    using assms(4) h(3) rc(1,3) BNode by (auto simp: node_sizes_def size_status_def split: if_splits)
  then have up: "length ?cs \<le> node_block_size b + node_min_size b" "2 * node_min_size b \<le> length ?cs" using mins by auto
  show ?thesis
  proof (cases "length ?cs < node_join_cutoff b")
    case True
    have "good_one b h m hh k (bentries lc @ bentries rc) (path_stats k (if k < x then lc else rc)) (BNode (nstat b (length ?cs)) ?ks ?cs)"
      using join_node_good [OF assms(1) kd up(2) True, of k OK] st BNode rc(1) h(1) by simp
    then show ?thesis using True BNode rc(1) bjoin_list [OF len] by (simp add: join_or_rebalance_def)
  next
    case False
    have "good_two b h m hh k (bentries lc @ bentries rc) (path_stats k (if k < x then lc else rc)) (split_mid b (length ?cs) ((!) ?ks) ((!) ?cs))"
      using split_node_good [OF assms(1) kd _ up(1), of k OK] False st BNode rc(1) h(1) by (simp add: node_join_cutoff_def)
    then show ?thesis using False BNode rc(1) rebalance_list [OF len] by (simp add: join_or_rebalance_def)
  qed
qed

lemma left_ok_snocD:
  assumes "left_ok P lo (ks @ [x]) (cs @ [d]) m" "length ks = length cs"
  shows "m = Some x" "\<exists>m'. left_ok P lo ks cs m' \<and> P m' (Some x) d"
proof -
  have "m = Some x \<and> (\<exists>m'. left_ok P lo ks cs m' \<and> P m' (Some x) d)"
    using assms(2,1) by (induction ks cs arbitrary: lo rule: list_induct2) auto
  then show "m = Some x" "\<exists>m'. left_ok P lo ks cs m' \<and> P m' (Some x) d" by auto
qed

text \<open>The node that replaces the parent of a fixed child.\<close>

definition fixed :: "blocks \<Rightarrow> nat \<Rightarrow> 'k::linorder option \<Rightarrow> 'k option \<Rightarrow> 'k \<Rightarrow> ('k, 'v) bnode list \<Rightarrow> status list \<Rightarrow> ('k, 'v) bnode \<Rightarrow> bool" where
  "fixed b h lo hi k cs stats p' \<longleftrightarrow>
     (\<exists>ks' cs'. p' = BNode (nstat b (length cs')) ks' cs' \<and> kids (bt_ok b h False) lo hi ks' cs'
        \<and> concat (map bentries cs') = concat (map bentries cs)
        \<and> bstatus (pchild k ks' cs') = OK \<and> path_stats k (pchild k ks' cs') = stats
        \<and> length cs' \<le> length cs + 1 \<and> length cs \<le> length cs' + 1)"

lemma fixed_two:
  assumes "wf_blocks b" "left_ok (bt_ok b h False) lo ks1 cs1 m" "right_ok (bt_ok b h False) hh ks2 cs2 hi" "within m k hh"
    "good_two b h m hh k es stats (d1, x, d2)" "concat (map bentries cs) = concat (map bentries cs1) @ es @ concat (map bentries cs2)"
    "length cs1 + length cs2 + 1 \<le> length cs" "length cs \<le> length cs1 + length cs2 + 3"
  shows "fixed b h lo hi k cs stats (BNode (nstat b (length cs1 + length cs2 + 2)) (ks1 @ x # ks2) (cs1 @ d1 # d2 # cs2))"
proof -
  note g = assms(5) [unfolded good_two_def prod.case]
  note s = splice_two [OF bt_ok_room [OF assms(1)] assms(2,3), of x d1 d2 k]
  show ?thesis unfolding fixed_def
    using g s assms(4,6-8) by (intro exI [of _ "ks1 @ x # ks2"] exI [of _ "cs1 @ d1 # d2 # cs2"]) auto
qed

lemma fixed_one:
  assumes "wf_blocks b" "left_ok (bt_ok b h False) lo ks1 cs1 m" "right_ok (bt_ok b h False) hh ks2 cs2 hi" "within m k hh"
    "good_one b h m hh k es stats d" "concat (map bentries cs) = concat (map bentries cs1) @ es @ concat (map bentries cs2)"
    "length cs1 + length cs2 \<le> length cs" "length cs \<le> length cs1 + length cs2 + 2"
  shows "fixed b h lo hi k cs stats (BNode (nstat b (length cs1 + length cs2 + 1)) (ks1 @ ks2) (cs1 @ d # cs2))"
proof -
  note g = assms(5) [unfolded good_one_def]
  note s = splice_one [OF bt_ok_room [OF assms(1)] assms(2,3), of d k]
  show ?thesis unfolding fixed_def
    using g s assms(4,6-8) by (intro exI [of _ "ks1 @ ks2"] exI [of _ "cs1 @ d # cs2"]) auto
qed

lemma fix_pair:
  assumes "wf_blocks b" "left_ok (bt_ok b h False) lo ks1 cs1 m" "right_ok (bt_ok b h False) hh ks2 cs2 hi" "within m k hh"
    "bt_ok b h False m (Some x) lc" "bt_ok b h False (Some x) hh rc" "bstatus lc = isUnder \<or> bstatus rc = isUnder"
  shows "fixed b h lo hi k (cs1 @ lc # rc # cs2) (path_stats k (if k < x then lc else rc))
    (case join_or_rebalance b lc x rc of
       Inl d \<Rightarrow> join_children b (BNode st (ks1 @ x # ks2) (cs1 @ lc # rc # cs2)) d (length cs1)
     | Inr nec \<Rightarrow> rebalance_children b (BNode st (ks1 @ x # ks2) (cs1 @ lc # rc # cs2)) nec (length cs1))"
proof -
  note l = left_ok_length [OF assms(2)] right_ok_length [OF assms(3)]
  note J = join_or_rebalance_good [OF assms(1,5,6,7), of k]
  show ?thesis
  proof (cases "join_or_rebalance b lc x rc")
    case (Inl d)
    then show ?thesis
      using fixed_one [OF assms(1-4), of "bentries lc @ bentries rc" _ d "cs1 @ lc # rc # cs2"] J l
        join_children_list [of ks1 cs1 ks2 cs2 b st x lc rc d] by simp
  next
    case (Inr nec)
    obtain d1 y d2 where nec: "nec = (d1, y, d2)" by (cases nec) auto
    then show ?thesis
      using Inr fixed_two [OF assms(1-4), of "bentries lc @ bentries rc" _ d1 y d2 "cs1 @ lc # rc # cs2"] J l
        rebalance_children_list [of ks1 cs1 ks2 cs2 b st x lc rc d1 y d2] by simp
  qed
qed

lemma underfull_join_or_rebalance:
  assumes "bis_leaf c = bis_leaf lc" "(li, lc, rc) = (if cidx = 0 then (0, c, children p ! 1) else (cidx - 1, children p ! (cidx - 1), c))"
  shows "fst (underfull_node b p cidx c) = (case join_or_rebalance b lc (bkeys p ! li) rc of
       Inl d \<Rightarrow> join_children b p d li | Inr nec \<Rightarrow> rebalance_children b p nec li)"
  using assms by (auto simp: underfull_node_def join_or_rebalance_def Let_def split: if_splits)

lemma same_kind: "bt_ok b h r1 lo1 hi1 c1 \<Longrightarrow> bt_ok b h r2 lo2 hi2 c2 \<Longrightarrow> bis_leaf c1 = bis_leaf c2"
  by (cases c1; cases c2) (auto simp: bt_ok_node)

lemma fix_node_fixed:
  assumes "wf_blocks b" "kids (bt_ok b h False) lo hi ks cs" "within lo k hi" "2 \<le> length cs"
    "bstatus (pchild k ks cs) \<noteq> OK"
  shows "fixed b h lo hi k cs (path_stats k (pchild k ks cs)) (fst (fix_node b (BNode st ks cs) (num_le ks k) (pchild k ks cs)))"
proof -
  let ?P = "bt_ok b h False"
  note room = bt_ok_room [OF assms(1)]
  obtain cs1 c cs2 ks1 ks2 m hh where d: "cs = cs1 @ c # cs2" "ks = ks1 @ ks2" "length ks1 = length cs1" "length ks2 = length cs2"
    "left_ok ?P lo ks1 cs1 m" "?P m hh c" "right_ok ?P hh ks2 cs2 hi" "within m k hh"
    using child_on_path [OF room assms(2,3)] by metis
  have loc: "num_le ks k = length cs1" "pchild k ks cs = c"
    using locate [OF room d(5,6,7,8)] d(1,2) by simp_all
  show ?thesis
  proof (cases "bstatus c = isOver")
    case True
    obtain d1 x d2 where nec: "(if bis_leaf c then split_leaf b c else bsplit b c) = (d1, x, d2)" by (metis prod_cases3)
    have g: "good_two b h m hh k (bentries c) (path_stats k c) (d1, x, d2)"
      using split_over_good [OF assms(1) d(6) True, of k] nec by simp
    have "fst (fix_node b (BNode st ks cs) (num_le ks k) c) = add_child b (BNode st ks cs) (d1, x, d2) (length cs1)"
      using True nec loc(1) by (auto simp: fix_node_def overfull_node_def split: if_splits)
    also have "\<dots> = BNode (nstat b (length cs1 + length cs2 + 2)) (ks1 @ x # ks2) (cs1 @ d1 # d2 # cs2)"
      unfolding d(1,2) by (rule add_child_list [OF d(3,4)])
    finally show ?thesis
      using fixed_two [OF assms(1) d(5,7,8) g, of cs] d(1) loc(2) by simp
  next
    case False
    then have under: "bstatus c = isUnder" using assms(5) loc(2) by (cases "bstatus c") auto
    have fx: "fst (fix_node b (BNode st ks cs) (num_le ks k) c) = fst (underfull_node b (BNode st ks cs) (length cs1) c)"
      using False loc(1) by (simp add: fix_node_def)
    show ?thesis
    proof (cases "cs1 = []")
      case True
      then have ks1: "ks1 = []" "m = lo" using d(3,5) by auto
      obtain rc cs2' where cs2: "cs2 = rc # cs2'" using assms(4) d(1) True by (cases cs2) auto
      then obtain x ks2' h2 where ks2: "ks2 = x # ks2'" "hh = Some x" "?P (Some x) h2 rc" "right_ok ?P h2 ks2' cs2' hi"
        using d(4,7) by (cases ks2) (auto simp: kids_first)
      have kx: "k < x" using d(8) ks2(2) by (simp add: within_def)
      have w: "within m k h2" using d(8) ks2(2,3) bt_ok_range [OF assms(1) ks2(3)]
        by (auto simp: within_def nonempty_range_def split: option.splits)
      have left: "left_ok ?P lo [] [] m" using ks1(2) by simp
      have "fst (underfull_node b (BNode st ks cs) 0 c) = (case join_or_rebalance b c x rc of
          Inl d \<Rightarrow> join_children b (BNode st ks cs) d 0 | Inr nec \<Rightarrow> rebalance_children b (BNode st ks cs) nec 0)"
        using underfull_join_or_rebalance [of c c 0 rc 0 "BNode st ks cs" b] True ks1 cs2 ks2(1) d(1,2) by simp
      then show ?thesis
        using fix_pair [OF assms(1) left ks2(4) w d(6) [unfolded ks2(2)] ks2(3), of st] under kx True ks1 cs2 ks2(1) d(1,2) fx loc(2)
        by (simp cong: sum.case_cong)
    next
      case ne: False
      then obtain cs1' lc where cs1: "cs1 = cs1' @ [lc]" by (cases cs1 rule: rev_cases) auto
      then obtain ks1' x where ks1: "ks1 = ks1' @ [x]" "length ks1' = length cs1'" using d(3) by (cases ks1 rule: rev_cases) auto
      have left: "left_ok ?P lo (ks1' @ [x]) (cs1' @ [lc]) m" using d(5) cs1 ks1(1) by simp
      obtain m' where m: "m = Some x" "left_ok ?P lo ks1' cs1' m'" "?P m' (Some x) lc"
        using left_ok_snocD [OF left ks1(2)] by blast
      have kx: "\<not> k < x" using d(8) m(1) by (auto simp: within_def)
      have w: "within m' k hh" using d(8) m(1) bt_ok_range [OF assms(1) m(3)]
        by (auto simp: within_def nonempty_range_def split: option.splits)
      have "fst (underfull_node b (BNode st ks cs) (length cs1) c) = (case join_or_rebalance b lc x c of
          Inl d \<Rightarrow> join_children b (BNode st ks cs) d (length cs1') | Inr nec \<Rightarrow> rebalance_children b (BNode st ks cs) nec (length cs1'))"
        using underfull_join_or_rebalance [of c lc "length cs1'" c "length cs1" "BNode st ks cs" b] same_kind [OF d(6) m(3)] cs1 ks1 d(1,2)
        by (simp add: nth_append)
      then show ?thesis
        using fix_pair [OF assms(1) m(2) d(7) w m(3) d(6) [unfolded m(1)], of st] under kx cs1 ks1 d(1,2) fx loc(2)
        by (simp cong: sum.case_cong)
    qed
  qed
qed

section \<open>The descent ends\<close>

text \<open>
  Nodes on the path with a status other than \<open>OK\<close>: how many there are, and how deep they are in
  sum. A fix of one of them removes it or moves it one level up.
\<close>

fun marks :: "status list \<Rightarrow> nat" where
  "marks [] = 0"
| "marks (st # sts) = (if st = OK then 0 else 1) + marks sts"

fun depths :: "nat \<Rightarrow> status list \<Rightarrow> nat" where
  "depths d [] = 0"
| "depths d (st # sts) = (if st = OK then 0 else d) + depths (Suc d) sts"

lemma depths_Suc: "depths (Suc d) sts = depths d sts + marks sts"
  by (induction sts arbitrary: d) auto

lemma child_index:
  assumes "wf_blocks b" "kids (bt_ok b h False) lo hi ks cs"
  shows "bt_find ks (length cs) k 0 = num_le ks k" "num_le ks k < length cs"
  using bt_find_num_le [of ks "length cs" 0 k] kids_sorted [OF bt_ok_room [OF assms(1)] assms(2)] kids_length [OF assms(2)]
    num_le_length [of ks k] by auto

lemma path_stats_node:
  assumes "wf_blocks b" "kids (bt_ok b h False) lo hi ks cs"
  shows "path_stats k (BNode st ks cs) = bstatus (pchild k ks cs) # path_stats k (pchild k ks cs)"
  using child_index(2) [OF assms, of k] by simp

lemma left_ok_keys:
  assumes "wf_blocks b" "left_ok (bt_ok b h False) lo ks cs m" "x \<in> fst ` set (concat (map bentries cs))"
  shows "\<exists>y. m = Some y \<and> x < y"
  using assms(2,3)
proof (induction ks arbitrary: lo cs)
  case Nil
  then show ?case by (cases cs) auto
next
  case (Cons k ks)
  then obtain c cs' where cs: "cs = c # cs'" "bt_ok b h False lo (Some k) c" "left_ok (bt_ok b h False) (Some k) ks cs' m"
    by (cases cs) auto
  have last: "\<exists>y. m = Some y \<and> k \<le> y" using cs(3)
  proof (induction ks arbitrary: k cs')
    case Nil
    then show ?case by (cases cs') auto
  next
    case (Cons k' ks)
    obtain c' cs'' where c': "bt_ok b h False (Some k) (Some k') c'" "left_ok (bt_ok b h False) (Some k') ks cs'' m" "cs' = c' # cs''"
      using Cons.prems by (cases cs') auto
    have "k < k'" using bt_ok_range [OF assms(1) c'(1)] by (simp add: nonempty_range_def)
    then show ?case using Cons.IH [OF c'(2)] by force
  qed
  show ?case
  proof (cases "x \<in> bkeyset c")
    case True
    then have "x < k" using bt_ok_entries [OF assms(1) cs(2)] by (auto simp: entries_ok_def within_def)
    then show ?thesis using last by force
  next
    case False
    then show ?thesis using Cons.IH [OF cs(3)] Cons.prems(2) cs(1) by auto
  qed
qed

lemma right_ok_keys:
  assumes "wf_blocks b" "right_ok (bt_ok b h False) hh ks cs hi" "x \<in> fst ` set (concat (map bentries cs))"
  shows "\<exists>y. hh = Some y \<and> y \<le> x"
proof -
  obtain k ks' c cs' where r: "cs = c # cs'" "hh = Some k" "kids (bt_ok b h False) (Some k) hi ks' cs"
    using assms(2,3) by (cases ks; cases cs) auto
  have "entries_ok (Some k) hi (concat (map bentries cs))"
    by (rule kids_entries [OF bt_ok_room [OF assms(1)] bt_ok_entries [OF assms(1)] r(3)])
  then show ?thesis using assms(3) r(2) by (auto simp: entries_ok_def within_def)
qed

text \<open>The child on the path, its bounds, and what another child in its place gives.\<close>

lemma bt_ok_child:
  assumes "wf_blocks b" "kids (bt_ok b h False) lo hi ks cs" "within lo k hi"
  obtains m hh cs1 cs2 where "bt_ok b h False m hh (pchild k ks cs)" "within m k hh"
    "cs = cs1 @ pchild k ks cs # cs2" "length cs1 = num_le ks k"
    "\<And>d. bt_ok b h False m hh d \<Longrightarrow> kids (bt_ok b h False) lo hi ks (cs1 @ d # cs2) \<and> pchild k ks (cs1 @ d # cs2) = d"
    "\<And>x. x \<in> fst ` set (concat (map bentries cs1)) \<Longrightarrow> x < k"
    "\<And>x. x \<in> fst ` set (concat (map bentries cs2)) \<Longrightarrow> k < x"
proof -
  let ?P = "bt_ok b h False"
  note room = bt_ok_room [OF assms(1)]
  obtain cs1 c cs2 ks1 ks2 m hh where d: "cs = cs1 @ c # cs2" "ks = ks1 @ ks2" "length ks1 = length cs1" "length ks2 = length cs2"
    "left_ok ?P lo ks1 cs1 m" "?P m hh c" "right_ok ?P hh ks2 cs2 hi" "within m k hh"
    using child_on_path [OF room assms(2,3)] by metis
  have loc: "num_le ks k = length cs1" "pchild k ks cs = c"
    using locate [OF room d(5,6,7,8)] d(1,2) by simp_all
  show thesis
  proof (rule that)
    show "?P m hh (pchild k ks cs)" "within m k hh" "cs = cs1 @ pchild k ks cs # cs2" "length cs1 = num_le ks k"
      using d loc by simp_all
    show "kids ?P lo hi ks (cs1 @ e # cs2) \<and> pchild k ks (cs1 @ e # cs2) = e" if "?P m hh e" for e
      using splice_one [OF room d(5,7) that d(8)] d(2) by simp
    show "x < k" if "x \<in> fst ` set (concat (map bentries cs1))" for x
      using left_ok_keys [OF assms(1) d(5) that] d(8) by (auto simp: within_def)
    show "k < x" if "x \<in> fst ` set (concat (map bentries cs2))" for x
      using right_ok_keys [OF assms(1) d(7) that] d(8) by (auto simp: within_def)
  qed
qed

lemma path_stats_length:
  assumes "wf_blocks b" "bt_ok b h root lo hi t" "within lo k hi"
  shows "length (path_stats k t) = h"
  using assms(2,3)
proof (induction h arbitrary: root lo hi t)
  case 0
  then show ?case by (cases t) auto
next
  case (Suc h)
  then obtain st ks cs where t: "t = BNode st ks cs" "kids (bt_ok b h False) lo hi ks cs" by (cases t) auto
  obtain m hh where "bt_ok b h False m hh (pchild k ks cs)" "within m k hh"
    using bt_ok_child [OF assms(1) t(2) Suc.prems(2)] by metis
  then show ?case using Suc.IH path_stats_node [OF assms(1) t(2)] t(1) by simp
qed

lemma node_status_sizes:
  assumes "wf_blocks b" "node_sizes b False st n" "st = OK"
  shows "2 \<le> n" "n < node_block_size b" "node_min_size b < n"
proof -
  have "n \<noteq> node_min_size b" "n \<noteq> node_block_size b" "node_min_size b \<le> n" "n \<le> node_block_size b"
    using assms(2,3) by (auto simp: node_sizes_def size_status_def split: if_splits)
  then show "2 \<le> n" "n < node_block_size b" "node_min_size b < n" using min_sizes [OF assms(1)] by auto
qed

lemma node_sizes_fixed:
  assumes "wf_blocks b" "node_sizes b root st n" "n < node_block_size b" "n' \<le> n + 1" "n \<le> n' + 1" "root \<or> node_min_size b < n"
  shows "node_sizes b root (nstat b n') n'"
proof -
  have "node_min_size b < node_block_size b" using assms(1) by (simp add: wf_blocks_def node_min_size_def)
  then show ?thesis using assms(3-) by (auto simp: node_sizes_def size_status_def)
qed

text \<open>
  One pass below a node that needs no fix itself: nothing is done when no node on the path
  needs a fix; otherwise the node that replaces it is well-formed with the same entries, and either it was
  rebuilt and has fewer marks below, or it is as before and the marks are not deeper than before.
\<close>

definition progress :: "nat \<Rightarrow> 'k::linorder \<Rightarrow> ('k, 'v) bnode \<Rightarrow> ('k, 'v) bnode \<Rightarrow> bool" where
  "progress d k t t' \<longleftrightarrow>
     marks (path_stats k t') < marks (path_stats k t) \<and> depths (Suc d) (path_stats k t') + d < depths (Suc d) (path_stats k t)
   \<or> bstatus t' = bstatus t \<and> bsize t' = bsize t \<and> bis_leaf t' = bis_leaf t \<and> marks (path_stats k t') \<le> marks (path_stats k t)
     \<and> depths (Suc d) (path_stats k t') < depths (Suc d) (path_stats k t)"

lemma fix_path_progress:
  assumes "wf_blocks b" "bt_ok b h root lo hi t" "within lo k hi"
    "\<not> bis_leaf t \<Longrightarrow> 2 \<le> bsize t \<and> bsize t < node_block_size b \<and> (root \<or> node_min_size b < bsize t)"
  shows "case fix_path b k t of
      None \<Rightarrow> set (path_stats k t) \<subseteq> {OK}
    | Some (t', ret) \<Rightarrow> bt_ok b h root lo hi t' \<and> bentries t' = bentries t \<and> progress d k t t'"
  using assms(2-)
proof (induction h arbitrary: root lo hi t d)
  case 0
  then show ?case by (cases t) auto
next
  case (Suc h)
  then obtain st ks cs where t: "t = BNode st ks cs" and kd: "kids (bt_ok b h False) lo hi ks cs" and sz: "node_sizes b root st (length cs)"
    by (cases t) auto
  let ?c = "pchild k ks cs"
  note ix = child_index [OF assms(1) kd, of k]
  note ps = path_stats_node [OF assms(1) kd, of k]
  have big: "2 \<le> length cs" "length cs < node_block_size b" "root \<or> node_min_size b < length cs"
    using Suc.prems(3) t by auto
  have step: "fix_path b k t = (if bstatus ?c \<noteq> OK then Some (fix_node b t (num_le ks k) ?c)
      else map_option (\<lambda>(c, ret). (set_child t (num_le ks k) c, ret)) (fix_path b k ?c))"
    using ix unfolding t by (simp add: pchild_def Let_def)
  show ?case
  proof (cases "bstatus ?c = OK")
    case False
    obtain t' ret where f: "fix_node b t (num_le ks k) ?c = (t', ret)" by fastforce
    have "fixed b h lo hi k cs (path_stats k ?c) t'"
      using fix_node_fixed [OF assms(1) kd Suc.prems(2) big(1) False, of st] f t by simp
    then obtain ks' cs' where t': "t' = BNode (nstat b (length cs')) ks' cs'" "kids (bt_ok b h False) lo hi ks' cs'"
      "concat (map bentries cs') = concat (map bentries cs)" "bstatus (pchild k ks' cs') = OK"
      "path_stats k (pchild k ks' cs') = path_stats k ?c" "length cs' \<le> length cs + 1" "length cs \<le> length cs' + 1"
      by (auto simp: fixed_def)
    have "path_stats k t' = OK # path_stats k ?c"
      using path_stats_node [OF assms(1) t'(2), of k "nstat b (length cs')"] t'(1,4,5) by simp
    then have "progress d k t t'" using ps [of st] False t by (simp add: progress_def)
    moreover have "bt_ok b (Suc h) root lo hi t'"
      using t'(1,2) node_sizes_fixed [OF assms(1) sz big(2) t'(6,7) big(3)] by simp
    ultimately show ?thesis using step False f t'(1,3) t by simp
  next
    case True
    obtain m hh cs1 cs2 where c: "bt_ok b h False m hh ?c" "within m k hh" "cs = cs1 @ ?c # cs2" "length cs1 = num_le ks k"
      "\<And>d. bt_ok b h False m hh d \<Longrightarrow> kids (bt_ok b h False) lo hi ks (cs1 @ d # cs2) \<and> pchild k ks (cs1 @ d # cs2) = d"
      using bt_ok_child [OF assms(1) kd Suc.prems(2)] by metis
    have "\<not> bis_leaf ?c \<Longrightarrow> 2 \<le> bsize ?c \<and> bsize ?c < node_block_size b \<and> (False \<or> node_min_size b < bsize ?c)"
      using c(1) True node_status_sizes [OF assms(1)] by (cases ?c) (auto simp: bt_ok_node)
    note IH = Suc.IH [OF c(1,2) this, of "Suc d"]
    show ?thesis
    proof (cases "fix_path b k ?c")
      case None
      then show ?thesis using IH step True ps [of st] t by simp
    next
      case (Some r)
      obtain c' ret where r: "r = (c', ret)" by fastforce
      have c': "bt_ok b h False m hh c'" "bentries c' = bentries ?c" "progress (Suc d) k ?c c'" using IH Some r by auto
      let ?t' = "set_child t (num_le ks k) c'"
      have t': "?t' = BNode st ks (cs1 @ c' # cs2)" unfolding t set_child_def using c(3,4) by (metis bnode.sel list_update_length)
      note kd' = c(5) [OF c'(1)]
      have len: "length (cs1 @ c' # cs2) = length cs" using c(3) by (metis length_append length_Cons)
      have "path_stats k ?t' = bstatus c' # path_stats k c'"
        using path_stats_node [OF assms(1) conjunct1 [OF kd'], of k st] kd' t' by simp
      moreover have "path_stats k t = OK # path_stats k ?c" using ps [of st] True t by simp
      ultimately have "progress d k t ?t'"
        using c'(3) True len unfolding progress_def t' by (auto simp: t)
      moreover have "bt_ok b (Suc h) root lo hi ?t'" using kd' sz len t' by simp
      moreover have "bentries ?t' = bentries t"
        using t' c'(2) c(3) t by (metis bentries.simps(2) concat.simps(2) concat_append list.simps(9) map_append)
      ultimately show ?thesis using step True Some r by simp
    qed
  qed
qed

text \<open>The whole tree: the topmost node counts as marked when the first test of \<open>find_and_fix\<close> holds.\<close>

definition root_mark :: "('k, 'v) bnode \<Rightarrow> nat" where
  "root_mark t = (if bstatus t = isOver \<or> (\<not> bis_leaf t \<and> bsize t = 1) then 1 else 0)"

definition total_marks :: "'k::linorder \<Rightarrow> ('k, 'v) bnode \<Rightarrow> nat" where
  "total_marks k t = root_mark t + marks (path_stats k t)"

definition total_depths :: "'k::linorder \<Rightarrow> ('k, 'v) bnode \<Rightarrow> nat" where
  "total_depths k t = root_mark t + depths 2 (path_stats k t)"

definition rounds_left :: "'k::linorder \<Rightarrow> ('k, 'v) bnode \<Rightarrow> nat" where
  "rounds_left k t = total_marks k t * (length (path_stats k t) + total_marks k t + 1) + total_depths k t"

lemma rounds_left_less:
  assumes "total_marks k t' \<le> total_marks k t" "length (path_stats k t') \<le> length (path_stats k t)" "total_depths k t' < total_depths k t"
  shows "rounds_left k t' < rounds_left k t"
  unfolding rounds_left_def by (rule add_le_less_mono [OF mult_le_mono]) (use assms in auto)

definition wf_btree :: "blocks \<Rightarrow> ('k::linorder, 'v) bnode \<Rightarrow> bool" where
  "wf_btree b t \<longleftrightarrow> (\<exists>h. bt_ok b h True None None t)"

lemma within_None [simp]: "within None k None"
  by (simp add: within_def)

lemma fix_root_split:
  assumes "wf_blocks b" "bt_ok b h True None None t" "bstatus t = isOver"
  shows "bt_ok b (Suc h) True None None (fst (fix_root b t))" "bentries (fst (fix_root b t)) = bentries t"
    "rounds_left k (fst (fix_root b t)) < rounds_left k t"
proof -
  obtain d1 x d2 where nec: "(if bis_leaf t then split_leaf b t else bsplit b t) = (d1, x, d2)" by (metis prod_cases3)
  have g: "bt_ok b h False None (Some x) d1" "bt_ok b h False (Some x) None d2" "bstatus d1 = OK" "bstatus d2 = OK"
    "bentries d1 @ bentries d2 = bentries t" "path_stats k (if k < x then d1 else d2) = path_stats k t"
    using split_over_good [OF assms, of k] nec by (auto simp: good_two_def)
  have f: "fst (fix_root b t) = BNode OK [x] [d1, d2]" using assms(3) nec by (simp add: fix_root_def new_root_def)
  have "2 < node_block_size b" using assms(1) by (simp add: wf_blocks_def)
  then show "bt_ok b (Suc h) True None None (fst (fix_root b t))" using f g by (simp add: node_sizes_def)
  show "bentries (fst (fix_root b t)) = bentries t" using f g(5) by simp
  have p: "path_stats k (fst (fix_root b t)) = OK # path_stats k t"
    using g(3,4,6) f by (cases "k < x") (auto simp: num_le_def pchild_def)
  have r: "root_mark (fst (fix_root b t)) = 0" "root_mark t = 1" using f assms(3) by (simp_all add: root_mark_def)
  show "rounds_left k (fst (fix_root b t)) < rounds_left k t"
    unfolding rounds_left_def total_marks_def total_depths_def p r
    using depths_Suc [of 2 "path_stats k t"] by (simp add: numeral_3_eq_3 [symmetric] add_mult_distrib)
qed

lemma fix_root_shrink:
  assumes "wf_blocks b" "bt_ok b h True None None t" "bstatus t \<noteq> isOver" "\<not> bis_leaf t" "bsize t = 1"
  shows "\<exists>h'. bt_ok b h' True None None (fst (fix_root b t))" "bentries (fst (fix_root b t)) = bentries t"
    "rounds_left k (fst (fix_root b t)) < rounds_left k t"
proof -
  obtain st ks cs where t: "t = BNode st ks cs" using assms(4) by (cases t) auto
  then obtain c where cs: "cs = [c]" using assms(5) by (cases cs; cases "tl cs") auto
  obtain h' where kd: "kids (bt_ok b h' False) None None ks cs" using assms(2) t by (auto simp: bt_ok_node)
  then have c: "ks = []" "bt_ok b h' False None None c" using cs by (cases ks; auto)+
  have f: "fst (fix_root b t) = c" using t cs assms(3) by (simp add: fix_root_def)
  have "bt_ok b h' True None None c"
    using c(2) by (cases c) (auto simp: leaf_ok_def bt_ok_node node_sizes_def)
  then show "\<exists>h'. bt_ok b h' True None None (fst (fix_root b t))" using f by blast
  show "bentries (fst (fix_root b t)) = bentries t" using f t cs by simp
  have p: "path_stats k t = bstatus c # path_stats k c" using t cs c(1) by (simp add: num_le_def pchild_def)
  have "root_mark c \<le> (if bstatus c = OK then 0 else 1)"
    using c(2) by (cases c) (auto simp: root_mark_def bt_ok_node split: if_splits dest: node_status_sizes(1) [OF assms(1) _ refl])
  moreover have "root_mark t = 1" using assms(4,5) by (simp add: root_mark_def)
  ultimately have "total_marks k c \<le> total_marks k t" "total_depths k c < total_depths k t"
    unfolding total_marks_def total_depths_def p marks.simps depths.simps depths_Suc by (simp_all split: if_splits)
  then show "rounds_left k (fst (fix_root b t)) < rounds_left k t" unfolding f by (intro rounds_left_less) (simp_all add: p)
qed

text \<open>One round of \<open>find_and_fix\<close>: nothing needs a fix, or one fix is made and fewer rounds remain.\<close>

lemma fix_round_step:
  assumes "wf_blocks b" "wf_btree b t"
  shows "case fix_round b k t of
      None \<Rightarrow> root_mark t = 0 \<and> set (path_stats k t) \<subseteq> {OK}
    | Some (t', ret) \<Rightarrow> wf_btree b t' \<and> bentries t' = bentries t \<and> rounds_left k t' < rounds_left k t"
proof -
  obtain h where ok: "bt_ok b h True None None t" using assms(2) by (auto simp: wf_btree_def)
  show ?thesis
  proof (cases "root_mark t = 0")
    case False
    then have r: "fix_round b k t = Some (fix_root b t)" by (auto simp: fix_round_def root_mark_def split: if_splits)
    obtain t' ret where f: "fix_root b t = (t', ret)" by fastforce
    show ?thesis
    proof (cases "bstatus t = isOver")
      case True
      then show ?thesis using fix_root_split [OF assms(1) ok True] r f by (auto simp: wf_btree_def simp del: bt_ok.simps)
    next
      case not_over: False
      then have "\<not> bis_leaf t" "bsize t = 1" using False by (auto simp: root_mark_def split: if_splits)
      then show ?thesis using fix_root_shrink [OF assms(1) ok not_over] r f by (auto simp: wf_btree_def simp del: bt_ok.simps)
    qed
  next
    case True
    then have r: "fix_round b k t = fix_path b k t" by (auto simp: fix_round_def root_mark_def split: if_splits)
    have big: "2 \<le> bsize t \<and> bsize t < node_block_size b \<and> (True \<or> node_min_size b < bsize t)" if nl: "\<not> bis_leaf t"
    proof -
      obtain st ks cs where t: "t = BNode st ks cs" using nl by (cases t) auto
      have "kids (bt_ok b (h - 1) False) None None ks cs" "node_sizes b True st (length cs)" using ok t by (auto simp: bt_ok_node)
      moreover have "bstatus t \<noteq> isOver" "bsize t \<noteq> 1" using True nl by (auto simp: root_mark_def split: if_splits)
      ultimately show ?thesis using t kids_length [of "bt_ok b (h - 1) False" None None ks cs]
        by (cases "length ks") (auto simp: node_sizes_def)
    qed
    note F = fix_path_progress [OF assms(1) ok within_None big, of k 1]
    show ?thesis
    proof (cases "fix_path b k t")
      case None
      then show ?thesis using F r True by simp
    next
      case (Some x)
      obtain t' ret where x: "x = (t', ret)" by fastforce
      have t': "bt_ok b h True None None t'" "bentries t' = bentries t" "progress 1 k t t'" using F Some x by auto
      have le: "root_mark t' \<le> 1" by (simp add: root_mark_def)
      have len: "length (path_stats k t') = length (path_stats k t)"
        using path_stats_length [OF assms(1) t'(1) within_None] path_stats_length [OF assms(1) ok within_None] by simp
      have same: "root_mark t' = 0" if "bstatus t' = bstatus t" "bsize t' = bsize t" "bis_leaf t' = bis_leaf t"
        using True that by (simp add: root_mark_def)
      have "total_marks k t' \<le> total_marks k t" "total_depths k t' < total_depths k t"
        using t'(3) True le same unfolding progress_def total_marks_def total_depths_def numeral_2_eq_2 by auto
      then have "rounds_left k t' < rounds_left k t" by (intro rounds_left_less) (simp_all add: len)
      then show ?thesis using r Some x t'(1,2) by (auto simp: wf_btree_def)
    qed
  qed
qed

lemma find_and_fix_ends:
  assumes "wf_blocks b" "wf_btree b t" "rounds_left k t < fuel"
  shows "\<exists>t'. find_and_fix b fuel k t = Some t' \<and> wf_btree b t' \<and> bentries t' = bentries t
    \<and> root_mark t' = 0 \<and> set (path_stats k t') \<subseteq> {OK}"
  using assms(2,3)
proof (induction fuel arbitrary: t)
  case (Suc fuel)
  note F = fix_round_step [OF assms(1) Suc.prems(1), of k]
  show ?case
  proof (cases "fix_round b k t")
    case None
    then show ?thesis using F Suc.prems(1) by simp
  next
    case (Some x)
    obtain t' ret where x: "x = (t', ret)" by fastforce
    then show ?thesis using F Some Suc.IH [of t'] Suc.prems(2) by auto
  qed
qed simp

section \<open>The leaf of a key\<close>

lemma find_no_fix_node:
  assumes "wf_blocks b" "kids (bt_ok b h False) lo hi ks cs"
  shows "find_no_fix k (BNode st ks cs) = find_no_fix k (pchild k ks cs)"
    "put_leaf k l (BNode st ks cs) = BNode st ks (cs[num_le ks k := put_leaf k l (pchild k ks cs)])"
  using child_index [OF assms, of k] by (simp_all add: pchild_def Let_def set_child_def)

text \<open>
  The leaf on the path of \<open>k\<close> has the entries next to \<open>k\<close>, and another leaf with the same bounds
  can be put in its place. A leaf that is not the topmost node has the last status of the path.
\<close>

lemma leaf_on_path:
  assumes "wf_blocks b" "bt_ok b h root lo hi t" "within lo k hi"
  obtains st kvs m hh E1 E2 where "find_no_fix k t = BLeaf st kvs" "leaf_ok b (root \<and> h = 0) m hh st kvs" "within m k hh"
    "bentries t = E1 @ kvs @ E2" "\<And>x. x \<in> fst ` set E1 \<Longrightarrow> x < k" "\<And>x. x \<in> fst ` set E2 \<Longrightarrow> k < x"
    "\<And>st' kvs'. leaf_ok b (root \<and> h = 0) m hh st' kvs' \<Longrightarrow>
       bt_ok b h root lo hi (put_leaf k (BLeaf st' kvs') t) \<and> bentries (put_leaf k (BLeaf st' kvs') t) = E1 @ kvs' @ E2"
    "st = last (bstatus t # path_stats k t)"
  using assms(2,3)
proof (induction h arbitrary: thesis root lo hi t)
  case 0
  obtain st kvs where t: "t = BLeaf st kvs" "leaf_ok b root lo hi st kvs" using "0.prems"(2) by (cases t) auto
  show ?case by (rule "0.prems"(1) [of st kvs lo hi "[]" "[]"]) (use t "0.prems"(3) in auto)
next
  case (Suc h)
  from Suc.prems(2) obtain st ks cs where t: "t = BNode st ks cs" and kd: "kids (bt_ok b h False) lo hi ks cs" and sz: "node_sizes b root st (length cs)"
    by (cases t) auto
  let ?c = "pchild k ks cs"
  obtain m hh cs1 cs2 where c: "bt_ok b h False m hh ?c" "within m k hh" "cs = cs1 @ ?c # cs2" "length cs1 = num_le ks k"
    "\<And>d. bt_ok b h False m hh d \<Longrightarrow> kids (bt_ok b h False) lo hi ks (cs1 @ d # cs2) \<and> pchild k ks (cs1 @ d # cs2) = d"
    "\<And>x. x \<in> fst ` set (concat (map bentries cs1)) \<Longrightarrow> x < k" "\<And>x. x \<in> fst ` set (concat (map bentries cs2)) \<Longrightarrow> k < x"
    using bt_ok_child [OF assms(1) kd Suc.prems(3)] by metis
  obtain s kvs m' hh' E1 E2 where l: "find_no_fix k ?c = BLeaf s kvs" "leaf_ok b (False \<and> h = 0) m' hh' s kvs" "within m' k hh'"
    "bentries ?c = E1 @ kvs @ E2" "\<And>x. x \<in> fst ` set E1 \<Longrightarrow> x < k" "\<And>x. x \<in> fst ` set E2 \<Longrightarrow> k < x"
    "\<And>st' kvs'. leaf_ok b (False \<and> h = 0) m' hh' st' kvs' \<Longrightarrow>
       bt_ok b h False m hh (put_leaf k (BLeaf st' kvs') ?c) \<and> bentries (put_leaf k (BLeaf st' kvs') ?c) = E1 @ kvs' @ E2"
    "s = last (bstatus ?c # path_stats k ?c)"
    using Suc.IH [OF _ c(1,2)] by blast
  let ?E1 = "concat (map bentries cs1) @ E1" and ?E2 = "E2 @ concat (map bentries cs2)"
  have upd: "cs[num_le ks k := d] = cs1 @ d # cs2" for d using c(3,4) by (metis list_update_length)
  have cc: "concat (map bentries cs) = concat (map bentries cs1) @ bentries ?c @ concat (map bentries cs2)"
    using c(3) by (metis concat.simps(2) concat_append list.simps(9) map_append)
  show ?case
  proof (rule Suc.prems(1))
    show "find_no_fix k t = BLeaf s kvs" using find_no_fix_node(1) [OF assms(1) kd] l(1) t by simp
    show "leaf_ok b (root \<and> Suc h = 0) m' hh' s kvs" "within m' k hh'" using l(2,3) by simp_all
    show "bentries t = ?E1 @ kvs @ ?E2" using t cc l(4) by simp
    show "x < k" if "x \<in> fst ` set ?E1" for x using that c(6) l(5) by (metis Un_iff image_Un set_append)
    show "k < x" if "x \<in> fst ` set ?E2" for x using that c(7) l(6) by (metis Un_iff image_Un set_append)
    show "s = last (bstatus t # path_stats k t)" using l(8) path_stats_node [OF assms(1) kd, of k st] t by simp
    fix st' and kvs' :: "('a \<times> 'b) list" assume "leaf_ok b (root \<and> Suc h = 0) m' hh' st' kvs'"
    then have p: "bt_ok b h False m hh (put_leaf k (BLeaf st' kvs') ?c)" "bentries (put_leaf k (BLeaf st' kvs') ?c) = E1 @ kvs' @ E2"
      using l(7) by simp_all
    have "put_leaf k (BLeaf st' kvs') t = BNode st ks (cs1 @ put_leaf k (BLeaf st' kvs') ?c # cs2)"
      using find_no_fix_node(2) [OF assms(1) kd] upd t by simp
    moreover have "length (cs1 @ put_leaf k (BLeaf st' kvs') ?c # cs2) = length cs" using c(3) by (metis length_append length_Cons)
    ultimately show "bt_ok b (Suc h) root lo hi (put_leaf k (BLeaf st' kvs') t) \<and> bentries (put_leaf k (BLeaf st' kvs') t) = ?E1 @ kvs' @ ?E2"
      using c(5) [OF p(1)] p(2) sz by simp
  qed
qed

section \<open>Leaves as maps\<close>

lemma leaf_prev_split:
  assumes "sorted_wrt (<) (map fst kvs)"
  shows "\<forall>x \<in> fst ` set (take (leaf_prev kvs k) kvs). x < k" "\<forall>x \<in> fst ` set (drop (leaf_prev kvs k) kvs). k \<le> x"
    "leaf_prev kvs k \<le> length kvs"
  using assms
proof (induction kvs k rule: leaf_prev.induct)
  case (2 k' v kvs k)
  {
    case 1
    then show ?case using 2 by auto
  next
    case 2
    then show ?case using "2.IH" by (force split: if_splits)
  next
    case 3
    then show ?case using "2.IH" by simp
  }
qed auto

text \<open>The leaf as the entries below the key, possibly the entry of the key, and those above.\<close>

lemma leaf_parts:
  assumes "sorted_wrt (<) (map fst kvs)"
  obtains A B where "kvs = A @ B" "leaf_prev kvs k = length A" "\<And>x. x \<in> fst ` set A \<Longrightarrow> x < k" "\<And>x. x \<in> fst ` set B \<Longrightarrow> k < x"
    "leaf_find kvs k = None"
  | A v B where "kvs = A @ (k, v) # B" "leaf_prev kvs k = length A" "\<And>x. x \<in> fst ` set A \<Longrightarrow> x < k" "\<And>x. x \<in> fst ` set B \<Longrightarrow> k < x"
    "leaf_find kvs k = Some v"
proof -
  let ?i = "leaf_prev kvs k"
  note p = leaf_prev_split [OF assms, of k]
  let ?A = "take ?i kvs" and ?B = "drop ?i kvs"
  have A: "kvs = ?A @ ?B" "?i = length ?A" using p(3) by simp_all
  show thesis
  proof (cases "?B = [] \<or> k < fst (hd ?B)")
    case True
    have "k < x" if x: "x \<in> fst ` set ?B" for x
    proof -
      obtain y ys where B: "?B = y # ys" using x by (cases ?B) auto
      have "sorted_wrt (<) (map fst ?B)" using assms by (simp add: drop_map [symmetric] sorted_wrt_drop)
      then have "fst y \<le> x" using x B by auto
      then show ?thesis using True B by auto
    qed
    moreover have "leaf_find kvs k = None"
    proof (cases "?i = length kvs")
      case False
      then have "?i < length kvs" using p(3) by simp
      then show ?thesis using True by (auto simp: leaf_find_def hd_drop_conv_nth)
    qed (simp add: leaf_find_def)
    ultimately show thesis by (intro that(1) [of ?A ?B]) (use A p(1) in auto)
  next
    case False
    then obtain k' v ys where B: "?B = (k', v) # ys" by (cases ?B) auto
    then have "k' = k" using False p(2) by force
    moreover have "sorted_wrt (<) (map fst ?B)" using assms by (simp add: drop_map [symmetric] sorted_wrt_drop)
    moreover have i: "?i < length kvs" using B by (cases "?i < length kvs") auto
    moreover have "kvs ! ?i = (k', v)" using B hd_drop_conv_nth [OF i] by simp
    ultimately show thesis
      by (intro that(2) [of ?A v ys]) (use A p(1) B in \<open>auto simp: leaf_find_def Let_def\<close>)
  qed
qed

section \<open>The tree as a map\<close>

definition bt_abs :: "('k, 'v) bnode \<Rightarrow> 'k \<rightharpoonup> 'v" where
  "bt_abs t = map_of (bentries t)"

lemma map_of_outside: "k \<notin> fst ` set xs \<Longrightarrow> map_of xs k = None"
  by (simp add: map_of_eq_None_iff)

lemma keys_below_append:
  assumes "\<And>x. x \<in> fst ` set A \<Longrightarrow> x < (k::'k::linorder)" "\<And>x. x \<in> fst ` set B \<Longrightarrow> x < k" "x \<in> fst ` set (A @ B)"
  shows "x < k"
  using assms by (metis Un_iff image_Un set_append)

lemma keys_above_append:
  assumes "\<And>x. x \<in> fst ` set A \<Longrightarrow> (k::'k::linorder) < x" "\<And>x. x \<in> fst ` set B \<Longrightarrow> k < x" "x \<in> fst ` set (A @ B)"
  shows "k < x"
  using assms by (metis Un_iff image_Un set_append)

lemma map_of_between:
  assumes "\<And>x. x \<in> fst ` set E1 \<Longrightarrow> x < (k::'k::linorder)" "\<And>x. x \<in> fst ` set E2 \<Longrightarrow> k < x"
  shows "map_of (E1 @ X @ E2) k = map_of X k"
    "map_of (E1 @ (k, v) # E2) = (map_of (E1 @ E2))(k \<mapsto> v)"
    "map_of (E1 @ E2) = (map_of (E1 @ (k, v) # E2))(k := None)"
proof -
  have n: "map_of E1 k = None" "map_of E2 k = None"
    using assms by (meson map_of_outside less_irrefl)+
  show "map_of (E1 @ X @ E2) k = map_of X k" using n by (simp add: map_add_def split: option.splits)
  show "map_of (E1 @ (k, v) # E2) = (map_of (E1 @ E2))(k \<mapsto> v)"
    using n by (auto simp: map_add_def fun_eq_iff split: option.splits)
  show "map_of (E1 @ E2) = (map_of (E1 @ (k, v) # E2))(k := None)"
    using n by (auto simp: map_add_def fun_eq_iff split: option.splits)
qed

lemma leaf_find_map_of:
  assumes "sorted_wrt (<) (map fst kvs)"
  shows "leaf_find kvs k = map_of kvs k"
  using assms
proof (rule leaf_parts [where k = k])
  fix A B assume p: "kvs = A @ B" "\<And>x. x \<in> fst ` set A \<Longrightarrow> x < k" "\<And>x. x \<in> fst ` set B \<Longrightarrow> k < x" "leaf_find kvs k = None"
  then show ?thesis using map_of_between(1) [of A k B "[]"] by (simp add: map_add_def)
next
  fix A v B assume p: "kvs = A @ (k, v) # B" "\<And>x. x \<in> fst ` set A \<Longrightarrow> x < k" "\<And>x. x \<in> fst ` set B \<Longrightarrow> k < x" "leaf_find kvs k = Some v"
  then show ?thesis using map_of_between(2) [of A k B v] by simp
qed

lemma bt_lookup_abs:
  assumes "wf_blocks b" "wf_btree b t"
  shows "bt_lookup k t = bt_abs t k"
proof -
  obtain h where ok: "bt_ok b h True None None t" using assms(2) by (auto simp: wf_btree_def)
  obtain st kvs m hh E1 E2 where l: "find_no_fix k t = BLeaf st kvs" "leaf_ok b (True \<and> h = 0) m hh st kvs" "within m k hh"
    "bentries t = E1 @ kvs @ E2" "\<And>x. x \<in> fst ` set E1 \<Longrightarrow> x < k" "\<And>x. x \<in> fst ` set E2 \<Longrightarrow> k < x"
    by (rule leaf_on_path [OF assms(1) ok within_None [of k]]) blast
  then show ?thesis
    using map_of_between(1) [of E1 k E2 kvs] leaf_find_map_of [of kvs k] by (simp add: bt_lookup_def bt_abs_def leaf_ok_def)
qed

text \<open>After \<open>find_and_fix\<close> the leaf has room for an insertion and, unless it is the whole tree, for a removal.\<close>

lemma fixed_leaf:
  assumes "wf_blocks b" "wf_btree b t" "root_mark t = 0" "set (path_stats k t) \<subseteq> {OK}"
  obtains st kvs m hh E1 E2 r where "find_no_fix k t = BLeaf st kvs" "leaf_ok b r m hh st kvs" "within m k hh"
    "bentries t = E1 @ kvs @ E2" "\<And>x. x \<in> fst ` set E1 \<Longrightarrow> x < k" "\<And>x. x \<in> fst ` set E2 \<Longrightarrow> k < x"
    "\<And>st' kvs'. leaf_ok b r m hh st' kvs' \<Longrightarrow> wf_btree b (put_leaf k (BLeaf st' kvs') t) \<and> bentries (put_leaf k (BLeaf st' kvs') t) = E1 @ kvs' @ E2"
    "length kvs < leaf_block_size b" "r \<or> leaf_min_size b < length kvs"
proof -
  obtain h where ok: "bt_ok b h True None None t" using assms(2) by (auto simp: wf_btree_def)
  obtain st kvs m hh E1 E2 where l: "find_no_fix k t = BLeaf st kvs" "leaf_ok b (True \<and> h = 0) m hh st kvs" "within m k hh"
    "bentries t = E1 @ kvs @ E2" "\<And>x. x \<in> fst ` set E1 \<Longrightarrow> x < k" "\<And>x. x \<in> fst ` set E2 \<Longrightarrow> k < x"
    "\<And>st' kvs'. leaf_ok b (True \<and> h = 0) m hh st' kvs' \<Longrightarrow>
       bt_ok b h True None None (put_leaf k (BLeaf st' kvs') t) \<and> bentries (put_leaf k (BLeaf st' kvs') t) = E1 @ kvs' @ E2"
    "st = last (bstatus t # path_stats k t)"
    by (rule leaf_on_path [OF assms(1) ok within_None [of k]]) blast
  have lt: "leaf_min_size b < leaf_block_size b" using assms(1) by (simp add: wf_blocks_def leaf_min_size_def)
  have st: "st \<noteq> isOver" "h = 0 \<or> st = OK"
  proof -
    have len: "length (path_stats k t) = h" by (rule path_stats_length [OF assms(1) ok within_None])
    have "path_stats k t \<noteq> [] \<Longrightarrow> last (path_stats k t) = OK" using assms(4) last_in_set by blast
    then show "h = 0 \<or> st = OK" using l(8) len by auto
    then show "st \<noteq> isOver" using l(8) len assms(3) by (auto simp: root_mark_def split: if_splits)
  qed
  show thesis
  proof (rule that [OF l(1-6)])
    show "length kvs < leaf_block_size b" using l(2) st(1) lt by (auto simp: leaf_ok_def size_status_def split: if_splits)
    show "(True \<and> h = 0) \<or> leaf_min_size b < length kvs"
      using l(2) st(2) by (auto simp: leaf_ok_def size_status_def split: if_splits)
    show "wf_btree b (put_leaf k (BLeaf st' kvs') t) \<and> bentries (put_leaf k (BLeaf st' kvs') t) = E1 @ kvs' @ E2"
      if "leaf_ok b (True \<and> h = 0) m hh st' kvs'" for st' kvs' using l(7) [OF that] by (auto simp: wf_btree_def)
  qed
qed

lemma sorted_insert_parts:
  assumes "sorted_wrt (<) (map fst A)" "sorted_wrt (<) (map fst B)" "\<And>x. x \<in> fst ` set A \<Longrightarrow> x < (k::'k::linorder)" "\<And>x. x \<in> fst ` set B \<Longrightarrow> k < x"
  shows "sorted_wrt (<) (map fst (A @ (k, v) # B))" "sorted_wrt (<) (map fst (A @ B))"
proof -
  have "\<forall>x\<in>fst ` set A. \<forall>y\<in>fst ` set B. x < y" using assms(3,4) by (meson less_trans)
  then show "sorted_wrt (<) (map fst (A @ (k, v) # B))" "sorted_wrt (<) (map fst (A @ B))"
    using assms by (auto simp: sorted_wrt_append)
qed

lemma new_leaf_ok:
  assumes "sorted_wrt (<) (map fst kvs)" "\<And>x. x \<in> fst ` set kvs \<Longrightarrow> within m x hh" "length kvs \<le> leaf_block_size b" "r \<or> leaf_min_size b \<le> length kvs"
  shows "leaf_ok b r m hh (lstat b (length kvs)) kvs"
  using assms by (simp add: leaf_ok_def)

lemma bt_try_insert_abs:
  assumes "wf_blocks b" "wf_btree b t" "rounds_left k t < fuel"
  shows "\<exists>r t'. bt_try_insert b fuel k v upsert t = Some (r, t') \<and> wf_btree b t' \<and> (r \<longleftrightarrow> upsert \<or> bt_abs t k = None)
    \<and> bt_abs t' = (if r then (bt_abs t)(k \<mapsto> v) else bt_abs t)"
proof -
  obtain t1 where f: "find_and_fix b fuel k t = Some t1" "wf_btree b t1" "bentries t1 = bentries t" "root_mark t1 = 0" "set (path_stats k t1) \<subseteq> {OK}"
    using find_and_fix_ends [OF assms] by blast
  obtain st kvs m hh E1 E2 r where l: "find_no_fix k t1 = BLeaf st kvs" "leaf_ok b r m hh st kvs" "within m k hh"
    "bentries t1 = E1 @ kvs @ E2" "\<And>x. x \<in> fst ` set E1 \<Longrightarrow> x < k" "\<And>x. x \<in> fst ` set E2 \<Longrightarrow> k < x"
    "\<And>st' kvs'. leaf_ok b r m hh st' kvs' \<Longrightarrow> wf_btree b (put_leaf k (BLeaf st' kvs') t1) \<and> bentries (put_leaf k (BLeaf st' kvs') t1) = E1 @ kvs' @ E2"
    "length kvs < leaf_block_size b" "r \<or> leaf_min_size b < length kvs"
    by (rule fixed_leaf [OF assms(1) f(2,4,5)]) blast
  have srt: "sorted_wrt (<) (map fst kvs)" and w: "\<And>x. x \<in> fst ` set kvs \<Longrightarrow> within m x hh" using l(2) by (auto simp: leaf_ok_def)
  have t: "bentries t = E1 @ kvs @ E2" using l(4) f(3) by simp
  have abs: "bt_abs t k = leaf_find kvs k"
    using map_of_between(1) [of E1 k E2 kvs] l(5,6) leaf_find_map_of [OF srt] t by (simp add: bt_abs_def)
  from srt show ?thesis
  proof (rule leaf_parts [where k = k])
    fix A B assume p: "kvs = A @ B" "leaf_prev kvs k = length A" "\<And>x. x \<in> fst ` set A \<Longrightarrow> x < k" "\<And>x. x \<in> fst ` set B \<Longrightarrow> k < x" "leaf_find kvs k = None"
    let ?kvs = "A @ (k, v) # B"
    have ok: "leaf_ok b r m hh (lstat b (length ?kvs)) ?kvs"
    proof (rule new_leaf_ok)
      show "sorted_wrt (<) (map fst ?kvs)" by (rule sorted_insert_parts(1)) (use srt p in \<open>auto simp: sorted_wrt_append\<close>)
    qed (use w l(3,8,9) p(1) in auto)
    have i: "insert_leaf b (BLeaf st kvs) k v False = BLeaf (lstat b (length ?kvs)) ?kvs"
      using p(1,2) by (simp add: insert_leaf_def new_leaf_def Let_def)
    have "bt_try_insert b fuel k v upsert t = Some (True, put_leaf k (BLeaf (lstat b (length ?kvs)) ?kvs) t1)"
      using f(1) l(1) p(5) i by (simp add: bt_try_insert_def Let_def)
    moreover have "map_of ((E1 @ A) @ (k, v) # (B @ E2)) = (map_of ((E1 @ A) @ (B @ E2)))(k \<mapsto> v)"
      by (rule map_of_between(2) [OF keys_below_append [OF l(5) p(3)] keys_above_append [OF p(4) l(6)]])
    ultimately show ?thesis using l(7) [OF ok] abs p(1,5) t
      by (intro exI [of _ True] exI [of _ "put_leaf k (BLeaf (lstat b (length ?kvs)) ?kvs) t1"]) (simp add: bt_abs_def)
  next
    fix A u B assume p: "kvs = A @ (k, u) # B" "leaf_prev kvs k = length A" "\<And>x. x \<in> fst ` set A \<Longrightarrow> x < k" "\<And>x. x \<in> fst ` set B \<Longrightarrow> k < x" "leaf_find kvs k = Some u"
    show ?thesis
    proof (cases upsert)
      case False
      then show ?thesis using f(1-3) l(1) p(5) abs
        by (intro exI [of _ False] exI [of _ t1]) (simp add: bt_try_insert_def Let_def bt_abs_def)
    next
      case True
      let ?kvs = "A @ (k, v) # B"
      have ok: "leaf_ok b r m hh (lstat b (length ?kvs)) ?kvs"
      proof (rule new_leaf_ok)
        show "sorted_wrt (<) (map fst ?kvs)" by (rule sorted_insert_parts(1)) (use srt p in \<open>auto simp: sorted_wrt_append\<close>)
      qed (use w l(3,8,9) p(1) in auto)
      have i: "insert_leaf b (BLeaf st kvs) k v True = BLeaf (lstat b (length ?kvs)) ?kvs"
        using p(1,2) by (simp add: insert_leaf_def new_leaf_def Let_def)
      have "bt_try_insert b fuel k v upsert t = Some (True, put_leaf k (BLeaf (lstat b (length ?kvs)) ?kvs) t1)"
        using f(1) l(1) p(5) i True by (simp add: bt_try_insert_def Let_def)
      moreover have "map_of ((E1 @ A) @ (k, x) # (B @ E2)) = (map_of ((E1 @ A) @ (B @ E2)))(k \<mapsto> x)" for x
        by (rule map_of_between(2) [OF keys_below_append [OF l(5) p(3)] keys_above_append [OF p(4) l(6)]])
      ultimately show ?thesis using l(7) [OF ok] True p(1) t
        by (intro exI [of _ True] exI [of _ "put_leaf k (BLeaf (lstat b (length ?kvs)) ?kvs) t1"]) (simp add: bt_abs_def)
    qed
  qed
qed

lemma bt_try_remove_abs:
  assumes "wf_blocks b" "wf_btree b t" "rounds_left k t < fuel"
  shows "\<exists>r t'. bt_try_remove b fuel k t = Some (r, t') \<and> wf_btree b t' \<and> (r \<longleftrightarrow> bt_abs t k \<noteq> None) \<and> bt_abs t' = (bt_abs t)(k := None)"
proof -
  obtain t1 where f: "find_and_fix b fuel k t = Some t1" "wf_btree b t1" "bentries t1 = bentries t" "root_mark t1 = 0" "set (path_stats k t1) \<subseteq> {OK}"
    using find_and_fix_ends [OF assms] by blast
  obtain st kvs m hh E1 E2 r where l: "find_no_fix k t1 = BLeaf st kvs" "leaf_ok b r m hh st kvs" "within m k hh"
    "bentries t1 = E1 @ kvs @ E2" "\<And>x. x \<in> fst ` set E1 \<Longrightarrow> x < k" "\<And>x. x \<in> fst ` set E2 \<Longrightarrow> k < x"
    "\<And>st' kvs'. leaf_ok b r m hh st' kvs' \<Longrightarrow> wf_btree b (put_leaf k (BLeaf st' kvs') t1) \<and> bentries (put_leaf k (BLeaf st' kvs') t1) = E1 @ kvs' @ E2"
    "length kvs < leaf_block_size b" "r \<or> leaf_min_size b < length kvs"
    by (rule fixed_leaf [OF assms(1) f(2,4,5)]) blast
  have srt: "sorted_wrt (<) (map fst kvs)" and w: "\<And>x. x \<in> fst ` set kvs \<Longrightarrow> within m x hh" using l(2) by (auto simp: leaf_ok_def)
  have t: "bentries t = E1 @ kvs @ E2" using l(4) f(3) by simp
  have abs: "bt_abs t k = leaf_find kvs k"
    using map_of_between(1) [of E1 k E2 kvs] l(5,6) leaf_find_map_of [OF srt] t by (simp add: bt_abs_def)
  from srt show ?thesis
  proof (rule leaf_parts [where k = k])
    fix A B assume p: "leaf_find kvs k = None"
    then show ?thesis using f(1-3) l(1) abs
      by (intro exI [of _ False] exI [of _ t1]) (simp add: bt_try_remove_def Let_def bt_abs_def fun_upd_idem)
  next
    fix A u B assume p: "kvs = A @ (k, u) # B" "leaf_prev kvs k = length A" "\<And>x. x \<in> fst ` set A \<Longrightarrow> x < k" "\<And>x. x \<in> fst ` set B \<Longrightarrow> k < x" "leaf_find kvs k = Some u"
    let ?kvs = "A @ B"
    have ok: "leaf_ok b r m hh (lstat b (length ?kvs)) ?kvs"
    proof (rule new_leaf_ok)
      show "sorted_wrt (<) (map fst ?kvs)" by (rule sorted_insert_parts(2)) (use srt p in \<open>auto simp: sorted_wrt_append\<close>)
    qed (use w l(8,9) p(1) in auto)
    have i: "remove_leaf b (BLeaf st kvs) k = BLeaf (lstat b (length ?kvs)) ?kvs"
      using p(1,2) by (simp add: remove_leaf_def new_leaf_def Let_def)
    have "bt_try_remove b fuel k t = Some (True, put_leaf k (BLeaf (lstat b (length ?kvs)) ?kvs) t1)"
      using f(1) l(1) p(5) i by (simp add: bt_try_remove_def Let_def)
    moreover have "map_of ((E1 @ A) @ (B @ E2)) = (map_of ((E1 @ A) @ (k, u) # (B @ E2)))(k := None)"
      by (rule map_of_between(3) [OF keys_below_append [OF l(5) p(3)] keys_above_append [OF p(4) l(6)]])
    ultimately show ?thesis using l(7) [OF ok] abs p(1,5) t
      by (intro exI [of _ True] exI [of _ "put_leaf k (BLeaf (lstat b (length ?kvs)) ?kvs) t1"]) (simp add: bt_abs_def)
  qed
qed

section \<open>The operations on a map\<close>

text \<open>The operations with as much fuel as the descent needs.\<close>

definition bt_insert :: "blocks \<Rightarrow> 'k::linorder \<Rightarrow> 'v \<Rightarrow> ('k, 'v) bnode \<Rightarrow> bool \<times> ('k, 'v) bnode" where
  "bt_insert b k v t = the (bt_try_insert b (Suc (rounds_left k t)) k v False t)"

definition bt_remove :: "blocks \<Rightarrow> 'k::linorder \<Rightarrow> ('k, 'v) bnode \<Rightarrow> bool \<times> ('k, 'v) bnode" where
  "bt_remove b k t = the (bt_try_remove b (Suc (rounds_left k t)) k t)"

definition inv_btree :: "blocks \<Rightarrow> ('k::linorder, 'v) bnode \<Rightarrow> bool" where
  "inv_btree b t \<longleftrightarrow> wf_blocks b \<and> wf_btree b t"

interpretation btree: map_adt "inv_btree b" bt_abs "bt_insert b" "bt_remove b" bt_lookup for b
proof
  fix t :: "('k::linorder, 'v) bnode" and k v r t'
  assume inv: "inv_btree b t"
  show "inv_btree b t' \<and> (r \<longleftrightarrow> bt_abs t k = None) \<and> bt_abs t' = (if r then (bt_abs t)(k \<mapsto> v) else bt_abs t)"
    if "bt_insert b k v t = (r, t')"
    using bt_try_insert_abs [of b t k "Suc (rounds_left k t)" v False] inv that by (auto simp: inv_btree_def bt_insert_def)
  show "inv_btree b t' \<and> (r \<longleftrightarrow> bt_abs t k \<noteq> None) \<and> bt_abs t' = (bt_abs t)(k := None)" if "bt_remove b k t = (r, t')"
    using bt_try_remove_abs [of b t k "Suc (rounds_left k t)"] inv that by (auto simp: inv_btree_def bt_remove_def)
  show "bt_lookup k t = bt_abs t k" using bt_lookup_abs inv by (auto simp: inv_btree_def)
qed

lemma empty_btree_wf: "wf_blocks b \<Longrightarrow> inv_btree b (empty_btree b)"
  unfolding inv_btree_def wf_btree_def empty_btree_def new_leaf_def
  by (auto simp: leaf_ok_def intro!: exI [of _ 0])

lemma empty_btree_abs: "bt_abs (empty_btree b) = Map.empty"
  by (simp add: bt_abs_def empty_btree_def new_leaf_def)

section \<open>Range queries\<close>

lemma leaf_prev_takeWhile: "leaf_prev kvs k = length (takeWhile (\<lambda>(k', _). k' < k) kvs)"
  by (induction kvs k rule: leaf_prev.induct) auto

lemma sorted_filter_range:
  fixes kvs :: "('k :: linorder \<times> 'v) list"
  assumes "sorted_wrt (<) (map fst kvs)"
  shows "takeWhile (\<lambda>(k', _). k' < stop) (dropWhile (\<lambda>(k', _). k' < start) kvs) = filter (\<lambda>(k', _). start \<le> k' \<and> k' < stop) kvs"
  using assms
proof (induction kvs)
  case (Cons kv kvs)
  obtain k v where kv: "kv = (k, v)" by fastforce
  have tail: "\<forall>x\<in>set kvs. k < fst x" using Cons.prems kv by auto
  show ?case
  proof (cases "k < start")
    case False
    have "kvs = [] \<or> \<not> fst (hd kvs) < start" using tail False order.strict_trans [of k _ start] by (cases kvs) auto
    then have "dropWhile (\<lambda>(k', _). k' < start) kvs = kvs" by (cases kvs) auto
    then have "takeWhile (\<lambda>(k', _). k' < stop) kvs = filter (\<lambda>(k', _). start \<le> k' \<and> k' < stop) kvs"
      using Cons by simp
    moreover have "filter (\<lambda>(k', _). start \<le> k' \<and> k' < stop) kvs = []" if "\<not> k < stop"
      using tail that by (auto simp: filter_empty_conv)
    ultimately show ?thesis using False kv by (auto simp: not_less)
  qed (use Cons kv in auto)
qed simp

lemma leaf_range:
  assumes "sorted_wrt (<) (map fst kvs)"
  shows "range_internal start stop (BLeaf st kvs) = filter (\<lambda>(k, _). start \<le> k \<and> k < stop) kvs"
proof -
  let ?s = "leaf_prev kvs start" let ?d = "drop ?s kvs"
  have d: "?d = dropWhile (\<lambda>(k', _). k' < start) kvs" by (simp add: leaf_prev_takeWhile dropWhile_eq_drop)
  have le: "?s + leaf_prev ?d stop \<le> length kvs"
    using length_takeWhile_le [of "\<lambda>(k', _). k' < stop" ?d] length_takeWhile_le [of "\<lambda>(k', _). k' < start" kvs]
    by (simp add: leaf_prev_takeWhile)
  have "map (\<lambda>i. kvs ! i) [?s..<?s + leaf_prev ?d stop] = take (leaf_prev ?d stop) ?d"
    using le by (auto intro!: nth_equalityI)
  also have "\<dots> = takeWhile (\<lambda>(k', _). k' < stop) ?d"
    by (subst leaf_prev_takeWhile [of ?d stop]) (rule takeWhile_eq_take [symmetric])
  finally show ?thesis using sorted_filter_range [OF assms] d by (simp add: leaf_prev_from_def Let_def)
qed

text \<open>The bounds of each child of a node.\<close>

lemma kids_nth:
  assumes "kids P lo hi ks cs" "i < length cs"
  shows "P (if i = 0 then lo else Some (ks ! (i - 1))) (if i = length ks then hi else Some (ks ! i)) (cs ! i)"
  using assms
proof (induction ks arbitrary: lo cs i)
  case Nil
  then show ?case by (cases cs; cases "tl cs") auto
next
  case (Cons k ks)
  obtain c cs' where cs: "cs = c # cs'" "P lo (Some k) c" "kids P (Some k) hi ks cs'" using Cons.prems(1) by (cases cs) auto
  show ?case
  proof (cases i)
    case (Suc j)
    then show ?thesis using Cons.IH [OF cs(3), of j] Cons.prems(2) cs(1) by (cases j) auto
  qed (use cs in simp)
qed

lemma num_le_mono: "k \<le> k' \<Longrightarrow> num_le ks k \<le> num_le ks k'"
  unfolding num_le_def by (induction ks) auto

lemma concat_filter_nth:
  assumes "\<And>i. i < length cs \<Longrightarrow> i < s \<or> e < i \<Longrightarrow> f (cs ! i) = []" "s \<le> e" "e < length cs"
  shows "concat (map (\<lambda>i. f (cs ! i)) [s..<Suc e]) = concat (map f cs)"
proof -
  let ?g = "\<lambda>i. f (cs ! i)"
  have "[0..<length cs] = [0..<s] @ [s..<length cs]" "[s..<length cs] = [s..<Suc e] @ [Suc e..<length cs]"
    using upt_add_eq_append [of 0 s "length cs - s"] upt_add_eq_append [of s "Suc e" "length cs - Suc e"] assms(2,3)
    by (simp_all del: upt_Suc add_Suc add: Suc_le_eq [symmetric])
  then have "concat (map ?g [0..<length cs]) = concat (map ?g [0..<s]) @ concat (map ?g [s..<Suc e]) @ concat (map ?g [Suc e..<length cs])"
    by simp
  moreover have "concat (map ?g [0..<s]) = []" "concat (map ?g [Suc e..<length cs]) = []" using assms by auto
  moreover have "map ?g [0..<length cs] = map f cs" by (auto intro!: nth_equalityI)
  ultimately show ?thesis by simp
qed

lemma range_internal_filter:
  assumes "wf_blocks b" "start \<le> stop" "bt_ok b h root lo hi t"
  shows "range_internal start stop t = filter (\<lambda>(k, _). start \<le> k \<and> k < stop) (bentries t)"
  using assms(3)
proof (induction h arbitrary: root lo hi t)
  case 0
  then obtain st kvs where t: "t = BLeaf st kvs" "leaf_ok b root lo hi st kvs" by (cases t) auto
  then show ?case using leaf_range [of kvs start stop st] by (simp add: leaf_ok_def del: range_internal.simps)
next
  case (Suc h)
  then obtain st ks cs where t: "t = BNode st ks cs" and kd: "kids (bt_ok b h False) lo hi ks cs" by (cases t) auto
  let ?P = "\<lambda>(k, _). start \<le> k \<and> k < stop" and ?s = "num_le ks start" and ?e = "num_le ks stop"
  have srt: "sorted_wrt (<) ks" using kids_sorted [OF bt_ok_room [OF assms(1)] kd] by blast
  have len: "length cs = Suc (length ks)" by (rule kids_length [OF kd])
  have se: "?s \<le> ?e" "?e \<le> length ks" using num_le_mono [OF assms(2)] num_le_length by blast+
  have s: "bt_find ks (length cs) start 0 = ?s" by (rule child_index(1) [OF assms(1) kd])
  have e: "bt_find ks (length cs) stop ?s = ?e"
    using bt_find_num_le [OF srt len, of ?s stop] se by (cases ks) (auto simp: num_le_def)
  have child: "range_internal start stop (cs ! i) = filter ?P (bentries (cs ! i))"
    "entries_ok (if i = 0 then lo else Some (ks ! (i - 1))) (if i = length ks then hi else Some (ks ! i)) (bentries (cs ! i))"
    if "i < length cs" for i
    using Suc.IH [OF kids_nth [OF kd that]] bt_ok_entries [OF assms(1) kids_nth [OF kd that]] by blast+
  have outside: "filter ?P (bentries (cs ! i)) = []" if i: "i < length cs" "i < ?s \<or> ?e < i" for i
  proof (cases "i < ?s")
    case True
    then have "i < length ks" "ks ! i \<le> start" using se num_le_nth [OF srt, of i start] by auto
    then show ?thesis using child(2) [OF i(1)] by (force simp: entries_ok_def within_def filter_empty_conv)
  next
    case False
    then have "0 < i" "i - 1 < length ks" "\<not> i - 1 < ?e" using i len by auto
    then have "stop < ks ! (i - 1)" using num_le_nth [OF srt, of "i - 1" stop] by auto
    then show ?thesis using child(2) [OF i(1)] \<open>0 < i\<close> by (force simp: entries_ok_def within_def filter_empty_conv)
  qed
  have "range_internal start stop t = concat (map (\<lambda>i. filter ?P (bentries (cs ! i))) [?s..<Suc ?e])"
    unfolding t range_internal.simps Let_def s e
    by (rule arg_cong [where f = concat], rule map_cong [OF refl]) (use len se child(1) in auto)
  also have "\<dots> = concat (map (\<lambda>c. filter ?P (bentries c)) cs)"
    by (rule concat_filter_nth) (use outside se len in auto)
  finally show ?case by (simp add: t filter_concat comp_def)
qed

section \<open>Copies and the self check\<close>

text \<open>A copy of a well-formed node below the topmost is the same node, so both builds of \<open>fix_root\<close> agree.\<close>

lemma copy_node_or_leaf_same:
  assumes "bt_ok b h False lo hi t"
  shows "fst (copy_node_or_leaf b t) = t"
proof (cases t)
  case (BLeaf st kvs)
  then show ?thesis using assms by (simp add: copy_node_or_leaf_def bis_leaf_def copy_leaf_def new_leaf_def leaf_ok_def)
next
  case (BNode st ks cs)
  with assms obtain h' where "kids (bt_ok b h' False) lo hi ks cs" "st = nstat b (length cs)"
    by (auto simp: bt_ok_node node_sizes_def)
  then show ?thesis using BNode kids_length [of "bt_ok b h' False" lo hi ks cs]
    by (simp add: copy_node_or_leaf_def bis_leaf_def copy_node_def copy_def bsize_def map_nth_upt del: upt_Suc)
qed

lemma fix_root_once_same:
  assumes "wf_btree b t" "bstatus t = isOver \<or> (\<not> bis_leaf t \<and> bsize t = 1)"
  shows "fst (fix_root_once b t) = fst (fix_root b t)"
proof (cases "bstatus t = isOver")
  case False
  obtain h st ks cs where t: "t = BNode st ks cs" "bt_ok b h True None None t" "length cs = 1"
    using assms False by (cases t) (auto simp: wf_btree_def)
  then obtain c where "cs = [c]" by (cases cs; cases "tl cs") auto
  moreover from this t obtain h' where "bt_ok b h' False None None c" by (cases ks) (auto simp: bt_ok_node)
  ultimately show ?thesis using False t copy_node_or_leaf_same [of b h' None None c]
    by (simp add: fix_root_once_def fix_root_def split_beta)
qed (simp add: fix_root_once_def fix_root_def)

lemma height_rec_depth:
  "bt_ok b h root lo hi t \<Longrightarrow> height_rec d t = (d + h) * length (bentries t)"
proof (induction h arbitrary: root lo hi t d)
  case 0
  then show ?case by (cases t) auto
next
  case (Suc h)
  then obtain st ks cs where t: "t = BNode st ks cs" and kd: "kids (bt_ok b h False) lo hi ks cs" by (cases t) auto
  have "height_rec (d + 1) c = (d + Suc h) * length (bentries c)" if c: "c \<in> set cs" for c
    using kids_nth [OF kd] Suc.IH [of False _ _ c "d + 1"] c by (metis add_Suc_right add_Suc_shift in_set_conv_nth plus_1_eq_Suc add.commute)
  then have "map (height_rec (d + 1)) cs = map (\<lambda>c. (d + Suc h) * length (bentries c)) cs" by simp
  then have "sum_list (map (height_rec (d + 1)) cs) = (d + Suc h) * sum_list (map (\<lambda>c. length (bentries c)) cs)"
    by (simp only: sum_list_const_mult)
  then show ?case using t by (simp add: length_concat comp_def)
qed

text \<open>The least and greatest key of a leaf are those of its first and last entry.\<close>

lemma leaf_min_max_sorted:
  assumes "sorted_wrt (<) (map fst kvs)" "kvs \<noteq> []"
  shows "leaf_min_max any kvs = (fst (hd kvs), fst (last kvs))"
proof -
  have "fold (\<lambda>(k, _) (lo, hi). (if k < lo then k else lo, if hi < k then k else hi)) rest (lo, hi) =
      (lo, fst (last ((hi, v) # rest)))"
    if "sorted_wrt (<) (hi # map fst rest)" "lo \<le> hi" for rest :: "('a \<times> 'b) list" and lo hi v
    using that
  proof (induction rest arbitrary: hi v)
    case (Cons kv rest)
    obtain k w where kv: "kv = (k, w)" by fastforce
    then have "hi < k" "\<not> k < lo" using Cons.prems by auto
    moreover have "lo \<le> k" using \<open>hi < k\<close> Cons.prems(2) by simp
    ultimately show ?case using Cons.IH [of k w] Cons.prems(1) kv by auto
  qed simp
  from this [of "fst (hd kvs)" "tl kvs" "fst (hd kvs)" "snd (hd kvs)"] assms show ?thesis
    by (cases kvs) (auto simp: leaf_min_max_def)
qed

lemma bt_ok_nonempty:
  assumes "wf_blocks b" "bt_ok b h False lo hi t"
  shows "bentries t \<noteq> []"
  using assms(2)
proof (induction h arbitrary: lo hi t)
  case 0
  then show ?case using min_sizes [OF assms(1)] by (cases t) (auto simp: leaf_ok_def)
next
  case (Suc h)
  then obtain st ks cs where t: "t = BNode st ks cs" and kd: "kids (bt_ok b h False) lo hi ks cs" by (cases t) auto
  have "0 < length cs" using kids_length [OF kd] by simp
  then show ?case using Suc.IH [OF kids_nth [OF kd, of 0]] t by (auto intro!: bexI [of _ "cs ! 0"])
qed

lemma hd_last_concat:
  assumes "xss \<noteq> []" "\<forall>xs\<in>set xss. xs \<noteq> []"
  shows "hd (concat xss) = hd (hd xss)" "last (concat xss) = last (last xss)"
  using assms by (induction xss) auto

lemma check_recursive_ok:
  assumes "wf_blocks b" "bt_ok b h root lo hi t" "bentries t \<noteq> []"
  shows "check_recursive b any root t = Some (fst (hd (bentries t)), fst (last (bentries t)), length (bentries t))"
  using assms(2,3)
proof (induction h arbitrary: root lo hi t)
  case 0
  then show ?case by (cases t) (auto simp: leaf_ok_def leaf_min_max_sorted)
next
  case (Suc h)
  then obtain st ks cs where t: "t = BNode st ks cs" and kd: "kids (bt_ok b h False) lo hi ks cs"
    and sz: "node_sizes b root st (length cs)" by (cases t) auto
  let ?res = "\<lambda>c. (fst (hd (bentries c)), fst (last (bentries c)), length (bentries c))"
  have len: "length cs = Suc (length ks)" by (rule kids_length [OF kd])
  have ne: "bentries (cs ! i) \<noteq> []" and ent: "entries_ok (if i = 0 then lo else Some (ks ! (i - 1))) (if i = length ks then hi else Some (ks ! i)) (bentries (cs ! i))"
    if i: "i < length cs" for i
    using bt_ok_nonempty [OF assms(1) kids_nth [OF kd i]] bt_ok_entries [OF assms(1) kids_nth [OF kd i]] by blast+
  have "check_recursive b any False c = Some (?res c)" if "c \<in> set cs" for c
    using that ne Suc.IH [OF kids_nth [OF kd]] by (metis in_set_conv_nth)
  then have r: "map (check_recursive b any False) cs = map (\<lambda>c. Some (?res c)) cs" by simp
  have "fst (last (bentries (cs ! i))) < ks ! i \<and> \<not> fst (hd (bentries (cs ! Suc i))) < ks ! i" if i: "i < length ks" for i
  proof -
    have "last (bentries (cs ! i)) \<in> set (bentries (cs ! i))" "hd (bentries (cs ! Suc i)) \<in> set (bentries (cs ! Suc i))"
      using ne i len by simp_all
    moreover have "fst kv < ks ! i" if "kv \<in> set (bentries (cs ! i))" for kv
      using ent [of i] that i len by (auto simp: entries_ok_def within_def)
    moreover have "ks ! i \<le> fst kv" if "kv \<in> set (bentries (cs ! Suc i))" for kv
      using ent [of "Suc i"] that i len by (auto simp: entries_ok_def within_def)
    ultimately show ?thesis by (meson not_less)
  qed
  then have ord: "\<not> (\<exists>i < length cs - 1. \<not> fst (snd (map (the \<circ> (\<lambda>c. Some (?res c))) cs ! i)) < ks ! i
      \<or> fst (map (the \<circ> (\<lambda>c. Some (?res c))) cs ! (i + 1)) < ks ! i)" using len by simp
  have cs: "cs \<noteq> []" "\<forall>c\<in>set cs. bentries c \<noteq> []" using len ne by (auto simp: in_set_conv_nth)
  have big: "\<not> (\<not> root \<and> length cs < node_min_size b)" using sz by (auto simp: node_sizes_def)
  have ends: "hd (concat (map bentries cs)) = hd (bentries (cs ! 0))" "last (concat (map bentries cs)) = last (bentries (cs ! length ks))"
    using hd_last_concat [of "map bentries cs"] cs len by (auto simp: hd_map last_map hd_conv_nth last_conv_nth)
  show ?case unfolding t check_recursive.simps r bentries.simps ends Let_def if_not_P [OF big]
    using ord len by (simp add: length_concat comp_def image_iff)
qed

lemma bt_abs_card:
  assumes "wf_blocks b" "bt_ok b h root lo hi t"
  shows "card (dom (bt_abs t)) = length (bentries t)"
proof -
  have "distinct (map fst (bentries t))"
    using bt_ok_entries [OF assms] by (simp add: entries_ok_def strict_sorted_iff)
  then show ?thesis by (simp add: bt_abs_def dom_map_of_conv_image_fst distinct_card flip: set_map)
qed

section \<open>The properties\<close>

text \<open>C24: Every history of find, insert and remove on the B-tree returns what the abstract map returns and
  leaves a well-formed tree (all leaves at one depth, sizes within the bounds) for the final map.\<close>

theorem btree_refines_map:
  assumes "inv_btree b t" "btree.impl_run b xs t = (rs, t')"
  shows "inv_btree b t' \<and> spec_run xs (bt_abs t) = (rs, bt_abs t')"
  by (rule btree.impl_run_refines [OF assms])

theorem btree_refines_map_witness:
  "fst (btree.impl_run (block_sizes 32 8 8 16) [Insert (3::nat) (30::nat), Insert 7 70, Insert 3 31, Find 3, Remove 3, Find 3]
      (empty_btree (block_sizes 32 8 8 16))) =
    [Inserted True, Inserted True, Inserted False, Found (Some 30), Removed_key True, Found None]"
proof -
  let ?b = "block_sizes 32 8 8 16" and ?xs = "[Insert (3::nat) (30::nat), Insert 7 70, Insert 3 31, Find 3, Remove 3, Find 3]"
  obtain rs t' where r: "btree.impl_run ?b ?xs (empty_btree ?b) = (rs, t')" by (metis prod.exhaust)
  from btree_refines_map [OF empty_btree_wf [OF block_sizes_wf] r]
  show ?thesis unfolding r by (auto simp: empty_btree_abs)
qed

lemma fixed_leaf_room:
  assumes "wf_blocks b" "wf_btree b t" "root_mark t = 0" "set (path_stats k t) \<subseteq> {OK}"
  shows "bsize (find_no_fix k t) < leaf_block_size b"
proof -
  obtain st kvs where "find_no_fix k t = BLeaf st kvs" "length kvs < leaf_block_size b"
    by (rule fixed_leaf [OF assms]) blast
  then show ?thesis by (simp add: bsize_def)
qed

text \<open>C25: The descent \<open>find_and_fix\<close> of the B-tree ends within \<open>rounds_left\<close> rounds. Splitting, joining and
  rebalancing on the way keep the invariant and all entries in their order, and the leaf it
  arrives at has room for one more entry.\<close>

theorem find_and_fix_terminates:
  assumes "wf_blocks b" "wf_btree b t" "rounds_left k t < fuel"
  shows "\<exists>t'. find_and_fix b fuel k t = Some t' \<and> wf_btree b t' \<and> bentries t' = bentries t
    \<and> bsize (find_no_fix k t') < leaf_block_size b"
proof -
  obtain t' where t': "find_and_fix b fuel k t = Some t'" "wf_btree b t'" "bentries t' = bentries t" "root_mark t' = 0" "set (path_stats k t') \<subseteq> {OK}"
    using find_and_fix_ends [OF assms] by blast
  then have "bsize (find_no_fix k t') < leaf_block_size b"
    using fixed_leaf_room [OF assms(1)] by blast
  with t' show ?thesis by blast
qed

text \<open>A full leaf of five entries.\<close>

definition full_leaf :: "(nat, nat) bnode" where
  "full_leaf = BLeaf isOver [(1, 10), (2, 20), (3, 30), (4, 40), (5, 50)]"

definition small_blocks :: blocks where
  "small_blocks = block_sizes 0 0 100 200"

lemma full_leaf_wf: "wf_blocks small_blocks" "wf_btree small_blocks full_leaf"
  unfolding small_blocks_def wf_btree_def
  by (rule block_sizes_wf)
    (auto simp: full_leaf_def leaf_ok_def block_sizes_def block_size_def size_status_def leaf_min_size_def intro!: exI [of _ 0])

theorem find_and_fix_terminates_witness:
  "\<exists>t'. find_and_fix small_blocks 5 6 full_leaf = Some t' \<and> bentries t' = bentries full_leaf \<and> bsize (find_no_fix 6 t') < 5"
proof -
  have "rounds_left 6 full_leaf < 5"
    by (simp add: rounds_left_def total_marks_def total_depths_def root_mark_def full_leaf_def)
  moreover have "leaf_block_size small_blocks = 5"
    by (simp add: small_blocks_def block_sizes_def block_size_def)
  ultimately show ?thesis using find_and_fix_terminates [OF full_leaf_wf, of 6 5] by metis
qed

text \<open>An insertion or upsert into the B-tree returns with enough rounds for the descent. It
  stores the value and reports success unless it is an insertion of a key that is present,
  which changes nothing.\<close>

theorem btree_try_insert_functional:
  assumes "wf_blocks b" "wf_btree b t" "rounds_left k t < fuel"
  shows "\<exists>r t'. bt_try_insert b fuel k v upsert t = Some (r, t') \<and> wf_btree b t' \<and> (r \<longleftrightarrow> upsert \<or> bt_abs t k = None)
    \<and> bt_abs t' = (if r then (bt_abs t)(k \<mapsto> v) else bt_abs t)"
  by (rule bt_try_insert_abs [OF assms])

theorem btree_try_insert_functional_witness:
  "\<exists>t'. bt_try_insert small_blocks 5 3 33 True full_leaf = Some (True, t') \<and> bt_abs t' 3 = Some 33"
proof -
  have "rounds_left 3 full_leaf < 5"
    by (simp add: rounds_left_def total_marks_def total_depths_def root_mark_def full_leaf_def)
  from btree_try_insert_functional [OF full_leaf_wf this, of 33 True] show ?thesis by auto
qed

text \<open>C26: A range query on the B-tree, which skips the subtrees outside the range, returns the same entries
  as filtering all entries of the tree, in key order.\<close>

theorem btree_range_filter:
  assumes "wf_blocks b" "wf_btree b t" "start \<le> stop"
  shows "range_internal start stop t = filter (\<lambda>(k, _). start \<le> k \<and> k < stop) (bentries t)"
  using assms(2) range_internal_filter [OF assms(1,3)] unfolding wf_btree_def by blast

theorem btree_range_filter_witness: "range_internal 2 4 full_leaf = [(2, 20), (3, 30)]"
  using btree_range_filter [OF full_leaf_wf, of 2 4] by (simp add: full_leaf_def)

text \<open>C27: The self check of a B-tree never aborts on a well-formed tree with an entry and returns the
  number of keys of the map; \<open>total_height\<close> is that number times the height of the tree, since all
  entries are at one depth.\<close>

theorem btree_check_passes:
  assumes "wf_blocks b" "bt_ok b h True None None t" "bt_abs t \<noteq> Map.empty"
  shows "bt_check b any t = Some (card (dom (bt_abs t))) \<and> total_height t = (h + 1) * card (dom (bt_abs t))"
proof -
  have "bentries t \<noteq> []" using assms(3) by (auto simp: bt_abs_def)
  from check_recursive_ok [OF assms(1,2) this] height_rec_depth [OF assms(2)] show ?thesis
    by (simp add: bt_check_def total_height_def bt_abs_card [OF assms(1,2)])
qed

theorem btree_check_passes_witness:
  "bt_check small_blocks 0 full_leaf = Some 5 \<and> total_height full_leaf = 5"
proof -
  have "bt_abs full_leaf = [1 \<mapsto> 10, 2 \<mapsto> 20, 3 \<mapsto> 30, 4 \<mapsto> 40, 5 \<mapsto> 50]"
    by (auto simp: bt_abs_def full_leaf_def fun_eq_iff)
  moreover from this have "bt_abs full_leaf \<noteq> Map.empty" by simp
  moreover have "bt_ok small_blocks 0 True None None full_leaf"
    using full_leaf_wf(2) by (auto simp: wf_btree_def full_leaf_def)
  ultimately show ?thesis using btree_check_passes [OF full_leaf_wf(1), of 0 full_leaf 0] by simp
qed

end
