(* ===== verification/List_Onelock.thy ===== *)
theory List_Onelock
  imports List_Map
begin

text \<open>
  The list that takes one lock for a removal, \<^verbatim>\<open>structures/list_onelock/set.h\<close>. Its nodes are
  those of the other list, so the store and the invariant of \<open>List_Map\<close> are used again. A
  removal marks the node before it waits for the holder of the node's lock; the holder may
  have passed its own validation before the mark and change the node's next pointer after it.
  The theory shows that such a change is not lost, and that the structure is a map.
\<close>

section \<open>Operations\<close>

fun one_find_loop :: "('k::linorder, 'v) lenv \<Rightarrow> 'k \<Rightarrow> nat \<Rightarrow> addr \<Rightarrow> addr \<Rightarrow> addr \<Rightarrow> ('k, 'v) lmap
    \<Rightarrow> ((addr \<times> addr \<times> addr) \<times> ('k, 'v) lmap) option" where
  "one_find_loop env k 0 prev cur nxt s = None"
| "one_find_loop env k (Suc fuel) prev cur nxt s =
     (let nxt_nxt = next_node (node s nxt)
      in if is_end (node s nxt) \<or> \<not> key (node s nxt) < k then Some ((prev, cur, nxt), s)
         else one_find_loop env k fuel cur nxt nxt_nxt (env fuel s))"

definition one_find_location :: "('k::linorder, 'v) lenv \<Rightarrow> nat \<Rightarrow> 'k \<Rightarrow> ('k, 'v) lmap
    \<Rightarrow> ((addr \<times> addr \<times> addr) \<times> ('k, 'v) lmap) option" where
  "one_find_location env fuel k s =
     (let cur = root s; nxt = next_node (node s cur) in one_find_loop env k fuel nullptr cur nxt (env fuel s))"

text \<open>
  The attempts of the loops in \<open>insert\<close> and \<open>remove\<close>, \<open>None\<close> when the code tries again. What other
  threads do until the lock of \<open>cur\<close> is taken, the waiting on \<open>prev\<close> and \<open>nxt\<close> included, is \<open>e\<close>.
\<close>

definition one_insert_attempt :: "('k::linorder, 'v) lenv \<Rightarrow> (('k, 'v) lmap \<Rightarrow> ('k, 'v) lmap) \<Rightarrow> bool
    \<Rightarrow> (('k, 'v) lmap \<Rightarrow> addr) \<Rightarrow> nat \<Rightarrow> 'k \<Rightarrow> 'v \<Rightarrow> ('k, 'v) lmap \<Rightarrow> bool option \<times> ('k, 'v) lmap" where
  "one_insert_attempt env e locked alloc fuel k v s =
     (case one_find_location env fuel k s of
        None \<Rightarrow> (None, s)
      | Some ((prev, cur, nxt), s1) \<Rightarrow>
          if \<not> is_end (node s1 nxt) \<and> \<not> k < key (node s1 nxt) then (Some False, s1)
          else let s2 = e s1
               in if \<not> locked \<or> removed (node s2 cur) \<or> next_node (node s2 cur) \<noteq> nxt then (None, s2)
                  else let (new_node, s3) = new_lnode alloc k v nxt s2
                       in (Some True, set_next_node cur new_node s3))"

text \<open>\<open>nxt_locked\<close> is the answer of \<open>nxt->lck.is_locked()\<close>, \<open>w\<close> what happens while the code waits for the lock of \<open>nxt\<close>.\<close>

definition one_remove_attempt :: "('k::linorder, 'v) lenv \<Rightarrow> (('k, 'v) lmap \<Rightarrow> ('k, 'v) lmap) \<Rightarrow> bool \<Rightarrow> bool
    \<Rightarrow> (addr \<Rightarrow> ('k, 'v) lmap \<Rightarrow> ('k, 'v) lmap) \<Rightarrow> nat \<Rightarrow> 'k \<Rightarrow> ('k, 'v) lmap \<Rightarrow> bool option \<times> ('k, 'v) lmap" where
  "one_remove_attempt env e locked nxt_locked w fuel k s =
     (case one_find_location env fuel k s of
        None \<Rightarrow> (None, s)
      | Some ((prev, cur, nxt), s1) \<Rightarrow>
          if is_end (node s1 nxt) \<or> k < key (node s1 nxt) then (Some False, s1)
          else let s2 = e s1
               in if \<not> locked \<or> removed (node s2 cur) \<or> next_node (node s2 cur) \<noteq> nxt \<or> nxt_locked then (None, s2)
                  else let s3 = w nxt (set_removed nxt s2);
                           a = next_node (node s3 nxt)
                       in (Some True, lretire nxt (set_next_node cur a s3)))"

text \<open>The holder of the lock of \<open>p\<close>, past its validation: nothing, the insertion of a node at \<open>q\<close> or the removal of the next node.\<close>

datatype ('k, 'v) pending = Holds_nothing | Holds_insert addr 'k 'v | Holds_remove

fun finish_pending :: "('k, 'v) pending \<Rightarrow> addr \<Rightarrow> ('k, 'v) lmap \<Rightarrow> ('k, 'v) lmap" where
  "finish_pending Holds_nothing p s = s"
| "finish_pending (Holds_insert q k v) p s =
     (let (new_node, s1) = new_lnode (\<lambda>_. q) k v (next_node (node s p)) s in set_next_node p new_node s1)"
| "finish_pending Holds_remove p s =
     (let x = next_node (node s p)
      in lretire x (set_next_node p (next_node (node s x)) (set_removed x s)))"

definition next_delay :: "nat \<Rightarrow> nat" where
  "next_delay d = min (2 * d) 2000"

definition one_insert :: "(nat \<Rightarrow> ('k::linorder, 'v) lenv) \<Rightarrow> (nat \<Rightarrow> ('k, 'v) lmap \<Rightarrow> ('k, 'v) lmap) \<Rightarrow> (nat \<Rightarrow> bool)
    \<Rightarrow> (('k, 'v) lmap \<Rightarrow> addr) \<Rightarrow> nat \<Rightarrow> nat \<Rightarrow> 'k \<Rightarrow> 'v \<Rightarrow> ('k, 'v) lmap \<Rightarrow> (bool \<times> ('k, 'v) lmap) option" where
  "one_insert env e locked alloc fuel rounds k v s =
     try_loop (\<lambda>i. one_insert_attempt (env i) (e i) (locked i) alloc fuel k v) rounds s"

definition one_remove :: "(nat \<Rightarrow> ('k::linorder, 'v) lenv) \<Rightarrow> (nat \<Rightarrow> ('k, 'v) lmap \<Rightarrow> ('k, 'v) lmap) \<Rightarrow> (nat \<Rightarrow> bool) \<Rightarrow> (nat \<Rightarrow> bool)
    \<Rightarrow> (nat \<Rightarrow> addr \<Rightarrow> ('k, 'v) lmap \<Rightarrow> ('k, 'v) lmap) \<Rightarrow> nat \<Rightarrow> nat \<Rightarrow> 'k \<Rightarrow> ('k, 'v) lmap \<Rightarrow> (bool \<times> ('k, 'v) lmap) option" where
  "one_remove env e locked nxt_locked w fuel rounds k s =
     try_loop (\<lambda>i. one_remove_attempt (env i) (e i) (locked i) (nxt_locked i) (w i) fuel k) rounds s"

definition one_find :: "('k::linorder, 'v) lenv \<Rightarrow> nat \<Rightarrow> 'k \<Rightarrow> ('k, 'v) lmap \<Rightarrow> 'v option option" where
  "one_find env fuel k s =
     map_option (\<lambda>((prev, cur, nxt), s1). if \<not> is_end (node s1 nxt) \<and> \<not> k < key (node s1 nxt)
                                           then Some (val (node s1 nxt)) else None)
       (one_find_location env fuel k s)"

text \<open>The loops of \<open>check\<close> and \<open>retire\<close> are those of the other list, and so is the empty list.\<close>

definition one_check :: "nat \<Rightarrow> ('k::linorder, 'v) lmap \<Rightarrow> int option" where
  "one_check fuel s =
     (let ptr = next_node (node s (root s))
      in if is_end (node s ptr) then Some 0
         else check_loop fuel (key (node s ptr)) (next_node (node s ptr)) 1 s)"

fun one_retire :: "nat \<Rightarrow> addr \<Rightarrow> ('k, 'v) lmap \<Rightarrow> ('k, 'v) lmap option" where
  "one_retire 0 p s = None"
| "one_retire (Suc fuel) p s =
     (if \<not> is_end (node s p) then map_option (lretire p) (one_retire fuel (next_node (node s p)) s)
      else Some (lretire p s))"

definition one_empty :: "addr \<Rightarrow> addr \<Rightarrow> 'k \<Rightarrow> 'v \<Rightarrow> ('k, 'v) lmap" where
  "one_empty tail head k v =
     \<lparr>node = (\<lambda>p. if p = head then \<lparr>next_node = tail, key = k, val = v, is_end = False, removed = False\<rparr>
                  else \<lparr>next_node = nullptr, key = k, val = v, is_end = True, removed = False\<rparr>),
      nodes = {head, tail}, root = head, lretired = []\<rparr>"

section \<open>The search and the attempts of the other list\<close>

definition drop_prev :: "(addr \<times> addr \<times> addr) \<times> ('k, 'v) lmap \<Rightarrow> (addr \<times> addr) \<times> ('k, 'v) lmap" where
  "drop_prev x = (snd (fst x), snd x)"

lemma one_find_loop_search:
  "find_loop env k fuel cur nxt s = map_option drop_prev (one_find_loop env k fuel prev cur nxt s)"
  by (induction fuel arbitrary: prev cur nxt s) (auto simp: Let_def drop_prev_def)

lemma one_find_location_search:
  "find_location env fuel k s = map_option drop_prev (one_find_location env fuel k s)"
  unfolding one_find_location_def find_location_def Let_def by (rule one_find_loop_search)

lemma one_find_location_Some:
  "one_find_location env fuel k s = Some ((prev, cur, nxt), s1) \<Longrightarrow> find_location env fuel k s = Some ((cur, nxt), s1)"
  by (simp add: one_find_location_search drop_prev_def)

lemma one_find_plain: "one_find env fuel k s = find_plain env fuel k s"
  unfolding one_find_def find_plain_def one_find_location_search
  by (cases "one_find_location env fuel k s") (auto simp: drop_prev_def)

lemma one_insert_as_list:
  assumes "one_insert_attempt env e locked alloc fuel k v s = (Some True, s')"
  shows "try_insert env e (\<lambda>_. locked) alloc fuel k v s = (Some True, s')"
  using assms unfolding one_insert_attempt_def try_insert_def one_find_location_search
  by (auto simp: drop_prev_def still_there_def Let_def split: option.splits if_splits prod.splits)

lemma one_remove_as_list:
  assumes "one_remove_attempt env e locked nxt_locked (\<lambda>_ s. s) fuel k s = (Some True, s')"
  shows "try_remove env e (\<lambda>_. locked) fuel k s = (Some True, s')"
  using assms unfolding one_remove_attempt_def try_remove_def one_find_location_search
  by (auto simp: drop_prev_def still_there_def set_removed_def Let_def split: option.splits if_splits prod.splits)

text \<open>The delay between two rounds stays between its first and its largest value.\<close>

lemma delay_bounds: "200 \<le> (next_delay ^^ n) 200 \<and> (next_delay ^^ n) 200 \<le> 2000"
  by (induction n) (auto simp: next_delay_def)

section \<open>A removal that waits for the holder of the node\<close>

text \<open>What the holder's validation established before the node was marked.\<close>

fun pending_valid :: "('k::linorder, 'v) pending \<Rightarrow> addr \<Rightarrow> ('k, 'v) lmap \<Rightarrow> bool" where
  "pending_valid Holds_nothing p s \<longleftrightarrow> True"
| "pending_valid (Holds_insert q k v) p s \<longleftrightarrow> q \<notin> nodes s \<and> key (node s p) < k \<and>
     (is_end (node s (next_node (node s p))) \<or> k < key (node s (next_node (node s p))))"
| "pending_valid Holds_remove p s \<longleftrightarrow> \<not> is_end (node s (next_node (node s p)))"

fun pending_effect :: "('k, 'v) pending \<Rightarrow> addr \<Rightarrow> ('k, 'v) lmap \<Rightarrow> ('k \<rightharpoonup> 'v) \<Rightarrow> 'k \<rightharpoonup> 'v" where
  "pending_effect Holds_nothing p s m = m"
| "pending_effect (Holds_insert q k v) p s m = m(k \<mapsto> v)"
| "pending_effect Holds_remove p s m = m(key (node s (next_node (node s p))) := None)"

lemma next_on_list:
  assumes "lrep s (as @ x # bs) t"
  shows "next_node (node s x) = hd (bs @ [t])"
proof -
  have "linked s ((root s # as) @ [x] @ hd (bs @ [t]) # tl (bs @ [t]))" using assms by (simp add: lrep_def)
  then show ?thesis unfolding linked_join by simp
qed

lemma finish_pending_rep:
  assumes rep: "lrep s (as @ x # bs) t" and v: "pending_valid pend x s"
  obtains bs' where "lrep (finish_pending pend x s) (as @ x # bs') t"
    "lmap_abs (finish_pending pend x s) = pending_effect pend x s (lmap_abs s)"
    "key (node (finish_pending pend x s) x) = key (node s x)" "root (finish_pending pend x s) = root s"
proof (cases pend)
  case Holds_nothing
  then show thesis using rep that by simp
next
  case (Holds_insert q k w)
  let ?s = "finish_pending pend x s"
  have nx: "next_node (node s x) = hd (bs @ [t])" by (rule next_on_list [OF rep])
  obtain p u where new: "new_lnode (\<lambda>_. q) k w (hd (bs @ [t])) s = (p, u)" by fastforce
  have p: "p = q" "q \<notin> nodes s" using new_lnode_simps(1) [OF new] v Holds_insert by auto
  have s': "?s = set_next_node x p u" using Holds_insert new nx by simp
  have kx: "key (node s x) < k" "is_end (node s (hd (bs @ [t]))) \<or> k < key (node s (hd (bs @ [t])))" using v Holds_insert nx by auto
  have so: "sorted_wrt (<) (map (\<lambda>p. key (node s p)) (as @ x # bs))" and ends: "\<forall>b\<in>set bs. \<not> is_end (node s b)"
    using rep by (auto simp: lrep_def)
  have below: "\<forall>a\<in>set (as @ [x]). key (node s a) < k" using so kx(1) by (auto simp: sorted_wrt_append)
  have above: "\<forall>b\<in>set bs. k < key (node s b)"
  proof (cases bs)
    case (Cons y ys)
    then have "k < key (node s y)" using kx(2) ends by auto
    then show ?thesis using so Cons by (auto simp: sorted_wrt_append)
  qed simp
  have "lrep ?s ((as @ [x]) @ p # bs) t" "lmap_abs ?s = (lmap_abs s)(k \<mapsto> w)"
    by (rule insert_lrep [OF rep _ _ refl new _ below above s']; use p in simp)+
  moreover have "x \<noteq> q" using p rep by (auto simp: lrep_def)
  then have "key (node ?s x) = key (node s x)" "root ?s = root s"
    using new_lnode_simps [OF new] by (simp_all add: s' set_next_node_def p)
  ultimately show thesis using that [of "p # bs"] Holds_insert by simp
next
  case Holds_remove
  let ?s = "finish_pending pend x s" and ?y = "next_node (node s x)"
  have nx: "?y = hd (bs @ [t])" by (rule next_on_list [OF rep])
  then obtain ys where bs: "bs = ?y # ys" using v Holds_remove rep by (cases bs) (auto simp: lrep_def)
  have "lrep ?s ((as @ [x]) @ ys) t" "lmap_abs ?s = (lmap_abs s)(key (node s ?y) := None)"
    by (rule remove_lrep [OF rep, of "as @ [x]" ?y ys x]; use bs Holds_remove in \<open>simp add: Let_def\<close>)+
  moreover have "key (node ?s x) = key (node s x)" "root ?s = root s"
    using Holds_remove by (simp_all add: Let_def lretire_def set_next_node_def set_removed_def)
  ultimately show thesis using that [of ys] Holds_remove by simp
qed

text \<open>The mark is set before the holder's change, but the result is as if it were set afterwards.\<close>

lemma mark_commutes:
  assumes "lrep s (as @ x # bs) t" "pending_valid pend x s"
  shows "finish_pending pend x (set_removed x s) = set_removed x (finish_pending pend x s)"
proof (cases pend)
  case (Holds_insert q k w)
  then have "x \<noteq> q" using assms by (auto simp: lrep_def)
  then show ?thesis using Holds_insert
    by (auto simp: new_lnode_def set_removed_def set_next_node_def Let_def fun_eq_iff)
next
  case Holds_remove
  have "next_node (node s x) \<noteq> x"
    using assms(1) next_on_list [OF assms(1)] by (cases bs) (auto simp: lrep_def)
  then show ?thesis using Holds_remove
    by (auto simp: lretire_def set_removed_def set_next_node_def Let_def fun_eq_iff)
qed simp

lemma one_remove_pending:
  assumes "lst.rely env" "lst.rely (\<lambda>_. e)" "wf_lmap s" "one_find_location env fuel k s = Some ((prev, cur, nxt), s1)"
    and "pending_valid pend nxt (e s1)"
    and "one_remove_attempt env e locked nxt_locked (finish_pending pend) fuel k s = (Some True, s')"
  shows "wf_lmap s' \<and> lmap_abs (e s1) k \<noteq> None \<and> lmap_abs s' = (pending_effect pend nxt (e s1) (lmap_abs (e s1)))(k := None)"
proof -
  let ?s = "e s1"
  note f = one_find_location_Some [OF assms(4)]
  have st: "still_there cur nxt ?s" and there: "\<not> is_end (node s1 nxt)" "\<not> k < key (node s1 nxt)"
    and s': "s' = lretire nxt (set_next_node cur (next_node (node (finish_pending pend nxt (set_removed nxt ?s)) nxt))
      (finish_pending pend nxt (set_removed nxt ?s)))"
    using assms(4,6) by (auto simp: one_remove_attempt_def still_there_def Let_def split: if_splits)
  from validated_location [OF assms(1-3) f st] obtain ns t as bs where
    rep: "lrep ?s ns t" and ns: "ns = as @ bs" and cur: "cur = last (root ?s # as)"
    and nxt: "nxt = hd (bs @ [t])" and l: "left_ok k cur ?s"
    and n: "is_end (node ?s nxt) \<or> \<not> key (node ?s nxt) < k"
    and k1: "key (node s1 nxt) = key (node ?s nxt)" "is_end (node s1 nxt) = is_end (node ?s nxt)"
    by metis
  note look = lookup_between [OF rep ns l [unfolded cur] nxt n]
  obtain bs' where bs: "bs = nxt # bs'" using there(1) k1(2) nxt rep by (cases bs) (auto simp: lrep_def)
  have key: "key (node ?s nxt) = k" using there k1 n by auto
  have rep1: "lrep ?s (as @ nxt # bs') t" using rep ns bs by simp
  from finish_pending_rep [OF rep1 assms(5)] obtain bs'' where fin: "lrep (finish_pending pend nxt ?s) (as @ nxt # bs'') t"
    "lmap_abs (finish_pending pend nxt ?s) = pending_effect pend nxt ?s (lmap_abs ?s)"
    "key (node (finish_pending pend nxt ?s) nxt) = k" "root (finish_pending pend nxt ?s) = root ?s"
    using key by metis
  let ?f = "finish_pending pend nxt ?s"
  have s'': "s' = lretire nxt (set_next_node cur (next_node (node ?f nxt)) (set_removed nxt ?f))"
    unfolding s' mark_commutes [OF rep1 assms(5)] by (simp add: set_removed_def)
  have "lrep s' (as @ bs'') t" "lmap_abs s' = (lmap_abs ?f)(k := None)"
    using remove_lrep [OF fin(1) refl _ s''] cur fin(3,4) by auto
  with fin(2) look there k1 show ?thesis by (auto simp: wf_lmap_def)
qed

section \<open>One thread alone\<close>

definition one_list_insert :: "'k::linorder \<Rightarrow> 'v \<Rightarrow> ('k, 'v) lmap \<Rightarrow> bool \<times> ('k, 'v) lmap" where
  "one_list_insert k v s = the (one_insert (\<lambda>_. idle) (\<lambda>_ s. s) (\<lambda>_. True) fresh_addr (card (nodes s)) 1 k v s)"

definition one_list_remove :: "'k::linorder \<Rightarrow> ('k, 'v) lmap \<Rightarrow> bool \<times> ('k, 'v) lmap" where
  "one_list_remove k s = the (one_remove (\<lambda>_. idle) (\<lambda>_ s. s) (\<lambda>_. True) (\<lambda>_. False) (\<lambda>_ _ s. s) (card (nodes s)) 1 k s)"

definition one_list_find :: "'k::linorder \<Rightarrow> ('k, 'v) lmap \<Rightarrow> 'v option" where
  "one_list_find k s = (case one_find idle (card (nodes s)) k s of Some r \<Rightarrow> r | None \<Rightarrow> None)"

lemma one_search_idle:
  assumes "wf_lmap s"
  obtains prev cur nxt where "one_find_location idle (card (nodes s)) k s = Some ((prev, cur, nxt), s)"
    "find_location idle (card (nodes s)) k s = Some ((cur, nxt), s)" "still_there cur nxt s"
proof -
  obtain cur nxt where f: "find_location idle (card (nodes s)) k s = Some ((cur, nxt), s)" "still_there cur nxt s"
    by (rule find_location_idle [OF assms])
  then show thesis using that by (auto simp: one_find_location_search drop_prev_def)
qed

lemma one_list_insert_eq:
  assumes "wf_lmap s"
  shows "one_list_insert k v s = list_insert k v s"
proof -
  obtain prev cur nxt where "one_find_location idle (card (nodes s)) k s = Some ((prev, cur, nxt), s)"
    "find_location idle (card (nodes s)) k s = Some ((cur, nxt), s)" "still_there cur nxt s"
    by (rule one_search_idle [OF assms])
  then show ?thesis
    by (simp add: one_list_insert_def one_insert_def one_insert_attempt_def list_insert_def insert_map_def try_insert_def
        still_there_def Let_def split_beta)
qed

lemma one_list_remove_eq:
  assumes "wf_lmap s"
  shows "one_list_remove k s = list_remove k s"
proof -
  obtain prev cur nxt where "one_find_location idle (card (nodes s)) k s = Some ((prev, cur, nxt), s)"
    "find_location idle (card (nodes s)) k s = Some ((cur, nxt), s)" "still_there cur nxt s"
    by (rule one_search_idle [OF assms])
  then show ?thesis
    by (simp add: one_list_remove_def one_remove_def one_remove_attempt_def list_remove_def remove_map_def try_remove_def set_removed_def
        still_there_def Let_def split_beta)
qed

interpretation one_list: map_adt wf_lmap lmap_abs one_list_insert one_list_remove one_list_find
proof
  fix s :: "('a::linorder, 'b) lmap" and k v b s'
  assume wf: "wf_lmap s"
  show "one_list_find k s = lmap_abs s k"
    using list_find_abs [OF wf] by (simp add: one_list_find_def one_find_plain list_find_def)
  show "wf_lmap s' \<and> (b \<longleftrightarrow> lmap_abs s k = None) \<and> lmap_abs s' = (if b then (lmap_abs s)(k \<mapsto> v) else lmap_abs s)"
    if "one_list_insert k v s = (b, s')"
    using list_map.insert_abs [OF wf] that unfolding one_list_insert_eq [OF wf] .
  show "wf_lmap s' \<and> (b \<longleftrightarrow> lmap_abs s k \<noteq> None) \<and> lmap_abs s' = (lmap_abs s)(k := None)"
    if "one_list_remove k s = (b, s')"
    using list_map.remove_abs [OF wf] that unfolding one_list_remove_eq [OF wf] .
qed

lemma one_retire_eq: "one_retire fuel p s = retire_recursive fuel p s"
  by (induction fuel arbitrary: p) auto

lemma one_empty_eq: "one_empty t h k v = empty_lmap h t k v"
  by (simp add: one_empty_def empty_lmap_def)

lemma one_check_eq: "one_check fuel s = check fuel s"
  by (simp add: one_check_def check_def)

section \<open>The properties\<close>

text \<open>C28: A removal from the one-lock list marks the node before it waits for the holder of the node's
  lock. Whatever update after the node the holder has validated and completes meanwhile is
  kept: the list ends up representing the map with the holder's update and without the
  removed key.\<close>

theorem onelock_remove_keeps_update:
  assumes "lst.rely env" "lst.rely (\<lambda>_. e)" "wf_lmap s" "one_find_location env fuel k s = Some ((prev, cur, nxt), s1)"
    and "pending_valid pend nxt (e s1)"
    and "one_remove_attempt env e locked nxt_locked (finish_pending pend) fuel k s = (Some True, s')"
  shows "wf_lmap s' \<and> lmap_abs (e s1) k \<noteq> None \<and> lmap_abs s' = (pending_effect pend nxt (e s1) (lmap_abs (e s1)))(k := None)"
  by (rule one_remove_pending [OF assms])

lemmas one_eval = one_find_location_def one_remove_attempt_def one_entry_def list_eval

theorem onelock_remove_keeps_update_witness:
  "lmap_abs (snd (one_remove_attempt idle (\<lambda>s. s) True False (finish_pending (Holds_insert 9 7 70)) 2 5 one_entry)) = [7 \<mapsto> 70]"
proof -
  let ?w = "finish_pending (Holds_insert 9 7 70)"
  obtain prev cur nxt where f: "one_find_location idle 2 5 one_entry = Some ((prev, cur, nxt), one_entry)" and v: "pending_valid (Holds_insert 9 7 (70::nat)) nxt one_entry"
    by (simp add: one_eval)
  obtain s' where r: "one_remove_attempt idle (\<lambda>s. s) True False ?w 2 5 one_entry = (Some True, s')"
    by (simp add: one_eval)
  have "lmap_abs one_entry = [5 \<mapsto> 50]"
    by (simp add: one_entry_def lmap_abs_def list_eval entry_of_def card_insert_if)
  with onelock_remove_keeps_update [where e = "\<lambda>s. s", OF lst.rely_idle lst.rely_idle wf_one_entry f v r] r show ?thesis by auto
qed

text \<open>Without interference every history of find, insert and remove on the one-lock list returns
  what the abstract map returns.\<close>

theorem onelock_refines_map:
  assumes "wf_lmap s" "one_list.impl_run xs s = (rs, s')"
  shows "wf_lmap s' \<and> spec_run xs (lmap_abs s) = (rs, lmap_abs s')"
  by (rule one_list.impl_run_refines [OF assms])

theorem onelock_refines_map_witness:
  "fst (one_list.impl_run [Insert (3::nat) (30::nat), Find 3, Insert 3 31, Remove 3, Find 3] (one_empty 2 1 0 0)) =
     [Inserted True, Found (Some 30), Inserted False, Removed_key True, Found None]"
proof -
  let ?s = "one_empty 2 1 (0::nat) (0::nat)" and ?xs = "[Insert (3::nat) (30::nat), Find 3, Insert 3 31, Remove 3, Find 3]"
  have wf: "wf_lmap ?s" by (simp add: one_empty_eq wf_empty_lmap)
  obtain rs s' where r: "one_list.impl_run ?xs ?s = (rs, s')" by (metis prod.exhaust)
  from onelock_refines_map [OF wf r] have "spec_run ?xs (lmap_abs ?s) = (rs, lmap_abs s')" by simp
  then show ?thesis unfolding r by (auto simp: one_empty_eq empty_lmap_abs)
qed

end
