(* ===== verification/DList_Map.thy ===== *)
theory DList_Map
  imports List_Map
begin

text \<open>
  The ordered map on a doubly linked list, \<^verbatim>\<open>structures/dlist/ordered_map.h\<close>. A search follows the
  next pointers and takes the predecessor from the prev pointer of the node it stops at; the
  prev pointers are written after the next pointers, so other threads can see old ones. The
  list of next pointers is related to the singly linked list of \<open>List_Map\<close> by a projection
  that forgets the prev pointers, and the invariant and the lemmas of that theory are used
  through it. The theorems say what an attempt does under interference, that the prev
  pointers are right when one thread runs alone, and that the structure is then a map.
\<close>

section \<open>Nodes\<close>

record ('k, 'v) dnode =
  dnext :: addr
  dprev :: addr
  dkey :: 'k
  dval :: 'v
  dis_end :: bool
  dremoved :: bool

record ('k, 'v) dmap =
  dnode :: "addr \<Rightarrow> ('k, 'v) dnode"
  dnodes :: "addr set"
  droot :: addr
  dretired :: "addr list"

type_synonym ('k, 'v) denv = "nat \<Rightarrow> ('k, 'v) dmap \<Rightarrow> ('k, 'v) dmap"

definition set_dnext :: "addr \<Rightarrow> addr \<Rightarrow> ('k, 'v) dmap \<Rightarrow> ('k, 'v) dmap" where
  "set_dnext p q s = s\<lparr>dnode := (dnode s)(p := (dnode s p)\<lparr>dnext := q\<rparr>)\<rparr>"

definition set_dprev :: "addr \<Rightarrow> addr \<Rightarrow> ('k, 'v) dmap \<Rightarrow> ('k, 'v) dmap" where
  "set_dprev p q s = s\<lparr>dnode := (dnode s)(p := (dnode s p)\<lparr>dprev := q\<rparr>)\<rparr>"

definition set_dremoved :: "addr \<Rightarrow> ('k, 'v) dmap \<Rightarrow> ('k, 'v) dmap" where
  "set_dremoved p s = s\<lparr>dnode := (dnode s)(p := (dnode s p)\<lparr>dremoved := True\<rparr>)\<rparr>"

definition new_dnode :: "(('k, 'v) dmap \<Rightarrow> addr) \<Rightarrow> 'k \<Rightarrow> 'v \<Rightarrow> addr \<Rightarrow> addr \<Rightarrow> ('k, 'v) dmap \<Rightarrow> addr \<times> ('k, 'v) dmap" where
  "new_dnode alloc k v nxt prv s =
     (let p = alloc s
      in (p, s\<lparr>dnode := (dnode s)(p := \<lparr>dnext = nxt, dprev = prv, dkey = k, dval = v, dis_end = False, dremoved = False\<rparr>),
               dnodes := insert p (dnodes s)\<rparr>))"

definition dretire :: "addr \<Rightarrow> ('k, 'v) dmap \<Rightarrow> ('k, 'v) dmap" where
  "dretire p s = s\<lparr>dretired := p # dretired s\<rparr>"

section \<open>Operations\<close>

fun dfind_loop :: "('k::linorder, 'v) denv \<Rightarrow> 'k \<Rightarrow> nat \<Rightarrow> addr \<Rightarrow> ('k, 'v) dmap \<Rightarrow> (addr \<times> ('k, 'v) dmap) option" where
  "dfind_loop env k 0 nxt s = None"
| "dfind_loop env k (Suc fuel) nxt s =
     (let next_next = dnext (dnode s nxt)
      in if dis_end (dnode s nxt) \<or> \<not> dkey (dnode s nxt) < k then Some (nxt, s)
         else dfind_loop env k fuel next_next (env fuel s))"

definition dfind_location :: "('k::linorder, 'v) denv \<Rightarrow> nat \<Rightarrow> 'k \<Rightarrow> ('k, 'v) dmap \<Rightarrow> (addr \<times> ('k, 'v) dmap) option" where
  "dfind_location env fuel k s = dfind_loop env k fuel (dnext (dnode s (droot s))) (env fuel s)"

definition dstill_there :: "addr \<Rightarrow> addr \<Rightarrow> ('k, 'v) dmap \<Rightarrow> bool" where
  "dstill_there prv nxt s \<longleftrightarrow> dnext (dnode s prv) = nxt \<and> \<not> dremoved (dnode s prv)"

text \<open>\<open>e\<close> is what other threads do between the load of the prev pointer and the validation.\<close>

definition dtry_insert :: "('k::linorder, 'v) denv \<Rightarrow> (('k, 'v) dmap \<Rightarrow> ('k, 'v) dmap) \<Rightarrow> (nat \<Rightarrow> bool)
    \<Rightarrow> (('k, 'v) dmap \<Rightarrow> addr) \<Rightarrow> nat \<Rightarrow> 'k \<Rightarrow> 'v \<Rightarrow> ('k, 'v) dmap \<Rightarrow> bool option \<times> ('k, 'v) dmap" where
  "dtry_insert env e locked alloc fuel k v s =
     (case dfind_location env fuel k s of
        None \<Rightarrow> (None, s)
      | Some (nxt, s1) \<Rightarrow>
          let prv = dprev (dnode s1 nxt);
              s2 = e s1
          in if \<not> dis_end (dnode s1 nxt) \<and> \<not> k < dkey (dnode s1 nxt)
             then (if dstill_there prv nxt s2 then (Some False, s2) else (None, s2))
             else if (dis_end (dnode s1 prv) \<or> dkey (dnode s1 prv) < k) \<and> locked 0 \<and> dstill_there prv nxt s2
                  then let (new_node, s3) = new_dnode alloc k v nxt prv s2
                       in (Some True, set_dprev nxt new_node (set_dnext prv new_node s3))
                  else (None, s2))"

definition dtry_remove :: "('k::linorder, 'v) denv \<Rightarrow> (('k, 'v) dmap \<Rightarrow> ('k, 'v) dmap) \<Rightarrow> (nat \<Rightarrow> bool)
    \<Rightarrow> nat \<Rightarrow> 'k \<Rightarrow> ('k, 'v) dmap \<Rightarrow> bool option \<times> ('k, 'v) dmap" where
  "dtry_remove env e locked fuel k s =
     (case dfind_location env fuel k s of
        None \<Rightarrow> (None, s)
      | Some (loc, s1) \<Rightarrow>
          let prv = dprev (dnode s1 loc);
              s2 = e s1
          in if dis_end (dnode s1 loc) \<or> k < dkey (dnode s1 loc)
             then (if dstill_there prv loc s2 then (Some False, s2) else (None, s2))
             else if locked 0 \<and> dstill_there prv loc s2 \<and> locked 1
                  then let nxt = dnext (dnode s2 loc)
                       in (Some True, dretire loc (set_dprev nxt prv (set_dnext prv nxt (set_dremoved loc s2))))
                  else (None, s2))"

definition dtry_find :: "('k::linorder, 'v) denv \<Rightarrow> (('k, 'v) dmap \<Rightarrow> ('k, 'v) dmap) \<Rightarrow> nat \<Rightarrow> 'k
    \<Rightarrow> ('k, 'v) dmap \<Rightarrow> 'v option option \<times> ('k, 'v) dmap" where
  "dtry_find env e fuel k s =
     (case dfind_location env fuel k s of
        None \<Rightarrow> (None, s)
      | Some (nxt, s1) \<Rightarrow>
          let prv = dprev (dnode s1 nxt);
              s2 = e s1
          in if dstill_there prv nxt s2
             then (Some (if \<not> dis_end (dnode s2 nxt) \<and> \<not> k < dkey (dnode s2 nxt)
                         then Some (dval (dnode s2 nxt)) else None), s2)
             else (None, s2))"

definition dfind_plain :: "('k::linorder, 'v) denv \<Rightarrow> nat \<Rightarrow> 'k \<Rightarrow> ('k, 'v) dmap \<Rightarrow> 'v option option" where
  "dfind_plain env fuel k s =
     map_option (\<lambda>(nxt, s1). if \<not> dis_end (dnode s1 nxt) \<and> \<not> k < dkey (dnode s1 nxt)
                              then Some (dval (dnode s1 nxt)) else None)
       (dfind_location env fuel k s)"

definition dinsert_map :: "(nat \<Rightarrow> ('k::linorder, 'v) denv) \<Rightarrow> (nat \<Rightarrow> ('k, 'v) dmap \<Rightarrow> ('k, 'v) dmap) \<Rightarrow> (nat \<Rightarrow> nat \<Rightarrow> bool)
    \<Rightarrow> (('k, 'v) dmap \<Rightarrow> addr) \<Rightarrow> nat \<Rightarrow> nat \<Rightarrow> 'k \<Rightarrow> 'v \<Rightarrow> ('k, 'v) dmap \<Rightarrow> (bool \<times> ('k, 'v) dmap) option" where
  "dinsert_map env e locked alloc fuel rounds k v s =
     try_loop (\<lambda>i. dtry_insert (env i) (e i) (locked i) alloc fuel k v) rounds s"

definition dremove_map :: "(nat \<Rightarrow> ('k::linorder, 'v) denv) \<Rightarrow> (nat \<Rightarrow> ('k, 'v) dmap \<Rightarrow> ('k, 'v) dmap) \<Rightarrow> (nat \<Rightarrow> nat \<Rightarrow> bool)
    \<Rightarrow> nat \<Rightarrow> nat \<Rightarrow> 'k \<Rightarrow> ('k, 'v) dmap \<Rightarrow> (bool \<times> ('k, 'v) dmap) option" where
  "dremove_map env e locked fuel rounds k s =
     try_loop (\<lambda>i. dtry_remove (env i) (e i) (locked i) fuel k) rounds s"

definition dfind_locked :: "(nat \<Rightarrow> ('k::linorder, 'v) denv) \<Rightarrow> (nat \<Rightarrow> ('k, 'v) dmap \<Rightarrow> ('k, 'v) dmap)
    \<Rightarrow> nat \<Rightarrow> nat \<Rightarrow> 'k \<Rightarrow> ('k, 'v) dmap \<Rightarrow> ('v option \<times> ('k, 'v) dmap) option" where
  "dfind_locked env e fuel rounds k s = try_loop (\<lambda>i. dtry_find (env i) (e i) fuel k) rounds s"

fun dskip_to :: "('k::linorder) \<Rightarrow> nat \<Rightarrow> addr \<Rightarrow> ('k, 'v) dmap \<Rightarrow> addr option" where
  "dskip_to start 0 nxt s = None"
| "dskip_to start (Suc fuel) nxt s =
     (if dis_end (dnode s nxt) \<or> \<not> dkey (dnode s nxt) < start then Some nxt
      else dskip_to start fuel (dnext (dnode s nxt)) s)"

fun dadd_until :: "('k::linorder) \<Rightarrow> nat \<Rightarrow> addr \<Rightarrow> ('k, 'v) dmap \<Rightarrow> ('k \<times> 'v) list option" where
  "dadd_until stop 0 nxt s = None"
| "dadd_until stop (Suc fuel) nxt s =
     (if \<not> dis_end (dnode s nxt) \<and> \<not> stop < dkey (dnode s nxt)
      then map_option (\<lambda>xs. (dkey (dnode s nxt), dval (dnode s nxt)) # xs) (dadd_until stop fuel (dnext (dnode s nxt)) s)
      else Some [])"

definition drange :: "nat \<Rightarrow> ('k::linorder) \<Rightarrow> 'k \<Rightarrow> ('k, 'v) dmap \<Rightarrow> ('k \<times> 'v) list option" where
  "drange fuel start stop s =
     (case dskip_to start fuel (dnext (dnode s (droot s))) s of
        None \<Rightarrow> None | Some nxt \<Rightarrow> dadd_until stop fuel nxt s)"

text \<open>\<open>init\<close>: head and tail are both marked as ends; their keys are never read.\<close>

definition dinit :: "addr \<Rightarrow> addr \<Rightarrow> 'k \<Rightarrow> 'v \<Rightarrow> ('k, 'v) dmap" where
  "dinit tail head k v =
     set_dprev tail head
       \<lparr>dnode = (\<lambda>p. \<lparr>dnext = (if p = head then tail else nullptr), dprev = nullptr, dkey = k, dval = v,
                       dis_end = True, dremoved = False\<rparr>),
        dnodes = {head, tail}, droot = head, dretired = []\<rparr>"

fun dretire_recursive :: "nat \<Rightarrow> addr \<Rightarrow> ('k, 'v) dmap \<Rightarrow> ('k, 'v) dmap option" where
  "dretire_recursive 0 p s = None"
| "dretire_recursive (Suc fuel) p s =
     (if \<not> dis_end (dnode s p) then map_option (dretire p) (dretire_recursive fuel (dnext (dnode s p)) s)
      else Some (dretire p s))"

definition destroy_dmap :: "nat \<Rightarrow> ('k, 'v) dmap \<Rightarrow> ('k, 'v) dmap option" where
  "destroy_dmap fuel s = dretire_recursive fuel (droot s) s"

fun dcheck_loop :: "nat \<Rightarrow> ('k::linorder) \<Rightarrow> addr \<Rightarrow> int \<Rightarrow> ('k, 'v) dmap \<Rightarrow> int option" where
  "dcheck_loop 0 k ptr i s = None"
| "dcheck_loop (Suc fuel) k ptr i s =
     (if dis_end (dnode s ptr) then Some i
      else if \<not> k < dkey (dnode s ptr) then None
      else dcheck_loop fuel (dkey (dnode s ptr)) (dnext (dnode s ptr)) (i + 1) s)"

definition dcheck :: "nat \<Rightarrow> ('k::linorder, 'v) dmap \<Rightarrow> int option" where
  "dcheck fuel s =
     (let ptr = dnext (dnode s (droot s))
      in if dis_end (dnode s ptr) then Some 0
         else dcheck_loop fuel (dkey (dnode s ptr)) (dnext (dnode s ptr)) 1 s)"

section \<open>The list of next pointers\<close>

text \<open>The singly linked list: its head is not an end.\<close>

definition forget :: "('k, 'v) dmap \<Rightarrow> ('k, 'v) lmap" where
  "forget s =
     \<lparr>node = (\<lambda>p. \<lparr>next_node = dnext (dnode s p), key = dkey (dnode s p), val = dval (dnode s p),
                    is_end = dis_end (dnode s p) \<and> p \<noteq> droot s, removed = dremoved (dnode s p)\<rparr>),
      nodes = dnodes s, root = droot s, lretired = dretired s\<rparr>"

lemma forget_sel [simp]:
  "next_node (node (forget s) p) = dnext (dnode s p)" "key (node (forget s) p) = dkey (dnode s p)"
  "val (node (forget s) p) = dval (dnode s p)" "is_end (node (forget s) p) \<longleftrightarrow> dis_end (dnode s p) \<and> p \<noteq> droot s"
  "removed (node (forget s) p) = dremoved (dnode s p)" "nodes (forget s) = dnodes s" "root (forget s) = droot s"
  "lretired (forget s) = dretired s"
  by (simp_all add: forget_def)

lemma forget_set [simp]:
  "forget (set_dnext p q s) = set_next_node p q (forget s)" "forget (set_dprev p q s) = forget s"
  "forget (set_dremoved p s) = set_removed p (forget s)" "forget (dretire p s) = lretire p (forget s)"
  by (auto simp: forget_def set_dnext_def set_dprev_def set_dremoved_def dretire_def set_next_node_def set_removed_def
      lretire_def fun_eq_iff)

lemma forget_new:
  assumes "new_dnode alloc k v nxt prv s = (p, s')" "p \<noteq> droot s"
  shows "new_lnode (\<lambda>_. p) k v nxt (forget s) = (p, forget s')"
  using assms by (auto simp: new_dnode_def new_lnode_def forget_def Let_def fun_eq_iff)

definition dmap_abs :: "('k, 'v) dmap \<Rightarrow> 'k \<rightharpoonup> 'v" where
  "dmap_abs s = lmap_abs (forget s)"

text \<open>What holds at every moment: the list of next pointers and prev pointers that lead to nodes.\<close>

definition wf_dmap :: "('k::linorder, 'v) dmap \<Rightarrow> bool" where
  "wf_dmap s \<longleftrightarrow> wf_lmap (forget s) \<and> dis_end (dnode s (droot s)) \<and> nullptr \<notin> dnodes s \<and>
     (\<forall>p\<in>dnodes s. dis_end (dnode s p) \<and> p \<noteq> droot s \<longrightarrow> dnext (dnode s p) = nullptr) \<and>
     (\<forall>p\<in>dnodes s. p \<noteq> droot s \<longrightarrow> dprev (dnode s p) \<in> dnodes s) \<and>
     (\<forall>p\<in>dnodes s. dnext (dnode s p) \<noteq> droot s)"

text \<open>Between operations the prev pointers of the list are right, too.\<close>

definition prevs_ok :: "('k, 'v) dmap \<Rightarrow> bool" where
  "prevs_ok s \<longleftrightarrow> (\<forall>p\<in>dnodes s. p \<noteq> droot s \<and> \<not> dremoved (dnode s p) \<longrightarrow> dstill_there (dprev (dnode s p)) p s)"

definition dkeeps :: "('k, 'v) dmap \<Rightarrow> ('k, 'v) dmap \<Rightarrow> bool" where
  "dkeeps s s' \<longleftrightarrow> droot s' = droot s \<and> dnodes s \<subseteq> dnodes s' \<and>
     (\<forall>p\<in>dnodes s. dkey (dnode s' p) = dkey (dnode s p) \<and> dval (dnode s' p) = dval (dnode s p) \<and>
        dis_end (dnode s' p) = dis_end (dnode s p))"

interpretation dl: monotone_shared dkeeps wf_dmap
  by unfold_locales (auto simp: dkeeps_def)

lemma dstill_there_forget: "dstill_there p q s \<longleftrightarrow> still_there p q (forget s)"
  by (simp add: dstill_there_def still_there_def)

lemma dfind_loop_result:
  assumes "dl.rely env" "wf_dmap s" "nxt \<in> dnodes s" "nxt \<noteq> droot s" "dfind_loop env k fuel nxt s = Some (n, s')"
  shows "dl.evolves s s' \<and> n \<in> dnodes s' \<and> n \<noteq> droot s' \<and> (dis_end (dnode s' n) \<or> \<not> dkey (dnode s' n) < k)"
  using assms(2-)
proof (induction fuel arbitrary: nxt s)
  case (Suc fuel)
  show ?case
  proof (cases "dis_end (dnode s nxt) \<or> \<not> dkey (dnode s nxt) < k")
    case True
    with Suc.prems show ?thesis by auto
  next
    case False
    let ?s = "env fuel s" and ?nn = "dnext (dnode s nxt)"
    have ev: "dl.evolves s ?s" by (rule dl.relyD [OF assms(1)])
    then have kp: "dkeeps s ?s" and wf: "wf_dmap ?s" using Suc.prems(1) by (simp_all add: dl.evolves_def)
    have "?nn \<in> dnodes s" "?nn \<noteq> droot s"
      using Suc.prems(1-3) False wf_next [of "forget s" nxt] by (auto simp: wf_dmap_def)
    then have nn: "?nn \<in> dnodes ?s" "?nn \<noteq> droot ?s" using kp by (auto simp: dkeeps_def)
    have "dfind_loop env k fuel ?nn ?s = Some (n, s')" using Suc.prems(4) False by simp
    from Suc.IH [OF wf nn this] ev dl.evolves_trans show ?thesis by blast
  qed
qed simp

lemma dfind_location_result:
  assumes "dl.rely env" "wf_dmap s" "dfind_location env fuel k s = Some (n, s')"
  shows "dl.evolves s s' \<and> n \<in> dnodes s' \<and> n \<noteq> droot s' \<and> (dis_end (dnode s' n) \<or> \<not> dkey (dnode s' n) < k)"
proof -
  let ?s = "env fuel s" and ?n = "dnext (dnode s (droot s))"
  have ev: "dl.evolves s ?s" by (rule dl.relyD [OF assms(1)])
  then have kp: "dkeeps s ?s" "wf_dmap ?s" using assms(2) by (simp_all add: dl.evolves_def)
  have "?n \<in> dnodes s" "?n \<noteq> droot s"
    using assms(2) wf_next [of "forget s" "droot s"] wf_root [of "forget s"] by (auto simp: wf_dmap_def)
  then have "?n \<in> dnodes ?s" "?n \<noteq> droot ?s" using kp(1) by (auto simp: dkeeps_def)
  from dfind_loop_result [OF assms(1) kp(2) this] assms(3) ev show ?thesis
    unfolding dfind_location_def by (blast intro: dl.evolves_trans)
qed

text \<open>A validated predecessor is a neighbour on the list, whatever the prev pointer says.\<close>

lemma dvalidated:
  assumes "dl.rely env" "dl.rely (\<lambda>_. e)" "wf_dmap s" "dfind_location env fuel k s = Some (nxt, s1)"
    and "dstill_there (dprev (dnode s1 nxt)) nxt (e s1)"
  obtains ns t as bs where "wf_dmap (e s1)" "lrep (forget (e s1)) ns t" "ns = as @ bs" "dprev (dnode s1 nxt) = last (droot (e s1) # as)"
    "nxt = hd (bs @ [t])" "nxt \<in> dnodes (e s1)" "nxt \<noteq> droot (e s1)" "dprev (dnode s1 nxt) \<in> dnodes (e s1)"
    "dkey (dnode (e s1) nxt) = dkey (dnode s1 nxt)" "dis_end (dnode (e s1) nxt) = dis_end (dnode s1 nxt)"
    "dkey (dnode (e s1) (dprev (dnode s1 nxt))) = dkey (dnode s1 (dprev (dnode s1 nxt)))"
    "dis_end (dnode (e s1) (dprev (dnode s1 nxt))) = dis_end (dnode s1 (dprev (dnode s1 nxt)))"
    "dis_end (dnode s1 nxt) \<or> \<not> dkey (dnode s1 nxt) < k"
proof -
  let ?p = "dprev (dnode s1 nxt)" and ?s = "e s1"
  note r = dfind_location_result [OF assms(1,3,4)]
  have "dl.evolves s1 ?s" using dl.relyD [OF assms(2)] .
  then have kp: "dkeeps s1 ?s" and wf1: "wf_dmap s1" and wf: "wf_dmap ?s" using r assms(3) by (auto simp: dl.evolves_def)
  have p1: "?p \<in> dnodes s1" using r wf1 by (auto simp: wf_dmap_def)
  then have p: "?p \<in> dnodes ?s" and n: "nxt \<in> dnodes ?s" "nxt \<noteq> droot ?s" using r kp by (auto simp: dkeeps_def)
  have "\<not> is_end (node (forget ?s) ?p)"
    using wf p n assms(5) by (auto simp: wf_dmap_def dstill_there_def)
  moreover obtain ns t where rep: "lrep (forget ?s) ns t" using wf by (auto simp: wf_dmap_def wf_lmap_def)
  ultimately obtain as bs where "ns = as @ bs" "?p = last (root (forget ?s) # as)" "nxt = hd (bs @ [t])"
    using validated_split [OF rep, of ?p nxt] p assms(5) by (auto simp: dstill_there_forget)
  then show thesis using that wf rep p n kp r p1 by (auto simp: dkeeps_def)
qed

section \<open>Splicing in and out\<close>

definition allocates :: "(('k::linorder, 'v) dmap \<Rightarrow> addr) \<Rightarrow> bool" where
  "allocates alloc \<longleftrightarrow> (\<forall>s. wf_dmap s \<longrightarrow> alloc s \<notin> dnodes s \<and> alloc s \<noteq> nullptr)"

lemma dinsert_keeps:
  assumes wf: "wf_dmap s" and new: "new_dnode alloc k v nxt prv s = (p, s1)" "p \<notin> dnodes s" "p \<noteq> nullptr"
    and n: "nxt \<in> dnodes s" "nxt \<noteq> droot s" "prv \<in> dnodes s" "dstill_there prv nxt s"
    and s': "s' = set_dprev nxt p (set_dnext prv p s1)" and rep: "wf_lmap (forget s')"
  shows "wf_dmap s'" "prevs_ok s \<Longrightarrow> prevs_ok s'" "dkeeps s s'"
proof -
  have np: "nxt \<noteq> p" "prv \<noteq> p" "droot s \<noteq> p" "dnext (dnode s prv) = nxt" "\<not> dremoved (dnode s prv)"
    using new(2) n wf wf_root [of "forget s"] by (auto simp: dstill_there_def wf_dmap_def)
  have node: "dnode s' q = (if q = p then \<lparr>dnext = nxt, dprev = prv, dkey = k, dval = v, dis_end = False, dremoved = False\<rparr>
      else (dnode s q)\<lparr>dnext := (if q = prv then p else dnext (dnode s q)), dprev := (if q = nxt then p else dprev (dnode s q))\<rparr>)" for q
    using new(1) np by (auto simp: s' set_dprev_def set_dnext_def new_dnode_def Let_def)
  have fields: "droot s' = droot s" "dnodes s' = insert p (dnodes s)"
    using new(1) by (auto simp: s' set_dprev_def set_dnext_def new_dnode_def Let_def)
  have "\<not> (dis_end (dnode s prv) \<and> prv \<noteq> droot s)" using wf n by (auto simp: wf_dmap_def dstill_there_def)
  then show "wf_dmap s'" using wf rep new(2,3) n np unfolding wf_dmap_def fields by (auto simp: node)
  show "prevs_ok s'" if P: "prevs_ok s"
    unfolding prevs_ok_def
  proof (intro ballI impI)
    fix q assume "q \<in> dnodes s'" "q \<noteq> droot s' \<and> \<not> dremoved (dnode s' q)"
    then consider "q = p" | "q = nxt" | "q \<in> dnodes s" "q \<noteq> p" "q \<noteq> nxt" "q \<noteq> droot s" "\<not> dremoved (dnode s q)"
      using fields by (auto simp: node split: if_splits)
    then show "dstill_there (dprev (dnode s' q)) q s'"
    proof cases
      case 3
      then have "dstill_there (dprev (dnode s q)) q s" "dprev (dnode s q) \<in> dnodes s" using P wf by (auto simp: prevs_ok_def wf_dmap_def)
      then show ?thesis using 3 np new(2) by (auto simp: dstill_there_def node)
    qed (use np in \<open>auto simp: dstill_there_def node\<close>)
  qed
  show "dkeeps s s'" using new(2) by (auto simp: dkeeps_def fields node)
qed

lemma dremove_keeps:
  assumes wf: "wf_dmap s" and n: "loc \<in> dnodes s" "\<not> dis_end (dnode s loc)" "prv \<in> dnodes s" "dstill_there prv loc s" "prv \<noteq> loc"
    and s': "s' = dretire loc (set_dprev (dnext (dnode s loc)) prv (set_dnext prv (dnext (dnode s loc)) (set_dremoved loc s)))"
    and rep: "wf_lmap (forget s')"
  shows "wf_dmap s'" "prevs_ok s \<Longrightarrow> prevs_ok s'" "dkeeps s s'"
proof -
  let ?n = "dnext (dnode s loc)"
  have nn: "?n \<in> dnodes s" "?n \<noteq> droot s" "dnext (dnode s prv) = loc" "\<not> dremoved (dnode s prv)"
    using wf n wf_next [of "forget s" loc] by (auto simp: wf_dmap_def dstill_there_def)
  have node: "dnode s' q = (dnode s q)\<lparr>dnext := (if q = prv then ?n else dnext (dnode s q)),
      dprev := (if q = ?n then prv else dprev (dnode s q)), dremoved := (q = loc \<or> dremoved (dnode s q))\<rparr>" for q
    by (auto simp: s' set_dprev_def set_dnext_def set_dremoved_def dretire_def)
  have fields: "droot s' = droot s" "dnodes s' = dnodes s"
    by (auto simp: s' set_dprev_def set_dnext_def set_dremoved_def dretire_def)
  have "\<not> (dis_end (dnode s prv) \<and> prv \<noteq> droot s)" using wf n by (auto simp: wf_dmap_def dstill_there_def)
  then show "wf_dmap s'" using wf rep n nn unfolding wf_dmap_def fields by (auto simp: node)
  show "prevs_ok s'" if P: "prevs_ok s"
    unfolding prevs_ok_def
  proof (intro ballI impI)
    fix q assume q: "q \<in> dnodes s'" "q \<noteq> droot s' \<and> \<not> dremoved (dnode s' q)"
    then have "dstill_there (dprev (dnode s q)) q s" using P by (auto simp: prevs_ok_def fields node)
    then show "dstill_there (dprev (dnode s' q)) q s'"
      using q nn n(5) by (cases "q = ?n") (auto simp: dstill_there_def node)
  qed
  show "dkeeps s s'" by (auto simp: dkeeps_def fields node)
qed

text \<open>The state at the validation.\<close>

definition dvalidation_state :: "('k::linorder, 'v) denv \<Rightarrow> (('k, 'v) dmap \<Rightarrow> ('k, 'v) dmap) \<Rightarrow> nat \<Rightarrow> 'k
    \<Rightarrow> ('k, 'v) dmap \<Rightarrow> ('k, 'v) dmap" where
  "dvalidation_state env e fuel k s = (case dfind_location env fuel k s of None \<Rightarrow> s | Some (_, s1) \<Rightarrow> e s1)"

lemma on_list_lookup:
  assumes "lrep s (as @ x # bs) t"
  shows "lmap_abs s (key (node s x)) = Some (val (node s x))"
proof -
  have "distinct (map fst (map (entry_of s) (as @ x # bs)))"
    using assms by (simp add: lrep_def entry_of_def comp_def strict_sorted_iff)
  moreover have "entry_of s x \<in> set (map (entry_of s) (as @ x # bs))" by simp
  ultimately show ?thesis unfolding lrep_abs [OF assms] entry_of_def by (metis (no_types, lifting) map_of_eq_Some_iff)
qed

lemma dinsert_attempt:
  assumes "dl.rely env" "dl.rely (\<lambda>_. e)" "wf_dmap s" "allocates alloc"
    and "dtry_insert env e locked alloc fuel k v s = (Some b, s')"
  shows "wf_dmap s' \<and> (b \<longleftrightarrow> dmap_abs (dvalidation_state env e fuel k s) k = None) \<and>
    dmap_abs s' = (if b then (dmap_abs (dvalidation_state env e fuel k s))(k \<mapsto> v) else dmap_abs (dvalidation_state env e fuel k s)) \<and>
    (prevs_ok (dvalidation_state env e fuel k s) \<longrightarrow> prevs_ok s')"
proof -
  obtain nxt s1 where f: "dfind_location env fuel k s = Some (nxt, s1)" and st: "dstill_there (dprev (dnode s1 nxt)) nxt (e s1)"
    using assms(5) by (auto simp: dtry_insert_def Let_def split: option.splits if_splits)
  let ?s = "e s1" and ?p = "dprev (dnode s1 nxt)"
  obtain ns t as bs where V: "wf_dmap ?s" "lrep (forget ?s) ns t" "ns = as @ bs" "?p = last (droot ?s # as)"
    "nxt = hd (bs @ [t])" "nxt \<in> dnodes ?s" "nxt \<noteq> droot ?s" "?p \<in> dnodes ?s"
    "dkey (dnode ?s nxt) = dkey (dnode s1 nxt)" "dis_end (dnode ?s nxt) = dis_end (dnode s1 nxt)"
    "dkey (dnode ?s ?p) = dkey (dnode s1 ?p)" "dis_end (dnode ?s ?p) = dis_end (dnode s1 ?p)"
    "dis_end (dnode s1 nxt) \<or> \<not> dkey (dnode s1 nxt) < k"
    by (rule dvalidated [OF assms(1-3) f st])
  have vs: "dvalidation_state env e fuel k s = ?s" by (simp add: dvalidation_state_def f)
  show ?thesis
  proof (cases "\<not> dis_end (dnode s1 nxt) \<and> \<not> k < dkey (dnode s1 nxt)")
    case True
    then obtain bs' where "bs = nxt # bs'" using V(2,5,7,10) by (cases bs) (auto simp: lrep_def)
    then have "dmap_abs ?s (dkey (dnode ?s nxt)) \<noteq> None"
      using on_list_lookup [of "forget ?s" as nxt bs' t] V(2,3) by (simp add: dmap_abs_def)
    moreover have "dkey (dnode ?s nxt) = k" using True V(9,13) by auto
    moreover have "b = False" "s' = ?s" using assms(5) f st True by (auto simp: dtry_insert_def Let_def)
    ultimately show ?thesis using vs V(1) by simp
  next
    case False
    obtain p s3 where new: "new_dnode alloc k v nxt ?p ?s = (p, s3)" by fastforce
    then have p: "p \<notin> dnodes ?s" "p \<noteq> nullptr" "p \<noteq> droot ?s"
      using assms(4) V(1) wf_root [of "forget ?s"] by (auto simp: new_dnode_def Let_def allocates_def wf_dmap_def)
    have b: "b" "s' = set_dprev nxt p (set_dnext ?p p s3)" "dis_end (dnode s1 ?p) \<or> dkey (dnode s1 ?p) < k"
      using assms(5) f st False new by (auto simp: dtry_insert_def Let_def split: if_splits)
    have "\<not> (dis_end (dnode ?s ?p) \<and> ?p \<noteq> droot ?s)" using V(1,6,8) st by (auto simp: wf_dmap_def dstill_there_def)
    then have "left_ok k ?p (forget ?s)" using V(8,11,12) b(3) by (auto simp: left_ok_def)
    then have l: "left_ok k (last (root (forget ?s) # as)) (forget ?s)" using V(4) by simp
    have n: "is_end (node (forget ?s) nxt) \<or> \<not> key (node (forget ?s) nxt) < k" using V by auto
    note K = keys_around [OF V(2,3) l V(5) n] and look = lookup_between [OF V(2,3) l V(5) n]
    have "k < key (node (forget ?s) x)" if "x \<in> set bs" for x
    proof (cases bs)
      case (Cons y ys)
      then have "k < dkey (dnode ?s y)" using False V(2,3,5,7,9,10) by (auto simp: lrep_def)
      moreover have "y = x \<or> dkey (dnode ?s y) < dkey (dnode ?s x)"
        using V(2,3) Cons that by (auto simp: lrep_def sorted_wrt_append)
      ultimately show ?thesis by auto
    qed (use that in simp)
    then have "lrep (forget s') (as @ p # bs) t" "lmap_abs (forget s') = (lmap_abs (forget ?s))(k \<mapsto> v)"
      using insert_lrep [OF V(2,3) _ V(5) forget_new [OF new p(3)] _ K(1) _] V(4) p(1) b(2) by auto
    moreover from this have "wf_lmap (forget s')" by (auto simp: wf_lmap_def)
    note keep = dinsert_keeps [OF V(1) new p(1,2) V(6-8) st b(2) this]
    ultimately show ?thesis using keep(1,2) b(1) vs look False V(7,9,10) by (auto simp: dmap_abs_def)
  qed
qed

lemma dremove_attempt:
  assumes "dl.rely env" "dl.rely (\<lambda>_. e)" "wf_dmap s" "dtry_remove env e locked fuel k s = (Some b, s')"
  shows "wf_dmap s' \<and> (b \<longrightarrow> dmap_abs (dvalidation_state env e fuel k s) k \<noteq> None) \<and>
    dmap_abs s' = (if b then (dmap_abs (dvalidation_state env e fuel k s))(k := None) else dmap_abs (dvalidation_state env e fuel k s)) \<and>
    (prevs_ok (dvalidation_state env e fuel k s) \<longrightarrow> prevs_ok s')"
proof -
  obtain nxt s1 where f: "dfind_location env fuel k s = Some (nxt, s1)" and st: "dstill_there (dprev (dnode s1 nxt)) nxt (e s1)"
    using assms(4) by (auto simp: dtry_remove_def Let_def split: option.splits if_splits)
  let ?s = "e s1" and ?p = "dprev (dnode s1 nxt)"
  obtain ns t as bs where V: "wf_dmap ?s" "lrep (forget ?s) ns t" "ns = as @ bs" "?p = last (droot ?s # as)"
    "nxt = hd (bs @ [t])" "nxt \<in> dnodes ?s" "nxt \<noteq> droot ?s" "?p \<in> dnodes ?s"
    "dkey (dnode ?s nxt) = dkey (dnode s1 nxt)" "dis_end (dnode ?s nxt) = dis_end (dnode s1 nxt)"
    "dkey (dnode ?s ?p) = dkey (dnode s1 ?p)" "dis_end (dnode ?s ?p) = dis_end (dnode s1 ?p)"
    "dis_end (dnode s1 nxt) \<or> \<not> dkey (dnode s1 nxt) < k"
    by (rule dvalidated [OF assms(1-3) f st])
  have vs: "dvalidation_state env e fuel k s = ?s" by (simp add: dvalidation_state_def f)
  show ?thesis
  proof (cases "dis_end (dnode s1 nxt) \<or> k < dkey (dnode s1 nxt)")
    case True
    then have "b = False" "s' = ?s" using assms(4) f st by (auto simp: dtry_remove_def Let_def)
    then show ?thesis using vs V(1) by simp
  next
    case False
    then obtain bs' where bs: "bs = nxt # bs'" using V(2,5,7,10) by (cases bs) (auto simp: lrep_def)
    have k: "dkey (dnode ?s nxt) = k" using False V(9,13) by auto
    have b: "b" "s' = dretire nxt (set_dprev (dnext (dnode ?s nxt)) ?p (set_dnext ?p (dnext (dnode ?s nxt)) (set_dremoved nxt ?s)))"
      using assms(4) f st False by (auto simp: dtry_remove_def Let_def split: if_splits)
    have rep: "lrep (forget ?s) (as @ nxt # bs') t" using V(2,3) bs by simp
    have "lrep (forget s') (as @ bs') t" "lmap_abs (forget s') = (lmap_abs (forget ?s))(k := None)"
      using remove_lrep [OF rep refl, of ?p "forget s'"] V(4) b(2) k by auto
    moreover from this have "wf_lmap (forget s')" by (auto simp: wf_lmap_def)
    moreover have "?p \<noteq> nxt" using rep V(4) by (auto simp: lrep_def)
    moreover have "\<not> dis_end (dnode ?s nxt)" using False V(10) by simp
    ultimately show ?thesis
      using dremove_keeps(1,2) [OF V(1,6) _ V(8) st _ b(2)] b(1) vs on_list_lookup [OF rep] k by (auto simp: dmap_abs_def)
  qed
qed

section \<open>One thread alone\<close>

abbreviation (input) didle :: "('k, 'v) denv" where
  "didle \<equiv> \<lambda>i s. s"

lemma linked_map: "linked s (p # ns @ [t]) \<Longrightarrow> map (\<lambda>q. next_node (node s q)) (p # ns) = ns @ [t]"
  by (induction ns arbitrary: p) (auto simp: linked_Cons)

lemma pred_unique:
  assumes "lrep s ns t" "a \<in> set (root s # ns)" "b \<in> set (root s # ns)" "next_node (node s a) = next_node (node s b)"
  shows "a = b"
proof -
  have "distinct (map (\<lambda>q. next_node (node s q)) (root s # ns))"
    using assms(1) linked_map [of s "root s" ns t] by (auto simp: lrep_def)
  then show ?thesis using assms(2-4) unfolding distinct_map inj_on_def by blast
qed

lemma dfind_loop_forget:
  assumes "wf_dmap s" "nxt \<in> dnodes s" "nxt \<noteq> droot s"
  shows "dfind_loop didle k fuel nxt s = map_option (\<lambda>((c, n), _). (n, s)) (find_loop idle k fuel cur nxt (forget s))"
  using assms(2,3)
proof (induction fuel arbitrary: nxt cur)
  case (Suc fuel)
  have "dnext (dnode s nxt) \<in> dnodes s \<and> dnext (dnode s nxt) \<noteq> droot s" if "\<not> dis_end (dnode s nxt)"
    using assms(1) Suc.prems that wf_next [of "forget s" nxt] by (auto simp: wf_dmap_def)
  then show ?case using Suc.IH [of "dnext (dnode s nxt)" nxt] Suc.prems by (auto simp: Let_def)
qed simp

lemma droot_next:
  assumes "wf_dmap s"
  shows "dnext (dnode s (droot s)) \<in> dnodes s" "dnext (dnode s (droot s)) \<noteq> droot s"
  using assms wf_next [of "forget s" "droot s"] wf_root [of "forget s"] by (auto simp: wf_dmap_def)

lemma dfind_location_forget:
  "wf_dmap s \<Longrightarrow> dfind_location didle fuel k s = map_option (\<lambda>((c, n), _). (n, s)) (find_location idle fuel k (forget s))"
  using dfind_loop_forget [OF _ droot_next] by (simp add: dfind_location_def find_location_def Let_def)

text \<open>With right prev pointers a search alone ends at a node whose predecessor is validated.\<close>

lemma dsearch_idle:
  assumes "wf_dmap s" "prevs_ok s"
  obtains nxt where "dfind_location didle (card (dnodes s)) k s = Some (nxt, s)" "dstill_there (dprev (dnode s nxt)) nxt s"
    "nxt \<noteq> droot s" "left_ok k (dprev (dnode s nxt)) (forget s)" "dis_end (dnode s nxt) \<or> \<not> dkey (dnode s nxt) < k"
    "find_location idle (card (dnodes s)) k (forget s) = Some ((dprev (dnode s nxt), nxt), forget s)"
proof -
  have wf: "wf_lmap (forget s)" using assms(1) by (simp add: wf_dmap_def)
  obtain cur nxt where f: "find_location idle (card (nodes (forget s))) k (forget s) = Some ((cur, nxt), forget s)" "still_there cur nxt (forget s)"
    by (rule find_location_idle [OF wf])
  then have d: "dfind_location didle (card (dnodes s)) k s = Some (nxt, s)" by (simp add: dfind_location_forget [OF assms(1)])
  note r = dfind_location_result [OF dl.rely_idle assms(1) d] and fr = find_location_result [OF lst.rely_idle wf f(1)]
  obtain ns t where rep: "lrep (forget s) ns t" using wf by (auto simp: wf_lmap_def)
  have cur: "cur \<in> dnodes s" "\<not> is_end (node (forget s) cur)" using fr wf_root [OF wf] by (auto simp: left_ok_def)
  obtain as bs where sp: "ns = as @ bs" "cur = last (root (forget s) # as)" "nxt = hd (bs @ [t])"
    using validated_split [OF rep _ cur(2) f(2)] cur(1) by auto
  have "nxt \<in> set (root (forget s) # ns @ [t])" unfolding sp(1,3) by (cases bs) auto
  then have "\<not> dremoved (dnode s nxt)" using rep r by (auto simp: lrep_def)
  then have st: "dstill_there (dprev (dnode s nxt)) nxt s" "dprev (dnode s nxt) \<in> dnodes s"
    using assms r by (auto simp: prevs_ok_def wf_dmap_def)
  have "\<not> is_end (node (forget s) (dprev (dnode s nxt)))" using assms(1) st r by (auto simp: wf_dmap_def dstill_there_def)
  then have "dprev (dnode s nxt) \<in> set (root (forget s) # ns)" using rep st by (auto simp: lrep_def dstill_there_def)
  moreover have "cur \<in> set (root (forget s) # ns)" unfolding sp(1,2) using last_in_set [of "root (forget s) # as"] by auto
  ultimately have "cur = dprev (dnode s nxt)"
    using pred_unique [OF rep] f(2) st(1) by (auto simp: still_there_def dstill_there_def)
  then show thesis using that d st fr r f(1) by auto
qed

definition dfresh :: "('k, 'v) dmap \<Rightarrow> addr" where
  "dfresh s = Suc (Max (dnodes s))"

lemma dfresh_allocates: "allocates dfresh"
  unfolding allocates_def
proof (intro allI impI conjI notI)
  fix s :: "('a, 'b) dmap" assume "wf_dmap s" "dfresh s \<in> dnodes s"
  then have "Suc (Max (dnodes s)) \<le> Max (dnodes s)"
    by (intro Max_ge) (auto simp: wf_dmap_def wf_lmap_def lrep_def dfresh_def)
  then show False by simp
qed (simp add: dfresh_def)

definition dlist_insert :: "'k::linorder \<Rightarrow> 'v \<Rightarrow> ('k, 'v) dmap \<Rightarrow> bool \<times> ('k, 'v) dmap" where
  "dlist_insert k v s =
     (case dinsert_map (\<lambda>_. didle) (\<lambda>_ s. s) (\<lambda>_ _. True) dfresh (card (dnodes s)) 1 k v s of
        Some r \<Rightarrow> r | None \<Rightarrow> (False, s))"

definition dlist_remove :: "'k::linorder \<Rightarrow> ('k, 'v) dmap \<Rightarrow> bool \<times> ('k, 'v) dmap" where
  "dlist_remove k s =
     (case dremove_map (\<lambda>_. didle) (\<lambda>_ s. s) (\<lambda>_ _. True) (card (dnodes s)) 1 k s of
        Some r \<Rightarrow> r | None \<Rightarrow> (False, s))"

definition dlist_find :: "'k::linorder \<Rightarrow> ('k, 'v) dmap \<Rightarrow> 'v option" where
  "dlist_find k s = (case dfind_plain didle (card (dnodes s)) k s of Some r \<Rightarrow> r | None \<Rightarrow> None)"

definition inv_dmap :: "('k::linorder, 'v) dmap \<Rightarrow> bool" where
  "inv_dmap s \<longleftrightarrow> wf_dmap s \<and> prevs_ok s"

lemma idle_dvalidation: "inv_dmap s \<Longrightarrow> dvalidation_state didle (\<lambda>s. s) (card (dnodes s)) k s = s"
  by (auto simp: inv_dmap_def dvalidation_state_def elim: dsearch_idle [where k = k])

lemma dlist_insert_run:
  assumes "inv_dmap s"
  shows "\<exists>b s'. dtry_insert didle (\<lambda>s. s) (\<lambda>_. True) dfresh (card (dnodes s)) k v s = (Some b, s') \<and> dlist_insert k v s = (b, s')"
proof -
  obtain nxt where "dfind_location didle (card (dnodes s)) k s = Some (nxt, s)" "dstill_there (dprev (dnode s nxt)) nxt s"
    "left_ok k (dprev (dnode s nxt)) (forget s)"
    using assms dsearch_idle [of s k] unfolding inv_dmap_def by metis
  moreover have "dis_end (dnode s (droot s))" using assms by (auto simp: inv_dmap_def wf_dmap_def)
  ultimately have "\<exists>b s'. dtry_insert didle (\<lambda>s. s) (\<lambda>_. True) dfresh (card (dnodes s)) k v s = (Some b, s')"
    by (auto simp: dtry_insert_def left_ok_def Let_def split_beta)
  then show ?thesis by (auto simp: dlist_insert_def dinsert_map_def)
qed

lemma dlist_remove_run:
  assumes "inv_dmap s"
  shows "\<exists>b s'. dtry_remove didle (\<lambda>s. s) (\<lambda>_. True) (card (dnodes s)) k s = (Some b, s') \<and> dlist_remove k s = (b, s')
    \<and> (b \<longleftrightarrow> dmap_abs s k \<noteq> None)"
proof -
  have wf: "wf_lmap (forget s)" using assms by (simp add: inv_dmap_def wf_dmap_def)
  obtain nxt where f: "dfind_location didle (card (dnodes s)) k s = Some (nxt, s)" "dstill_there (dprev (dnode s nxt)) nxt s"
    "nxt \<noteq> droot s" "find_location idle (card (dnodes s)) k (forget s) = Some ((dprev (dnode s nxt), nxt), forget s)"
    using assms dsearch_idle [of s k] unfolding inv_dmap_def by metis
  have "dmap_abs s k = (if \<not> dis_end (dnode s nxt) \<and> \<not> k < dkey (dnode s nxt) then Some (dval (dnode s nxt)) else None)"
    using list_find_abs [OF wf, of k] f(3,4) by (simp add: list_find_def find_plain_def dmap_abs_def split: if_splits)
  moreover have "\<exists>b s'. dtry_remove didle (\<lambda>s. s) (\<lambda>_. True) (card (dnodes s)) k s = (Some b, s')
      \<and> (b \<longleftrightarrow> \<not> dis_end (dnode s nxt) \<and> \<not> k < dkey (dnode s nxt))"
    using f(1,2) by (auto simp: dtry_remove_def Let_def)
  ultimately show ?thesis by (auto simp: dlist_remove_def dremove_map_def split: if_splits)
qed

interpretation dlist: map_adt inv_dmap dmap_abs dlist_insert dlist_remove dlist_find
proof
  fix s :: "('a::linorder, 'b) dmap" and k v b s'
  assume inv: "inv_dmap s"
  then have wf: "wf_dmap s" by (simp add: inv_dmap_def)
  show "dlist_find k s = dmap_abs s k"
  proof -
    obtain nxt where f: "dfind_location didle (card (dnodes s)) k s = Some (nxt, s)" "nxt \<noteq> droot s"
      "find_location idle (card (dnodes s)) k (forget s) = Some ((dprev (dnode s nxt), nxt), forget s)"
      using inv dsearch_idle [of s k] unfolding inv_dmap_def by metis
    then show ?thesis using list_find_abs [of "forget s" k] wf
      by (simp add: dlist_find_def dfind_plain_def list_find_def find_plain_def dmap_abs_def wf_dmap_def split: if_splits)
  qed
  show "inv_dmap s' \<and> (b \<longleftrightarrow> dmap_abs s k = None) \<and> dmap_abs s' = (if b then (dmap_abs s)(k \<mapsto> v) else dmap_abs s)"
    if "dlist_insert k v s = (b, s')"
  proof -
    obtain b' t where run: "dtry_insert didle (\<lambda>s. s) (\<lambda>_. True) dfresh (card (dnodes s)) k v s = (Some b', t)" "dlist_insert k v s = (b', t)"
      using dlist_insert_run [OF inv] by blast
    have "b' = b" "t = s'" using run(2) that by simp_all
    then show ?thesis using dinsert_attempt [OF dl.rely_idle dl.rely_idle wf dfresh_allocates run(1)] inv
      unfolding idle_dvalidation [OF inv] by (simp add: inv_dmap_def)
  qed
  show "inv_dmap s' \<and> (b \<longleftrightarrow> dmap_abs s k \<noteq> None) \<and> dmap_abs s' = (dmap_abs s)(k := None)" if "dlist_remove k s = (b, s')"
  proof -
    obtain b' t where run: "dtry_remove didle (\<lambda>s. s) (\<lambda>_. True) (card (dnodes s)) k s = (Some b', t)" "dlist_remove k s = (b', t)"
      "b' \<longleftrightarrow> dmap_abs s k \<noteq> None" using dlist_remove_run [OF inv] by blast
    have "b' = b" "t = s'" using run(2) that by simp_all
    then show ?thesis using dremove_attempt [OF dl.rely_idle dl.rely_idle wf run(1)] inv run(3)
      unfolding idle_dvalidation [OF inv] by (auto simp: inv_dmap_def fun_upd_idem)
  qed
qed

section \<open>Ranges, the check and the destructor\<close>

lemma drange_forget:
  assumes "wf_dmap s"
  shows "drange fuel a b s = range_query fuel a b (forget s)"
proof -
  have step: "dnext (dnode s p) \<in> dnodes s \<and> dnext (dnode s p) \<noteq> droot s" if "p \<in> dnodes s" "\<not> dis_end (dnode s p)" for p
    using assms that wf_next [of "forget s" p] by (auto simp: wf_dmap_def)
  have skip: "dskip_to a fuel p s = skip_to a fuel p (forget s)" if p: "p \<in> dnodes s" "p \<noteq> droot s" for p fuel
    using p
  proof (induction fuel arbitrary: p)
    case (Suc fuel)
    show ?case
      using Suc.IH [of "dnext (dnode s p)"] Suc.prems step [OF Suc.prems(1)] by (cases "dis_end (dnode s p)") simp_all
  qed simp
  have stop: "q \<in> dnodes s \<and> q \<noteq> droot s" if p: "p \<in> dnodes s" "p \<noteq> droot s" "dskip_to a fuel p s = Some q" for p q fuel
    using p
  proof (induction fuel arbitrary: p)
    case (Suc fuel)
    then show ?case using step [OF Suc.prems(1)] by (auto split: if_splits)
  qed simp
  have add: "dadd_until b fuel p s = add_until b fuel p (forget s)" if p: "p \<in> dnodes s" "p \<noteq> droot s" for p fuel
    using p
  proof (induction fuel arbitrary: p)
    case (Suc fuel)
    then show ?case
      using Suc.IH [of "dnext (dnode s p)"] step [OF Suc.prems(1)] by (cases "dis_end (dnode s p)") simp_all
  qed simp
  show ?thesis unfolding drange_def range_query_def
    using skip [OF droot_next [OF assms], of fuel] add stop [OF droot_next [OF assms]] by (auto split: option.splits)
qed

lemma dcheck_forget:
  assumes "wf_dmap s"
  shows "dcheck fuel s = check fuel (forget s)"
proof -
  have step: "dnext (dnode s p) \<in> dnodes s \<and> dnext (dnode s p) \<noteq> droot s" if "p \<in> dnodes s" "\<not> dis_end (dnode s p)" for p
    using assms that wf_next [of "forget s" p] by (auto simp: wf_dmap_def)
  have loop: "dcheck_loop fuel k p i s = check_loop fuel k p i (forget s)" if p: "p \<in> dnodes s" "p \<noteq> droot s" for p k i fuel
    using p
  proof (induction fuel arbitrary: p k i)
    case (Suc fuel)
    then show ?case
      using Suc.IH [of "dnext (dnode s p)"] step [OF Suc.prems(1)] by (cases "dis_end (dnode s p)") simp_all
  qed simp
  show ?thesis unfolding dcheck_def check_def
    using droot_next [OF assms] loop step by (auto simp: Let_def)
qed

lemma dinit_inv:
  assumes "head \<noteq> tail" "head \<noteq> nullptr" "tail \<noteq> nullptr"
  shows "inv_dmap (dinit tail head (k::'k::linorder) v)" "dmap_abs (dinit tail head k v) = Map.empty"
proof -
  have "lrep (forget (dinit tail head k v)) [] tail"
    using assms by (auto simp: lrep_def linked_def forget_def dinit_def set_dprev_def)
  moreover from this show "dmap_abs (dinit tail head k v) = Map.empty" using lrep_abs by (fastforce simp: dmap_abs_def)
  ultimately have "wf_lmap (forget (dinit tail head k v))" by (auto simp: wf_lmap_def)
  then show "inv_dmap (dinit tail head k v)"
    using assms by (auto simp: inv_dmap_def wf_dmap_def prevs_ok_def dstill_there_def dinit_def set_dprev_def)
qed

lemmas dlist_eval = dtry_insert_def dtry_remove_def dfind_location_def new_dnode_def set_dnext_def set_dprev_def set_dremoved_def
  dretire_def dstill_there_def dinit_def dfresh_def dvalidation_state_def numeral_2_eq_2 Let_def

definition done_entry :: "(nat, nat) dmap" where
  "done_entry = snd (dtry_insert didle (\<lambda>s. s) (\<lambda>_. True) dfresh 2 5 50 (dinit 2 1 0 0))"

lemma done_entry_run:
  "dtry_insert didle (\<lambda>s. s) (\<lambda>_. True) dfresh 2 5 50 (dinit 2 1 0 0) = (Some True, done_entry)"
  unfolding done_entry_def by (simp add: dlist_eval)

lemma done_entry_inv: "inv_dmap done_entry" "dmap_abs done_entry = [5 \<mapsto> 50]"
proof -
  have i: "inv_dmap (dinit 2 1 0 (0::nat) :: (nat, nat) dmap)" by (rule dinit_inv) simp_all
  then have w: "wf_dmap (dinit 2 1 0 (0::nat) :: (nat, nat) dmap)" by (simp add: inv_dmap_def)
  have v: "dvalidation_state didle (\<lambda>s. s) 2 5 (dinit 2 1 0 (0::nat) :: (nat, nat) dmap) = dinit 2 1 0 0" by (simp add: dlist_eval)
  from dinsert_attempt [OF dl.rely_idle dl.rely_idle w dfresh_allocates done_entry_run, unfolded v] i
  show "inv_dmap done_entry" "dmap_abs done_entry = [5 \<mapsto> 50]" by (simp_all add: inv_dmap_def dinit_inv(2))
qed

text \<open>
  A removal that finds its key absent validates that the predecessor still points to the
  node it stopped at, but not that the predecessor's key is smaller: when the key is
  inserted between the search and the load of the prev pointer, the answer false is
  validated although the key is present at the validation.
\<close>

lemma dremove_absent_stale:
  "dtry_remove (\<lambda>_ _. done_entry) (\<lambda>s. s) (\<lambda>_. True) 2 5 (dinit 2 1 0 0) = (Some False, done_entry)
   \<and> dmap_abs done_entry 5 = Some 50"
  using done_entry_inv(2) by (simp add: done_entry_def dlist_eval)

section \<open>The properties\<close>

text \<open>C29: An insertion attempt on the doubly linked list that returns an answer acts atomically at its
  validation although the prev pointer it used may be out of date: it reports a present key
  and adds an absent one, keeps the list well formed and keeps right prev pointers right.\<close>

theorem dlist_try_insert_atomic:
  assumes "dl.rely env" "dl.rely (\<lambda>_. e)" "wf_dmap s" "allocates alloc"
    and "dtry_insert env e locked alloc fuel k v s = (Some b, s')"
  shows "wf_dmap s' \<and> (b \<longleftrightarrow> dmap_abs (dvalidation_state env e fuel k s) k = None) \<and>
    dmap_abs s' = (if b then (dmap_abs (dvalidation_state env e fuel k s))(k \<mapsto> v) else dmap_abs (dvalidation_state env e fuel k s)) \<and>
    (prevs_ok (dvalidation_state env e fuel k s) \<longrightarrow> prevs_ok s')"
  by (rule dinsert_attempt [OF assms])

theorem dlist_try_insert_atomic_witness: "wf_dmap done_entry \<and> prevs_ok done_entry \<and> dmap_abs done_entry = [5 \<mapsto> 50]"
proof -
  have i: "inv_dmap (dinit 2 1 0 (0::nat) :: (nat, nat) dmap)" by (rule dinit_inv) simp_all
  then have w: "wf_dmap (dinit 2 1 0 (0::nat) :: (nat, nat) dmap)" by (simp add: inv_dmap_def)
  have v: "dvalidation_state didle (\<lambda>s. s) 2 5 (dinit 2 1 0 (0::nat) :: (nat, nat) dmap) = dinit 2 1 0 0" by (simp add: dlist_eval)
  from dlist_try_insert_atomic [OF dl.rely_idle dl.rely_idle w dfresh_allocates done_entry_run, unfolded v] i
  show ?thesis by (simp add: inv_dmap_def dinit_inv(2))
qed

text \<open>Without interference every history of find, insert and remove on the doubly linked list
  returns what the abstract map returns, and all prev pointers of the list stay right.\<close>

theorem dlist_refines_map:
  assumes "inv_dmap s" "dlist.impl_run xs s = (rs, s')"
  shows "inv_dmap s' \<and> spec_run xs (dmap_abs s) = (rs, dmap_abs s')"
  by (rule dlist.impl_run_refines [OF assms])

theorem dlist_refines_map_witness:
  "fst (dlist.impl_run [Insert (3::nat) (30::nat), Find 3, Insert 3 31, Remove 3, Find 3] (dinit 2 1 0 0)) =
     [Inserted True, Found (Some 30), Inserted False, Removed_key True, Found None]"
proof -
  let ?s = "dinit 2 1 (0::nat) (0::nat)" and ?xs = "[Insert (3::nat) (30::nat), Find 3, Insert 3 31, Remove 3, Find 3]"
  have wf: "inv_dmap ?s" by (rule dinit_inv) simp_all
  obtain rs s' where r: "dlist.impl_run ?xs ?s = (rs, s')" by (metis prod.exhaust)
  from dlist_refines_map [OF wf r] have "spec_run ?xs (dmap_abs ?s) = (rs, dmap_abs s')" by simp
  then show ?thesis unfolding r by (auto simp: dinit_inv(2))
qed

text \<open>C30: The destructor of the doubly linked list retires the head node only, since the recursion stops
  at a node marked as an end and the head is marked: the nodes of all entries and the
  tail are never given back.\<close>

theorem dlist_destructor_stops:
  assumes "inv_dmap s" "0 < fuel"
  shows "destroy_dmap fuel s = Some (dretire (droot s) s)"
  using assms by (cases fuel) (auto simp: destroy_dmap_def inv_dmap_def wf_dmap_def)

theorem dlist_destructor_stops_witness:
  "map_option dretired (destroy_dmap 9 done_entry) = Some [1] \<and> dnodes done_entry = {1, 2, 3}"
  using dlist_destructor_stops [OF done_entry_inv(1), of 9] by (auto simp: done_entry_def dlist_eval)

end
