(* ===== verification/Hash_Set.thy ===== *)
theory Hash_Set
  imports Hash_Block
begin

text \<open>
  The hash table with chained nodes, \<^verbatim>\<open>structures/hash/set.h\<close>. Every slot has a lock and a version
  number that each update of the slot increments; an update searches the chain without the
  lock and is valid if the number has not changed when the lock is taken. The search of the
  model runs under interference that changes a chain only together with its version number.
  The number has 32 bits: the theorems are for attempts during which the slot is updated
  less than \<open>2\<^sup>3\<^sup>2\<close> times.
\<close>

section \<open>Nodes and slots\<close>

record ('k, 'v) hnode =
  hn_key :: 'k
  hn_value :: 'v
  hn_next :: addr

text \<open>\<open>updates\<close> counts the updates; the code keeps it modulo \<open>2\<^sup>3\<^sup>2\<close>.\<close>

record slot =
  slot_head :: addr
  updates :: nat

record ('k, 'v) hset =
  hnode :: "addr \<Rightarrow> ('k, 'v) hnode"
  hnodes :: "addr set"
  slots :: "slot list"
  hretired :: "addr list"

type_synonym ('k, 'v) hs_env = "nat \<Rightarrow> ('k, 'v) hset \<Rightarrow> ('k, 'v) hset"

definition version_num :: "nat \<Rightarrow> ('k, 'v) hset \<Rightarrow> 32 word" where
  "version_num i s = of_nat (updates (slots s ! i))"

definition get_slot :: "('k \<Rightarrow> u64) \<Rightarrow> 'k \<Rightarrow> ('k, 'v) hset \<Rightarrow> nat" where
  "get_slot Hash k s = unat (Hash k AND (of_nat (length (slots s)) - 1))"

text \<open>The versioned pointer that a search returns: the head of a slot or the next pointer of a node.\<close>

datatype cell = Head nat | Next addr

fun cell_read :: "cell \<Rightarrow> ('k, 'v) hset \<Rightarrow> addr" where
  "cell_read (Head i) s = slot_head (slots s ! i)"
| "cell_read (Next p) s = hn_next (hnode s p)"

fun cell_write :: "cell \<Rightarrow> addr \<Rightarrow> ('k, 'v) hset \<Rightarrow> ('k, 'v) hset" where
  "cell_write (Head i) q s = s\<lparr>slots := (slots s)[i := (slots s ! i)\<lparr>slot_head := q\<rparr>]\<rparr>"
| "cell_write (Next p) q s = s\<lparr>hnode := (hnode s)(p := (hnode s p)\<lparr>hn_next := q\<rparr>)\<rparr>"

definition new_hnode :: "(('k, 'v) hset \<Rightarrow> addr) \<Rightarrow> 'k \<Rightarrow> 'v \<Rightarrow> addr \<Rightarrow> ('k, 'v) hset \<Rightarrow> addr \<times> ('k, 'v) hset" where
  "new_hnode alloc k v nxt s =
     (let p = alloc s
      in (p, s\<lparr>hnode := (hnode s)(p := \<lparr>hn_key = k, hn_value = v, hn_next = nxt\<rparr>), hnodes := insert p (hnodes s)\<rparr>))"

definition bump_version :: "nat \<Rightarrow> ('k, 'v) hset \<Rightarrow> ('k, 'v) hset" where
  "bump_version i s = s\<lparr>slots := (slots s)[i := (slots s ! i)\<lparr>updates := updates (slots s ! i) + 1\<rparr>]\<rparr>"

definition hretire :: "addr \<Rightarrow> ('k, 'v) hset \<Rightarrow> ('k, 'v) hset" where
  "hretire p s = s\<lparr>hretired := p # hretired s\<rparr>"

section \<open>Operations\<close>

fun slot_loop :: "('k, 'v) hs_env \<Rightarrow> 'k \<Rightarrow> nat \<Rightarrow> cell \<Rightarrow> addr \<Rightarrow> ('k, 'v) hset \<Rightarrow> ((cell \<times> addr) \<times> ('k, 'v) hset) option" where
  "slot_loop env k 0 cur nxt s = None"
| "slot_loop env k (Suc fuel) cur nxt s =
     (if nxt \<noteq> nullptr \<and> hn_key (hnode s nxt) \<noteq> k
      then let cur' = Next nxt; s1 = env fuel s in slot_loop env k fuel cur' (cell_read cur' s1) s1
      else Some ((cur, nxt), s))"

definition find_in_slot :: "('k, 'v) hs_env \<Rightarrow> nat \<Rightarrow> nat \<Rightarrow> 'k \<Rightarrow> ('k, 'v) hset \<Rightarrow> ((cell \<times> addr) \<times> ('k, 'v) hset) option" where
  "find_in_slot env fuel i k s = (let s1 = env fuel s in slot_loop env k fuel (Head i) (cell_read (Head i) s1) s1)"

definition set_find :: "('k \<Rightarrow> u64) \<Rightarrow> ('k, 'v) hs_env \<Rightarrow> nat \<Rightarrow> 'k \<Rightarrow> ('k, 'v) hset \<Rightarrow> 'v option option" where
  "set_find Hash env fuel k s =
     map_option (\<lambda>((cur, nxt), s1). if nxt \<noteq> nullptr then Some (hn_value (hnode s1 nxt)) else None)
       (find_in_slot env fuel (get_slot Hash k s) k s)"

text \<open>One round of \<open>insert_at\<close> and \<open>remove_at\<close>; \<open>e\<close> is what happens before the lock is taken.\<close>

definition insert_at_round :: "('k, 'v) hs_env \<Rightarrow> (('k, 'v) hset \<Rightarrow> ('k, 'v) hset) \<Rightarrow> bool \<Rightarrow> (('k, 'v) hset \<Rightarrow> addr) \<Rightarrow> nat
    \<Rightarrow> nat \<Rightarrow> 'k \<Rightarrow> 'v \<Rightarrow> ('k, 'v) hset \<Rightarrow> bool option \<times> ('k, 'v) hset" where
  "insert_at_round env e locked alloc fuel i k v s =
     (let vn = version_num i s
      in case find_in_slot env fuel i k s of
           None \<Rightarrow> (None, s)
         | Some ((cur, nxt), s1) \<Rightarrow>
             if nxt \<noteq> nullptr then (Some False, s1)
             else let s2 = e s1
                  in if locked \<and> version_num i s2 = vn
                     then let (p, s3) = new_hnode alloc k v nullptr s2
                          in (Some True, bump_version i (cell_write cur p s3))
                     else (None, s2))"

definition remove_at_round :: "('k, 'v) hs_env \<Rightarrow> (('k, 'v) hset \<Rightarrow> ('k, 'v) hset) \<Rightarrow> bool \<Rightarrow> nat
    \<Rightarrow> nat \<Rightarrow> 'k \<Rightarrow> ('k, 'v) hset \<Rightarrow> bool option \<times> ('k, 'v) hset" where
  "remove_at_round env e locked fuel i k s =
     (let vn = version_num i s
      in case find_in_slot env fuel i k s of
           None \<Rightarrow> (None, s)
         | Some ((cur, nxt), s1) \<Rightarrow>
             if nxt = nullptr then (Some False, s1)
             else let s2 = e s1
                  in if locked \<and> version_num i s2 = vn
                     then (Some True, bump_version i (hretire nxt (cell_write cur (hn_next (hnode s2 nxt)) s2)))
                     else (None, s2))"

definition set_insert :: "('k \<Rightarrow> u64) \<Rightarrow> (nat \<Rightarrow> ('k, 'v) hs_env) \<Rightarrow> (nat \<Rightarrow> ('k, 'v) hset \<Rightarrow> ('k, 'v) hset) \<Rightarrow> (nat \<Rightarrow> bool)
    \<Rightarrow> (('k, 'v) hset \<Rightarrow> addr) \<Rightarrow> nat \<Rightarrow> nat \<Rightarrow> 'k \<Rightarrow> 'v \<Rightarrow> ('k, 'v) hset \<Rightarrow> (bool \<times> ('k, 'v) hset) option" where
  "set_insert Hash env e locked alloc fuel rounds k v s =
     (let i = get_slot Hash k s
      in try_loop (\<lambda>r. insert_at_round (env r) (e r) (locked r) alloc fuel i k v) rounds s)"

definition set_remove :: "('k \<Rightarrow> u64) \<Rightarrow> (nat \<Rightarrow> ('k, 'v) hs_env) \<Rightarrow> (nat \<Rightarrow> ('k, 'v) hset \<Rightarrow> ('k, 'v) hset) \<Rightarrow> (nat \<Rightarrow> bool)
    \<Rightarrow> nat \<Rightarrow> nat \<Rightarrow> 'k \<Rightarrow> ('k, 'v) hset \<Rightarrow> (bool \<times> ('k, 'v) hset) option" where
  "set_remove Hash env e locked fuel rounds k s =
     (let i = get_slot Hash k s
      in try_loop (\<lambda>r. remove_at_round (env r) (e r) (locked r) fuel i k) rounds s)"

definition set_empty :: "nat \<Rightarrow> ('k, 'v) hnode \<Rightarrow> ('k, 'v) hset" where
  "set_empty n junk =
     (let size = push_bit (log2_up n) (1 :: u64)
      in \<lparr>hnode = (\<lambda>_. junk), hnodes = {}, slots = replicate (unat (2 * size)) \<lparr>slot_head = nullptr, updates = 0\<rparr>, hretired = []\<rparr>)"

fun retire_list :: "nat \<Rightarrow> addr \<Rightarrow> ('k, 'v) hset \<Rightarrow> ('k, 'v) hset option" where
  "retire_list 0 ptr s = None"
| "retire_list (Suc fuel) ptr s =
     (if ptr = nullptr then Some s else map_option (hretire ptr) (retire_list fuel (hn_next (hnode s ptr)) s))"

fun retire_slots :: "nat \<Rightarrow> nat list \<Rightarrow> ('k, 'v) hset \<Rightarrow> ('k, 'v) hset option" where
  "retire_slots fuel [] s = Some (s\<lparr>slots := []\<rparr>)"
| "retire_slots fuel (i # is) s =
     (case retire_list fuel (slot_head (slots s ! i)) s of None \<Rightarrow> None | Some s1 \<Rightarrow> retire_slots fuel is s1)"

fun count_chain :: "nat \<Rightarrow> addr \<Rightarrow> ('k, 'v) hset \<Rightarrow> nat option" where
  "count_chain 0 ptr s = None"
| "count_chain (Suc fuel) ptr s =
     (if ptr = nullptr then Some 0 else map_option Suc (count_chain fuel (hn_next (hnode s ptr)) s))"

definition set_check :: "nat \<Rightarrow> ('k, 'v) hset \<Rightarrow> nat option" where
  "set_check fuel s =
     (let cs = map (\<lambda>i. count_chain fuel (slot_head (slots s ! i)) s) [0..<length (slots s)]
      in if None \<in> set cs then None else Some (sum_list (map the cs)))"

section \<open>Chains\<close>

fun hchain :: "('k, 'v) hset \<Rightarrow> addr \<Rightarrow> addr list \<Rightarrow> bool" where
  "hchain s p [] \<longleftrightarrow> p = nullptr"
| "hchain s p (q # qs) \<longleftrightarrow> p = q \<and> q \<noteq> nullptr \<and> hchain s (hn_next (hnode s q)) qs"

abbreviation slot_chain :: "('k, 'v) hset \<Rightarrow> nat \<Rightarrow> addr list \<Rightarrow> bool" where
  "slot_chain s i ps \<equiv> hchain s (slot_head (slots s ! i)) ps"

definition chain_ok :: "('k \<Rightarrow> u64) \<Rightarrow> ('k, 'v) hset \<Rightarrow> nat \<Rightarrow> addr list \<Rightarrow> bool" where
  "chain_ok Hash s i ps \<longleftrightarrow> slot_chain s i ps \<and> set ps \<subseteq> hnodes s \<and> distinct (map (\<lambda>p. hn_key (hnode s p)) ps)
     \<and> (\<forall>p\<in>set ps. get_slot Hash (hn_key (hnode s p)) s = i)"

definition wf_hset :: "('k \<Rightarrow> u64) \<Rightarrow> ('k, 'v) hset \<Rightarrow> bool" where
  "wf_hset Hash s \<longleftrightarrow> finite (hnodes s) \<and> nullptr \<notin> hnodes s \<and> (\<exists>b<64. length (slots s) = 2 ^ b)
     \<and> (\<forall>i<length (slots s). \<exists>ps. chain_ok Hash s i ps)"

lemma hchain_unique: "hchain s p ps \<Longrightarrow> hchain s p qs \<Longrightarrow> ps = qs"
proof (induction ps arbitrary: p qs)
  case Nil
  then show ?case by (cases qs) auto
next
  case (Cons q ps)
  then show ?case by (cases qs) auto
qed

lemma hchain_frame: "(\<And>q. q \<in> set ps \<Longrightarrow> hn_next (hnode s' q) = hn_next (hnode s q)) \<Longrightarrow> hchain s' p ps = hchain s p ps"
  by (induction ps arbitrary: p) auto

text \<open>The map: what the chain of the key's slot says; the chain is found by walking.\<close>

fun hwalk :: "nat \<Rightarrow> addr \<Rightarrow> ('k, 'v) hset \<Rightarrow> addr list" where
  "hwalk 0 p s = []"
| "hwalk (Suc n) p s = (if p = nullptr then [] else p # hwalk n (hn_next (hnode s p)) s)"

definition hentry :: "('k, 'v) hset \<Rightarrow> addr \<Rightarrow> 'k \<times> 'v" where
  "hentry s p = (hn_key (hnode s p), hn_value (hnode s p))"

definition hset_abs :: "('k \<Rightarrow> u64) \<Rightarrow> ('k, 'v) hset \<Rightarrow> 'k \<rightharpoonup> 'v" where
  "hset_abs Hash s k = map_of (map (hentry s) (hwalk (card (hnodes s)) (slot_head (slots s ! get_slot Hash k s)) s)) k"

lemma hwalk_hchain: "hchain s p ps \<Longrightarrow> length ps \<le> n \<Longrightarrow> hwalk n p s = ps"
proof (induction ps arbitrary: p n)
  case Nil
  then show ?case by (cases n) auto
next
  case (Cons q ps)
  then show ?case by (cases n) auto
qed

lemma chain_ok_length:
  assumes "wf_hset Hash s" "chain_ok Hash s i ps"
  shows "length ps \<le> card (hnodes s)"
proof -
  have "distinct ps" using assms(2) by (auto simp: chain_ok_def distinct_map)
  then show ?thesis using assms card_mono [of "hnodes s" "set ps"] distinct_card [of ps] by (auto simp: chain_ok_def wf_hset_def)
qed

lemma hset_abs_chain:
  assumes "wf_hset Hash s" "chain_ok Hash s (get_slot Hash k s) ps"
  shows "hset_abs Hash s k = map_of (map (hentry s) ps) k"
proof -
  have "slot_chain s (get_slot Hash k s) ps" using assms(2) by (simp add: chain_ok_def)
  from hwalk_hchain [OF this chain_ok_length [OF assms]] show ?thesis by (simp add: hset_abs_def)
qed

lemma get_slot_bound:
  assumes "wf_hset Hash s"
  shows "get_slot Hash k s < length (slots s)"
proof -
  obtain b where b: "b < 64" "length (slots s) = 2 ^ b" using assms by (auto simp: wf_hset_def)
  have "(of_nat (length (slots s)) :: u64) - 1 = mask b" by (simp add: b(2) mask_eq_exp_minus_1)
  then have "get_slot Hash k s = unat (take_bit b (Hash k))" by (simp add: get_slot_def take_bit_eq_mask)
  also have "\<dots> < 2 ^ b" by (simp add: unat_take_bit_mod)
  finally show ?thesis using b(2) by simp
qed

text \<open>What other threads keep: nodes never change key or value, and a chain changes only with its count.\<close>

definition hkeeps :: "('k, 'v) hset \<Rightarrow> ('k, 'v) hset \<Rightarrow> bool" where
  "hkeeps s s' \<longleftrightarrow> length (slots s') = length (slots s) \<and> hnodes s \<subseteq> hnodes s'
     \<and> (\<forall>p\<in>hnodes s. hn_key (hnode s' p) = hn_key (hnode s p) \<and> hn_value (hnode s' p) = hn_value (hnode s p))
     \<and> (\<forall>i<length (slots s). updates (slots s ! i) \<le> updates (slots s' ! i)
          \<and> (updates (slots s' ! i) = updates (slots s ! i) \<longrightarrow> (\<forall>ps. slot_chain s i ps \<longrightarrow> slot_chain s' i ps)))"

lemma hkeeps_trans:
  assumes "hkeeps s t" "hkeeps t u"
  shows "hkeeps s u"
proof -
  have "\<forall>i<length (slots s). updates (slots s ! i) \<le> updates (slots u ! i)
      \<and> (updates (slots u ! i) = updates (slots s ! i) \<longrightarrow> (\<forall>ps. slot_chain s i ps \<longrightarrow> slot_chain u i ps))"
  proof (intro allI impI)
    fix i assume i: "i < length (slots s)"
    then have "updates (slots s ! i) \<le> updates (slots t ! i)" "updates (slots t ! i) \<le> updates (slots u ! i)"
      using assms by (auto simp: hkeeps_def)
    moreover have "\<forall>ps. slot_chain s i ps \<longrightarrow> slot_chain u i ps" if "updates (slots u ! i) = updates (slots s ! i)"
      using assms i calculation that by (auto simp: hkeeps_def)
    ultimately show "updates (slots s ! i) \<le> updates (slots u ! i)
      \<and> (updates (slots u ! i) = updates (slots s ! i) \<longrightarrow> (\<forall>ps. slot_chain s i ps \<longrightarrow> slot_chain u i ps))" by simp
  qed
  then show ?thesis using assms unfolding hkeeps_def by auto
qed

interpretation hst: monotone_shared hkeeps "wf_hset Hash" for Hash
proof
  show "hkeeps s s" for s :: "('a, 'b) hset" by (simp add: hkeeps_def)
qed (rule hkeeps_trans)

section \<open>Searching\<close>

definition cell_at :: "nat \<Rightarrow> addr list \<Rightarrow> cell" where
  "cell_at i as = (if as = [] then Head i else Next (last as))"

lemma slot_loop_evolves:
  assumes "hst.rely Hash env" "slot_loop env k fuel cur nxt s = Some ((c, n), s')"
  shows "hst.evolves Hash s s'"
  using assms(2)
proof (induction fuel arbitrary: cur nxt s)
  case (Suc fuel)
  have "hst.evolves Hash s (env fuel s)" by (rule hst.relyD [OF assms(1)])
  then show ?case
    using Suc hst.evolves_trans [of Hash s "env fuel s" s'] by (auto simp: Let_def split: if_splits)
qed simp

lemma hchain_next: "hchain s p (as @ x # bs) \<Longrightarrow> hn_next (hnode s x) = hd (bs @ [nullptr])"
proof (induction as arbitrary: p)
  case Nil
  then show ?case by (cases bs) auto
qed auto

text \<open>If the slot is not updated during the search, the search finds the place of the key in the chain.\<close>

lemma slot_loop_place:
  assumes "hst.rely Hash env" "i < length (slots s)" "wf_hset Hash s" "slot_loop env k fuel cur nxt s = Some ((c, n), s')"
    and "updates (slots s' ! i) = updates (slots s ! i)" "slot_chain s i (as @ bs)" "set (as @ bs) \<subseteq> hnodes s"
    and "cur = cell_at i as" "nxt = hd (bs @ [nullptr])" "\<forall>a\<in>set as. hn_key (hnode s a) \<noteq> k"
  shows "\<exists>as' bs'. as @ bs = as' @ bs' \<and> c = cell_at i as' \<and> n = hd (bs' @ [nullptr])
    \<and> (\<forall>a\<in>set as'. hn_key (hnode s a) \<noteq> k) \<and> (n \<noteq> nullptr \<longrightarrow> hn_key (hnode s n) = k)"
  using assms(2-)
proof (induction fuel arbitrary: s cur nxt as bs)
  case (Suc fuel)
  show ?case
  proof (cases "nxt \<noteq> nullptr \<and> hn_key (hnode s nxt) \<noteq> k")
    case False
    then show ?thesis using Suc.prems by (intro exI [of _ as] exI [of _ bs]) auto
  next
    case True
    let ?s = "env fuel s"
    obtain bs' where bs: "bs = nxt # bs'" using True Suc.prems(8) by (cases bs) auto
    have run: "slot_loop env k fuel (Next nxt) (hn_next (hnode ?s nxt)) ?s = Some ((c, n), s')"
      using Suc.prems(3) True by (simp add: Let_def)
    have ev: "hst.evolves Hash s ?s" by (rule hst.relyD [OF assms(1)])
    then have kp: "hkeeps s ?s" "wf_hset Hash ?s" using Suc.prems(2) by (simp_all add: hst.evolves_def)
    have "hkeeps ?s s'" using slot_loop_evolves [OF assms(1) run] by (simp add: hst.evolves_def)
    then have up: "updates (slots ?s ! i) = updates (slots s ! i)" "updates (slots s' ! i) = updates (slots ?s ! i)"
      using kp(1) Suc.prems(1,4) unfolding hkeeps_def by (metis order_antisym)+
    then have ch: "slot_chain ?s i ((as @ [nxt]) @ bs')" using kp(1) Suc.prems(1,5) bs by (auto simp: hkeeps_def)
    have keys: "hn_key (hnode ?s p) = hn_key (hnode s p)" if "p \<in> set (as @ bs)" for p
      using kp(1) Suc.prems(6) that by (auto simp: hkeeps_def)
    have "hn_next (hnode ?s nxt) = hd (bs' @ [nullptr])" using hchain_next [of ?s _ as nxt bs'] ch by simp
    moreover have "i < length (slots ?s)" "set ((as @ [nxt]) @ bs') \<subseteq> hnodes ?s"
      using kp(1) Suc.prems(1,6) bs by (auto simp: hkeeps_def)
    moreover have "Next nxt = cell_at i (as @ [nxt])" "\<forall>a\<in>set (as @ [nxt]). hn_key (hnode ?s a) \<noteq> k"
      using True Suc.prems(9) keys bs by (auto simp: cell_at_def)
    ultimately obtain as' bs'' where "(as @ [nxt]) @ bs' = as' @ bs''" "c = cell_at i as'" "n = hd (bs'' @ [nullptr])"
      "\<forall>a\<in>set as'. hn_key (hnode ?s a) \<noteq> k" "n \<noteq> nullptr \<longrightarrow> hn_key (hnode ?s n) = k"
      using Suc.IH [OF _ kp(2) run up(2) ch] by blast
    moreover from this have "as @ bs = as' @ bs''" using bs by simp
    moreover have "n \<in> set (as @ bs)" if "n \<noteq> nullptr"
      using calculation(3) that unfolding \<open>as @ bs = as' @ bs''\<close> by (cases bs'') auto
    moreover have "\<forall>a\<in>set as'. a \<in> set (as @ bs)" unfolding \<open>as @ bs = as' @ bs''\<close> by simp
    ultimately show ?thesis using keys by metis
  qed
qed simp

lemma find_in_slot_place:
  assumes "hst.rely Hash env" "i < length (slots s)" "wf_hset Hash s" "find_in_slot env fuel i k s = Some ((c, n), s1)"
    and "hst.evolves Hash s1 s2" "updates (slots s2 ! i) = updates (slots s ! i)"
  obtains as bs where "wf_hset Hash s2" "chain_ok Hash s2 i (as @ bs)" "c = cell_at i as" "n = hd (bs @ [nullptr])"
    "\<forall>a\<in>set as. hn_key (hnode s2 a) \<noteq> k" "n \<noteq> nullptr \<longrightarrow> hn_key (hnode s2 n) = k"
proof -
  let ?s = "env fuel s"
  have run: "slot_loop env k fuel (Head i) (slot_head (slots ?s ! i)) ?s = Some ((c, n), s1)"
    using assms(4) by (simp add: find_in_slot_def Let_def)
  have e1: "hst.evolves Hash s ?s" "hst.evolves Hash ?s s1" by (rule hst.relyD [OF assms(1)]) (rule slot_loop_evolves [OF assms(1) run])
  then have kp: "hkeeps s ?s" "hkeeps ?s s1" "hkeeps s1 s2" "hkeeps ?s s2" and wf: "wf_hset Hash ?s" "wf_hset Hash s2"
    using assms(3,5) hkeeps_trans by (auto simp: hst.evolves_def)
  have i: "i < length (slots ?s)" "i < length (slots s1)" using kp assms(2) by (auto simp: hkeeps_def)
  have "updates (slots s ! i) \<le> updates (slots ?s ! i)" "updates (slots ?s ! i) \<le> updates (slots s1 ! i)" "updates (slots s1 ! i) \<le> updates (slots s2 ! i)"
    using kp i assms(2) by (auto simp: hkeeps_def)
  then have up: "updates (slots s1 ! i) = updates (slots ?s ! i)" "updates (slots s2 ! i) = updates (slots ?s ! i)" using assms(6) by simp_all
  obtain ps where ps: "chain_ok Hash ?s i ps" using wf(1) i(1) by (auto simp: wf_hset_def)
  then have sub: "slot_chain ?s i ([] @ ps)" "set ([] @ ps) \<subseteq> hnodes ?s" by (simp_all add: chain_ok_def)
  have hd: "slot_head (slots ?s ! i) = hd (ps @ [nullptr])" using sub(1) by (cases ps) auto
  obtain as bs where ab: "ps = as @ bs" "c = cell_at i as" "n = hd (bs @ [nullptr])"
    "\<forall>a\<in>set as. hn_key (hnode ?s a) \<noteq> k" "n \<noteq> nullptr \<longrightarrow> hn_key (hnode ?s n) = k"
    using slot_loop_place [OF assms(1) i(1) wf(1) run up(1) sub _ hd] by (auto simp: cell_at_def)
  have keys: "hn_key (hnode s2 p) = hn_key (hnode ?s p)" if "p \<in> set ps" for p
    using kp(4) sub(2) that by (auto simp: hkeeps_def)
  obtain qs where qs: "chain_ok Hash s2 i qs" using wf(2) kp(4) i(1) by (auto simp: wf_hset_def hkeeps_def)
  have "slot_chain s2 i ps" using kp(4) up(2) sub(1) i(1) by (auto simp: hkeeps_def)
  then have "qs = ps" using qs hchain_unique by (auto simp: chain_ok_def)
  then have "chain_ok Hash s2 i (as @ bs)" using qs ab(1) by simp
  moreover have "n \<in> set ps" if "n \<noteq> nullptr" using ab(1,3) that by (cases bs) auto
  ultimately show thesis using that wf(2) ab keys by auto
qed

section \<open>Changing a chain\<close>

lemma nth_update_if: "(xs[i := y]) ! j = (if i = j \<and> i < length xs then y else xs ! j)"
  by (cases "i < length xs") (auto simp: nth_list_update not_less list_update_beyond)

lemma cell_write_frame:
  "hnodes (cell_write c q s) = hnodes s" "length (slots (cell_write c q s)) = length (slots s)"
  "updates (slots (cell_write c q s) ! j) = updates (slots s ! j)"
  "hn_key (hnode (cell_write c q s) p) = hn_key (hnode s p)" "hn_value (hnode (cell_write c q s) p) = hn_value (hnode s p)"
  by (cases c; auto simp: nth_update_if)+

lemma cell_write_next: "p \<notin> set as \<Longrightarrow> hn_next (hnode (cell_write (cell_at i as) q s) p) = hn_next (hnode s p)"
  by (auto simp: cell_at_def)

lemma cell_write_head: "j \<noteq> i \<Longrightarrow> slot_head (slots (cell_write (cell_at i as) q s) ! j) = slot_head (slots s ! j)"
  by (auto simp: cell_at_def)

lemma bump_version_frame [simp]:
  "hnodes (bump_version i s) = hnodes s" "hnode (bump_version i s) = hnode s" "length (slots (bump_version i s)) = length (slots s)"
  "slot_head (slots (bump_version i s) ! j) = slot_head (slots s ! j)"
  by (auto simp: bump_version_def nth_update_if)

lemma hretire_frame [simp]: "hnodes (hretire p s) = hnodes s" "hnode (hretire p s) = hnode s" "slots (hretire p s) = slots s"
  by (simp_all add: hretire_def)

lemma hchain_cong: "hnode s' = hnode s \<Longrightarrow> hchain s' p ps = hchain s p ps"
  by (rule hchain_frame) simp

lemma get_slot_length: "length (slots s') = length (slots s) \<Longrightarrow> get_slot Hash k s' = get_slot Hash k s"
  by (simp add: get_slot_def)

lemma hchain_rest: "hchain s p (as @ x # bs) \<Longrightarrow> hchain s (hn_next (hnode s x)) bs"
  by (induction as arbitrary: p) auto

lemma splice_chain:
  assumes "hchain s p (as @ bs)" "as \<noteq> []" "distinct as" "hchain s q cs" "set as \<inter> set cs = {}"
  shows "hchain (cell_write (Next (last as)) q s) p (as @ cs)"
  using assms(1-3,5)
proof (induction as arbitrary: p)
  case (Cons a as)
  show ?case
  proof (cases "as = []")
    case True
    have "hchain (cell_write (Next a) q s) q cs = hchain s q cs" by (rule hchain_frame) (use Cons.prems True in auto)
    then show ?thesis using True Cons.prems assms(4) by simp
  next
    case False
    then have "last as \<noteq> a" using Cons.prems(3) last_in_set by force
    moreover have "hchain (cell_write (Next (last as)) q s) (hn_next (hnode s a)) (as @ cs)"
      using Cons.IH [of "hn_next (hnode s a)"] Cons.prems False by simp
    ultimately show ?thesis using Cons.prems(1) False by simp
  qed
qed simp

lemma splice_slot:
  assumes "slot_chain s i (as @ bs)" "distinct as" "hchain s q cs" "set as \<inter> set cs = {}" "i < length (slots s)"
  shows "slot_chain (cell_write (cell_at i as) q s) i (as @ cs)"
proof (cases "as = []")
  case True
  then show ?thesis using assms(3,5) hchain_cong [of "cell_write (Head i) q s" s] by (simp add: cell_at_def)
next
  case False
  then show ?thesis using splice_chain [OF assms(1) False assms(2-4)] by (simp add: cell_at_def)
qed

text \<open>An update of one slot leaves the other slots alone.\<close>

lemma slot_update:
  assumes wf: "wf_hset Hash s" and i: "i < length (slots s)" and ch: "chain_ok Hash s i (as @ bs)" "chain_ok Hash s' i ps"
    and fr: "length (slots s') = length (slots s)" "finite (hnodes s')" "nullptr \<notin> hnodes s'" "hnodes s \<subseteq> hnodes s'"
      "\<And>p. p \<in> hnodes s \<Longrightarrow> hentry s' p = hentry s p"
      "\<And>p. p \<in> hnodes s \<Longrightarrow> p \<notin> set as \<Longrightarrow> hn_next (hnode s' p) = hn_next (hnode s p)"
      "\<And>j. j \<noteq> i \<Longrightarrow> slot_head (slots s' ! j) = slot_head (slots s ! j)"
  shows "wf_hset Hash s'" "hset_abs Hash s' k = (if get_slot Hash k s = i then map_of (map (hentry s') ps) k else hset_abs Hash s k)"
proof -
  note gs = get_slot_length [OF fr(1)]
  have other: "chain_ok Hash s' j qs" if "j \<noteq> i" "chain_ok Hash s j qs" for j qs
  proof -
    have "set qs \<subseteq> hnodes s" "set qs \<inter> set as = {}" using that ch(1) by (auto simp: chain_ok_def)
    moreover have mk: "map (\<lambda>p. hn_key (hnode s' p)) qs = map (\<lambda>p. hn_key (hnode s p)) qs"
      using calculation(1) fr(5) by (auto simp: hentry_def)
    have "distinct (map (\<lambda>p. hn_key (hnode s' p)) qs)" unfolding mk using that(2) by (simp add: chain_ok_def)
    moreover have "hn_key (hnode s' p) = hn_key (hnode s p)" if "p \<in> set qs" for p
      using calculation(1) fr(5) that by (auto simp: hentry_def)
    moreover have "slot_chain s' j qs = slot_chain s j qs"
      unfolding fr(7) [OF \<open>j \<noteq> i\<close>] by (rule hchain_frame) (use calculation(1,2) fr(6) in auto)
    ultimately show ?thesis using that fr(4) by (auto simp: chain_ok_def gs)
  qed
  show wf': "wf_hset Hash s'"
    using wf ch(2) fr(1-3) other unfolding wf_hset_def by (metis (no_types, lifting))
  show "hset_abs Hash s' k = (if get_slot Hash k s = i then map_of (map (hentry s') ps) k else hset_abs Hash s k)"
  proof (cases "get_slot Hash k s = i")
    case True
    then show ?thesis using hset_abs_chain [OF wf', of k ps] ch(2) by (simp add: gs)
  next
    case False
    obtain qs where qs: "chain_ok Hash s (get_slot Hash k s) qs" using wf get_slot_bound [OF wf, of k] by (auto simp: wf_hset_def)
    then have mq: "map (hentry s') qs = map (hentry s) qs" using fr(5) by (auto simp: chain_ok_def)
    have a: "hset_abs Hash s' k = map_of (map (hentry s') qs) k"
      by (rule hset_abs_chain [OF wf']) (use other [OF False qs] in \<open>simp add: gs\<close>)
    show ?thesis using False hset_abs_chain [OF wf qs] unfolding a mq by simp
  qed
qed

definition hs_allocates :: "('k \<Rightarrow> u64) \<Rightarrow> (('k, 'v) hset \<Rightarrow> addr) \<Rightarrow> bool" where
  "hs_allocates Hash alloc \<longleftrightarrow> (\<forall>s. wf_hset Hash s \<longrightarrow> alloc s \<notin> hnodes s \<and> alloc s \<noteq> nullptr)"

lemma insert_chain:
  assumes wf: "wf_hset Hash s" and i: "i = get_slot Hash k s" and ch: "chain_ok Hash s i as"
    and new: "\<forall>a\<in>set as. hn_key (hnode s a) \<noteq> k" "new_hnode alloc k v nullptr s = (p, s1)" "hs_allocates Hash alloc"
    and s': "s' = bump_version i (cell_write (cell_at i as) p s1)"
  shows "wf_hset Hash s'" "hset_abs Hash s k = None" "hset_abs Hash s' = (hset_abs Hash s)(k \<mapsto> v)"
proof -
  have p: "p \<notin> hnodes s" "p \<noteq> nullptr" using new(2,3) wf by (auto simp: new_hnode_def hs_allocates_def Let_def)
  have s1: "hnodes s1 = insert p (hnodes s)" "slots s1 = slots s" "hnode s1 = (hnode s)(p := \<lparr>hn_key = k, hn_value = v, hn_next = nullptr\<rparr>)"
    using new(2) by (auto simp: new_hnode_def Let_def)
  have il: "i < length (slots s)" using get_slot_bound [OF wf] i by simp
  have as: "set as \<subseteq> hnodes s" "distinct as" "distinct (map (\<lambda>p. hn_key (hnode s p)) as)" using ch by (auto simp: chain_ok_def distinct_map)
  have "hchain s1 q as = hchain s q as" for q by (rule hchain_frame) (use p as(1) in \<open>auto simp: s1\<close>)
  then have "slot_chain s1 i (as @ [])" using ch by (simp add: chain_ok_def s1)
  then have "slot_chain (cell_write (cell_at i as) p s1) i (as @ [p])"
    by (rule splice_slot) (use p as il in \<open>auto simp: s1\<close>)
  then have "slot_chain s' i (as @ [p])" using hchain_cong [of s'] by (simp add: s')
  moreover have len: "length (slots s') = length (slots s)" by (simp add: s' cell_write_frame s1)
  moreover have key: "hn_key (hnode s' q) = (if q = p then k else hn_key (hnode s q))" "hn_value (hnode s' q) = (if q = p then v else hn_value (hnode s q))" for q
    by (simp_all add: s' cell_write_frame s1)
  moreover have nodes: "hnodes s' = insert p (hnodes s)" by (simp add: s' cell_write_frame s1)
  moreover have mk: "map (\<lambda>q. hn_key (hnode s' q)) (as @ [p]) = map (\<lambda>q. hn_key (hnode s q)) as @ [k]" using p as(1) by (auto simp: key)
  have "distinct (map (\<lambda>q. hn_key (hnode s' q)) (as @ [p]))" unfolding mk using as(3) new(1) by auto
  ultimately have ch': "chain_ok Hash s' i (as @ [p])"
    using as(1) ch i get_slot_length [OF len] unfolding chain_ok_def by (simp add: key subset_insertI2)
  have ent: "hentry s' q = hentry s q" if "q \<in> hnodes s" for q using p that by (auto simp: hentry_def key)
  have ch0: "chain_ok Hash s i (as @ [])" using ch by simp
  have nx: "hn_next (hnode s' q) = hn_next (hnode s q)" if "q \<in> hnodes s" "q \<notin> set as" for q
    using that p by (auto simp: s' cell_write_next s1)
  have head: "slot_head (slots s' ! j) = slot_head (slots s ! j)" if "j \<noteq> i" for j
    using that by (simp add: s' cell_write_head s1)
  note U = slot_update [OF wf il ch0 ch' len _ _ _ ent nx head]
  have fin: "finite (hnodes s')" "nullptr \<notin> hnodes s'" "hnodes s \<subseteq> hnodes s'" using wf p by (auto simp: nodes wf_hset_def)
  show "wf_hset Hash s'" by (rule U(1) [OF fin])
  have none: "map_of (map (hentry s) as) k = None" using new(1) by (auto simp: map_of_eq_None_iff hentry_def)
  then show "hset_abs Hash s k = None" using hset_abs_chain [OF wf] ch i by auto
  have mp: "map (hentry s') (as @ [p]) = map (hentry s) as @ [(k, v)]" using p as(1) by (auto simp: hentry_def key)
  have "hset_abs Hash s' k' = ((hset_abs Hash s)(k \<mapsto> v)) k'" for k'
    using U(2) [OF fin, of k'] none hset_abs_chain [OF wf, of k' as] ch i unfolding mp by (auto simp: map_add_def split: option.splits)
  then show "hset_abs Hash s' = (hset_abs Hash s)(k \<mapsto> v)" by (rule ext)
qed

lemma remove_chain:
  assumes wf: "wf_hset Hash s" and i: "i = get_slot Hash k s" and ch: "chain_ok Hash s i (as @ n # bs)" and key: "hn_key (hnode s n) = k"
    and s': "s' = bump_version i (hretire n (cell_write (cell_at i as) (hn_next (hnode s n)) s))"
  shows "wf_hset Hash s'" "hset_abs Hash s k \<noteq> None" "hset_abs Hash s' = (hset_abs Hash s)(k := None)"
proof -
  have il: "i < length (slots s)" using get_slot_bound [OF wf] i by simp
  have d: "set (as @ n # bs) \<subseteq> hnodes s" "distinct (as @ n # bs)" "distinct (map (\<lambda>p. hn_key (hnode s p)) (as @ n # bs))"
    using ch by (auto simp: chain_ok_def distinct_map)
  have "slot_chain (cell_write (cell_at i as) (hn_next (hnode s n)) s) i (as @ bs)"
    by (rule splice_slot [OF _ _ hchain_rest _ il]) (use ch d in \<open>auto simp: chain_ok_def\<close>)
  then have "slot_chain s' i (as @ bs)" using hchain_cong [of s'] by (simp add: s')
  moreover have len: "length (slots s') = length (slots s)" and nodes: "hnodes s' = hnodes s" by (simp_all add: s' cell_write_frame)
  moreover have keys: "hn_key (hnode s' q) = hn_key (hnode s q)" "hn_value (hnode s' q) = hn_value (hnode s q)" for q
    by (simp_all add: s' cell_write_frame)
  ultimately have ch': "chain_ok Hash s' i (as @ bs)"
    using d ch get_slot_length [OF len] unfolding chain_ok_def by auto
  have ent: "hentry s' q = hentry s q" for q by (simp add: hentry_def keys)
  have nx: "hn_next (hnode s' q) = hn_next (hnode s q)" if "q \<in> hnodes s" "q \<notin> set as" for q
    using that by (simp add: s' cell_write_next)
  have head: "slot_head (slots s' ! j) = slot_head (slots s ! j)" if "j \<noteq> i" for j
    using that by (simp add: s' cell_write_head)
  note U = slot_update [OF wf il ch ch' len _ _ _ ent nx head]
  have fin: "finite (hnodes s')" "nullptr \<notin> hnodes s'" "hnodes s \<subseteq> hnodes s'" using wf by (auto simp: nodes wf_hset_def)
  show "wf_hset Hash s'" by (rule U(1) [OF fin])
  have none: "map_of (map (hentry s) as) k = None" "map_of (map (hentry s) bs) k = None" using d(3) key by (force simp: map_of_eq_None_iff hentry_def)+
  have abs: "hset_abs Hash s k' = map_of (map (hentry s) (as @ n # bs)) k'" if "get_slot Hash k' s = i" for k'
    using hset_abs_chain [OF wf, of k' "as @ n # bs"] ch that by simp
  show "hset_abs Hash s k \<noteq> None" using abs [of k] i none key by (simp add: hentry_def map_add_def)
  have m: "map_of (map (hentry s) (as @ bs)) k' = (if k' = k then None else map_of (map (hentry s) (as @ n # bs)) k')" for k'
    using none key by (auto simp: hentry_def map_add_def split: option.splits)
  have "hset_abs Hash s' k' = ((hset_abs Hash s)(k := None)) k'" for k'
    using U(2) [OF fin, of k'] abs [of k'] m [of k'] i by (simp only: ent cong: map_cong) auto
  then show "hset_abs Hash s' = (hset_abs Hash s)(k := None)"
    by (rule ext)
qed

section \<open>Attempts\<close>

lemma same_version:
  assumes "hkeeps s s'" "i < length (slots s)" "version_num i s' = version_num i s" "updates (slots s' ! i) < updates (slots s ! i) + 2 ^ 32"
  shows "updates (slots s' ! i) = updates (slots s ! i)"
proof -
  have le: "updates (slots s ! i) \<le> updates (slots s' ! i)" using assms(1,2) by (auto simp: hkeeps_def)
  have "(of_nat (updates (slots s' ! i) - updates (slots s ! i)) :: 32 word) = 0"
    using assms(3) le by (simp add: version_num_def of_nat_diff)
  then have "2 ^ 32 dvd updates (slots s' ! i) - updates (slots s ! i)" by (simp add: word_of_nat_eq_0_iff)
  moreover have "updates (slots s' ! i) - updates (slots s ! i) < 2 ^ 32" using assms(4) by (simp add: algebra_simps)
  ultimately show ?thesis using le by (auto dest: nat_dvd_not_less)
qed

lemma find_in_slot_evolves:
  assumes "hst.rely Hash env" "find_in_slot env fuel i k s = Some (x, s1)"
  shows "hst.evolves Hash s s1"
proof -
  obtain c n where "x = (c, n)" by fastforce
  then show ?thesis
    using assms slot_loop_evolves [OF assms(1), of k fuel "Head i" _ "env fuel s" c n s1] hst.relyD [OF assms(1), of s fuel]
    by (auto simp: find_in_slot_def Let_def intro: hst.evolves_trans)
qed

text \<open>The state in which the lock is taken.\<close>

definition locked_state :: "('k, 'v) hs_env \<Rightarrow> (('k, 'v) hset \<Rightarrow> ('k, 'v) hset) \<Rightarrow> nat \<Rightarrow> nat \<Rightarrow> 'k \<Rightarrow> ('k, 'v) hset \<Rightarrow> ('k, 'v) hset" where
  "locked_state env e fuel i k s = (case find_in_slot env fuel i k s of None \<Rightarrow> s | Some (_, s1) \<Rightarrow> e s1)"

lemma insert_round_atomic:
  fixes s :: "('k, 'v) hset"
  assumes i_def: "i = get_slot Hash k s" and u_def: "u = locked_state env e fuel i k s"
    and "hst.rely Hash env" "hst.rely Hash (\<lambda>_. e)" "wf_hset Hash s" "hs_allocates Hash alloc"
    and "insert_at_round env e locked alloc fuel i k v s = (Some True, s')" "updates (slots u ! i) < updates (slots s ! i) + 2 ^ 32"
  shows "wf_hset Hash s' \<and> hset_abs Hash u k = None \<and> hset_abs Hash s' = (hset_abs Hash u)(k \<mapsto> v)"
proof -
  have i: "i < length (slots s)" using get_slot_bound [OF assms(5)] by (simp add: i_def)
  obtain c n s1 where f: "find_in_slot env fuel i k s = Some ((c, n), s1)"
    using assms(7) by (auto simp: insert_at_round_def Let_def split: option.splits)
  have u: "u = e s1" using f by (simp add: u_def locked_state_def i_def)
  obtain p s3 where new: "new_hnode alloc k v nullptr u = (p, s3)" by fastforce
  have run: "n = nullptr" "version_num i u = version_num i s" "s' = bump_version i (cell_write c p s3)"
    using assms(7) f new by (auto simp: insert_at_round_def Let_def u split: if_splits)
  have ev: "hst.evolves Hash s1 u" unfolding u by (rule hst.relyD [OF assms(4)])
  then have kp: "hkeeps s u" using find_in_slot_evolves [OF assms(3) f] hkeeps_trans by (auto simp: hst.evolves_def)
  have up: "updates (slots u ! i) = updates (slots s ! i)" by (rule same_version [OF kp i run(2) assms(8)])
  obtain as bs where ab: "wf_hset Hash u" "chain_ok Hash u i (as @ bs)" "c = cell_at i as" "n = hd (bs @ [nullptr])"
    "\<forall>a\<in>set as. hn_key (hnode u a) \<noteq> k" by (rule find_in_slot_place [OF assms(3) i assms(5) f ev up])
  have "bs = []" using ab(1,2,4) run(1) by (cases bs) (auto simp: wf_hset_def chain_ok_def)
  then have ch: "chain_ok Hash u i as" using ab(2) by simp
  have "length (slots u) = length (slots s)" using kp by (simp add: hkeeps_def)
  then have iu: "i = get_slot Hash k u" using i_def by (simp add: get_slot_def)
  from insert_chain [OF ab(1) iu ch ab(5) new assms(6) run(3) [unfolded ab(3)]] show ?thesis by simp
qed

lemma remove_round_atomic:
  fixes s :: "('k, 'v) hset"
  assumes i_def: "i = get_slot Hash k s" and u_def: "u = locked_state env e fuel i k s"
    and "hst.rely Hash env" "hst.rely Hash (\<lambda>_. e)" "wf_hset Hash s"
    and "remove_at_round env e locked fuel i k s = (Some True, s')" "updates (slots u ! i) < updates (slots s ! i) + 2 ^ 32"
  shows "wf_hset Hash s' \<and> hset_abs Hash u k \<noteq> None \<and> hset_abs Hash s' = (hset_abs Hash u)(k := None)"
proof -
  have i: "i < length (slots s)" using get_slot_bound [OF assms(5)] by (simp add: i_def)
  obtain c n s1 where f: "find_in_slot env fuel i k s = Some ((c, n), s1)"
    using assms(6) by (auto simp: remove_at_round_def Let_def split: option.splits)
  have u: "u = e s1" using f by (simp add: u_def locked_state_def i_def)
  have run: "n \<noteq> nullptr" "version_num i u = version_num i s"
    "s' = bump_version i (hretire n (cell_write c (hn_next (hnode u n)) u))"
    using assms(6) f by (auto simp: remove_at_round_def Let_def u split: if_splits)
  have ev: "hst.evolves Hash s1 u" unfolding u by (rule hst.relyD [OF assms(4)])
  then have kp: "hkeeps s u" using find_in_slot_evolves [OF assms(3) f] hkeeps_trans by (auto simp: hst.evolves_def)
  have up: "updates (slots u ! i) = updates (slots s ! i)" by (rule same_version [OF kp i run(2) assms(7)])
  obtain as bs where ab: "wf_hset Hash u" "chain_ok Hash u i (as @ bs)" "c = cell_at i as" "n = hd (bs @ [nullptr])"
    "n \<noteq> nullptr \<longrightarrow> hn_key (hnode u n) = k" by (rule find_in_slot_place [OF assms(3) i assms(5) f ev up])
  obtain bs' where "bs = n # bs'" using ab(4) run(1) by (cases bs) auto
  then have ch: "chain_ok Hash u i (as @ n # bs')" using ab(2) by simp
  have "length (slots u) = length (slots s)" using kp by (simp add: hkeeps_def)
  then have iu: "i = get_slot Hash k u" using i_def by (simp add: get_slot_def)
  have key: "hn_key (hnode u n) = k" using ab(5) run(1) by simp
  from remove_chain [OF ab(1) iu ch key run(3) [unfolded ab(3)]] show ?thesis by simp
qed

section \<open>One thread alone\<close>

abbreviation (input) hs_idle :: "('k, 'v) hs_env" where
  "hs_idle \<equiv> \<lambda>i s. s"

lemma slot_loop_total:
  assumes "hchain s p ps" "length ps < fuel"
  shows "\<exists>c n. slot_loop hs_idle k fuel cur p s = Some ((c, n), s)"
  using assms
proof (induction ps arbitrary: p fuel cur)
  case Nil
  then show ?case by (cases fuel) auto
next
  case (Cons q ps)
  then obtain m where m: "fuel = Suc m" by (cases fuel) auto
  then show ?case using Cons.IH [of "hn_next (hnode s q)" m "Next q"] Cons.prems by (auto simp: Let_def)
qed

lemma find_in_slot_idle:
  assumes "wf_hset Hash s"
  obtains c n where "find_in_slot hs_idle (Suc (card (hnodes s))) (get_slot Hash k s) k s = Some ((c, n), s)"
    "hset_abs Hash s k = (if n = nullptr then None else Some (hn_value (hnode s n)))"
proof -
  let ?i = "get_slot Hash k s"
  have i: "?i < length (slots s)" by (rule get_slot_bound [OF assms])
  obtain ps where ps: "chain_ok Hash s ?i ps" using assms i by (auto simp: wf_hset_def)
  then obtain c n where f: "find_in_slot hs_idle (Suc (card (hnodes s))) ?i k s = Some ((c, n), s)"
    using slot_loop_total [of s _ ps "Suc (card (hnodes s))" k "Head ?i"] chain_ok_length [OF assms ps]
    by (fastforce simp: find_in_slot_def chain_ok_def simp del: slot_loop.simps)
  obtain as bs where ab: "chain_ok Hash s ?i (as @ bs)" "n = hd (bs @ [nullptr])" "\<forall>a\<in>set as. hn_key (hnode s a) \<noteq> k"
      "n \<noteq> nullptr \<longrightarrow> hn_key (hnode s n) = k"
    by (rule find_in_slot_place [OF hst.rely_idle i assms f hst.evolves_refl refl])
  have as: "map_of (map (hentry s) as) k = None" using ab(3) by (auto simp: map_of_eq_None_iff hentry_def)
  have "hset_abs Hash s k = map_of (map (hentry s) bs) k" using hset_abs_chain [OF assms ab(1)] as by (simp add: map_add_def)
  moreover have "bs = [] \<longleftrightarrow> n = nullptr" using ab(1,2) assms by (cases bs) (auto simp: chain_ok_def wf_hset_def)
  ultimately have "hset_abs Hash s k = (if n = nullptr then None else Some (hn_value (hnode s n)))"
    using ab(2,4) by (cases bs) (auto simp: hentry_def)
  with f show thesis by (rule that)
qed

definition hs_fresh :: "('k, 'v) hset \<Rightarrow> addr" where
  "hs_fresh s = (if hnodes s = {} then 1 else Suc (Max (hnodes s)))"

lemma hs_fresh_allocates: "hs_allocates Hash hs_fresh"
  unfolding hs_allocates_def
proof (intro allI impI conjI notI)
  fix s :: "('a, 'b) hset" assume "wf_hset Hash s" "hs_fresh s \<in> hnodes s"
  moreover from this have "hnodes s \<noteq> {}" by auto
  ultimately have "Suc (Max (hnodes s)) \<le> Max (hnodes s)" by (intro Max_ge) (auto simp: wf_hset_def hs_fresh_def)
  then show False by simp
qed (simp add: hs_fresh_def split: if_splits)

definition chained_insert :: "('k \<Rightarrow> u64) \<Rightarrow> 'k \<Rightarrow> 'v \<Rightarrow> ('k, 'v) hset \<Rightarrow> bool \<times> ('k, 'v) hset" where
  "chained_insert Hash k v s =
     the (set_insert Hash (\<lambda>_. hs_idle) (\<lambda>_ s. s) (\<lambda>_. True) hs_fresh (Suc (card (hnodes s))) 1 k v s)"

definition chained_remove :: "('k \<Rightarrow> u64) \<Rightarrow> 'k \<Rightarrow> ('k, 'v) hset \<Rightarrow> bool \<times> ('k, 'v) hset" where
  "chained_remove Hash k s = the (set_remove Hash (\<lambda>_. hs_idle) (\<lambda>_ s. s) (\<lambda>_. True) (Suc (card (hnodes s))) 1 k s)"

definition chained_find :: "('k \<Rightarrow> u64) \<Rightarrow> 'k \<Rightarrow> ('k, 'v) hset \<Rightarrow> 'v option" where
  "chained_find Hash k s = the (set_find Hash hs_idle (Suc (card (hnodes s))) k s)"

interpretation chained: map_adt "wf_hset Hash" "hset_abs Hash" "chained_insert Hash" "chained_remove Hash" "chained_find Hash" for Hash :: "'k \<Rightarrow> u64"
proof
  fix s :: "('k, 'v) hset" and k v b s'
  assume wf: "wf_hset Hash s"
  let ?fuel = "Suc (card (hnodes s))" and ?i = "get_slot Hash k s"
  obtain c n where f: "find_in_slot hs_idle ?fuel ?i k s = Some ((c, n), s)"
    and look: "hset_abs Hash s k = (if n = nullptr then None else Some (hn_value (hnode s n)))"
    by (rule find_in_slot_idle [OF wf])
  have st: "locked_state hs_idle (\<lambda>s. s) ?fuel ?i k s = s" by (simp add: locked_state_def f)
  show "chained_find Hash k s = hset_abs Hash s k" by (simp add: chained_find_def set_find_def f look)
  show "wf_hset Hash s' \<and> (b \<longleftrightarrow> hset_abs Hash s k = None) \<and>
      hset_abs Hash s' = (if b then (hset_abs Hash s)(k \<mapsto> v) else hset_abs Hash s)" if r: "chained_insert Hash k v s = (b, s')"
  proof (cases "n = nullptr")
    case True
    have run: "insert_at_round hs_idle (\<lambda>s. s) True hs_fresh ?fuel ?i k v s = (Some True, s')" "b"
      using r True f by (auto simp: chained_insert_def set_insert_def insert_at_round_def Let_def split_beta)
    from insert_round_atomic [OF refl st [symmetric] hst.rely_idle hst.rely_idle wf hs_fresh_allocates run(1)] run(2) show ?thesis by simp
  next
    case False
    then show ?thesis using r f look wf by (auto simp: chained_insert_def set_insert_def insert_at_round_def Let_def)
  qed
  show "wf_hset Hash s' \<and> (b \<longleftrightarrow> hset_abs Hash s k \<noteq> None) \<and> hset_abs Hash s' = (hset_abs Hash s)(k := None)" if r: "chained_remove Hash k s = (b, s')"
  proof (cases "n = nullptr")
    case True
    then show ?thesis using r f look wf by (auto simp: chained_remove_def set_remove_def remove_at_round_def Let_def fun_upd_idem)
  next
    case False
    have run: "remove_at_round hs_idle (\<lambda>s. s) True ?fuel ?i k s = (Some True, s')" "b"
      using r False f by (auto simp: chained_remove_def set_remove_def remove_at_round_def Let_def)
    from remove_round_atomic [OF refl st [symmetric] hst.rely_idle hst.rely_idle wf run(1)] run(2) show ?thesis by simp
  qed
qed

lemma count_chain_length: "hchain s p ps \<Longrightarrow> length ps < fuel \<Longrightarrow> count_chain fuel p s = Some (length ps)"
proof (induction ps arbitrary: p fuel)
  case Nil
  then show ?case by (cases fuel) auto
next
  case (Cons q ps)
  then show ?case by (cases fuel) auto
qed

text \<open>The destructor of one slot retires all its nodes, the last one first.\<close>

lemma retire_list_all: "hchain s p ps \<Longrightarrow> length ps < fuel \<Longrightarrow> retire_list fuel p s = Some (s\<lparr>hretired := ps @ hretired s\<rparr>)"
proof (induction ps arbitrary: p fuel)
  case Nil
  then show ?case by (cases fuel) auto
next
  case (Cons q ps)
  then show ?case by (cases fuel) (auto simp: hretire_def)
qed

section \<open>The properties\<close>

lemma set_empty_wf:
  assumes "n < 2 ^ 62"
  shows "wf_hset Hash (set_empty n junk)" "hset_abs Hash (set_empty n junk) = Map.empty"
proof -
  have b: "log2_up n \<le> 62" unfolding log2_up_def by (rule log2_up_loop_small) (use assms in simp)
  have "2 * push_bit (log2_up n) (1 :: u64) = of_nat (2 ^ Suc (log2_up n))" by (simp add: push_bit_of_1)
  moreover have "(2::nat) ^ Suc (log2_up n) < 2 ^ 64" using b by (intro power_strict_increasing) auto
  then have "unat (of_nat (2 ^ Suc (log2_up n)) :: u64) = 2 ^ Suc (log2_up n)" by (intro unat_of_nat_small) simp
  ultimately have "unat (2 * push_bit (log2_up n) (1 :: u64)) = 2 ^ Suc (log2_up n)" by (simp only:)
  then have len: "length (slots (set_empty n junk)) = 2 ^ Suc (log2_up n)" by (simp add: set_empty_def Let_def)
  have "chain_ok Hash (set_empty n junk) i []" if "i < length (slots (set_empty n junk))" for i
    using that by (auto simp: chain_ok_def set_empty_def Let_def)
  moreover have "finite (hnodes (set_empty n junk))" "nullptr \<notin> hnodes (set_empty n junk)" by (simp_all add: set_empty_def Let_def)
  ultimately show "wf_hset Hash (set_empty n junk)"
    using len b unfolding wf_hset_def by (intro conjI exI [of _ "Suc (log2_up n)"]) auto
  show "hset_abs Hash (set_empty n junk) = Map.empty" by (simp add: hset_abs_def fun_eq_iff set_empty_def Let_def)
qed

text \<open>C31: A round of an insertion into the chained hash table that succeeds acts atomically at the moment
  the slot is locked: the unlocked search saw one and the same chain because the version
  number is unchanged, so the key is absent and is added. The slot may be updated up to
  \<open>2\<^sup>3\<^sup>2 - 1\<close> times during the round, as the version number has 32 bits.\<close>

theorem chained_insert_atomic:
  assumes "i = get_slot Hash k s" "u = locked_state env e fuel i k s"
    and "hst.rely Hash env" "hst.rely Hash (\<lambda>_. e)" "wf_hset Hash s" "hs_allocates Hash alloc"
    and "insert_at_round env e locked alloc fuel i k v s = (Some True, s')" "updates (slots u ! i) < updates (slots s ! i) + 2 ^ 32"
  shows "wf_hset Hash s' \<and> hset_abs Hash u k = None \<and> hset_abs Hash s' = (hset_abs Hash u)(k \<mapsto> v)"
  by (rule insert_round_atomic [OF assms])

theorem chained_insert_atomic_witness:
  "\<exists>s'. insert_at_round hs_idle (\<lambda>s. s) True hs_fresh 1 (get_slot of_nat 3 (set_empty 1 \<lparr>hn_key = 0, hn_value = (0::nat), hn_next = 0\<rparr>)) 3 30
      (set_empty 1 \<lparr>hn_key = (0::nat), hn_value = (0::nat), hn_next = 0\<rparr>) = (Some True, s') \<and> hset_abs of_nat s' = [3 \<mapsto> 30]"
proof -
  let ?s = "set_empty 1 \<lparr>hn_key = (0::nat), hn_value = (0::nat), hn_next = 0\<rparr>" and ?H = "of_nat :: nat \<Rightarrow> u64"
  let ?i = "get_slot ?H 3 ?s"
  have wf: "wf_hset ?H ?s" "hset_abs ?H ?s = Map.empty" by (rule set_empty_wf; simp)+
  have "slot_head (slots ?s ! ?i) = nullptr" using get_slot_bound [OF wf(1), of 3] by (simp add: set_empty_def Let_def)
  then have f: "find_in_slot hs_idle 1 ?i 3 ?s = Some ((Head ?i, nullptr), ?s)" by (simp add: find_in_slot_def Let_def)
  then have u: "?s = locked_state hs_idle (\<lambda>s. s) 1 ?i 3 ?s" by (simp add: locked_state_def)
  obtain s' where r: "insert_at_round hs_idle (\<lambda>s. s) True hs_fresh 1 ?i 3 30 ?s = (Some True, s')"
    using f by (simp add: insert_at_round_def Let_def split_beta)
  from chained_insert_atomic [OF refl u hst.rely_idle hst.rely_idle wf(1) hs_fresh_allocates r] r wf(2) show ?thesis by auto
qed

text \<open>Without interference every history of find, insert and remove on the chained hash table returns
  what the abstract map returns, for every hash function.\<close>

theorem chained_refines_map:
  assumes "wf_hset Hash s" "chained.impl_run Hash xs s = (rs, s')"
  shows "wf_hset Hash s' \<and> spec_run xs (hset_abs Hash s) = (rs, hset_abs Hash s')"
  by (rule chained.impl_run_refines [OF assms])

theorem chained_refines_map_witness:
  "fst (chained.impl_run (\<lambda>_. 0) [Insert (3::nat) (30::nat), Insert 7 70, Find 3, Remove 3, Find 3, Find 7]
      (set_empty 4 \<lparr>hn_key = 0, hn_value = 0, hn_next = 0\<rparr>)) =
     [Inserted True, Inserted True, Found (Some 30), Removed_key True, Found None, Found (Some 70)]"
proof -
  let ?s = "set_empty 4 \<lparr>hn_key = (0::nat), hn_value = (0::nat), hn_next = 0\<rparr>" and ?H = "\<lambda>_ :: nat. 0 :: u64"
    and ?xs = "[Insert (3::nat) (30::nat), Insert 7 70, Find 3, Remove 3, Find 3, Find 7]"
  have wf: "wf_hset ?H ?s" "hset_abs ?H ?s = Map.empty" by (rule set_empty_wf; simp)+
  obtain rs s' where r: "chained.impl_run ?H ?xs ?s = (rs, s')" by fastforce
  from chained_refines_map [OF wf(1) r] have "spec_run ?xs (hset_abs ?H ?s) = (rs, hset_abs ?H s')" by simp
  then show ?thesis unfolding r by (auto simp: wf(2))
qed

end
