(* ===== verification/Block_Leaf_Tree.thy ===== *)
theory Block_Leaf_Tree
  imports B_Tree
begin

text \<open>
  The binary search tree with blocks of entries in its leaves,
  \<^verbatim>\<open>structures/blockleaftree/ordered_map.h\<close>. The leftmost leaf is a sentinel without entries; a
  leaf that overflows is split below a new node, a leaf that becomes empty is taken out
  together with its parent. As for the B-tree the tree is a value and the operations run
  alone, so that the validations under the locks succeed. The theory shows that the operations
  keep the tree well formed, that removals never miss a grandparent, and that the tree is a map.
\<close>

section \<open>Nodes and leaves\<close>

text \<open>The tree below the root node, of which only the left child is used.\<close>

datatype ('k, 'v) blt =
    BL_Leaf (bl_sentinal: bool) (bl_keyvals: "('k \<times> 'v) list")
  | BL_Node (bl_key: 'k) (bl_left: "('k, 'v) blt") (bl_right: "('k, 'v) blt")

definition bl_block_size :: "nat \<Rightarrow> nat" where
  "bl_block_size kv_bytes = (64 * 4 - 16) div kv_bytes - 1"

definition equal_keys :: "'k::linorder \<Rightarrow> 'k \<Rightarrow> bool" where
  "equal_keys a b \<longleftrightarrow> \<not> a < b \<and> \<not> b < a"

fun bl_find :: "('k::linorder \<times> 'v) list \<Rightarrow> 'k \<Rightarrow> 'v option" where
  "bl_find [] k = None"
| "bl_find ((k', v) # kvs) k = (if \<not> k < k' \<and> \<not> k' < k then Some v else bl_find kvs k)"

text \<open>
  \<open>find_location\<close>: the leaf of a key. The assignment to the pointer that leads to the leaf
  (\<open>*ptr\<close> in the parent) is \<open>bl_put\<close>.
\<close>

primrec bl_leaf_at :: "'k::linorder \<Rightarrow> ('k, 'v) blt \<Rightarrow> ('k, 'v) blt" where
  "bl_leaf_at k (BL_Leaf b kvs) = BL_Leaf b kvs"
| "bl_leaf_at k (BL_Node key l r) = (if k < key then bl_leaf_at k l else bl_leaf_at k r)"

primrec bl_put :: "'k::linorder \<Rightarrow> ('k, 'v) blt \<Rightarrow> ('k, 'v) blt \<Rightarrow> ('k, 'v) blt" where
  "bl_put k n (BL_Leaf b kvs) = n"
| "bl_put k n (BL_Node key l r) = (if k < key then BL_Node key (bl_put k n l) r else BL_Node key l (bl_put k n r))"

text \<open>Taking out the leaf and its parent: the pointer of the grandparent gets the other child; \<open>None\<close> without a parent below the root.\<close>

definition is_bl_leaf :: "('k, 'v) blt \<Rightarrow> bool" where
  "is_bl_leaf t = (case t of BL_Leaf _ _ \<Rightarrow> True | BL_Node _ _ _ \<Rightarrow> False)"

primrec bl_shortcut :: "'k::linorder \<Rightarrow> ('k, 'v) blt \<Rightarrow> ('k, 'v) blt option" where
  "bl_shortcut k (BL_Leaf b kvs) = None"
| "bl_shortcut k (BL_Node key l r) =
     (if k < key
      then if is_bl_leaf l then Some r else map_option (\<lambda>l'. BL_Node key l' r) (bl_shortcut k l)
      else if is_bl_leaf r then Some l else map_option (\<lambda>r'. BL_Node key l r') (bl_shortcut k r))"

section \<open>Operations\<close>

text \<open>Copying a leaf with the new entry; \<open>None\<close> when the key is there, for which the code aborts.\<close>

definition bl_insert_block :: "('k::linorder \<times> 'v) list \<Rightarrow> 'k \<Rightarrow> 'v \<Rightarrow> ('k \<times> 'v) list option" where
  "bl_insert_block kvs k v =
     (let i = leaf_prev kvs k
      in if i = length kvs \<or> k < fst (kvs ! i) then Some (take i kvs @ (k, v) # drop i kvs) else None)"

definition bl_split :: "('k \<times> 'v) list \<Rightarrow> ('k, 'v) blt" where
  "bl_split kvs =
     (let size_l = length kvs div 2
      in BL_Node (fst (kvs ! size_l)) (BL_Leaf False (take size_l kvs)) (BL_Leaf False (drop size_l kvs)))"

definition blt_insert :: "nat \<Rightarrow> 'k::linorder \<Rightarrow> 'v \<Rightarrow> ('k, 'v) blt \<Rightarrow> (bool \<times> ('k, 'v) blt) option" where
  "blt_insert n k v t =
     (let old_l = bl_leaf_at k t
      in if bl_find (bl_keyvals old_l) k \<noteq> None then Some (False, t)
         else if bl_sentinal old_l then Some (True, bl_put k (BL_Node k old_l (BL_Leaf False [(k, v)])) t)
         else case bl_insert_block (bl_keyvals old_l) k v of
                None \<Rightarrow> None
              | Some new_l \<Rightarrow>
                  Some (True, bl_put k (if n < length new_l then bl_split new_l else BL_Leaf False new_l) t))"

text \<open>The copy without the key; past the end the code would read an unused entry, here \<open>None\<close>.\<close>

definition bl_remove_block :: "('k::linorder \<times> 'v) list \<Rightarrow> 'k \<Rightarrow> ('k \<times> 'v) list option" where
  "bl_remove_block kvs k =
     (let i = leaf_prev kvs k
      in if i = length kvs then None
         else let offset = (if equal_keys (fst (kvs ! i)) k then 1 else 0) in Some (take i kvs @ drop (i + offset) kvs))"

definition blt_remove :: "'k::linorder \<Rightarrow> ('k, 'v) blt \<Rightarrow> (bool \<times> ('k, 'v) blt) option" where
  "blt_remove k t =
     (let old_l = bl_leaf_at k t
      in if bl_find (bl_keyvals old_l) k = None then Some (False, t)
         else if 1 < length (bl_keyvals old_l)
         then map_option (\<lambda>new_l. (True, bl_put k (BL_Leaf False new_l) t)) (bl_remove_block (bl_keyvals old_l) k)
         else if equal_keys (fst (bl_keyvals old_l ! 0)) k then map_option (Pair True) (bl_shortcut k t)
         else Some (True, t))"

text \<open>\<open>insert_\<close> and \<open>remove_\<close> are not yet implemented in the code.\<close>

definition blt_insert_plain :: "'k \<Rightarrow> 'v \<Rightarrow> ('k, 'v) blt \<Rightarrow> bool \<times> ('k, 'v) blt" where
  "blt_insert_plain k v t = (False, t)"

definition blt_remove_plain :: "'k \<Rightarrow> ('k, 'v) blt \<Rightarrow> bool \<times> ('k, 'v) blt" where
  "blt_remove_plain k t = (False, t)"

fun bl_scan :: "('k::linorder \<times> 'v) list \<Rightarrow> 'k \<Rightarrow> 'v option" where
  "bl_scan [] k = None"
| "bl_scan ((k', v) # kvs) k = (if equal_keys k' k then Some v else bl_scan kvs k)"

definition blt_find :: "'k::linorder \<Rightarrow> ('k, 'v) blt \<Rightarrow> 'v option" where
  "blt_find k t = bl_scan (bl_keyvals (bl_leaf_at k t)) k"

definition empty_blt :: "('k, 'v) blt" where
  "empty_blt = BL_Leaf True []"

text \<open>The nodes the destructor retires: its function returns at once.\<close>

definition retire_blt :: "('k, 'v) blt \<Rightarrow> ('k, 'v) blt list" where
  "retire_blt p = []"

primrec blt_height_rec :: "('k, 'v) blt \<Rightarrow> nat \<Rightarrow> nat" where
  "blt_height_rec (BL_Leaf b kvs) depth = depth * length kvs"
| "blt_height_rec (BL_Node key l r) depth = blt_height_rec l (depth + 1) + blt_height_rec r (depth + 1)"

definition blt_total_height :: "('k, 'v) blt \<Rightarrow> nat" where
  "blt_total_height t = blt_height_rec t 1"

text \<open>The check: smallest and largest key, number of entries and whether the order is wrong somewhere;
  \<open>any\<close> stands for the unused entry that is read for the sentinel.\<close>

primrec blt_crec :: "'k::linorder \<Rightarrow> ('k, 'v) blt \<Rightarrow> 'k \<times> 'k \<times> nat \<times> bool" where
  "blt_crec any (BL_Leaf b kvs) = (let (lo, hi) = leaf_min_max any kvs in (lo, hi, length kvs, False))"
| "blt_crec any (BL_Node key l r) =
     (let (lmin, lmax, lsum, lbad) = blt_crec any l;
          (rmin, rmax, rsum, rbad) = blt_crec any r;
          bad = (lbad \<or> rbad \<or> (0 < lsum \<and> \<not> lmax < key) \<or> rmin < key)
      in if lsum = 0 then (key, rmax, rsum, bad) else (lmin, rmax, lsum + rsum, bad))"

definition blt_check :: "'k::linorder \<Rightarrow> ('k, 'v) blt \<Rightarrow> int" where
  "blt_check any t = (let (_, _, cnt, bad) = blt_crec any t in if bad then - 1 else int cnt)"

section \<open>Well-formed trees\<close>

text \<open>The leaf without a lower bound is the sentinel and has no entries; all other leaves have between one and \<open>n\<close> (the block size) entries.\<close>

primrec blt_ok :: "nat \<Rightarrow> 'k::linorder option \<Rightarrow> 'k option \<Rightarrow> ('k, 'v) blt \<Rightarrow> bool" where
  "blt_ok n lo hi (BL_Leaf b kvs) \<longleftrightarrow> (b \<longleftrightarrow> lo = None) \<and> (b \<longleftrightarrow> kvs = []) \<and> length kvs \<le> n \<and> entries_ok lo hi kvs"
| "blt_ok n lo hi (BL_Node key l r) \<longleftrightarrow>
     nonempty_range lo (Some key) \<and> nonempty_range (Some key) hi \<and> blt_ok n lo (Some key) l \<and> blt_ok n (Some key) hi r"

primrec blt_entries :: "('k, 'v) blt \<Rightarrow> ('k \<times> 'v) list" where
  "blt_entries (BL_Leaf b kvs) = kvs"
| "blt_entries (BL_Node key l r) = blt_entries l @ blt_entries r"

lemma equal_keys_eq [simp]: "equal_keys a b \<longleftrightarrow> a = b"
  by (auto simp: equal_keys_def)

lemma bl_scan_map_of: "bl_scan kvs k = map_of kvs k"
  by (induction kvs k rule: bl_scan.induct) auto

lemma bl_find_map_of: "bl_find kvs k = map_of kvs k"
  by (induction kvs k rule: bl_find.induct) (auto simp: not_less)

lemma blt_ok_entries: "blt_ok n lo hi t \<Longrightarrow> entries_ok lo hi (blt_entries t)"
proof (induction t arbitrary: lo hi)
  case (BL_Node key l r)
  then show ?case using entries_ok_append [of lo key "blt_entries l" hi "blt_entries r"] by simp
qed simp

lemma blt_nonempty: "blt_ok n (Some x) hi t \<Longrightarrow> blt_entries t \<noteq> []"
  by (induction t arbitrary: x hi) auto

lemma entries_ok_widen:
  assumes "entries_ok lo hi kvs" "\<And>k. within lo k hi \<Longrightarrow> within lo' k hi'"
  shows "entries_ok lo' hi' kvs"
  using assms by (auto simp: entries_ok_def)

lemma blt_ok_lower: "blt_ok n (Some a) hi t \<Longrightarrow> b \<le> a \<Longrightarrow> blt_ok n (Some b) hi t"
proof (induction t arbitrary: hi)
  case (BL_Leaf s kvs)
  have "within (Some b) k hi" if "within (Some a) k hi" for k using BL_Leaf.prems(2) that by (auto simp: within_def)
  then show ?case using BL_Leaf.prems(1) entries_ok_widen [of "Some a" hi kvs "Some b" hi] by auto
next
  case (BL_Node key l r)
  then show ?case by (auto simp: nonempty_range_def)
qed

lemma blt_ok_upper: "blt_ok n lo (Some a) t \<Longrightarrow> nonempty_range (Some a) hi \<Longrightarrow> blt_ok n lo hi t"
proof (induction t arbitrary: lo)
  case (BL_Leaf s kvs)
  have "within lo k hi" if "within lo k (Some a)" for k
    using BL_Leaf.prems(2) that by (auto simp: within_def nonempty_range_def split: option.splits)
  then show ?case using BL_Leaf.prems(1) entries_ok_widen [of lo "Some a" kvs lo hi] by auto
next
  case (BL_Node key l r)
  then show ?case by (auto simp: nonempty_range_def)
qed

text \<open>The leaf of a key, what replacing it does, and what taking it out does.\<close>

lemma blt_leaf:
  assumes "blt_ok n lo hi t" "within lo k hi"
  obtains b kvs m h E1 E2 where "bl_leaf_at k t = BL_Leaf b kvs" "blt_ok n m h (BL_Leaf b kvs)" "within m k h"
    "blt_entries t = E1 @ kvs @ E2" "\<And>x. x \<in> fst ` set E1 \<Longrightarrow> x < k" "\<And>x. x \<in> fst ` set E2 \<Longrightarrow> k < x"
    "\<And>u. blt_ok n m h u \<Longrightarrow> blt_ok n lo hi (bl_put k u t) \<and> blt_entries (bl_put k u t) = E1 @ blt_entries u @ E2"
proof -
  have "\<exists>b kvs m h E1 E2. bl_leaf_at k t = BL_Leaf b kvs \<and> blt_ok n m h (BL_Leaf b kvs) \<and> within m k h
      \<and> blt_entries t = E1 @ kvs @ E2 \<and> (\<forall>x\<in>fst ` set E1. x < k) \<and> (\<forall>x\<in>fst ` set E2. k < x)
      \<and> (\<forall>u. blt_ok n m h u \<longrightarrow> blt_ok n lo hi (bl_put k u t) \<and> blt_entries (bl_put k u t) = E1 @ blt_entries u @ E2)"
    using assms
  proof (induction t arbitrary: lo hi)
    case (BL_Leaf b kvs)
    show ?case
      by (rule exI [of _ b], rule exI [of _ kvs], rule exI [of _ lo], rule exI [of _ hi], rule exI [of _ "[]"], rule exI [of _ "[]"])
        (use BL_Leaf in auto)
  next
    case (BL_Node key l r)
    show ?case
    proof (cases "k < key")
      case True
      then have "within lo k (Some key)" using BL_Node.prems(2) by (simp add: within_def)
      moreover have "entries_ok (Some key) hi (blt_entries r)" using BL_Node.prems(1) by (auto intro: blt_ok_entries)
      then have R: "\<forall>x\<in>fst ` set (blt_entries r). k < x" using True by (fastforce simp: entries_ok_def within_def)
      moreover have "blt_ok n lo (Some key) l" using BL_Node.prems(1) by simp
      ultimately obtain b kvs m h E1 E2 where I: "bl_leaf_at k l = BL_Leaf b kvs" "blt_ok n m h (BL_Leaf b kvs)" "within m k h"
        "blt_entries l = E1 @ kvs @ E2" "\<forall>x\<in>fst ` set E1. x < k" "\<forall>x\<in>fst ` set E2. k < x"
        "\<forall>u. blt_ok n m h u \<longrightarrow> blt_ok n lo (Some key) (bl_put k u l) \<and> blt_entries (bl_put k u l) = E1 @ blt_entries u @ E2"
        using BL_Node.IH(1) [of lo "Some key"] by metis
      show ?thesis
        by (rule exI [of _ b], rule exI [of _ kvs], rule exI [of _ m], rule exI [of _ h], rule exI [of _ E1], rule exI [of _ "E2 @ blt_entries r"])
          (use I R True BL_Node.prems(1) in \<open>auto simp: image_Un ball_Un\<close>)
    next
      case False
      then have "within (Some key) k hi" using BL_Node.prems(2) by (simp add: within_def)
      moreover have "entries_ok lo (Some key) (blt_entries l)" using BL_Node.prems(1) by (auto intro: blt_ok_entries)
      then have L: "\<forall>x\<in>fst ` set (blt_entries l). x < k" using False by (fastforce simp: entries_ok_def within_def)
      moreover have "blt_ok n (Some key) hi r" using BL_Node.prems(1) by simp
      ultimately obtain b kvs m h E1 E2 where I: "bl_leaf_at k r = BL_Leaf b kvs" "blt_ok n m h (BL_Leaf b kvs)" "within m k h"
        "blt_entries r = E1 @ kvs @ E2" "\<forall>x\<in>fst ` set E1. x < k" "\<forall>x\<in>fst ` set E2. k < x"
        "\<forall>u. blt_ok n m h u \<longrightarrow> blt_ok n (Some key) hi (bl_put k u r) \<and> blt_entries (bl_put k u r) = E1 @ blt_entries u @ E2"
        using BL_Node.IH(2) [of "Some key" hi] by metis
      show ?thesis
        by (rule exI [of _ b], rule exI [of _ kvs], rule exI [of _ m], rule exI [of _ h], rule exI [of _ "blt_entries l @ E1"], rule exI [of _ E2])
          (use I L False BL_Node.prems(1) in \<open>auto simp: image_Un ball_Un\<close>)
    qed
  qed
  then show thesis using that by metis
qed

text \<open>A leaf that is not the sentinel has a parent below the root, so that there is a grandparent.\<close>

lemma blt_shortcut_ok:
  assumes "blt_ok n lo hi t" "bl_leaf_at k t = BL_Leaf False kvs" "\<not> is_bl_leaf t"
  shows "\<exists>t' E1 E2. bl_shortcut k t = Some t' \<and> blt_ok n lo hi t' \<and> blt_entries t = E1 @ kvs @ E2 \<and> blt_entries t' = E1 @ E2"
  using assms
proof (induction t arbitrary: lo hi)
  case (BL_Node key l r)
  show ?case
  proof (cases "k < key")
    case True
    show ?thesis
    proof (cases "is_bl_leaf l")
      case leaf: True
      then have l: "l = BL_Leaf False kvs" using BL_Node.prems(2) True by (cases l) (auto simp: is_bl_leaf_def)
      then obtain a where "lo = Some a" using BL_Node.prems(1) by (cases lo) auto
      then have "blt_ok n lo hi r" using BL_Node.prems(1) blt_ok_lower [of n key hi r a] by (auto simp: nonempty_range_def intro: less_imp_le)
      note this_ok = this
      show ?thesis by (rule exI [of _ r], rule exI [of _ "[]"], rule exI [of _ "blt_entries r"]) (use this_ok True leaf l in simp)
    next
      case False
      then obtain l' E1 E2 where "bl_shortcut k l = Some l'" "blt_ok n lo (Some key) l'" "blt_entries l = E1 @ kvs @ E2" "blt_entries l' = E1 @ E2"
        using BL_Node.IH(1) [of lo "Some key"] BL_Node.prems True by auto
      note this_ok = this
      show ?thesis by (rule exI [of _ "BL_Node key l' r"], rule exI [of _ E1], rule exI [of _ "E2 @ blt_entries r"]) (use this_ok True False BL_Node.prems(1) in simp)
    qed
  next
    case ge: False
    show ?thesis
    proof (cases "is_bl_leaf r")
      case leaf: True
      then have r: "r = BL_Leaf False kvs" using BL_Node.prems(2) ge by (cases r) (auto simp: is_bl_leaf_def)
      have "blt_ok n lo hi l" using BL_Node.prems(1) blt_ok_upper [of n lo key l hi] by simp
      note this_ok = this
      show ?thesis by (rule exI [of _ l], rule exI [of _ "blt_entries l"], rule exI [of _ "[]"]) (use this_ok ge leaf r in simp)
    next
      case False
      then obtain r' E1 E2 where "bl_shortcut k r = Some r'" "blt_ok n (Some key) hi r'" "blt_entries r = E1 @ kvs @ E2" "blt_entries r' = E1 @ E2"
        using BL_Node.IH(2) [of "Some key" hi] BL_Node.prems ge by auto
      note this_ok = this
      show ?thesis by (rule exI [of _ "BL_Node key l r'"], rule exI [of _ "blt_entries l @ E1"], rule exI [of _ E2]) (use this_ok ge False BL_Node.prems(1) in simp)
    qed
  qed
qed (simp add: is_bl_leaf_def)

section \<open>The operations on the map\<close>

definition blt_abs :: "('k, 'v) blt \<Rightarrow> 'k \<rightharpoonup> 'v" where
  "blt_abs t = map_of (blt_entries t)"

definition wf_blt :: "nat \<Rightarrow> ('k::linorder, 'v) blt \<Rightarrow> bool" where
  "wf_blt n t \<longleftrightarrow> 1 \<le> n \<and> blt_ok n None None t"

lemma blt_find_abs:
  assumes "wf_blt n t"
  shows "blt_find k t = blt_abs t k"
proof -
  obtain b kvs E1 E2 where "bl_leaf_at k t = BL_Leaf b kvs" "blt_entries t = E1 @ kvs @ E2"
    "\<And>x. x \<in> fst ` set E1 \<Longrightarrow> x < k" "\<And>x. x \<in> fst ` set E2 \<Longrightarrow> k < x"
    using blt_leaf [OF _ within_None, of n t k] assms unfolding wf_blt_def by metis
  then show ?thesis using map_of_between(1) [of E1 k E2 kvs] by (simp add: blt_find_def bl_scan_map_of blt_abs_def)
qed

lemma bl_split_ok:
  assumes "entries_ok (Some a) h kvs" "2 \<le> length kvs" "length kvs \<le> Suc n" "1 \<le> n"
  shows "blt_ok n (Some a) h (bl_split kvs)" "blt_entries (bl_split kvs) = kvs"
proof -
  let ?s = "length kvs div 2"
  let ?A = "take ?s kvs" and ?B = "drop ?s kvs"
  have s: "0 < ?s" "?s < length kvs" "?s \<le> n" "length kvs - ?s \<le> n" using assms(2-4) by auto
  have kvs: "kvs = ?A @ ?B" by simp
  obtain k v B where B: "?B = (k, v) # B" "kvs ! ?s = (k, v)" using s(2) Cons_nth_drop_Suc [OF s(2)] by (metis prod.exhaust)
  have so: "sorted_wrt (<) (map fst (?A @ ?B))" and w: "\<forall>x\<in>fst ` set (?A @ ?B). within (Some a) x h" using assms(1) by (simp_all add: entries_ok_def)
  have "entries_ok (Some a) (Some k) ?A" using so w B(1) by (auto simp: entries_ok_def sorted_wrt_append within_def simp del: append_take_drop_id)
  moreover have "entries_ok (Some k) h ?B" using so w unfolding B(1) by (auto simp: entries_ok_def sorted_wrt_append within_def less_imp_le)
  moreover have "nonempty_range (Some k) h" using w unfolding B(1) by (auto simp: nonempty_range_def within_def)
  moreover have "nonempty_range (Some a) (Some k)"
  proof -
    obtain x A where "?A = x # A" using s(1,2) by (cases ?A) auto
    then show ?thesis using so w B(1) by (force simp: nonempty_range_def within_def simp del: append_take_drop_id)
  qed
  moreover have "length ?B \<le> n" "?B \<noteq> []" "length ?A \<le> n" "?A \<noteq> []" using s by auto
  ultimately show "blt_ok n (Some a) h (bl_split kvs)" using B(2) by (simp add: bl_split_def Let_def)
  show "blt_entries (bl_split kvs) = kvs" by (simp add: bl_split_def Let_def)
qed

lemma entries_ok_insert:
  assumes "entries_ok m h (A @ B)" "\<And>x. x \<in> fst ` set A \<Longrightarrow> x < k" "\<And>x. x \<in> fst ` set B \<Longrightarrow> k < x" "within m k h"
  shows "entries_ok m h (A @ (k, v) # B)"
  using assms(1,4) sorted_insert_parts(1) [of A B k v] assms(2,3) by (auto simp: entries_ok_def sorted_wrt_append)

lemma blt_insert_abs:
  assumes "wf_blt n t"
  shows "\<exists>r t'. blt_insert n k v t = Some (r, t') \<and> wf_blt n t' \<and> (r \<longleftrightarrow> blt_abs t k = None)
    \<and> blt_abs t' = (if r then (blt_abs t)(k \<mapsto> v) else blt_abs t)"
proof -
  have ok: "blt_ok n None None t" and n: "1 \<le> n" using assms by (simp_all add: wf_blt_def)
  obtain b kvs m h E1 E2 where l: "bl_leaf_at k t = BL_Leaf b kvs" "blt_ok n m h (BL_Leaf b kvs)" "within m k h"
    "blt_entries t = E1 @ kvs @ E2" "\<And>x. x \<in> fst ` set E1 \<Longrightarrow> x < k" "\<And>x. x \<in> fst ` set E2 \<Longrightarrow> k < x"
    "\<And>u. blt_ok n m h u \<Longrightarrow> blt_ok n None None (bl_put k u t) \<and> blt_entries (bl_put k u t) = E1 @ blt_entries u @ E2"
    using blt_leaf [OF ok within_None, of k] by metis
  have look: "map_of kvs k = blt_abs t k" using map_of_between(1) [OF l(5,6), of E1 E2 kvs] unfolding blt_abs_def l(4) by simp
  show ?thesis
  proof (cases "blt_abs t k = None")
    case False
    then have "blt_insert n k v t = Some (False, t)" using l(1) look by (simp add: blt_insert_def bl_find_map_of)
    then show ?thesis using assms False by auto
  next
    case absent: True
    show ?thesis
    proof (cases b)
      case True
      let ?u = "BL_Node k (BL_Leaf True []) (BL_Leaf False [(k, v)])"
      have m: "m = None" "kvs = []" using l(2) True by auto
      have "blt_ok n m h ?u" using l(3) n m by (auto simp: nonempty_range_def entries_ok_def within_def)
      moreover have "blt_insert n k v t = Some (True, bl_put k ?u t)" using l(1) True m by (simp add: blt_insert_def)
      moreover have "map_of (E1 @ (k, v) # E2) = (map_of (E1 @ E2))(k \<mapsto> v)" by (rule map_of_between(2) [OF l(5,6)])
      ultimately have "blt_insert n k v t = Some (True, bl_put k ?u t) \<and> wf_blt n (bl_put k ?u t) \<and> blt_abs (bl_put k ?u t) = (blt_abs t)(k \<mapsto> v)"
        using l(4) l(7) [of ?u] n m by (simp add: wf_blt_def blt_abs_def)
      then show ?thesis using absent by auto
    next
      case False
      then obtain a where a: "m = Some a" using l(2) by (cases m) auto
      have ent: "entries_ok m h kvs" "length kvs \<le> n" "kvs \<noteq> []" using l(2) False by auto
      have "leaf_find kvs k = None" using absent look ent(1) leaf_find_map_of [of kvs k] by (simp add: entries_ok_def)
      then obtain A B where AB: "kvs = A @ B" "leaf_prev kvs k = length A" "\<And>x. x \<in> fst ` set A \<Longrightarrow> x < k" "\<And>x. x \<in> fst ` set B \<Longrightarrow> k < x"
        using leaf_parts [of kvs k] ent(1) unfolding entries_ok_def by (metis option.distinct(1))
      let ?L = "A @ (k, v) # B" and ?u = "if n < length (A @ (k, v) # B) then bl_split (A @ (k, v) # B) else BL_Leaf False (A @ (k, v) # B)"
      have "bl_insert_block kvs k v = Some ?L"
        using AB by (cases B) (auto simp: bl_insert_block_def Let_def)
      then have run: "blt_insert n k v t = Some (True, bl_put k ?u t)"
        using l(1) False absent look by (simp add: blt_insert_def bl_find_map_of del: length_append)
      have L: "entries_ok m h ?L" by (rule entries_ok_insert [OF ent(1) [unfolded AB(1)] AB(3,4) l(3)])
      have "length kvs \<noteq> 0" using ent(3) by simp
      then have len: "2 \<le> length ?L" "length ?L \<le> Suc n" using ent(2) AB(1) by (cases A; cases B; simp)+
      have u: "blt_ok n m h ?u \<and> blt_entries ?u = ?L"
      proof (cases "n < length ?L")
        case True
        then show ?thesis using bl_split_ok [OF _ len n, of a h] L a by simp
      next
        case fits: False
        then show ?thesis using L a by simp
      qed
      have "map_of ((E1 @ A) @ (k, v) # (B @ E2)) = (map_of ((E1 @ A) @ (B @ E2)))(k \<mapsto> v)"
        by (rule map_of_between(2)) (use keys_below_append [OF l(5) AB(3)] keys_above_append [OF AB(4) l(6)] in blast)+
      then have "map_of (E1 @ ?L @ E2) = (blt_abs t)(k \<mapsto> v)" by (simp add: blt_abs_def l(4) AB(1))
      then have "wf_blt n (bl_put k ?u t) \<and> blt_abs (bl_put k ?u t) = (blt_abs t)(k \<mapsto> v)"
        using l(7) [of ?u] u n by (simp add: wf_blt_def blt_abs_def)
      then show ?thesis using run absent by auto
    qed
  qed
qed

lemma blt_remove_abs:
  assumes "wf_blt n t"
  shows "\<exists>r t'. blt_remove k t = Some (r, t') \<and> wf_blt n t' \<and> (r \<longleftrightarrow> blt_abs t k \<noteq> None) \<and> blt_abs t' = (blt_abs t)(k := None)"
proof -
  have ok: "blt_ok n None None t" and n: "1 \<le> n" using assms by (simp_all add: wf_blt_def)
  obtain b kvs m h E1 E2 where l: "bl_leaf_at k t = BL_Leaf b kvs" "blt_ok n m h (BL_Leaf b kvs)" "within m k h"
    "blt_entries t = E1 @ kvs @ E2" "\<And>x. x \<in> fst ` set E1 \<Longrightarrow> x < k" "\<And>x. x \<in> fst ` set E2 \<Longrightarrow> k < x"
    "\<And>u. blt_ok n m h u \<Longrightarrow> blt_ok n None None (bl_put k u t) \<and> blt_entries (bl_put k u t) = E1 @ blt_entries u @ E2"
    using blt_leaf [OF ok within_None, of k] by metis
  have look: "map_of kvs k = blt_abs t k" using map_of_between(1) [OF l(5,6), of E1 E2 kvs] unfolding blt_abs_def l(4) by simp
  show ?thesis
  proof (cases "blt_abs t k = None")
    case True
    then have "blt_remove k t = Some (False, t)" using l(1) look by (simp add: blt_remove_def bl_find_map_of)
    then show ?thesis using assms True by (auto simp: fun_upd_idem)
  next
    case present: False
    then have b: "\<not> b" "kvs \<noteq> []" using look l(2) by auto
    have ent: "entries_ok m h kvs" "length kvs \<le> n" "m \<noteq> None" using l(2) b by auto
    have "leaf_find kvs k \<noteq> None" using present look ent(1) leaf_find_map_of [of kvs k] by (simp add: entries_ok_def)
    then obtain A w B where AB: "kvs = A @ (k, w) # B" "leaf_prev kvs k = length A" "\<And>x. x \<in> fst ` set A \<Longrightarrow> x < k" "\<And>x. x \<in> fst ` set B \<Longrightarrow> k < x"
      using leaf_parts [of kvs k] ent(1) unfolding entries_ok_def by metis
    have "map_of ((E1 @ A) @ (B @ E2)) = (map_of ((E1 @ A) @ (k, w) # (B @ E2)))(k := None)"
      by (rule map_of_between(3)) (use keys_below_append [OF l(5) AB(3)] keys_above_append [OF AB(4) l(6)] in blast)+
    then have abs: "map_of (E1 @ (A @ B) @ E2) = (blt_abs t)(k := None)" by (simp add: blt_abs_def l(4) AB(1))
    show ?thesis
    proof (cases "1 < length kvs")
      case True
      have "bl_remove_block kvs k = Some (A @ B)" using AB(1,2) by (simp add: bl_remove_block_def Let_def)
      then have run: "blt_remove k t = Some (True, bl_put k (BL_Leaf False (A @ B)) t)"
        using l(1) True present look by (auto simp: blt_remove_def bl_find_map_of Let_def)
      have "entries_ok m h (A @ B)" using ent(1) AB(1) by (auto simp: entries_ok_def sorted_wrt_append)
      then have "blt_ok n m h (BL_Leaf False (A @ B))" using ent(2,3) True AB(1) by (cases A) auto
      then have "wf_blt n (bl_put k (BL_Leaf False (A @ B)) t) \<and> blt_abs (bl_put k (BL_Leaf False (A @ B)) t) = (blt_abs t)(k := None)"
        using l(7) [of "BL_Leaf False (A @ B)"] abs n by (simp add: wf_blt_def blt_abs_def)
      then show ?thesis using run present by auto
    next
      case False
      then have kvs: "kvs = [(k, w)]" "A = []" "B = []" using AB(1) b(2) by (cases A; cases B; simp)+
      have "\<not> is_bl_leaf t" using ok l(1) b(1) by (cases t) (auto simp: is_bl_leaf_def)
      moreover have "bl_leaf_at k t = BL_Leaf False kvs" using l(1) b(1) by simp
      ultimately obtain t' F1 F2 where t': "bl_shortcut k t = Some t'" "blt_ok n None None t'" "blt_entries t = F1 @ kvs @ F2" "blt_entries t' = F1 @ F2"
        using blt_shortcut_ok [OF ok] by blast
      have so: "sorted_wrt (<) (map fst (F1 @ (k, w) # F2))" using blt_ok_entries [OF ok] t'(3) kvs(1) by (simp add: entries_ok_def)
      have "map_of (F1 @ F2) = (map_of (F1 @ (k, w) # F2))(k := None)"
        by (rule map_of_between(3)) (use so in \<open>auto simp: sorted_wrt_append\<close>)
      then have "blt_abs t' = (blt_abs t)(k := None)" using t'(3,4) kvs(1) by (simp add: blt_abs_def)
      moreover have "blt_remove k t = Some (True, t')" using l(1) False present look kvs(1) t'(1) by (auto simp: blt_remove_def bl_find_map_of Let_def)
      moreover have "wf_blt n t'" using t'(2) n by (simp add: wf_blt_def)
      ultimately show ?thesis using present by auto
    qed
  qed
qed

definition block_tree_insert :: "nat \<Rightarrow> 'k::linorder \<Rightarrow> 'v \<Rightarrow> ('k, 'v) blt \<Rightarrow> bool \<times> ('k, 'v) blt" where
  "block_tree_insert n k v t = the (blt_insert n k v t)"

definition block_tree_remove :: "'k::linorder \<Rightarrow> ('k, 'v) blt \<Rightarrow> bool \<times> ('k, 'v) blt" where
  "block_tree_remove k t = the (blt_remove k t)"

interpretation block_tree: map_adt "wf_blt n" blt_abs "block_tree_insert n" block_tree_remove blt_find for n
proof
  fix t :: "('k::linorder, 'v) blt" and k v r t'
  assume wf: "wf_blt n t"
  show "blt_find k t = blt_abs t k" by (rule blt_find_abs [OF wf])
  show "wf_blt n t' \<and> (r \<longleftrightarrow> blt_abs t k = None) \<and> blt_abs t' = (if r then (blt_abs t)(k \<mapsto> v) else blt_abs t)"
    if "block_tree_insert n k v t = (r, t')"
    using blt_insert_abs [OF wf, of k v] that by (auto simp: block_tree_insert_def)
  show "wf_blt n t' \<and> (r \<longleftrightarrow> blt_abs t k \<noteq> None) \<and> blt_abs t' = (blt_abs t)(k := None)" if "block_tree_remove k t = (r, t')"
    using blt_remove_abs [OF wf, of k] that by (auto simp: block_tree_remove_def)
qed

lemma empty_blt_wf: "1 \<le> n \<Longrightarrow> wf_blt n empty_blt"
  by (simp add: wf_blt_def empty_blt_def entries_ok_def)

lemma empty_blt_abs [simp]: "blt_abs empty_blt = (\<lambda>_. None)"
  by (simp add: blt_abs_def empty_blt_def)

section \<open>The self check\<close>

lemma blt_crec_ok:
  assumes "blt_ok n lo hi t"
  shows "\<exists>mn mx. blt_crec any t = (mn, mx, length (blt_entries t), False)
    \<and> (blt_entries t \<noteq> [] \<longrightarrow> mx = fst (last (blt_entries t))) \<and> (lo \<noteq> None \<longrightarrow> mn = fst (hd (blt_entries t)))"
  using assms
proof (induction t arbitrary: lo hi)
  case (BL_Leaf b kvs)
  show ?case
  proof (cases "kvs = []")
    case True
    then show ?thesis using BL_Leaf by (auto simp: leaf_min_max_def)
  next
    case False
    then show ?thesis using BL_Leaf leaf_min_max_sorted [of kvs any] by (simp add: entries_ok_def)
  qed
next
  case (BL_Node key l r)
  have ok: "blt_ok n lo (Some key) l" "blt_ok n (Some key) hi r" using BL_Node.prems by simp_all
  obtain lmn lmx where l: "blt_crec any l = (lmn, lmx, length (blt_entries l), False)"
    "blt_entries l \<noteq> [] \<longrightarrow> lmx = fst (last (blt_entries l))" "lo \<noteq> None \<longrightarrow> lmn = fst (hd (blt_entries l))"
    using BL_Node.IH(1) [OF ok(1)] by blast
  obtain rmn rmx where r: "blt_crec any r = (rmn, rmx, length (blt_entries r), False)"
    "blt_entries r \<noteq> [] \<longrightarrow> rmx = fst (last (blt_entries r))" "rmn = fst (hd (blt_entries r))"
    using BL_Node.IH(2) [OF ok(2)] by auto
  have ne: "blt_entries r \<noteq> []" by (rule blt_nonempty [OF ok(2)])
  then have "within (Some key) rmn hi" using blt_ok_entries [OF ok(2)] r(3) by (simp add: entries_ok_def)
  then have above: "\<not> rmn < key" by (simp add: within_def not_less)
  have below: "lmx < key" if "blt_entries l \<noteq> []"
    using blt_ok_entries [OF ok(1)] l(2) that by (simp add: entries_ok_def within_def)
  show ?case
  proof (cases "blt_entries l = []")
    case True
    then have "lo = None" using blt_nonempty [of n _ "Some key" l] ok(1) by (cases lo) auto
    then show ?thesis using True l(1) r(1,2) above ne by simp
  next
    case False
    then show ?thesis using l r(1,2) above below ne by simp
  qed
qed

lemma blt_height_rec_ge: "d * length (blt_entries t) \<le> blt_height_rec t d"
proof (induction t arbitrary: d)
  case (BL_Node key l r)
  have "d * length (blt_entries l) \<le> blt_height_rec l (d + 1)" "d * length (blt_entries r) \<le> blt_height_rec r (d + 1)"
    using BL_Node.IH(1) [of "d + 1"] BL_Node.IH(2) [of "d + 1"] by simp_all
  then show ?case by (simp add: add_mult_distrib2)
qed simp

lemma blt_entries_card:
  assumes "wf_blt n t"
  shows "card (dom (blt_abs t)) = length (blt_entries t)"
proof -
  have "sorted_wrt (<) (map fst (blt_entries t))" using assms blt_ok_entries [of n None None t] by (simp add: wf_blt_def entries_ok_def)
  then have "distinct (map fst (blt_entries t))" using strict_sorted_iff by blast
  then show ?thesis by (simp add: blt_abs_def dom_map_of_conv_image_fst card_image distinct_map distinct_card)
qed

section \<open>The properties\<close>

text \<open>C32: Every history of find, insert and remove on the tree with blocks in its leaves returns what the
  abstract map returns; the tree stays ordered, its leftmost leaf is the sentinel and every other
  leaf has at least one entry and at most as many as fit in a block.\<close>

theorem block_tree_refines_map:
  assumes "wf_blt n t" "block_tree.impl_run n xs t = (rs, t')"
  shows "wf_blt n t' \<and> spec_run xs (blt_abs t) = (rs, blt_abs t')"
  by (rule block_tree.impl_run_refines [OF assms])

theorem block_tree_refines_map_witness:
  "fst (block_tree.impl_run (bl_block_size 16) [Insert (3::nat) (30::nat), Insert 7 70, Insert 3 31, Find 3, Remove 3, Find 3] empty_blt) =
    [Inserted True, Inserted True, Inserted False, Found (Some 30), Removed_key True, Found None]"
proof -
  let ?n = "bl_block_size 16" and ?xs = "[Insert (3::nat) (30::nat), Insert 7 70, Insert 3 31, Find 3, Remove 3, Find 3]"
  obtain rs t' where r: "block_tree.impl_run ?n ?xs empty_blt = (rs, t')" by (metis prod.exhaust)
  have "wf_blt ?n empty_blt" by (rule empty_blt_wf) (simp add: bl_block_size_def)
  from block_tree_refines_map [OF this r] show ?thesis unfolding r by auto
qed

text \<open>C33: On a well-formed tree insertion and removal return a well-formed tree; neither the abort of an
  insertion (the key found in the block after all) nor the missing grandparent of a removal is reached.\<close>

theorem block_tree_well_formed:
  assumes "wf_blt n t"
  shows "(\<exists>r t'. blt_insert n k v t = Some (r, t') \<and> wf_blt n t') \<and> (\<exists>r t'. blt_remove k t = Some (r, t') \<and> wf_blt n t')"
  using blt_insert_abs [OF assms, of k v] blt_remove_abs [OF assms, of k] by blast

text \<open>A tree of one entry, whose removal takes the leaf out.\<close>

definition one_entry :: "(nat, unit) blt" where
  "one_entry = BL_Node 3 (BL_Leaf True []) (BL_Leaf False [(3, ())])"

lemma one_entry_wf: "wf_blt 14 one_entry"
  by (simp add: one_entry_def wf_blt_def nonempty_range_def entries_ok_def within_def)

theorem block_tree_well_formed_witness:
  "(\<exists>r t'. blt_insert 14 5 () one_entry = Some (r, t') \<and> wf_blt 14 t') \<and> (\<exists>r t'. blt_remove 3 one_entry = Some (r, t') \<and> wf_blt 14 t')"
  using block_tree_well_formed [OF one_entry_wf, of 5 "()"] block_tree_well_formed [OF one_entry_wf, of 3] by blast

text \<open>The self check of the tree finds no key on the wrong side of a node of a well-formed tree and returns
  the number of keys of the map, whatever the unused entry of the sentinel holds.\<close>

theorem block_tree_check:
  assumes "wf_blt n t"
  shows "blt_check any t = int (card (dom (blt_abs t))) \<and> card (dom (blt_abs t)) \<le> blt_total_height t"
proof -
  have "blt_check any t = int (length (blt_entries t))"
    using blt_crec_ok [of n None None t any] assms by (auto simp: blt_check_def wf_blt_def)
  moreover have "length (blt_entries t) \<le> blt_total_height t"
    using blt_height_rec_ge [of 1 t] by (simp add: blt_total_height_def)
  ultimately show ?thesis by (simp add: blt_entries_card [OF assms])
qed

theorem block_tree_check_witness: "blt_check 0 one_entry = int (card (dom (blt_abs one_entry)))"
  by (rule block_tree_check [OF one_entry_wf, THEN conjunct1])

end
