(* ===== verification/Radix_Tree.thy ===== *)
theory Radix_Tree
  imports Map_ADT
begin

text \<open>
  The adaptive radix tree, \<^verbatim>\<open>structures/arttree/ordered_map.h\<close>, for keys of 64 bits (\<open>int_string\<close>). An
  internal node branches on one byte of the key and has one of three layouts, which grow from
  sparse over indirect to full; a leaf holds up to 14 entries in key order. The tree is a value and the
  operations run alone. The theory has the operations and the invariant; \<open>Radix_Tree_Map\<close> shows
  what they do to the map, and where the code goes wrong: a lookup may take an internal node for a leaf,
  and a removal of an absent key may follow a null pointer.
\<close>

section \<open>Keys as strings of bytes\<close>

definition key_length :: "u64 \<Rightarrow> nat" where
  "key_length key = 8"

definition get_byte :: "u64 \<Rightarrow> nat \<Rightarrow> nat" where
  "get_byte key pos = unat (drop_bit (8 * (8 - 1 - pos)) key AND 255)"

definition max_indirect_size :: nat where "max_indirect_size = 64"
definition max_sparse_size :: nat where "max_sparse_size = 16"
definition max_small_leaf_size :: nat where "max_small_leaf_size = 2"
definition max_big_leaf_size :: nat where "max_big_leaf_size = 14"

section \<open>Nodes\<close>

text \<open>
  The header's \<open>key\<close> and \<open>byte_num\<close> and the fields of the four node types. \<open>None\<close> as an index is the
  \<open>-1\<close> of the code, \<open>None\<close> as a child is the null pointer. The number of children or entries is the length of the lists.
\<close>

datatype 'v art =
    Full (hkey: u64) (byte_num: nat) (fchildren: "'v art option list")
  | Indirect (hkey: u64) (byte_num: nat) (idx: "nat option list") (iptr: "'v art option list")
  | Sparse (hkey: u64) (byte_num: nat) (skeys: "nat list") (sptr: "'v art option list")
  | Leaf (hkey: u64) (byte_num: nat) (key_vals: "(u64 \<times> 'v) list")

definition is_leaf_art :: "'v art \<Rightarrow> bool" where
  "is_leaf_art t = (case t of Leaf _ _ _ \<Rightarrow> True | _ \<Rightarrow> False)"

fun art_size :: "'v art \<Rightarrow> nat" where
  "art_size (Full h n cs) = 0"
| "art_size (Indirect h n ix ps) = length ps"
| "art_size (Sparse h n ks ps) = length ks"
| "art_size (Leaf h n kvs) = length kvs"

text \<open>The child for a byte: \<open>None\<close> when the node has no pointer for it. The indices are within the arrays in every node that the code builds.\<close>

definition full_get_child :: "'v art option list \<Rightarrow> nat \<Rightarrow> 'v art option option" where
  "full_get_child cs b = (if b < length cs then Some (cs ! b) else None)"

definition indirect_get_child :: "nat option list \<Rightarrow> 'v art option list \<Rightarrow> nat \<Rightarrow> 'v art option option" where
  "indirect_get_child ix ps b =
     (if b < length ix then case ix ! b of None \<Rightarrow> None | Some i \<Rightarrow> if i < length ps then Some (ps ! i) else None else None)"

fun sparse_get_child :: "nat list \<Rightarrow> 'v art option list \<Rightarrow> nat \<Rightarrow> 'v art option option" where
  "sparse_get_child (k # ks) (p # ps) kb = (if k = kb then Some p else sparse_get_child ks ps kb)"
| "sparse_get_child _ _ kb = None"

fun byte_slot :: "nat \<Rightarrow> 'v art \<Rightarrow> 'v art option option" where
  "byte_slot b (Full h n cs) = full_get_child cs b"
| "byte_slot b (Indirect h n ix ps) = indirect_get_child ix ps b"
| "byte_slot b (Sparse h n ks ps) = sparse_get_child ks ps b"
| "byte_slot b (Leaf h n kvs) = None"

definition get_child :: "'v art \<Rightarrow> u64 \<Rightarrow> 'v art option option" where
  "get_child x k = byte_slot (get_byte k (byte_num x)) x"

text \<open>The assignment through the pointer that \<open>get_child\<close> returned.\<close>

fun sparse_set_child :: "nat list \<Rightarrow> 'v art option list \<Rightarrow> nat \<Rightarrow> 'v art option \<Rightarrow> 'v art option list" where
  "sparse_set_child (k # ks) (p # ps) kb c = (if k = kb then c # ps else p # sparse_set_child ks ps kb c)"
| "sparse_set_child _ ps kb c = ps"

fun set_slot :: "nat \<Rightarrow> 'v art option \<Rightarrow> 'v art \<Rightarrow> 'v art" where
  "set_slot b c (Full h n cs) = Full h n (cs[b := c])"
| "set_slot b c (Indirect h n ix ps) = Indirect h n ix (case ix ! b of None \<Rightarrow> ps | Some i \<Rightarrow> ps[i := c])"
| "set_slot b c (Sparse h n ks ps) = Sparse h n ks (sparse_set_child ks ps b c)"
| "set_slot b c (Leaf h n kvs) = Leaf h n kvs"

definition put_child :: "u64 \<Rightarrow> 'v art option \<Rightarrow> 'v art \<Rightarrow> 'v art" where
  "put_child k c x = set_slot (get_byte k (byte_num x)) c x"

fun is_full :: "'v art \<Rightarrow> bool" where
  "is_full (Full h n cs) = False"
| "is_full (Indirect h n ix ps) = (length ps = max_indirect_size)"
| "is_full (Sparse h n ks ps) = (length ks = max_sparse_size)"
| "is_full (Leaf h n kvs) = False"

text \<open>A new sparse node with two children, and one with a child for each of several nodes.\<close>

definition sparse_pair :: "nat \<Rightarrow> 'v art \<Rightarrow> u64 \<Rightarrow> 'v art \<Rightarrow> u64 \<Rightarrow> 'v art" where
  "sparse_pair n v1 k1 v2 k2 = Sparse k1 n [get_byte k1 n, get_byte k2 n] [Some v1, Some v2]"

definition sparse_nodes :: "nat \<Rightarrow> 'v art list \<Rightarrow> 'v art" where
  "sparse_nodes n cs = Sparse (hkey (hd cs)) n (map (\<lambda>c. get_byte (hkey c) n) cs) (map Some cs)"

section \<open>Leaves\<close>

text \<open>\<open>cmp\<close> compares from a byte on: -1, 0 or 1. Both keys have the same length.\<close>

function cmp_loop :: "u64 \<Rightarrow> u64 \<Rightarrow> nat \<Rightarrow> nat" where
  "cmp_loop a b i = (if i < 8 \<and> get_byte a i = get_byte b i then cmp_loop a b (Suc i) else i)"
  by auto
termination by (relation "measure (\<lambda>(a, b, i). 8 - i)") auto

declare cmp_loop.simps [simp del]

definition cmp :: "u64 \<Rightarrow> u64 \<Rightarrow> nat \<Rightarrow> int" where
  "cmp a b start_byte =
     (let i = cmp_loop a b start_byte
      in if i = 8 then 0 else if get_byte a i < get_byte b i then - 1 else 1)"

text \<open>The search of a leaf, with \<open><\<close> for integers and with \<open>cmp\<close> otherwise.\<close>

fun leaf_search :: "(u64 \<times> 'v) list \<Rightarrow> u64 \<Rightarrow> 'v option" where
  "leaf_search [] k = None"
| "leaf_search ((a, v) # kvs) k = (if \<not> a < k then (if k < a then None else Some v) else leaf_search kvs k)"

fun leaf_scan_cmp :: "(u64 \<times> 'v) list \<Rightarrow> u64 \<Rightarrow> nat \<Rightarrow> 'v option" where
  "leaf_scan_cmp [] k pos = None"
| "leaf_scan_cmp ((a, v) # kvs) k pos =
     (let x = cmp a k pos in if x \<noteq> - 1 then (if x = 1 then None else Some v) else leaf_scan_cmp kvs k pos)"

definition leaf_find_cmp :: "nat \<Rightarrow> (u64 \<times> 'v) list \<Rightarrow> u64 \<Rightarrow> nat \<Rightarrow> 'v option" where
  "leaf_find_cmp n kvs k byte_pos = (if byte_pos < n then None else leaf_scan_cmp kvs k byte_pos)"

text \<open>\<open>first_diff\<close>: the first byte on which the keys of a leaf are not all the same.\<close>

function first_diff_loop :: "nat \<Rightarrow> u64 \<Rightarrow> u64 list \<Rightarrow> nat" where
  "first_diff_loop j key ks =
     (if ks = [] \<or> list_ex (\<lambda>k. 8 \<le> j \<or> get_byte k j \<noteq> get_byte key j) ks then j else first_diff_loop (Suc j) key ks)"
  by auto
termination
  by (relation "measure (\<lambda>(j, key, ks). 8 - j)") (auto simp: neq_Nil_conv)

declare first_diff_loop.simps [simp del]

definition first_diff :: "nat \<Rightarrow> (u64 \<times> 'v) list \<Rightarrow> nat" where
  "first_diff byte_pos kvs =
     (if length kvs = 1 then key_length (fst (hd kvs)) else first_diff_loop byte_pos (fst (hd kvs)) (map fst (tl kvs)))"

text \<open>The constructors of leaves: one entry, several entries, an entry more and an entry less.\<close>

definition singleton_leaf :: "u64 \<Rightarrow> 'v \<Rightarrow> 'v art" where
  "singleton_leaf k v = Leaf k (key_length k) [(k, v)]"

definition multi_leaf :: "nat \<Rightarrow> (u64 \<times> 'v) list \<Rightarrow> 'v art" where
  "multi_leaf byte_pos kvs = Leaf (fst (hd kvs)) (first_diff byte_pos kvs) kvs"

fun leaf_insert :: "(u64 \<times> 'v) list \<Rightarrow> u64 \<Rightarrow> 'v \<Rightarrow> (u64 \<times> 'v) list" where
  "leaf_insert [] k v = [(k, v)]"
| "leaf_insert ((a, w) # kvs) k v = (if a < k then (a, w) # leaf_insert kvs k v else (k, v) # (a, w) # kvs)"

definition leaf_add :: "nat \<Rightarrow> 'v art \<Rightarrow> u64 \<Rightarrow> 'v \<Rightarrow> 'v art" where
  "leaf_add byte_pos l k v = Leaf (hkey l) byte_pos (leaf_insert (key_vals l) k v)"

definition leaf_drop :: "'v art \<Rightarrow> u64 \<Rightarrow> 'v art" where
  "leaf_drop l k =
     (let kvs = filter (\<lambda>(a, _). a \<noteq> k) (key_vals l) in Leaf (fst (hd kvs)) (first_diff (byte_num l) kvs) kvs)"

section \<open>Growing a node\<close>

text \<open>The indices of a sparse node, and the copies of \<open>add_child\<close> with one child more.\<close>

definition sparse_index :: "nat list \<Rightarrow> nat option list" where
  "sparse_index ks = fold (\<lambda>i ix. ix[ks ! i := Some i]) [0..<length ks] (replicate 256 None)"

fun grow :: "'v art \<Rightarrow> u64 \<Rightarrow> 'v art \<Rightarrow> 'v art" where
  "grow (Indirect h n ix ps) k c =
     (if is_full (Indirect h n ix ps)
      then Full h n ((map (\<lambda>i. case i of None \<Rightarrow> None | Some j \<Rightarrow> ps ! j) ix)[get_byte k n := Some c])
      else Indirect h n (ix[get_byte k n := Some (length ps)]) (ps @ [Some c]))"
| "grow (Sparse h n ks ps) k c =
     (if is_full (Sparse h n ks ps)
      then Indirect h n ((sparse_index ks)[get_byte k n := Some (length ps)]) (ps @ [Some c])
      else Sparse h n (ks @ [get_byte k n]) (ps @ [Some c]))"
| "grow p k c = p"

text \<open>\<open>add_child\<close> gives the changed grandparent; \<open>None\<close> when the validation fails.\<close>

definition art_add_child :: "'v art \<Rightarrow> 'v art \<Rightarrow> u64 \<Rightarrow> 'v \<Rightarrow> 'v art option" where
  "art_add_child gp p k v =
     (if get_child gp (hkey p) \<noteq> Some (Some p) then None
      else if get_child p k \<noteq> None then None
      else Some (put_child (hkey p) (Some (grow p k (singleton_leaf k v))) gp))"

section \<open>The search\<close>

function advance :: "u64 \<Rightarrow> 'v art \<Rightarrow> nat \<Rightarrow> nat" where
  "advance k c pos = (if pos < byte_num c \<and> get_byte k pos = get_byte (hkey c) pos then advance k c (Suc pos) else pos)"
  by auto
termination by (relation "measure (\<lambda>(k, c, pos). byte_num c - pos)") auto

declare advance.simps [simp del]

text \<open>The next node of the search and its byte, when the search goes on.\<close>

definition descend :: "nat \<Rightarrow> u64 \<Rightarrow> 'v art \<Rightarrow> ('v art \<times> nat) option" where
  "descend pos k p =
     (case get_child p k of
        Some (Some c) \<Rightarrow>
          let pos' = advance k c (Suc pos)
          in if pos' \<noteq> byte_num c \<or> is_leaf_art c then None else Some (c, pos')
      | _ \<Rightarrow> None)"

lemma sparse_get_child_set: "sparse_get_child ks ps b = Some c \<Longrightarrow> c \<in> set ps"
  by (induction ks ps b rule: sparse_get_child.induct) (auto split: if_splits)

lemma option_list_size: "Some c \<in> set ps \<Longrightarrow> size c < size_list (size_option size) ps"
  by (induction ps) auto

lemma get_slot_size: "byte_slot b t = Some (Some c) \<Longrightarrow> size c < size t"
proof (cases t)
  case (Full h n cs)
  assume "byte_slot b t = Some (Some c)"
  then have "Some c \<in> set cs" using Full by (auto simp: full_get_child_def split: if_splits) (metis nth_mem)
  then show ?thesis using option_list_size [of c cs] Full by simp
next
  case (Indirect h n ix ps)
  assume "byte_slot b t = Some (Some c)"
  then have "Some c \<in> set ps" using Indirect by (auto simp: indirect_get_child_def split: if_splits option.splits) (metis nth_mem)
  then show ?thesis using option_list_size [of c ps] Indirect by simp
next
  case (Sparse h n ks ps)
  assume "byte_slot b t = Some (Some c)"
  then have "Some c \<in> set ps" using Sparse sparse_get_child_set by fastforce
  then show ?thesis using option_list_size [of c ps] Sparse by simp
qed simp

lemma descend_size: "descend pos k p = Some (c, pos') \<Longrightarrow> size c < size p"
  by (auto simp: descend_def get_child_def Let_def split: option.splits if_splits dest: get_slot_size)

text \<open>\<open>find_location\<close>: the last node, its child for the key, and the byte where the search stopped.\<close>

definition stop_pos :: "nat \<Rightarrow> u64 \<Rightarrow> 'v art \<Rightarrow> nat" where
  "stop_pos pos k p = (case get_child p k of Some (Some c) \<Rightarrow> advance k c (Suc pos) | _ \<Rightarrow> pos)"

function find_location :: "nat \<Rightarrow> u64 \<Rightarrow> 'v art \<Rightarrow> 'v art \<times> 'v art option option \<times> nat" where
  "find_location pos k p =
     (case descend pos k p of
        Some (c, pos') \<Rightarrow> find_location pos' k c
      | None \<Rightarrow> (p, get_child p k, stop_pos pos k p))"
  by auto
termination by (relation "measure (\<lambda>(pos, k, p). size p)") (auto dest: descend_size)

declare find_location.simps [simp del]

text \<open>Changing the last node of the search, and the one before it (which needs the last one).\<close>

function modify_parent :: "('v art \<Rightarrow> 'v art) \<Rightarrow> nat \<Rightarrow> u64 \<Rightarrow> 'v art \<Rightarrow> 'v art" where
  "modify_parent f pos k p =
     (case descend pos k p of
        Some (c, pos') \<Rightarrow> put_child k (Some (modify_parent f pos' k c)) p
      | None \<Rightarrow> f p)"
  by auto
termination by (relation "measure (\<lambda>(f, pos, k, p). size p)") (auto dest: descend_size)

declare modify_parent.simps [simp del]

function modify_grandparent :: "('v art \<Rightarrow> 'v art \<Rightarrow> 'v art option) \<Rightarrow> nat \<Rightarrow> u64 \<Rightarrow> 'v art \<Rightarrow> 'v art option" where
  "modify_grandparent g pos k p =
     (case descend pos k p of
        None \<Rightarrow> None
      | Some (c, pos') \<Rightarrow>
          if descend pos' k c = None then g p c
          else map_option (\<lambda>c'. put_child k (Some c') p) (modify_grandparent g pos' k c))"
  by auto
termination by (relation "measure (\<lambda>(g, pos, k, p). size p)") (auto dest: descend_size)

declare modify_grandparent.simps [simp del]

section \<open>Operations\<close>

text \<open>The entries of a full leaf with the new one, broken up by one byte.\<close>

fun byte_groups :: "nat \<Rightarrow> (u64 \<times> 'v) list \<Rightarrow> (u64 \<times> 'v) list \<Rightarrow> (u64 \<times> 'v) list list" where
  "byte_groups pos cur [] = [cur]"
| "byte_groups pos cur (kv # kvs) =
     (if get_byte (fst kv) pos \<noteq> get_byte (fst (hd cur)) pos then cur # byte_groups pos [kv] kvs
      else byte_groups pos (cur @ [kv]) kvs)"

definition new_leaf :: "nat \<Rightarrow> (u64 \<times> 'v) list \<Rightarrow> 'v art" where
  "new_leaf byte_pos kvs = multi_leaf byte_pos kvs"

definition break_leaf :: "nat \<Rightarrow> (u64 \<times> 'v) list \<Rightarrow> 'v art" where
  "break_leaf pos tmp = sparse_nodes pos (map (new_leaf (pos + 1)) (byte_groups pos [hd tmp] (tl tmp)))"

definition insert_below :: "u64 \<Rightarrow> 'v \<Rightarrow> nat \<Rightarrow> 'v art option \<Rightarrow> 'v art" where
  "insert_below k v pos c =
     (case c of
        None \<Rightarrow> singleton_leaf k v
      | Some l \<Rightarrow>
          if is_leaf_art l
          then (if art_size l < max_big_leaf_size then leaf_add pos l k v
                else break_leaf pos (leaf_insert (key_vals l) k v))
          else sparse_pair pos l (hkey l) (singleton_leaf k v) k)"

definition holds_key :: "'v art option \<Rightarrow> u64 \<Rightarrow> bool" where
  "holds_key c k = (case c of None \<Rightarrow> False | Some l \<Rightarrow> is_leaf_art l \<and> leaf_search (key_vals l) k \<noteq> None)"

definition try_insert :: "u64 \<Rightarrow> 'v \<Rightarrow> 'v art \<Rightarrow> (bool \<times> 'v art) option" where
  "try_insert k v root =
     (let (p, cptr, pos) = find_location 0 k root
      in case cptr of
           None \<Rightarrow> map_option (Pair True) (modify_grandparent (\<lambda>gp p. art_add_child gp p k v) 0 k root)
         | Some c \<Rightarrow>
             if holds_key c k then Some (False, root)
             else Some (True, modify_parent (put_child k (Some (insert_below k v pos c))) 0 k root))"

text \<open>\<open>insert_\<close>: attempts until one succeeds.\<close>

definition insert_art :: "nat \<Rightarrow> u64 \<Rightarrow> 'v \<Rightarrow> 'v art \<Rightarrow> (bool \<times> 'v art) option" where
  "insert_art fuel k v root =
     try_loop (\<lambda>_ t. case try_insert k v t of Some (r, t') \<Rightarrow> (Some r, t') | None \<Rightarrow> (None, t)) fuel root"

text \<open>What goes wrong: a null pointer is followed, or an internal node is read as if it were a leaf.\<close>

datatype art_error = Null_Deref | Not_A_Leaf

text \<open>The removal also looks for a single other child of the parent but makes no use of it.\<close>

definition try_remove :: "u64 \<Rightarrow> 'v art \<Rightarrow> art_error + (bool \<times> 'v art)" where
  "try_remove k root =
     (let (p, cptr, pos) = find_location 0 k root
      in case cptr of
           None \<Rightarrow> Inl Null_Deref
         | Some None \<Rightarrow> Inr (False, root)
         | Some (Some l) \<Rightarrow>
             if holds_key (Some l) k
             then Inr (True, modify_parent (put_child k (if art_size l = 1 then None else Some (leaf_drop l k))) 0 k root)
             else Inr (False, root))"

text \<open>
  \<open>leaf::find\<close> on whatever node the search has reached: its loop over the \<open>size\<close> entries ends at once on a full
  node, whose size is 0, and reads other fields as entries on the other internal nodes.
\<close>

definition art_leaf_find :: "'v art \<Rightarrow> u64 \<Rightarrow> art_error + 'v option" where
  "art_leaf_find l k =
     (if is_leaf_art l then Inr (leaf_search (key_vals l) k)
      else if art_size l = 0 then Inr None else Inl Not_A_Leaf)"

definition try_find :: "u64 \<Rightarrow> 'v art \<Rightarrow> art_error + 'v option" where
  "try_find k root =
     (let (p, cptr, pos) = find_location 0 k root
      in case cptr of
           None \<Rightarrow> Inl Null_Deref
         | Some None \<Rightarrow> Inr None
         | Some (Some l) \<Rightarrow> art_leaf_find l k)"

definition find_art :: "u64 \<Rightarrow> 'v art \<Rightarrow> art_error + 'v option" where
  "find_art k root =
     (let (p, cptr, pos) = find_location 0 k root
      in case cptr of
           None \<Rightarrow> Inr None
         | Some None \<Rightarrow> Inr None
         | Some (Some l) \<Rightarrow> art_leaf_find l k)"

text \<open>The key of the root is never set; \<open>any\<close> is what its memory holds.\<close>

definition empty_art :: "u64 \<Rightarrow> 'v art" where
  "empty_art any = Full any 0 (replicate 256 None)"

section \<open>Range queries\<close>

text \<open>
  The loops that look for the first and the last entry of a leaf in the range have no bound: \<open>None\<close> when
  they read an entry that is not in use.
\<close>

function skip_low :: "u64 \<Rightarrow> (u64 \<times> 'v) list \<Rightarrow> nat \<Rightarrow> nat option" where
  "skip_low start kvs s =
     (if length kvs \<le> s then None else if fst (kvs ! s) < start then skip_low start kvs (Suc s) else Some s)"
  by auto
termination by (relation "measure (\<lambda>(start, kvs, s). length kvs - s)") auto

declare skip_low.simps [simp del]

fun skip_high :: "u64 \<Rightarrow> (u64 \<times> 'v) list \<Rightarrow> nat \<Rightarrow> nat option" where
  "skip_high end_key kvs 0 = None"
| "skip_high end_key kvs (Suc e) = (if end_key < fst (kvs ! e) then skip_high end_key kvs e else Some (Suc e))"

definition range_leaf :: "(u64 \<times> 'v) list \<Rightarrow> u64 option \<Rightarrow> u64 option \<Rightarrow> (u64 \<times> 'v) list option" where
  "range_leaf kvs start end_key =
     (case (case start of None \<Rightarrow> Some 0 | Some k \<Rightarrow> skip_low k kvs 0) of
        None \<Rightarrow> None
      | Some s \<Rightarrow>
          (case (case end_key of None \<Rightarrow> Some (length kvs) | Some k \<Rightarrow> skip_high k kvs (length kvs)) of
             None \<Rightarrow> None
           | Some e \<Rightarrow> Some (map (\<lambda>i. kvs ! i) [s..<e])))"

text \<open>The bytes that all keys below a node share: \<open>None\<close> when the node is outside the range; a bound is
  dropped when all keys below the node are inside of it.\<close>

function narrow :: "nat \<Rightarrow> 'v art \<Rightarrow> u64 option \<Rightarrow> u64 option \<Rightarrow> (u64 option \<times> u64 option) option" where
  "narrow i a start end_key =
     (if byte_num a \<le> i \<or> start = None \<and> end_key = None then Some (start, end_key)
      else if (\<exists>k \<in> set_option start. get_byte (hkey a) i < get_byte k i) \<or> (\<exists>k \<in> set_option end_key. get_byte k i < get_byte (hkey a) i)
      then None
      else narrow (Suc i) a
        (case start of Some k \<Rightarrow> if get_byte k i < get_byte (hkey a) i then None else start | None \<Rightarrow> None)
        (case end_key of Some k \<Rightarrow> if get_byte (hkey a) i < get_byte k i then None else end_key | None \<Rightarrow> None))"
  by auto
termination by (relation "measure (\<lambda>(i, a, start, end_key). byte_num a - i)") auto

declare narrow.simps [simp del]

definition start_byte :: "'v art \<Rightarrow> u64 option \<Rightarrow> nat" where
  "start_byte a start = (case start of None \<Rightarrow> 0 | Some k \<Rightarrow> get_byte k (byte_num a))"

definition end_byte :: "'v art \<Rightarrow> u64 option \<Rightarrow> nat" where
  "end_byte a end_key = (case end_key of None \<Rightarrow> 255 | Some k \<Rightarrow> get_byte k (byte_num a))"

text \<open>The bytes of the children that are visited, in their order.\<close>

definition visited :: "'v art \<Rightarrow> nat \<Rightarrow> nat \<Rightarrow> nat list" where
  "visited a sb eb = (case a of Sparse _ _ ks _ \<Rightarrow> filter (\<lambda>b. sb \<le> b \<and> b \<le> eb) ks | _ \<Rightarrow> [sb..<Suc eb])"

fun collect :: "'a list option list \<Rightarrow> 'a list option" where
  "collect [] = Some []"
| "collect (None # xs) = None"
| "collect (Some ys # xs) = map_option ((@) ys) (collect xs)"

function art_range_internal :: "'v art \<Rightarrow> u64 option \<Rightarrow> u64 option \<Rightarrow> nat \<Rightarrow> (u64 \<times> 'v) list option" where
  "art_range_internal a start end_key pos =
     (if is_leaf_art a then range_leaf (key_vals a) start end_key
      else case narrow pos a start end_key of
             None \<Rightarrow> Some []
           | Some (start', end') \<Rightarrow>
               collect (map (\<lambda>b. case byte_slot b a of
                                   Some (Some c) \<Rightarrow> art_range_internal c start' end' (byte_num a)
                                 | _ \<Rightarrow> Some [])
                 (visited a (start_byte a start') (end_byte a end'))))"
  by auto
termination by (relation "measure (\<lambda>(a, start, end_key, pos). size a)") (auto dest: get_slot_size)

declare art_range_internal.simps [simp del]

definition range_art :: "u64 \<Rightarrow> u64 \<Rightarrow> 'v art \<Rightarrow> (u64 \<times> 'v) list option" where
  "range_art start end_key root = art_range_internal root (Some start) (Some end_key) 0"

section \<open>The self check and the destructor\<close>

fun sum_counts :: "nat option list \<Rightarrow> nat option" where
  "sum_counts [] = Some 0"
| "sum_counts (None # xs) = None"
| "sum_counts (Some n # xs) = map_option ((+) n) (sum_counts xs)"

text \<open>\<open>None\<close> is the call of \<open>abort\<close> for a leaf out of order.\<close>

primrec art_crec :: "'v art \<Rightarrow> nat option" where
  "art_crec (Full h n cs) = sum_counts (map (case_option (Some 0) id) (map (map_option art_crec) cs))"
| "art_crec (Indirect h n ix ps) =
     sum_counts (map (case_option (Some 0) (\<lambda>j. case_option (Some 0) id (map (map_option art_crec) ps ! j))) ix)"
| "art_crec (Sparse h n ks ps) = sum_counts (map (case_option (Some 0) id) (map (map_option art_crec) ps))"
| "art_crec (Leaf h n kvs) =
     (if list_all (\<lambda>i. fst (kvs ! (i - 1)) < fst (kvs ! i)) [1..<length kvs] then Some (length kvs) else None)"

primrec retire_recursive :: "'v art \<Rightarrow> 'v art list" where
  "retire_recursive (Full h n cs) = concat (map (case_option [] id) (map (map_option retire_recursive) cs)) @ [Full h n cs]"
| "retire_recursive (Indirect h n ix ps) = concat (map (case_option [] id) (map (map_option retire_recursive) ps)) @ [Indirect h n ix ps]"
| "retire_recursive (Sparse h n ks ps) = concat (map (case_option [] id) (map (map_option retire_recursive) ps)) @ [Sparse h n ks ps]"
| "retire_recursive (Leaf h n kvs) = [Leaf h n kvs]"

end
