(* ===== verification/Radix_Tree_Map.thy ===== *)
theory Radix_Tree_Map
  imports Radix_Tree
begin

text \<open>
  The adaptive radix tree as a map: keys as numbers whose leading bytes are compared, the invariant of the
  tree, and what \<open>try_insert\<close>, \<open>try_remove\<close> and the lookups do.
\<close>

section \<open>The first bytes of a key\<close>

definition first_bytes :: "nat \<Rightarrow> u64 \<Rightarrow> nat" where
  "first_bytes p k = unat k div 2 ^ (8 * (8 - p))"

lemma get_byte_unat: "get_byte k p = unat k div 2 ^ (8 * (7 - p)) mod 256"
proof -
  have "(255 :: u64) = mask 8" by (simp add: mask_eq_exp_minus_1)
  then have "get_byte k p = unat (take_bit 8 (drop_bit (8 * (7 - p)) k))" by (simp only: get_byte_def take_bit_eq_mask) simp
  also have "\<dots> = take_bit 8 (drop_bit (8 * (7 - p)) (unat k))" 
  proof -
    have "take_bit 64 (unat k) = unat k" by (rule take_bit_nat_eq_self) (use unsigned_less [of k, where 'a = nat] in simp)
    then show ?thesis by (simp only: unsigned_take_bit_eq unsigned_drop_bit_eq) simp
  qed
  also have "\<dots> = unat k div 2 ^ (8 * (7 - p)) mod 256" by (simp add: take_bit_eq_mod drop_bit_eq_div)
  finally show ?thesis .
qed

lemma get_byte_less [simp]: "get_byte k p < 256"
  by (simp add: get_byte_unat)

lemma first_bytes_0 [simp]: "first_bytes 0 k = 0"
  using unsigned_less [of k, where 'a = nat] by (simp add: first_bytes_def)

lemma first_bytes_8: "first_bytes 8 k = unat k"
  by (simp add: first_bytes_def)

lemma first_bytes_Suc: "p < 8 \<Longrightarrow> first_bytes (Suc p) k = 256 * first_bytes p k + get_byte k p"
proof -
  assume p: "p < 8"
  then have "8 * (8 - p) = 8 * (7 - p) + 8" by simp
  then have "first_bytes p k = unat k div 2 ^ (8 * (7 - p)) div 256"
    by (simp add: first_bytes_def power_add div_mult2_eq)
  moreover have "first_bytes (Suc p) k = unat k div 2 ^ (8 * (7 - p))" by (simp add: first_bytes_def)
  ultimately show ?thesis by (simp add: get_byte_unat)
qed

lemma bytes_decompose:
  assumes "256 * x + a = 256 * y + (b::nat)" "a < 256" "b < 256"
  shows "x = y \<and> a = b"
proof -
  have "(256 * x + a) div 256 = x" "(256 * y + b) div 256 = y" using assms(2,3) by simp_all
  then have "x = y" using assms(1) by metis
  then show ?thesis using assms(1) by simp
qed

lemma first_bytes_Suc_eq:
  "p < 8 \<Longrightarrow> first_bytes (Suc p) a = first_bytes (Suc p) b \<longleftrightarrow> first_bytes p a = first_bytes p b \<and> get_byte a p = get_byte b p"
  using bytes_decompose [of "first_bytes p a" "get_byte a p" "first_bytes p b" "get_byte b p"] by (auto simp: first_bytes_Suc)

lemma first_bytes_shorter: "first_bytes q a = first_bytes q b \<Longrightarrow> p \<le> q \<Longrightarrow> q \<le> 8 \<Longrightarrow> first_bytes p a = first_bytes p b"
proof (induction q)
  case (Suc q)
  then show ?case by (cases "p = Suc q") (auto simp: first_bytes_Suc_eq)
qed simp

lemma first_bytes_byte:
  assumes "first_bytes q a = first_bytes q b" "p < q" "q \<le> 8"
  shows "get_byte a p = get_byte b p"
  using first_bytes_shorter [of q a b "Suc p"] assms by (simp add: first_bytes_Suc_eq)

lemma first_bytes_less: "first_bytes p a < first_bytes p b \<Longrightarrow> a < b"
  unfolding first_bytes_def word_less_nat_alt by (meson div_le_mono leD leI)

lemma byte_less: "first_bytes p a = first_bytes p b \<Longrightarrow> get_byte a p < get_byte b p \<Longrightarrow> p < 8 \<Longrightarrow> a < b"
  by (rule first_bytes_less [of "Suc p"]) (simp add: first_bytes_Suc)

lemma first_bytes_all: "first_bytes 8 a = first_bytes 8 b \<longleftrightarrow> a = b"
  by (simp add: first_bytes_8 word_unat_eq_iff)

lemma advance_spec:
  assumes "pos \<le> byte_num c" "byte_num c \<le> 8" "first_bytes pos k = first_bytes pos (hkey c)"
  shows "pos \<le> advance k c pos \<and> advance k c pos \<le> byte_num c \<and> first_bytes (advance k c pos) k = first_bytes (advance k c pos) (hkey c)
    \<and> (advance k c pos < byte_num c \<longrightarrow> get_byte k (advance k c pos) \<noteq> get_byte (hkey c) (advance k c pos))"
  using assms
proof (induction k c pos rule: advance.induct)
  case (1 k c pos)
  show ?case
  proof (cases "pos < byte_num c \<and> get_byte k pos = get_byte (hkey c) pos")
    case True
    then have "first_bytes (Suc pos) k = first_bytes (Suc pos) (hkey c)" using "1.prems" by (simp add: first_bytes_Suc)
    then show ?thesis using "1.IH" True "1.prems" advance.simps [of k c pos] by auto
  next
    case False
    then show ?thesis using "1.prems" advance.simps [of k c pos] by auto
  qed
qed

section \<open>Well-formed trees\<close>

definition art_leaf_ok :: "nat \<Rightarrow> u64 \<Rightarrow> (u64 \<times> 'v) list \<Rightarrow> bool" where
  "art_leaf_ok n h kvs \<longleftrightarrow> kvs \<noteq> [] \<and> length kvs \<le> max_big_leaf_size \<and> n \<le> 8 \<and> sorted_wrt (<) (map fst kvs)
     \<and> (\<forall>k \<in> fst ` set kvs. first_bytes n k = first_bytes n h)
     \<and> (if length kvs = 1 then n = 8 else \<exists>a \<in> fst ` set kvs. \<exists>b \<in> fst ` set kvs. get_byte a n \<noteq> get_byte b n)"

fun shape_ok :: "'v art \<Rightarrow> bool" where
  "shape_ok (Full h n cs) \<longleftrightarrow> length cs = 256"
| "shape_ok (Indirect h n ix ps) \<longleftrightarrow> length ix = 256 \<and> length ps \<le> max_indirect_size
     \<and> (\<forall>b<256. \<forall>i. ix ! b = Some i \<longrightarrow> i < length ps) \<and> (\<forall>a<256. \<forall>b<256. \<forall>i. ix ! a = Some i \<and> ix ! b = Some i \<longrightarrow> a = b)"
| "shape_ok (Sparse h n ks ps) \<longleftrightarrow> length ps = length ks \<and> length ks \<le> max_sparse_size \<and> distinct ks \<and> (\<forall>k \<in> set ks. k < 256)"
| "shape_ok (Leaf h n kvs) \<longleftrightarrow> True"

text \<open>The subtree of all keys whose first \<open>p\<close> bytes are \<open>x\<close>.\<close>

inductive art_ok :: "nat \<Rightarrow> nat \<Rightarrow> 'v art \<Rightarrow> bool" where
  leaf: "art_leaf_ok n h kvs \<Longrightarrow> p \<le> n \<Longrightarrow> first_bytes p h = x \<Longrightarrow> art_ok p x (Leaf h n kvs)"
| node: "\<not> is_leaf_art t \<Longrightarrow> shape_ok t \<Longrightarrow> p \<le> byte_num t \<Longrightarrow> byte_num t < 8 \<Longrightarrow> first_bytes p (hkey t) = x \<Longrightarrow>
    (\<And>b c. byte_slot b t = Some (Some c) \<Longrightarrow> art_ok (Suc (byte_num t)) (256 * first_bytes (byte_num t) (hkey t) + b) c) \<Longrightarrow>
    art_ok p x t"

inductive_cases art_okE: "art_ok p x t"

function lookup :: "u64 \<Rightarrow> 'v art \<Rightarrow> 'v option" where
  "lookup k t =
     (if is_leaf_art t then map_of (key_vals t) k
      else case get_child t k of Some (Some c) \<Rightarrow> lookup k c | _ \<Rightarrow> None)"
  by auto
termination by (relation "measure (\<lambda>(k, t). size t)") (auto simp: get_child_def dest: get_slot_size)

declare lookup.simps [simp del]

lemma is_leaf_simps [simp]:
  "is_leaf_art (Leaf h n kvs)" "\<not> is_leaf_art (Full h n cs)" "\<not> is_leaf_art (Indirect h n ix ps)" "\<not> is_leaf_art (Sparse h n ks ps)"
  by (simp_all add: is_leaf_art_def)

lemma lookup_in_leaf [simp]: "lookup k (Leaf h n kvs) = map_of kvs k"
  by (simp add: lookup.simps)

lemma lookup_node: "\<not> is_leaf_art t \<Longrightarrow> lookup k t = (case get_child t k of Some (Some c) \<Rightarrow> lookup k c | _ \<Rightarrow> None)"
  by (simp add: lookup.simps)

lemma art_ok_head: "art_ok p x t \<Longrightarrow> p \<le> byte_num t \<and> byte_num t \<le> 8 \<and> first_bytes p (hkey t) = x"
  by (induction rule: art_ok.induct) (auto simp: art_leaf_ok_def)

lemma art_ok_leaf: "art_ok p x (Leaf h n kvs) \<Longrightarrow> art_leaf_ok n h kvs"
  by (auto elim: art_okE)

lemma art_ok_node:
  assumes "art_ok p x t" "\<not> is_leaf_art t"
  shows "shape_ok t" "byte_num t < 8"
    "byte_slot b t = Some (Some c) \<Longrightarrow> art_ok (Suc (byte_num t)) (256 * first_bytes (byte_num t) (hkey t) + b) c"
  using assms by (auto elim: art_okE)

lemma sparse_get_child_map_of: "sparse_get_child ks ps b = map_of (zip ks ps) b"
  by (induction ks ps b rule: sparse_get_child.induct) auto

lemma lookup_prefix:
  "art_ok p x t \<Longrightarrow> lookup k t = Some v \<Longrightarrow> first_bytes (byte_num t) k = first_bytes (byte_num t) (hkey t)"
proof (induction arbitrary: k rule: art_ok.induct)
  case (leaf n h kvs p x)
  then show ?case by (force simp: art_leaf_ok_def dest: map_of_SomeD)
next
  case (node t p x)
  then obtain c where c: "get_child t k = Some (Some c)" "lookup k c = Some v"
    by (auto simp: lookup_node split: option.splits)
  let ?n = "byte_num t" and ?b = "get_byte k (byte_num t)"
  have slot: "byte_slot ?b t = Some (Some c)" using c(1) by (simp add: get_child_def)
  note ok = node.hyps(6) [OF slot]
  have "first_bytes (byte_num c) k = first_bytes (byte_num c) (hkey c)" by (rule node.IH [OF slot c(2)])
  then have "first_bytes (Suc ?n) k = first_bytes (Suc ?n) (hkey c)" using art_ok_head [OF ok] by (blast intro: first_bytes_shorter)
  then have "256 * first_bytes ?n k + ?b = 256 * first_bytes ?n (hkey t) + ?b"
    using art_ok_head [OF ok] node.hyps(4) by (simp add: first_bytes_Suc)
  then show ?case by simp
qed

section \<open>Reading and writing a child\<close>

lemma sparse_set_length [simp]: "length (sparse_set_child ks ps b c) = length ps"
  by (induction ks ps b c rule: sparse_set_child.induct) auto

lemma sparse_get_set:
  "sparse_get_child ks (sparse_set_child ks ps b c) b' =
     (if b' = b \<and> sparse_get_child ks ps b \<noteq> None then Some c else sparse_get_child ks ps b')"
  by (induction ks ps b c rule: sparse_set_child.induct) auto

lemma set_slot_head [simp]:
  "hkey (set_slot b c t) = hkey t" "byte_num (set_slot b c t) = byte_num t" "is_leaf_art (set_slot b c t) = is_leaf_art t"
  by (cases t; simp)+

lemma set_child_head [simp]:
  "hkey (put_child k c t) = hkey t" "byte_num (put_child k c t) = byte_num t" "is_leaf_art (put_child k c t) = is_leaf_art t"
  by (simp_all add: put_child_def)

lemma set_slot_shape: "shape_ok t \<Longrightarrow> shape_ok (set_slot b c t)"
  by (cases t) (auto split: option.splits)

lemma get_set_slot:
  assumes "shape_ok t" "byte_slot b t \<noteq> None"
  shows "byte_slot b' (set_slot b c t) = (if b' = b then Some c else byte_slot b' t)"
proof (cases t)
  case (Full h n cs)
  then show ?thesis using assms by (auto simp: full_get_child_def split: if_splits)
next
  case (Indirect h n ix ps)
  then obtain i where i: "ix ! b = Some i" "i < length ps" "b < 256"
    using assms by (auto simp: indirect_get_child_def split: if_splits option.splits)
  have "j \<noteq> i" if "ix ! b' = Some j" "b' < 256" "b' \<noteq> b" for j using assms(1) Indirect i that by auto
  then show ?thesis using Indirect i assms(1) by (auto simp: indirect_get_child_def split: option.splits)
next
  case (Sparse h n ks ps)
  then show ?thesis using assms by (auto simp: sparse_get_set)
qed (use assms in simp)

lemma get_slot_less: "shape_ok t \<Longrightarrow> byte_slot b t \<noteq> None \<Longrightarrow> b < 256"
proof (cases t)
  case (Sparse h n ks ps)
  assume "shape_ok t" "byte_slot b t \<noteq> None"
  then have "b \<in> set ks" using Sparse map_of_SomeD set_zip_leftD by (fastforce simp: sparse_get_child_map_of)
  then show ?thesis using Sparse \<open>shape_ok t\<close> by simp
qed (auto simp: full_get_child_def indirect_get_child_def split: if_splits)

lemma set_child_ok:
  assumes ok: "art_ok p x t" and nl: "\<not> is_leaf_art t" and slot: "get_child t k \<noteq> None"
    and c: "\<And>c'. c = Some c' \<Longrightarrow> art_ok (Suc (byte_num t)) (256 * first_bytes (byte_num t) (hkey t) + get_byte k (byte_num t)) c'"
  shows "art_ok p x (put_child k c t)"
proof (rule art_ok.node)
  note t = art_ok_node [OF ok nl]
  show "\<not> is_leaf_art (put_child k c t)" using nl by simp
  show "shape_ok (put_child k c t)" using t(1) by (simp add: put_child_def set_slot_shape)
  show "p \<le> byte_num (put_child k c t)" "first_bytes p (hkey (put_child k c t)) = x" using art_ok_head [OF ok] by simp_all
  show "byte_num (put_child k c t) < 8" using t(2) by simp
  fix b d
  assume d: "byte_slot b (put_child k c t) = Some (Some d)"
  show "art_ok (Suc (byte_num (put_child k c t))) (256 * first_bytes (byte_num (put_child k c t)) (hkey (put_child k c t)) + b) d"
  proof (cases "b = get_byte k (byte_num t)")
    case True
    then show ?thesis using d c get_set_slot [OF t(1), of "get_byte k (byte_num t)" b c] slot by (simp add: put_child_def get_child_def)
  next
    case False
    then show ?thesis using d t(3) [of b d] get_set_slot [OF t(1), of "get_byte k (byte_num t)" b c] slot
      by (simp add: put_child_def get_child_def)
  qed
qed

definition lookup_below :: "u64 \<Rightarrow> 'v art option \<Rightarrow> 'v option" where
  "lookup_below k c = (case c of None \<Rightarrow> None | Some c' \<Rightarrow> lookup k c')"

lemma set_child_lookup:
  assumes "art_ok p x t" "\<not> is_leaf_art t" "get_child t k \<noteq> None"
  shows "lookup k' (put_child k c t) = (if get_byte k' (byte_num t) = get_byte k (byte_num t) then lookup_below k' c else lookup k' t)"
  using assms(2,3) get_set_slot [OF art_ok_node(1) [OF assms(1,2)], of "get_byte k (byte_num t)" "get_byte k' (byte_num t)" c]
  by (auto simp: lookup_node get_child_def put_child_def lookup_below_def split: option.splits)

lemma lookup_via_child:
  "\<not> is_leaf_art t \<Longrightarrow> get_child t k = Some c \<Longrightarrow> get_byte k' (byte_num t) = get_byte k (byte_num t) \<Longrightarrow> lookup k' t = lookup_below k' c"
  by (auto simp: lookup_node get_child_def lookup_below_def split: option.splits)

text \<open>Replacing the child for a key changes the map at this key, when the child changes so.\<close>

lemma set_child_update:
  assumes ok: "art_ok p x t" "\<not> is_leaf_art t" and slot: "get_child t k = Some c"
    and new: "\<And>k'. lookup_below k' d = (if k' = k then w else lookup_below k' c)"
  shows "lookup k' (put_child k d t) = (if k' = k then w else lookup k' t)"
  using set_child_lookup [OF ok, of k k' d] lookup_via_child [OF ok(2) slot, of k'] slot new [of k'] by auto

section \<open>Leaves\<close>

lemma art_leaf_find: "sorted_wrt (<) (map fst kvs) \<Longrightarrow> leaf_search kvs k = map_of kvs k"
proof (induction kvs k rule: leaf_search.induct)
  case (2 a v kvs k)
  then have "map_of kvs k = None" if "k \<le> a" using that by (force simp: map_of_eq_None_iff)
  then show ?case using 2 by auto
qed simp

lemma leaf_insert_set [simp]: "set (leaf_insert kvs k v) = insert (k, v) (set kvs)" "length (leaf_insert kvs k v) = Suc (length kvs)"
  by (induction kvs k v rule: leaf_insert.induct) auto

lemma leaf_insert_nonempty [simp]: "leaf_insert kvs k v \<noteq> []"
  by (induction kvs k v rule: leaf_insert.induct) auto

lemma leaf_insert_sorted:
  "sorted_wrt (<) (map fst kvs) \<Longrightarrow> k \<notin> fst ` set kvs \<Longrightarrow> sorted_wrt (<) (map fst (leaf_insert kvs k v))"
  by (induction kvs k v rule: leaf_insert.induct) (force dest: less_trans)+

lemma leaf_insert_map_of:
  "k \<notin> fst ` set kvs \<Longrightarrow> map_of (leaf_insert kvs k v) k' = (if k' = k then Some v else map_of kvs k')"
  by (induction kvs k v rule: leaf_insert.induct) auto

lemma first_diff_loop_spec:
  assumes "\<exists>k \<in> set ks. k \<noteq> key" "\<forall>k \<in> set ks. first_bytes j k = first_bytes j key" "j \<le> 8"
  shows "j \<le> first_diff_loop j key ks \<and> first_diff_loop j key ks < 8
    \<and> (\<forall>k \<in> set ks. first_bytes (first_diff_loop j key ks) k = first_bytes (first_diff_loop j key ks) key)
    \<and> (\<exists>k \<in> set ks. get_byte k (first_diff_loop j key ks) \<noteq> get_byte key (first_diff_loop j key ks))"
  using assms
proof (induction j key ks rule: first_diff_loop.induct)
  case (1 j key ks)
  have ne: "ks \<noteq> []" using "1.prems"(1) by auto
  have j: "j < 8" using "1.prems" by (cases "j = 8") (auto simp: first_bytes_all)
  show ?case
  proof (cases "\<exists>k \<in> set ks. get_byte k j \<noteq> get_byte key j")
    case True
    then have "first_diff_loop j key ks = j" by (subst first_diff_loop.simps) (auto simp: list_ex_iff)
    then show ?thesis using True "1.prems" j by auto
  next
    case False
    then have go: "\<not> (ks = [] \<or> list_ex (\<lambda>k. 8 \<le> j \<or> get_byte k j \<noteq> get_byte key j) ks)" using ne j by (auto simp: list_ex_iff)
    then have "first_diff_loop j key ks = first_diff_loop (Suc j) key ks" by (subst first_diff_loop.simps) simp
    moreover have "\<forall>k \<in> set ks. first_bytes (Suc j) k = first_bytes (Suc j) key" using False "1.prems"(2) j by (simp add: first_bytes_Suc)
    ultimately show ?thesis using "1.IH" [OF go "1.prems"(1)] j by auto
  qed
qed

lemma sorted_two_keys:
  assumes "sorted_wrt (<) (map fst kvs)" "kvs \<noteq> []" "length kvs \<noteq> 1"
  shows "\<exists>k \<in> fst ` set (tl kvs). k \<noteq> (fst (hd kvs) :: u64)"
proof -
  obtain a b rest where "kvs = a # b # rest" using assms(2,3) by (cases kvs rule: remdups_adj.cases) auto
  then show ?thesis using assms(1) by (auto intro!: bexI [of _ b])
qed

lemma first_diff_ok:
  assumes so: "sorted_wrt (<) (map fst kvs)" and ne: "kvs \<noteq> []" and len: "length kvs \<le> max_big_leaf_size"
    and pre: "\<And>k. k \<in> fst ` set kvs \<Longrightarrow> first_bytes j k = first_bytes j (fst (hd kvs))" and j: "j \<le> 8"
  shows "art_leaf_ok (first_diff j kvs) (fst (hd kvs)) kvs \<and> j \<le> first_diff j kvs"
proof (cases "length kvs = 1")
  case True
  then obtain k v where "kvs = [(k, v)]" by (cases kvs) auto
  then show ?thesis using j len by (simp add: art_leaf_ok_def first_diff_def key_length_def)
next
  case False
  let ?h = "fst (hd kvs)" and ?ks = "map fst (tl kvs)"
  have set: "fst ` set kvs = insert ?h (set ?ks)" using ne by (cases kvs) auto
  have two: "\<exists>k \<in> set ?ks. k \<noteq> ?h" using sorted_two_keys [OF so ne False] by simp
  have "\<forall>k \<in> set ?ks. first_bytes j k = first_bytes j ?h" by (intro ballI pre) (simp add: set)
  note d = first_diff_loop_spec [OF two this j]
  have eq: "first_diff j kvs = first_diff_loop j ?h ?ks" using False by (simp add: first_diff_def)
  obtain k where "k \<in> set ?ks" "get_byte k (first_diff_loop j ?h ?ks) \<noteq> get_byte ?h (first_diff_loop j ?h ?ks)"
    using d by (elim conjE bexE)
  then have "\<exists>a \<in> insert ?h (set ?ks). \<exists>b \<in> insert ?h (set ?ks). get_byte a (first_diff_loop j ?h ?ks) \<noteq> get_byte b (first_diff_loop j ?h ?ks)"
    by (intro bexI [of _ k] bexI [of _ ?h]) simp_all
  moreover have "\<forall>k \<in> insert ?h (set ?ks). first_bytes (first_diff_loop j ?h ?ks) k = first_bytes (first_diff_loop j ?h ?ks) ?h"
    using d by simp
  ultimately show ?thesis unfolding art_leaf_ok_def eq set using d so ne len False by simp
qed

lemma leaf_drop_ok:
  assumes ok: "art_leaf_ok n h kvs" and k: "k \<in> fst ` set kvs" "length kvs \<noteq> 1"
  shows "\<exists>h' n' kvs'. leaf_drop (Leaf h n kvs) k = Leaf h' n' kvs' \<and> art_leaf_ok n' h' kvs' \<and> n \<le> n' \<and> first_bytes n h' = first_bytes n h
    \<and> (\<forall>k'. map_of kvs' k' = (if k' = k then None else map_of kvs k'))"
proof -
  let ?kvs = "filter (\<lambda>(a, _). a \<noteq> k) kvs"
  have so: "sorted_wrt (<) (map fst kvs)" and ne: "kvs \<noteq> []" using ok by (simp_all add: art_leaf_ok_def)
  have "\<exists>a \<in> fst ` set kvs. a \<noteq> k" 
  proof (cases "fst (hd kvs) = k")
    case True
    then show ?thesis using sorted_two_keys [OF so ne k(2)] ne by (cases kvs) auto
  next
    case False
    then show ?thesis using ne by (cases kvs) auto
  qed
  then have ne': "?kvs \<noteq> []" by (auto simp: filter_empty_conv)
  have so': "sorted_wrt (<) (map fst ?kvs)" using so by (simp add: sorted_wrt_map sorted_wrt_filter)
  have pre: "first_bytes n a = first_bytes n h" if "a \<in> fst ` set ?kvs" for a using ok that by (force simp: art_leaf_ok_def)
  have hd: "first_bytes n (fst (hd ?kvs)) = first_bytes n h" by (rule pre) (use ne' hd_in_set in blast)
  have "length kvs \<le> max_big_leaf_size" using ok by (simp add: art_leaf_ok_def)
  then have len: "length ?kvs \<le> max_big_leaf_size" by (rule le_trans [OF length_filter_le])
  have "art_leaf_ok (first_diff n ?kvs) (fst (hd ?kvs)) ?kvs \<and> n \<le> first_diff n ?kvs"
    by (rule first_diff_ok [OF so' ne' len]) (use pre hd ok in \<open>auto simp: art_leaf_ok_def\<close>)
  moreover have "map_of ?kvs k' = (if k' = k then None else map_of kvs k')" for k' by (induction kvs) auto
  ultimately show ?thesis using hd by (auto simp: leaf_drop_def Let_def)
qed

lemma leaf_add_ok:
  assumes ok: "art_leaf_ok n h kvs" and k: "k \<notin> fst ` set kvs" and pos: "pos \<le> n" "first_bytes pos k = first_bytes pos h"
    and diff: "pos < n \<longrightarrow> get_byte k pos \<noteq> get_byte h pos"
  shows "pos < 8" "sorted_wrt (<) (map fst (leaf_insert kvs k v))"
    "\<forall>a \<in> fst ` set (leaf_insert kvs k v). first_bytes pos a = first_bytes pos h"
    "\<exists>a \<in> fst ` set (leaf_insert kvs k v). \<exists>b \<in> fst ` set (leaf_insert kvs k v). get_byte a pos \<noteq> get_byte b pos"
proof -
  have n: "n \<le> 8" and pre: "\<And>a. a \<in> fst ` set kvs \<Longrightarrow> first_bytes n a = first_bytes n h" and ne: "kvs \<noteq> []" using ok by (auto simp: art_leaf_ok_def)
  obtain a where a: "a \<in> fst ` set kvs" using ne by (cases kvs) auto
  show p8: "pos < 8"
  proof (rule ccontr)
    assume "\<not> pos < 8"
    then have "pos = 8" "n = 8" using pos n by simp_all
    then have "k = a" using pre [OF a] pos(2) by (simp add: first_bytes_all)
    then show False using a k by simp
  qed
  show "sorted_wrt (<) (map fst (leaf_insert kvs k v))" using ok k by (simp add: leaf_insert_sorted art_leaf_ok_def)
  show "\<forall>a \<in> fst ` set (leaf_insert kvs k v). first_bytes pos a = first_bytes pos h"
    using pos pre n by (auto intro: first_bytes_shorter)
  show "\<exists>a \<in> fst ` set (leaf_insert kvs k v). \<exists>b \<in> fst ` set (leaf_insert kvs k v). get_byte a pos \<noteq> get_byte b pos"
  proof (cases "pos < n")
    case True
    then have "get_byte a pos = get_byte h pos" using first_bytes_byte [OF pre [OF a]] n by simp
    then have "get_byte a pos \<noteq> get_byte k pos" using True diff by simp
    moreover have "a \<in> fst ` set (leaf_insert kvs k v)" "k \<in> fst ` set (leaf_insert kvs k v)" using a by simp_all
    ultimately show ?thesis by blast
  next
    case False
    then have "pos = n" "n \<noteq> 8" using pos(1) p8 by simp_all
    then have "\<exists>a \<in> fst ` set kvs. \<exists>b \<in> fst ` set kvs. get_byte a pos \<noteq> get_byte b pos" using ok by (simp add: art_leaf_ok_def split: if_splits)
    then obtain a b where "a \<in> fst ` set kvs" "b \<in> fst ` set kvs" "get_byte a pos \<noteq> get_byte b pos" by (elim bexE)
    then show ?thesis by (intro bexI [of _ a] bexI [of _ b]) simp_all
  qed
qed

section \<open>Growing a node\<close>

lemma sparse_index_nth:
  assumes "distinct ks" "\<forall>k \<in> set ks. k < 256"
  shows "length (sparse_index ks) = 256" "i < length ks \<Longrightarrow> sparse_index ks ! (ks ! i) = Some i"
    "b < 256 \<Longrightarrow> b \<notin> set ks \<Longrightarrow> sparse_index ks ! b = None"
proof -
  let ?X = "\<lambda>m. fold (\<lambda>i ix. ix[ks ! i := Some i]) [0..<m] (replicate 256 None)"
  have "length (?X m) = 256 \<and> (\<forall>i<m. ?X m ! (ks ! i) = Some i) \<and> (\<forall>b<256. b \<notin> set (take m ks) \<longrightarrow> ?X m ! b = None)" if "m \<le> length ks" for m
    using that
  proof (induction m)
    case (Suc m)
    have m: "ks ! m < 256" "\<And>i. i < m \<Longrightarrow> ks ! m \<noteq> ks ! i" using assms Suc.prems by (auto simp: nth_eq_iff_index_eq)
    have X: "?X (Suc m) = (?X m)[ks ! m := Some m]" by simp
    have I: "length (?X m) = 256" "\<And>i. i < m \<Longrightarrow> ?X m ! (ks ! i) = Some i" "\<And>b. b < 256 \<Longrightarrow> b \<notin> set (take m ks) \<Longrightarrow> ?X m ! b = None"
      using Suc by simp_all
    have "?X (Suc m) ! (ks ! i) = Some i" if "i < Suc m" for i
      using that m(1) m(2) [of i] I(1) I(2) [of i] by (cases "i = m") (simp_all add: X nth_list_update_neq)
    moreover have "?X (Suc m) ! b = None" if "b < 256" "b \<notin> set (take (Suc m) ks)" for b
      using that Suc.prems I(3) [of b] by (simp add: X take_Suc_conv_app_nth)
    ultimately show ?case using I(1) by (simp add: X)
  qed simp
  from this [of "length ks"]
  show "length (sparse_index ks) = 256" "i < length ks \<Longrightarrow> sparse_index ks ! (ks ! i) = Some i"
    "b < 256 \<Longrightarrow> b \<notin> set ks \<Longrightarrow> sparse_index ks ! b = None"
    by (simp_all add: sparse_index_def)
qed

lemma sparse_get_child_None: "length ps = length ks \<Longrightarrow> sparse_get_child ks ps b = None \<longleftrightarrow> b \<notin> set ks"
  using map_fst_zip [of ks ps] by (metis set_map map_of_eq_None_iff sparse_get_child_map_of)

lemma sparse_get_child_nth:
  "distinct ks \<Longrightarrow> length ps = length ks \<Longrightarrow> i < length ks \<Longrightarrow> sparse_get_child ks ps (ks ! i) = Some (ps ! i)"
  unfolding sparse_get_child_map_of by (rule map_of_zip_nth) auto

lemma sparse_get_child_snoc:
  "length ps = length ks \<Longrightarrow> b \<notin> set ks \<Longrightarrow> sparse_get_child (ks @ [b]) (ps @ [c]) b' = (if b' = b then Some c else sparse_get_child ks ps b')"
  by (induction ps ks rule: list_induct2) auto

lemma sparse_index_slots:
  assumes "distinct ks" "\<forall>k \<in> set ks. k < 256" "length ps = length ks" "b < 256"
  shows "indirect_get_child (sparse_index ks) ps b = sparse_get_child ks ps b"
proof (cases "b \<in> set ks")
  case True
  then obtain i where "i < length ks" "ks ! i = b" by (auto simp: in_set_conv_nth)
  then show ?thesis using sparse_index_nth [OF assms(1,2)] sparse_get_child_nth [OF assms(1,3)] assms(3,4) by (auto simp: indirect_get_child_def)
next
  case False
  then show ?thesis using sparse_index_nth [OF assms(1,2)] sparse_get_child_None [OF assms(3), of b] assms(4) by (simp add: indirect_get_child_def)
qed

lemma sparse_index_inj:
  assumes "distinct ks" "\<forall>k \<in> set ks. k < 256" "b < 256" "sparse_index ks ! b = Some i"
  shows "i < length ks \<and> ks ! i = b"
proof -
  have "b \<in> set ks" using sparse_index_nth(3) [OF assms(1,2)] assms(3,4) by force
  then obtain j where "j < length ks" "ks ! j = b" by (auto simp: in_set_conv_nth)
  then show ?thesis using sparse_index_nth(2) [OF assms(1,2)] assms(4) by force
qed

text \<open>One pointer more in an indirect node.\<close>

lemma indirect_more:
  assumes len: "length ix = 256" and small: "\<forall>b<256. \<forall>i. ix ! b = Some i \<longrightarrow> i < length ps"
    and inj: "\<forall>a<256. \<forall>b<256. \<forall>i. ix ! a = Some i \<and> ix ! b = Some i \<longrightarrow> a = b" and room: "length ps < max_indirect_size" and b: "b < 256"
  shows "shape_ok (Indirect h n (ix[b := Some (length ps)]) (ps @ [c]))"
    "indirect_get_child (ix[b := Some (length ps)]) (ps @ [c]) b = Some c"
    "b' \<noteq> b \<Longrightarrow> indirect_get_child (ix[b := Some (length ps)]) (ps @ [c]) b' = indirect_get_child ix ps b'"
proof -
  have new: "i \<le> length ps" if "ix[b := Some (length ps)] ! a = Some i" "a < 256" for a i
    using that len small by (cases "a = b") (auto intro: less_imp_le)
  have "a = a'" if "ix[b := Some (length ps)] ! a = Some i" "ix[b := Some (length ps)] ! a' = Some i" "a < 256" "a' < 256" for a a' i
  proof (cases "a = b \<or> a' = b")
    case True
    then have "i = length ps" using that len by auto
    then have "a = b" "a' = b" using that len small by (metis less_irrefl nth_list_update_neq)+
    then show ?thesis by simp
  next
    case False
    then show ?thesis using that inj by simp
  qed
  then show "shape_ok (Indirect h n (ix[b := Some (length ps)]) (ps @ [c]))" using len room new by (simp add: le_imp_less_Suc)
  show "indirect_get_child (ix[b := Some (length ps)]) (ps @ [c]) b = Some c" using len b by (simp add: indirect_get_child_def)
  assume "b' \<noteq> b"
  then show "indirect_get_child (ix[b := Some (length ps)]) (ps @ [c]) b' = indirect_get_child ix ps b'"
    using len small by (auto simp: indirect_get_child_def nth_append split: option.splits)
qed

lemma grow_head [simp]: "hkey (grow t k c) = hkey t" "byte_num (grow t k c) = byte_num t" "is_leaf_art (grow t k c) = is_leaf_art t"
  by (cases t; simp)+

text \<open>The grown node \<open>u\<close> has the child \<open>c\<close> for the byte \<open>b\<close> and otherwise the children of \<open>t\<close>.\<close>

definition grows_to :: "'v art \<Rightarrow> nat \<Rightarrow> 'v art \<Rightarrow> 'v art \<Rightarrow> bool" where
  "grows_to t b c u \<longleftrightarrow> shape_ok u \<and> byte_slot b u = Some (Some c)
     \<and> (\<forall>b' d. b' \<noteq> b \<longrightarrow> (byte_slot b' u = Some (Some d) \<longleftrightarrow> byte_slot b' t = Some (Some d)))"

lemma grow_indirect:
  assumes "shape_ok (Indirect h n ix ps)"
  shows "grows_to (Indirect h n ix ps) (get_byte k n) c (grow (Indirect h n ix ps) k c)"
proof -
  have ix: "length ix = 256" "\<forall>b<256. \<forall>i. ix ! b = Some i \<longrightarrow> i < length ps"
    "\<forall>a<256. \<forall>b<256. \<forall>i. ix ! a = Some i \<and> ix ! b = Some i \<longrightarrow> a = b" "length ps \<le> max_indirect_size" using assms by simp_all
  show ?thesis
  proof (cases "length ps = max_indirect_size")
    case True
    have "(full_get_child ((map (\<lambda>i. case i of None \<Rightarrow> None | Some j \<Rightarrow> ps ! j) ix)[get_byte k n := Some c]) b = Some (Some d))
        \<longleftrightarrow> indirect_get_child ix ps b = Some (Some d)" if "b \<noteq> get_byte k n" for b d
      using that ix(1,2) by (auto simp: full_get_child_def indirect_get_child_def split: option.splits)
    then show ?thesis using True ix(1) by (auto simp: grows_to_def full_get_child_def)
  next
    case False
    then have "length ps < max_indirect_size" using ix(4) by simp
    note more = indirect_more [OF ix(1-3) this get_byte_less [of k n], where c = "Some c"]
    have "grow (Indirect h n ix ps) k c = Indirect h n (ix[get_byte k n := Some (length ps)]) (ps @ [Some c])" using False by simp
    then show ?thesis unfolding grows_to_def using more(1) [of h n] more(2) more(3) by (simp only: byte_slot.simps) simp
  qed
qed

lemma sparse_index_all:
  assumes "distinct ks" "\<forall>k \<in> set ks. k < 256" "length ps = length ks"
  shows "indirect_get_child (sparse_index ks) ps b = sparse_get_child ks ps b"
proof (cases "b < 256")
  case False
  then have "indirect_get_child (sparse_index ks) ps b = None" "sparse_get_child ks ps b = None"
    using sparse_index_nth(1) [OF assms(1,2)] sparse_get_child_None [OF assms(3), of b] assms(2) by (auto simp: indirect_get_child_def)
  then show ?thesis by simp
qed (rule sparse_index_slots [OF assms])

lemma grow_sparse:
  assumes sh: "shape_ok (Sparse h n ks ps)" and new: "get_byte k n \<notin> set ks"
  shows "grows_to (Sparse h n ks ps) (get_byte k n) c (grow (Sparse h n ks ps) k c)"
proof -
  have ks: "distinct ks" "\<forall>k \<in> set ks. k < 256" "length ps = length ks" "length ks \<le> max_sparse_size" using sh by auto
  show ?thesis
  proof (cases "length ks = max_sparse_size")
    case True
    have small: "\<forall>b<256. \<forall>i. sparse_index ks ! b = Some i \<longrightarrow> i < length ps" using sparse_index_inj [OF ks(1,2)] ks(3) by auto
    have inj: "\<forall>a<256. \<forall>b<256. \<forall>i. sparse_index ks ! a = Some i \<and> sparse_index ks ! b = Some i \<longrightarrow> a = b"
      using sparse_index_inj [OF ks(1,2)] by blast
    have "length ps < max_indirect_size" using True ks(3) by (simp add: max_sparse_size_def max_indirect_size_def)
    note more = indirect_more [OF sparse_index_nth(1) [OF ks(1,2)] small inj this get_byte_less [of k n], where c = "Some c"]
    have "grow (Sparse h n ks ps) k c = Indirect h n ((sparse_index ks)[get_byte k n := Some (length ps)]) (ps @ [Some c])" using True by simp
    then show ?thesis
      unfolding grows_to_def using more(1) [of h n] more(2) more(3) sparse_index_all [OF ks(1-3)] by (simp only: byte_slot.simps) simp
  next
    case False
    have "sparse_get_child (ks @ [get_byte k n]) (ps @ [Some c]) b = (if b = get_byte k n then Some (Some c) else sparse_get_child ks ps b)" for b
      by (rule sparse_get_child_snoc [OF ks(3) new])
    then show ?thesis using False ks new by (auto simp: grows_to_def)
  qed
qed

lemma grow_slots:
  assumes sh: "shape_ok t" and nl: "\<not> is_leaf_art t" and none: "get_child t k = None"
  shows "shape_ok (grow t k c)"
    "byte_slot (get_byte k (byte_num t)) (grow t k c) = Some (Some c)"
    "b \<noteq> get_byte k (byte_num t) \<Longrightarrow> byte_slot b (grow t k c) = Some (Some d) \<longleftrightarrow> byte_slot b t = Some (Some d)"
proof -
  have "grows_to t (get_byte k (byte_num t)) c (grow t k c)"
  proof (cases t)
    case (Full h n cs)
    then show ?thesis using sh none by (simp add: get_child_def full_get_child_def)
  next
    case (Indirect h n ix ps)
    then show ?thesis using grow_indirect [of h n ix ps k c] sh by simp
  next
    case (Sparse h n ks ps)
    then have "get_byte k n \<notin> set ks" using none sh sparse_get_child_None [of ps ks "get_byte k n"] by (simp add: get_child_def)
    then show ?thesis using Sparse grow_sparse [of h n ks ps k c] sh by simp
  qed (use nl in simp)
  then show "shape_ok (grow t k c)" "byte_slot (get_byte k (byte_num t)) (grow t k c) = Some (Some c)"
    "b \<noteq> get_byte k (byte_num t) \<Longrightarrow> byte_slot b (grow t k c) = Some (Some d) \<longleftrightarrow> byte_slot b t = Some (Some d)" by (auto simp: grows_to_def)
qed

lemma grow_ok:
  assumes ok: "art_ok p x t" "\<not> is_leaf_art t" and none: "get_child t k = None"
    and c: "art_ok (Suc (byte_num t)) (256 * first_bytes (byte_num t) (hkey t) + get_byte k (byte_num t)) c"
  shows "art_ok p x (grow t k c)"
proof (rule art_ok.node)
  note t = art_ok_node [OF ok] and g = grow_slots [OF art_ok_node(1) [OF ok] ok(2) none]
  show "\<not> is_leaf_art (grow t k c)" "shape_ok (grow t k c)" using ok(2) g(1) by simp_all
  show "p \<le> byte_num (grow t k c)" "first_bytes p (hkey (grow t k c)) = x" using art_ok_head [OF ok(1)] by simp_all
  show "byte_num (grow t k c) < 8" using t(2) by simp
  fix b d
  assume d: "byte_slot b (grow t k c) = Some (Some d)"
  show "art_ok (Suc (byte_num (grow t k c))) (256 * first_bytes (byte_num (grow t k c)) (hkey (grow t k c)) + b) d"
  proof (cases "b = get_byte k (byte_num t)")
    case True
    then show ?thesis using d g(2) [of c] c by simp
  next
    case False
    then show ?thesis using d g(3) [OF False] t(3) [of b d] by simp
  qed
qed

lemma lookup_cong:
  assumes "\<not> is_leaf_art t" "\<not> is_leaf_art u" "\<And>d. get_child t k = Some (Some d) \<longleftrightarrow> get_child u k = Some (Some d)"
  shows "lookup k t = lookup k u"
proof (cases "\<exists>d. get_child t k = Some (Some d)")
  case True
  then obtain d where d: "get_child t k = Some (Some d)" by blast
  moreover have "get_child u k = Some (Some d)" using d assms(3) by simp
  ultimately show ?thesis using assms(1,2) by (simp add: lookup_node)
next
  case False
  then have "\<not> (\<exists>d. get_child u k = Some (Some d))" using assms(3) by simp
  then show ?thesis using False assms(1,2) by (auto simp: lookup_node split: option.splits)
qed

lemma grow_lookup:
  assumes ok: "art_ok p x t" "\<not> is_leaf_art t" and none: "get_child t k = None"
    and c: "\<And>k'. lookup k' c = (if k' = k then Some v else None)"
  shows "lookup k' (grow t k c) = (if k' = k then Some v else lookup k' t)"
proof (cases "get_byte k' (byte_num t) = get_byte k (byte_num t)")
  case True
  then have "lookup k' t = None" using none ok(2) by (simp add: lookup_node get_child_def)
  then show ?thesis using True ok(2) grow_slots(2) [OF art_ok_node(1) [OF ok] ok(2) none] c by (simp add: lookup_node get_child_def)
next
  case False
  have "lookup k' (grow t k c) = lookup k' t"
    by (rule lookup_cong) (use ok(2) grow_slots(3) [OF art_ok_node(1) [OF ok] ok(2) none False, of c] in \<open>simp_all add: get_child_def\<close>)
  then show ?thesis using False by auto
qed

section \<open>Breaking up a leaf\<close>

abbreviation (input) byte_at :: "nat \<Rightarrow> u64 \<times> 'v \<Rightarrow> nat" where
  "byte_at pos kv \<equiv> get_byte (fst kv) pos"

definition same_byte :: "nat \<Rightarrow> (u64 \<times> 'v) list \<Rightarrow> bool" where
  "same_byte pos g \<longleftrightarrow> g \<noteq> [] \<and> (\<exists>b. \<forall>kv \<in> set g. byte_at pos kv = b)"

lemma same_byteD: "same_byte pos g \<Longrightarrow> kv \<in> set g \<Longrightarrow> byte_at pos kv = byte_at pos (hd g)"
  unfolding same_byte_def by (metis hd_in_set)

lemma same_byte_simps: "same_byte pos [kv]" "same_byte pos g \<Longrightarrow> byte_at pos kv = byte_at pos (hd g) \<Longrightarrow> same_byte pos (g @ [kv])"
proof -
  show "same_byte pos [kv]" by (simp add: same_byte_def)
  assume g: "same_byte pos g" and kv: "byte_at pos kv = byte_at pos (hd g)"
  have "byte_at pos x = byte_at pos (hd g)" if "x \<in> set (g @ [kv])" for x
    using that same_byteD [OF g, of x] kv by (cases "x = kv") simp_all
  then show "same_byte pos (g @ [kv])" unfolding same_byte_def by blast
qed

lemma byte_groups_spec:
  assumes "same_byte pos cur" "sorted (map (byte_at pos) (cur @ rest))"
  shows "concat (byte_groups pos cur rest) = cur @ rest \<and> (\<forall>g \<in> set (byte_groups pos cur rest). same_byte pos g)
    \<and> sorted_wrt (<) (map (\<lambda>g. byte_at pos (hd g)) (byte_groups pos cur rest))
    \<and> (\<forall>g \<in> set (byte_groups pos cur rest). byte_at pos (hd cur) \<le> byte_at pos (hd g))"
  using assms
proof (induction pos cur rest rule: byte_groups.induct)
  case (2 pos cur kv kvs)
  have ne: "cur \<noteq> []" using "2.prems"(1) by (simp add: same_byte_def)
  have le: "byte_at pos (hd cur) \<le> byte_at pos kv" using ne "2.prems"(2) by (cases cur) auto
  show ?case
  proof (cases "byte_at pos kv = byte_at pos (hd cur)")
    case True
    from "2.IH"(2) [OF _ same_byte_simps(2) [OF "2.prems"(1) True]] True "2.prems"(2) ne show ?thesis by simp
  next
    case False
    have so: "sorted (map (byte_at pos) ([kv] @ kvs))" using "2.prems"(2) by (simp add: sorted_append)
    note I = "2.IH"(1) [OF False same_byte_simps(1) so]
    have "\<forall>g \<in> set (byte_groups pos [kv] kvs). byte_at pos (hd cur) < byte_at pos (hd g)"
    proof
      fix g assume "g \<in> set (byte_groups pos [kv] kvs)"
      then have "byte_at pos kv \<le> byte_at pos (hd g)" using I by simp
      then show "byte_at pos (hd cur) < byte_at pos (hd g)" using le False by simp
    qed
    then show ?thesis using I False "2.prems"(1) by (simp add: less_imp_le)
  qed
qed simp

lemma sorted_wrt_part: "sorted_wrt P (concat gs) \<Longrightarrow> g \<in> set gs \<Longrightarrow> sorted_wrt P g"
  by (auto dest!: split_list simp: sorted_wrt_append)

lemma sorted_bytes:
  assumes "sorted_wrt (<) (map fst kvs)" "\<forall>a \<in> fst ` set kvs. first_bytes pos a = first_bytes pos h" "pos < 8"
  shows "sorted (map (byte_at pos) kvs)"
proof -
  have "byte_at pos x \<le> byte_at pos y" if "fst x < fst y" "x \<in> set kvs" "y \<in> set kvs" for x y :: "u64 \<times> 'a"
  proof (rule ccontr)
    assume "\<not> byte_at pos x \<le> byte_at pos y"
    moreover have "first_bytes pos (fst y) = first_bytes pos (fst x)" using assms(2) that(2,3) by auto
    ultimately have "fst y < fst x" using byte_less [of pos "fst y" "fst x"] assms(3) by simp
    then show False using that(1) by simp
  qed
  then show ?thesis using assms(1) unfolding sorted_map by (simp add: sorted_wrt_map sorted_wrt_mono_rel [of kvs "\<lambda>x y. fst x < fst y"])
qed

lemma proper_part:
  assumes "g \<in> set gs" "x \<in> set (concat gs)" "x \<notin> set g"
  shows "length g < length (concat gs)"
proof -
  obtain A B where "gs = A @ g # B" using assms(1) by (meson split_list)
  then show ?thesis using assms(2,3) by (cases "concat A"; cases "concat B") auto
qed

lemma art_ok_narrow: "art_ok p x t \<Longrightarrow> q \<le> byte_num t \<Longrightarrow> art_ok q (first_bytes q (hkey t)) t"
  by (erule art_okE) (auto intro: art_ok.leaf art_ok.node)

lemma sparse_get_child_map:
  "distinct (map f gs) \<Longrightarrow> sparse_get_child (map f gs) (map (\<lambda>g. Some (c g)) gs) b = Some (Some d) \<longleftrightarrow> (\<exists>g \<in> set gs. f g = b \<and> c g = d)"
proof (induction gs)
  case (Cons a gs)
  show ?case
  proof (cases "f a = b")
    case True
    then have "\<forall>g \<in> set gs. f g \<noteq> b" using Cons.prems by (metis distinct.simps(2) image_eqI list.simps(9) set_map)
    then show ?thesis using True by auto
  next
    case False
    then show ?thesis using Cons by simp
  qed
qed simp

lemma length_concat_ge: "(\<And>g. g \<in> set gs \<Longrightarrow> g \<noteq> []) \<Longrightarrow> length gs \<le> length (concat gs)"
proof (induction gs)
  case (Cons g gs)
  then have "length gs \<le> length (concat gs)" "g \<noteq> []" by simp_all
  then show ?case by (cases g) auto
qed simp

text \<open>A sparse node over groups of entries, one child for each.\<close>

lemma sparse_groups_ok:
  assumes dist: "distinct (map (\<lambda>g. byte_at pos (hd g)) gs)" and len: "gs \<noteq> [] \<and> length gs \<le> max_sparse_size"
    and leafs: "\<And>g. g \<in> set gs \<Longrightarrow> art_ok (Suc pos) (first_bytes (Suc pos) (fst (hd g))) (c g)"
    and same: "\<And>g. g \<in> set gs \<Longrightarrow> first_bytes pos (fst (hd g)) = first_bytes pos h" and p: "p \<le> pos" "pos < 8"
  shows "art_ok p (first_bytes p h) (Sparse (fst (hd (hd gs))) pos (map (\<lambda>g. byte_at pos (hd g)) gs) (map (\<lambda>g. Some (c g)) gs))"
proof (rule art_ok.node)
  have hd: "first_bytes pos (fst (hd (hd gs))) = first_bytes pos h" by (rule same) (use len in simp)
  then show "first_bytes p (hkey (Sparse (fst (hd (hd gs))) pos (map (\<lambda>g. byte_at pos (hd g)) gs) (map (\<lambda>g. Some (c g)) gs))) = first_bytes p h"
    using p by (auto intro: first_bytes_shorter)
  fix b d
  assume "byte_slot b (Sparse (fst (hd (hd gs))) pos (map (\<lambda>g. byte_at pos (hd g)) gs) (map (\<lambda>g. Some (c g)) gs)) = Some (Some d)"
  then have "\<exists>g \<in> set gs. byte_at pos (hd g) = b \<and> c g = d" unfolding byte_slot.simps sparse_get_child_map [OF dist] .
  then obtain g where g: "g \<in> set gs" "byte_at pos (hd g) = b" "c g = d" by blast
  then have "first_bytes (Suc pos) (fst (hd g)) = 256 * first_bytes pos (fst (hd (hd gs))) + b"
    using p(2) hd same [OF g(1)] by (simp add: first_bytes_Suc)
  then show "art_ok (Suc (byte_num (Sparse (fst (hd (hd gs))) pos (map (\<lambda>g. byte_at pos (hd g)) gs) (map (\<lambda>g. Some (c g)) gs))))
      (256 * first_bytes (byte_num (Sparse (fst (hd (hd gs))) pos (map (\<lambda>g. byte_at pos (hd g)) gs) (map (\<lambda>g. Some (c g)) gs)))
        (hkey (Sparse (fst (hd (hd gs))) pos (map (\<lambda>g. byte_at pos (hd g)) gs) (map (\<lambda>g. Some (c g)) gs))) + b) d"
    using leafs [OF g(1)] g(3) by simp
qed (use dist len p in auto)

lemma sorted_map_of_iff: "sorted_wrt (<) (map fst kvs) \<Longrightarrow> map_of kvs (k :: u64) = Some v \<longleftrightarrow> (k, v) \<in> set kvs"
  using strict_sorted_iff [of "map fst kvs"] by simp

lemma option_ext: "(\<And>v. a = Some v \<longleftrightarrow> b = Some v) \<Longrightarrow> a = b"
  by (cases a; cases b) auto

lemma lookup_Some: "\<not> is_leaf_art t \<Longrightarrow> lookup k t = Some v \<longleftrightarrow> (\<exists>d. get_child t k = Some (Some d) \<and> lookup k d = Some v)"
  by (auto simp: lookup_node split: option.splits)

lemma sparse_groups_lookup:
  assumes dist: "distinct (map (\<lambda>g. byte_at pos (hd g)) gs)" and same: "\<And>g. g \<in> set gs \<Longrightarrow> same_byte pos g"
    and all: "concat gs = kvs" and so: "sorted_wrt (<) (map fst kvs)" and leafs: "\<And>g. g \<in> set gs \<Longrightarrow> lookup k (c g) = map_of g k"
  shows "lookup k (Sparse h pos (map (\<lambda>g. byte_at pos (hd g)) gs) (map (\<lambda>g. Some (c g)) gs)) = map_of kvs k"
    (is "lookup k ?t = _")
proof -
  have part: "map_of g k = Some v \<longleftrightarrow> (k, v) \<in> set g" if "g \<in> set gs" for g v
  proof (rule sorted_map_of_iff)
    have "sorted_wrt (<) (concat (map (map fst) gs))" using so by (simp add: all flip: map_concat)
    then show "sorted_wrt (<) (map fst g)" by (rule sorted_wrt_part) (use that in simp)
  qed
  have "lookup k ?t = Some v \<longleftrightarrow> map_of kvs k = Some v" for v
  proof -
    have "lookup k ?t = Some v \<longleftrightarrow> (\<exists>g \<in> set gs. byte_at pos (hd g) = get_byte k pos \<and> lookup k (c g) = Some v)"
      using lookup_Some [of ?t k v] sparse_get_child_map [OF dist, of c "get_byte k pos"] by (simp add: get_child_def) blast
    also have "\<dots> \<longleftrightarrow> (\<exists>g \<in> set gs. (k, v) \<in> set g)"
    proof (rule bex_cong [OF refl])
      fix g assume g: "g \<in> set gs"
      show "(byte_at pos (hd g) = get_byte k pos \<and> lookup k (c g) = Some v) \<longleftrightarrow> (k, v) \<in> set g"
        unfolding leafs [OF g] part [OF g] using same_byteD [OF same [OF g], of "(k, v)"] by auto
    qed
    also have "\<dots> \<longleftrightarrow> (k, v) \<in> set (concat gs)" by simp
    finally show ?thesis unfolding all sorted_map_of_iff [OF so, of k v] .
  qed
  then show ?thesis by (rule option_ext)
qed

lemma group_part:
  assumes so: "sorted_wrt (<) (map fst kvs)" and len: "length kvs \<le> Suc max_big_leaf_size"
    and pre: "\<forall>a \<in> fst ` set kvs. first_bytes pos a = first_bytes pos h" and pos: "pos < 8"
    and two: "\<exists>a \<in> fst ` set kvs. \<exists>b \<in> fst ` set kvs. get_byte a pos \<noteq> get_byte b pos"
    and gs: "concat gs = kvs" "\<forall>g \<in> set gs. same_byte pos g" and g: "g \<in> set gs"
  shows "sorted_wrt (<) (map fst g)" "g \<noteq> []" "length g \<le> max_big_leaf_size"
    "\<And>k. k \<in> fst ` set g \<Longrightarrow> first_bytes (pos + 1) k = first_bytes (pos + 1) (fst (hd g))" "fst (hd g) \<in> fst ` set kvs"
proof -
  have "set g \<subseteq> set (concat gs)" using g by auto
  then have sub: "set g \<subseteq> set kvs" unfolding gs(1) .
  have "sorted_wrt (<) (concat (map (map fst) gs))" using so by (simp add: gs(1) flip: map_concat)
  then show "sorted_wrt (<) (map fst g)" by (rule sorted_wrt_part) (use g in simp)
  have same: "same_byte pos g" using gs(2) g by blast
  then show ne': "g \<noteq> []" by (simp add: same_byte_def)
  then show hd: "fst (hd g) \<in> fst ` set kvs" using sub by (cases g) auto
  show "first_bytes (pos + 1) k = first_bytes (pos + 1) (fst (hd g))" if "k \<in> fst ` set g" for k
  proof -
    have "get_byte k pos = get_byte (fst (hd g)) pos" using that same_byteD [OF same] by (metis imageE)
    moreover have "k \<in> fst ` set kvs" using that sub by blast
    then have "first_bytes pos k = first_bytes pos (fst (hd g))" using bspec [OF pre] bspec [OF pre hd] by simp
    ultimately show ?thesis using pos by (simp add: first_bytes_Suc)
  qed
  obtain x where "x \<in> set kvs" "byte_at pos x \<noteq> byte_at pos (hd g)" using two by (metis imageE)
  then have "length g < length kvs" using proper_part [OF g, of x] same_byteD [OF same, of x] unfolding gs(1) by blast
  then show "length g \<le> max_big_leaf_size" using len by simp
qed

lemma split_leaf_ok:
  assumes so: "sorted_wrt (<) (map fst kvs)" and ne: "kvs \<noteq> []" and len: "length kvs \<le> Suc max_big_leaf_size"
    and pre: "\<forall>a \<in> fst ` set kvs. first_bytes pos a = first_bytes pos h" and pos: "pos < 8"
    and two: "\<exists>a \<in> fst ` set kvs. \<exists>b \<in> fst ` set kvs. get_byte a pos \<noteq> get_byte b pos"
    and p: "p \<le> pos"
  shows "art_ok p (first_bytes p h) (break_leaf pos kvs)" "lookup k (break_leaf pos kvs) = map_of kvs k"
proof -
  let ?gs = "byte_groups pos [hd kvs] (tl kvs)"
  have kvs: "[hd kvs] @ tl kvs = kvs" using ne by simp
  from byte_groups_spec [OF same_byte_simps(1) [of pos "hd kvs"], of "tl kvs"] sorted_bytes [OF so pre pos]
  have gs: "concat ?gs = kvs" "\<And>g. g \<in> set ?gs \<Longrightarrow> same_byte pos g"
    "sorted_wrt (<) (map (\<lambda>g. byte_at pos (hd g)) ?gs)" unfolding kvs by simp_all
  have "\<forall>g \<in> set ?gs. same_byte pos g" by (rule ballI) (rule gs(2))
  note part = group_part [OF so len pre pos two gs(1) this]
  let ?f = "\<lambda>g. byte_at pos (hd g)" and ?c = "\<lambda>g. new_leaf (pos + 1) g"
  have leafs: "art_ok (Suc pos) (first_bytes (Suc pos) (fst (hd g))) (?c g)" if "g \<in> set ?gs" for g
    using first_diff_ok [OF part(1-3) [OF that] part(4) [OF that]] pos
    by (simp add: new_leaf_def multi_leaf_def art_ok.leaf)
  have node: "break_leaf pos kvs = Sparse (fst (hd (hd ?gs))) pos (map ?f ?gs) (map (\<lambda>g. Some (?c g)) ?gs)"
  proof -
    have "?gs \<noteq> []" using gs(1) ne by auto
    then show ?thesis by (simp add: break_leaf_def sparse_nodes_def new_leaf_def multi_leaf_def hd_map comp_def)
  qed
  have same: "first_bytes pos (fst (hd g)) = first_bytes pos h" if "g \<in> set ?gs" for g by (rule bspec [OF pre part(5) [OF that]])
  have "length ?gs \<le> length (concat ?gs)" by (rule length_concat_ge) (rule part(2))
  then have "length ?gs \<le> max_sparse_size" using len unfolding gs(1) by (simp add: max_sparse_size_def max_big_leaf_size_def)
  moreover have "?gs \<noteq> []" using gs(1) ne by auto
  ultimately have count: "?gs \<noteq> [] \<and> length ?gs \<le> max_sparse_size" by simp
  have dist: "distinct (map ?f ?gs)" using gs(3) strict_sorted_iff by blast
  show "art_ok p (first_bytes p h) (break_leaf pos kvs)"
    unfolding node by (rule sparse_groups_ok [OF dist count leafs same p pos])
  show "lookup k (break_leaf pos kvs) = map_of kvs k"
    unfolding node by (rule sparse_groups_lookup [OF dist gs(2) gs(1) so]) (simp_all add: new_leaf_def multi_leaf_def)
qed

section \<open>Insertion below a node\<close>

lemma singleton_ok: "p \<le> 8 \<Longrightarrow> art_ok p (first_bytes p k) (singleton_leaf k v)"
  by (simp add: singleton_leaf_def key_length_def art_ok.leaf art_leaf_ok_def max_big_leaf_size_def)

lemma singleton_lookup [simp]: "lookup k' (singleton_leaf k v) = (if k' = k then Some v else None)"
  by (simp add: singleton_leaf_def)

lemma sparse_pair_ok:
  assumes ok: "art_ok p (first_bytes p k) d" and pos: "p \<le> pos" "pos < byte_num d" "first_bytes pos k = first_bytes pos (hkey d)"
    and diff: "get_byte k pos \<noteq> get_byte (hkey d) pos"
  shows "art_ok p (first_bytes p k) (sparse_pair pos d (hkey d) (singleton_leaf k v) k)"
    "lookup k' (sparse_pair pos d (hkey d) (singleton_leaf k v) k) = (if k' = k then Some v else lookup k' d)"
proof -
  let ?t = "sparse_pair pos d (hkey d) (singleton_leaf k v) k"
  have head: "byte_num d \<le> 8" "first_bytes p (hkey d) = first_bytes p k" using art_ok_head [OF ok] by simp_all
  have slot: "byte_slot b ?t = (if b = get_byte (hkey d) pos then Some (Some d) else if b = get_byte k pos then Some (Some (singleton_leaf k v)) else None)" for b
    by (simp add: sparse_pair_def)
  have t: "byte_num ?t = pos" "hkey ?t = hkey d" "\<not> is_leaf_art ?t" by (simp_all add: sparse_pair_def)
  have dn: "art_ok (Suc pos) (256 * first_bytes pos (hkey d) + get_byte (hkey d) pos) d"
    using art_ok_narrow [OF ok, of "Suc pos"] pos(2) head(1) by (simp add: first_bytes_Suc)
  have kn: "art_ok (Suc pos) (256 * first_bytes pos (hkey d) + get_byte k pos) (singleton_leaf k v)"
    using singleton_ok [of "Suc pos" k v] pos head(1) by (simp add: first_bytes_Suc)
  show "art_ok p (first_bytes p k) ?t"
  proof (rule art_ok.node)
    show "shape_ok ?t" using diff by (simp add: sparse_pair_def max_sparse_size_def)
    show "art_ok (Suc (byte_num ?t)) (256 * first_bytes (byte_num ?t) (hkey ?t) + b) c" if "byte_slot b ?t = Some (Some c)" for b c
      using that dn kn unfolding slot t by (auto split: if_splits)
  qed (use t pos head in simp_all)
  have other: "lookup k' d = None" if "get_byte k' pos \<noteq> get_byte (hkey d) pos"
  proof (cases "lookup k' d")
    case (Some w)
    then have "get_byte k' pos = get_byte (hkey d) pos" using first_bytes_byte [OF lookup_prefix [OF ok Some]] pos(2) head(1) by blast
    then show ?thesis using that by simp
  qed
  have "lookup k' ?t = (if get_byte k' pos = get_byte (hkey d) pos then lookup k' d else if k' = k then Some v else None)"
    using slot t by (auto simp: lookup_node get_child_def)
  then show "lookup k' ?t = (if k' = k then Some v else lookup k' d)" using other diff by auto
qed

lemma insert_below_ok:
  assumes c: "\<And>d. c = Some d \<Longrightarrow> art_ok p (first_bytes p k) d \<and> pos = advance k d p \<and> (\<not> is_leaf_art d \<longrightarrow> pos \<noteq> byte_num d)"
    and p: "p \<le> 8" and absent: "\<not> holds_key c k"
  shows "art_ok p (first_bytes p k) (insert_below k v pos c)" "lookup k' (insert_below k v pos c) = (if k' = k then Some v else lookup_below k' c)"
proof -
  have "art_ok p (first_bytes p k) (insert_below k v pos c) \<and> lookup k' (insert_below k v pos c) = (if k' = k then Some v else lookup_below k' c)"
  proof (cases c)
    case None
    then show ?thesis using singleton_ok [OF p] by (simp add: insert_below_def lookup_below_def)
  next
    case (Some d)
    note d = c [OF Some, THEN conjunct1] and q = c [OF Some, THEN conjunct2]
    have head: "p \<le> byte_num d" "byte_num d \<le> 8" "first_bytes p k = first_bytes p (hkey d)" using art_ok_head [OF d] by simp_all
    have a: "p \<le> pos" "pos \<le> byte_num d" "first_bytes pos k = first_bytes pos (hkey d)" "pos < byte_num d \<longrightarrow> get_byte k pos \<noteq> get_byte (hkey d) pos"
      using advance_spec [OF head] q by simp_all
    show ?thesis
    proof (cases "is_leaf_art d")
      case False
      then have "pos < byte_num d" using q a(2) by simp
      then show ?thesis using sparse_pair_ok [OF d a(1) _ a(3)] a(4) False Some by (simp add: insert_below_def lookup_below_def)
    next
      case True
      then obtain h n kvs where l: "d = Leaf h n kvs" by (cases d) auto
      have ok: "art_leaf_ok n h kvs" using d l by (auto dest: art_ok_leaf)
      then have "map_of kvs k = None" using absent Some l art_leaf_find [of kvs k] by (simp add: holds_key_def art_leaf_ok_def)
      then have k: "k \<notin> fst ` set kvs" by (simp add: map_of_eq_None_iff)
      have pos: "pos \<le> n" "first_bytes pos k = first_bytes pos h" "pos < n \<longrightarrow> get_byte k pos \<noteq> get_byte h pos" using a l by simp_all
      note new = leaf_add_ok(1) [OF ok k pos] leaf_add_ok(2-4) [OF ok k pos, where v = v]
      have pre: "first_bytes p h = first_bytes p k" using head(3) l by simp
      have len: "length kvs \<le> max_big_leaf_size" "kvs \<noteq> []" using ok by (simp_all add: art_leaf_ok_def)
      show ?thesis
      proof (cases "length kvs < max_big_leaf_size")
        case True
        have "art_leaf_ok pos h (leaf_insert kvs k v)" using new True len(2) unfolding art_leaf_ok_def by simp
        then show ?thesis using True Some l a(1) pre k by (simp add: insert_below_def leaf_add_def art_ok.leaf lookup_below_def leaf_insert_map_of)
      next
        case full: False
        have "length (leaf_insert kvs k v) \<le> Suc max_big_leaf_size" using len(1) by simp
        note sp = split_leaf_ok [OF new(2) leaf_insert_nonempty this new(3,1,4) a(1)]
        show ?thesis using full Some l sp pre k by (simp add: insert_below_def lookup_below_def leaf_insert_map_of)
      qed
    qed
  qed
  then show "art_ok p (first_bytes p k) (insert_below k v pos c)" "lookup k' (insert_below k v pos c) = (if k' = k then Some v else lookup_below k' c)" by simp_all
qed

section \<open>The search\<close>

lemma descend_ok:
  assumes "art_ok p x t" "\<not> is_leaf_art t" "first_bytes (byte_num t) k = first_bytes (byte_num t) (hkey t)" "descend (byte_num t) k t = Some (c, pos)"
  shows "get_child t k = Some (Some c)" "art_ok (Suc (byte_num t)) (first_bytes (Suc (byte_num t)) k) c" "\<not> is_leaf_art c"
    "pos = byte_num c" "first_bytes (byte_num c) k = first_bytes (byte_num c) (hkey c)"
proof -
  show g: "get_child t k = Some (Some c)" and nl: "\<not> is_leaf_art c" and pos: "pos = byte_num c"
    using assms(4) by (auto simp: descend_def Let_def split: option.splits if_splits)
  show ok: "art_ok (Suc (byte_num t)) (first_bytes (Suc (byte_num t)) k) c"
    using art_ok_node(2,3) [OF assms(1,2)] g assms(3) by (simp add: get_child_def first_bytes_Suc)
  have "pos = advance k c (Suc (byte_num t))" using assms(4) g by (auto simp: descend_def Let_def split: if_splits)
  then show "first_bytes (byte_num c) k = first_bytes (byte_num c) (hkey c)"
    using advance_spec [of "Suc (byte_num t)" c k] art_ok_head [OF ok] pos by simp
qed

text \<open>A key belongs below a node: the node and the key agree on the bytes before the one the node branches on.\<close>

definition on_path :: "nat \<Rightarrow> nat \<Rightarrow> u64 \<Rightarrow> 'v art \<Rightarrow> bool" where
  "on_path p x k t \<longleftrightarrow> art_ok p x t \<and> \<not> is_leaf_art t \<and> first_bytes (byte_num t) k = first_bytes (byte_num t) (hkey t)"

lemma on_path_step:
  assumes "on_path p x k t" "descend (byte_num t) k t = Some (c, pos)"
  shows "on_path (Suc (byte_num t)) (first_bytes (Suc (byte_num t)) k) k c" "pos = byte_num c" "get_child t k = Some (Some c)" "size c < size t"
  using descend_ok [of p x t k c pos] assms descend_size by (auto simp: on_path_def)

lemma find_location_step:
  "descend (byte_num t) k t = Some (c, byte_num c) \<Longrightarrow> find_location (byte_num t) k t = find_location (byte_num c) k c"
  by (subst find_location.simps) simp

lemma find_location_stop:
  "descend (byte_num t) k t = None \<Longrightarrow> find_location (byte_num t) k t = (t, get_child t k, stop_pos (byte_num t) k t)"
  by (subst find_location.simps) simp

lemma find_location_ends:
  assumes "on_path p x k t"
  obtains q y u where "on_path q y k u" "find_location (byte_num t) k t = (u, get_child u k, stop_pos (byte_num u) k u)"
    "descend (byte_num u) k u = None" "lookup k t = lookup k u"
proof -
  have "\<exists>q y u. on_path q y k u \<and> find_location (byte_num t) k t = (u, get_child u k, stop_pos (byte_num u) k u)
      \<and> descend (byte_num u) k u = None \<and> lookup k t = lookup k u"
    using assms
  proof (induction "size t" arbitrary: p x t rule: less_induct)
    case less
    show ?case
    proof (cases "descend (byte_num t) k t")
      case None
      then show ?thesis using less.prems find_location_stop [OF None] by blast
    next
      case (Some cp)
      obtain c pos where cp: "cp = (c, pos)" by fastforce
      note st = on_path_step [OF less.prems Some [unfolded cp]]
      have "lookup k t = lookup k c" using st(3) less.prems by (simp add: lookup_node on_path_def)
      then show ?thesis using less.hyps [OF st(4,1)] find_location_step [of t k c] Some cp st(2) by simp
    qed
  qed
  then show thesis using that by blast
qed

lemma modify_parent_ok:
  assumes "on_path p x k t"
    and "\<And>q y u. on_path q y k u \<Longrightarrow> find_location (byte_num t) k t = (u, get_child u k, stop_pos (byte_num u) k u) \<Longrightarrow>
      descend (byte_num u) k u = None \<Longrightarrow> art_ok q y (f u) \<and> (\<forall>k'. lookup k' (f u) = (if k' = k then w else lookup k' u))"
  shows "art_ok p x (modify_parent f (byte_num t) k t) \<and> (\<forall>k'. lookup k' (modify_parent f (byte_num t) k t) = (if k' = k then w else lookup k' t))"
  using assms
proof (induction "size t" arbitrary: p x t rule: less_induct)
  case less
  have ok: "art_ok p x t" "\<not> is_leaf_art t" using less.prems(1) by (simp_all add: on_path_def)
  show ?case
  proof (cases "descend (byte_num t) k t")
    case None
    then have "modify_parent f (byte_num t) k t = f t" by (subst modify_parent.simps) simp
    then show ?thesis using less.prems(2) [OF less.prems(1) find_location_stop [OF None] None] by simp
  next
    case (Some cp)
    obtain c pos where cp: "cp = (c, pos)" by fastforce
    note st = on_path_step [OF less.prems(1) Some [unfolded cp]]
    have loc: "find_location (byte_num t) k t = find_location (byte_num c) k c" by (rule find_location_step) (simp add: Some cp st(2))
    have I: "art_ok (Suc (byte_num t)) (first_bytes (Suc (byte_num t)) k) (modify_parent f (byte_num c) k c)"
      "\<And>k'. lookup k' (modify_parent f (byte_num c) k c) = (if k' = k then w else lookup k' c)"
      using less.hyps [OF st(4,1) less.prems(2) [unfolded loc]] by blast+
    have m: "modify_parent f (byte_num t) k t = put_child k (Some (modify_parent f (byte_num c) k c)) t"
      using Some cp st(2) by (subst modify_parent.simps) simp
    have pre: "first_bytes (Suc (byte_num t)) k = 256 * first_bytes (byte_num t) (hkey t) + get_byte k (byte_num t)"
      using art_ok_node(2) [OF ok] less.prems(1) by (simp add: first_bytes_Suc on_path_def)
    have "art_ok p x (put_child k (Some (modify_parent f (byte_num c) k c)) t)"
      by (rule set_child_ok [OF ok]) (use st(3) I(1) pre in simp_all)
    moreover have "lookup k' (put_child k (Some (modify_parent f (byte_num c) k c)) t) = (if k' = k then w else lookup k' t)" for k'
      by (rule set_child_update [OF ok st(3)]) (simp add: lookup_below_def I(2))
    ultimately show ?thesis unfolding m by blast
  qed
qed

text \<open>Growing the last node goes through the grandparent, whose pointer for the node's own key is the one the search followed.\<close>

lemma modify_grandparent_ok:
  assumes "on_path p x k t" "descend (byte_num t) k t \<noteq> None" "fst (snd (find_location (byte_num t) k t)) = None"
  shows "modify_grandparent (\<lambda>gp p. art_add_child gp p k v) (byte_num t) k t =
    Some (modify_parent (\<lambda>p. grow p k (singleton_leaf k v)) (byte_num t) k t)"
  using assms
proof (induction "size t" arbitrary: p x t rule: less_induct)
  case less
  obtain c pos where Some: "descend (byte_num t) k t = Some (c, pos)" using less.prems(2) by auto
  note st = on_path_step [OF less.prems(1) Some]
  have loc: "find_location (byte_num t) k t = find_location (byte_num c) k c" by (rule find_location_step) (simp add: Some st(2))
  have m: "modify_parent f (byte_num t) k t = put_child k (Some (modify_parent f (byte_num c) k c)) t" for f
    using Some st(2) by (subst modify_parent.simps) simp
  show ?case
  proof (cases "descend (byte_num c) k c = None")
    case True
    have "first_bytes (Suc (byte_num t)) (hkey c) = first_bytes (Suc (byte_num t)) k" using st(1) art_ok_head by (auto simp: on_path_def)
    then have byte: "get_byte (hkey c) (byte_num t) = get_byte k (byte_num t)"
      using less.prems(1) art_ok_node(2) [of p x t] by (auto simp: first_bytes_Suc_eq on_path_def)
    have "get_child c k = None" using less.prems(3) loc find_location_stop [OF True] by simp
    moreover have "modify_parent f (byte_num c) k c = f c" for f using True by (subst modify_parent.simps) simp
    moreover have "get_child t (hkey c) = Some (Some c)" "put_child (hkey c) d t = put_child k d t" for d
      using byte st(3) by (simp_all add: get_child_def put_child_def)
    ultimately show ?thesis using Some st(2) True m by (subst modify_grandparent.simps) (simp add: art_add_child_def)
  next
    case False
    have "modify_grandparent (\<lambda>gp p. art_add_child gp p k v) (byte_num c) k c = Some (modify_parent (\<lambda>p. grow p k (singleton_leaf k v)) (byte_num c) k c)"
      by (rule less.hyps [OF st(4,1) False]) (use less.prems(3) loc in simp)
    then show ?thesis using Some st(2) False m by (subst modify_grandparent.simps) auto
  qed
qed

section \<open>The operations\<close>

definition wf_art :: "'v art \<Rightarrow> bool" where
  "wf_art t \<longleftrightarrow> art_ok 0 0 t \<and> (\<exists>h cs. t = Full h 0 cs)"

lemma wf_on_path: "wf_art t \<Longrightarrow> on_path 0 0 k t"
  by (auto simp: wf_art_def on_path_def)

lemma wf_byte_num: "wf_art t \<Longrightarrow> byte_num t = 0"
  by (auto simp: wf_art_def)

text \<open>The root stays a full node, since it has a pointer for every byte.\<close>

lemma modify_parent_root:
  assumes "wf_art t" "\<And>h n cs. \<exists>cs'. f (Full h n cs) = Full h n cs'"
  shows "\<exists>h cs. modify_parent f 0 k t = Full h 0 cs"
proof -
  obtain h cs where t: "t = Full h 0 cs" using assms(1) by (auto simp: wf_art_def)
  show ?thesis
  proof (cases "descend 0 k t")
    case None
    then show ?thesis using assms(2) [of h 0 cs] t by (subst modify_parent.simps) auto
  next
    case (Some cp)
    then show ?thesis using t by (subst modify_parent.simps) (auto simp: put_child_def split: prod.splits)
  qed
qed

lemma set_child_full: "\<exists>cs'. put_child k c (Full h n cs) = Full h n cs'"
  by (simp add: put_child_def)

lemma modify_wf:
  assumes wf: "wf_art t" and root: "\<And>h n cs. \<exists>cs'. f (Full h n cs) = Full h n cs'"
    and step: "\<And>q y u. on_path q y k u \<Longrightarrow> find_location 0 k t = (u, get_child u k, stop_pos (byte_num u) k u) \<Longrightarrow>
      descend (byte_num u) k u = None \<Longrightarrow> art_ok q y (f u) \<and> (\<forall>k'. lookup k' (f u) = (if k' = k then w else lookup k' u))"
  shows "wf_art (modify_parent f 0 k t)" "lookup k' (modify_parent f 0 k t) = (if k' = k then w else lookup k' t)"
  using modify_parent_ok [OF wf_on_path [OF wf], of k f w] modify_parent_root [of t f k] assms wf_byte_num [OF wf]
  by (auto simp: wf_art_def)

lemma stop_child:
  assumes "on_path q y k u" "get_child u k = Some (Some d)" "descend (byte_num u) k u = None"
  shows "art_ok (Suc (byte_num u)) (first_bytes (Suc (byte_num u)) k) d"
    "stop_pos (byte_num u) k u = advance k d (Suc (byte_num u))" "\<not> is_leaf_art d \<Longrightarrow> advance k d (Suc (byte_num u)) \<noteq> byte_num d"
proof -
  have ok: "art_ok q y u" "\<not> is_leaf_art u" "first_bytes (byte_num u) k = first_bytes (byte_num u) (hkey u)" using assms(1) by (simp_all add: on_path_def)
  show "art_ok (Suc (byte_num u)) (first_bytes (Suc (byte_num u)) k) d"
    using art_ok_node(2,3) [OF ok(1,2)] ok(3) assms(2) by (simp add: get_child_def first_bytes_Suc)
  show "stop_pos (byte_num u) k u = advance k d (Suc (byte_num u))" using assms(2) by (simp add: stop_pos_def)
  show "advance k d (Suc (byte_num u)) \<noteq> byte_num d" if "\<not> is_leaf_art d"
    using assms(2,3) that by (auto simp: descend_def Let_def split: if_splits)
qed

text \<open>What the last child says about the key: a leaf is searched, an internal node does not have it.\<close>

lemma stop_lookup:
  assumes "on_path q y k u" "descend (byte_num u) k u = None"
  shows "get_child u k = None \<Longrightarrow> lookup k u = None" "get_child u k = Some None \<Longrightarrow> lookup k u = None"
    "get_child u k = Some (Some d) \<Longrightarrow> is_leaf_art d \<Longrightarrow> lookup k u = leaf_search (key_vals d) k"
    "get_child u k = Some (Some d) \<Longrightarrow> \<not> is_leaf_art d \<Longrightarrow> lookup k u = None"
proof -
  have nl: "\<not> is_leaf_art u" using assms(1) by (simp add: on_path_def)
  show "get_child u k = None \<Longrightarrow> lookup k u = None" "get_child u k = Some None \<Longrightarrow> lookup k u = None" using nl by (simp_all add: lookup_node)
  assume g: "get_child u k = Some (Some d)"
  note s = stop_child [OF assms(1) g assms(2)]
  have eq: "lookup k u = lookup k d" using g nl by (simp add: lookup_node)
  show "lookup k u = leaf_search (key_vals d) k" if leaf: "is_leaf_art d"
  proof -
    obtain h n kvs where "d = Leaf h n kvs" using leaf by (cases d) auto
    then show ?thesis using eq s(1) art_leaf_find [of kvs k] by (auto dest!: art_ok_leaf simp: art_leaf_ok_def)
  qed
  show "lookup k u = None" if inner: "\<not> is_leaf_art d"
  proof (cases "lookup k d")
    case (Some w)
    have head: "Suc (byte_num u) \<le> byte_num d" "byte_num d \<le> 8" "first_bytes (Suc (byte_num u)) k = first_bytes (Suc (byte_num u)) (hkey d)"
      using art_ok_head [OF s(1)] by simp_all
    have "advance k d (Suc (byte_num u)) < byte_num d" using advance_spec [OF head] s(3) [OF inner] by simp
    then have "get_byte k (advance k d (Suc (byte_num u))) = get_byte (hkey d) (advance k d (Suc (byte_num u)))"
      using first_bytes_byte [OF lookup_prefix [OF s(1) Some]] head(2) by blast
    then show ?thesis using advance_spec [OF head] s(3) [OF inner] by simp
  qed (simp add: eq)
qed

text \<open>The change of the last node: a new pointer, or a new child behind the pointer that is there.\<close>

lemma grow_step:
  assumes "on_path q y k u" "get_child u k = None"
  shows "art_ok q y (grow u k (singleton_leaf k v)) \<and> (\<forall>k'. lookup k' (grow u k (singleton_leaf k v)) = (if k' = k then Some v else lookup k' u))"
proof -
  have o: "art_ok q y u" "\<not> is_leaf_art u" "first_bytes (byte_num u) k = first_bytes (byte_num u) (hkey u)" using assms(1) by (simp_all add: on_path_def)
  have "art_ok (Suc (byte_num u)) (256 * first_bytes (byte_num u) (hkey u) + get_byte k (byte_num u)) (singleton_leaf k v)"
    using singleton_ok [of "Suc (byte_num u)" k v] art_ok_node(2) [OF o(1,2)] o(3) by (simp add: first_bytes_Suc)
  then show ?thesis using grow_ok [OF o(1,2) assms(2)] grow_lookup [OF o(1,2) assms(2) singleton_lookup] by blast
qed

lemma slot_step:
  assumes u: "on_path q y k u" and slot: "get_child u k = Some c"
    and new: "\<And>d'. d = Some d' \<Longrightarrow> art_ok (Suc (byte_num u)) (first_bytes (Suc (byte_num u)) k) d'"
      "\<And>k'. lookup_below k' d = (if k' = k then w else lookup_below k' c)"
  shows "art_ok q y (put_child k d u) \<and> (\<forall>k'. lookup k' (put_child k d u) = (if k' = k then w else lookup k' u))"
proof -
  have o: "art_ok q y u" "\<not> is_leaf_art u" using u by (simp_all add: on_path_def)
  have "first_bytes (Suc (byte_num u)) k = 256 * first_bytes (byte_num u) (hkey u) + get_byte k (byte_num u)"
    using art_ok_node(2) [OF o] u by (simp add: first_bytes_Suc on_path_def)
  then have "art_ok q y (put_child k d u)" using set_child_ok [OF o, of k d] slot new(1) by simp
  moreover have "lookup k' (put_child k d u) = (if k' = k then w else lookup k' u)" for k'
    by (rule set_child_update [OF o slot new(2)])
  ultimately show ?thesis by blast
qed

lemma insert_step:
  assumes u: "on_path q y k u" "descend (byte_num u) k u = None" and slot: "get_child u k = Some c" and absent: "\<not> holds_key c k"
  shows "art_ok q y (put_child k (Some (insert_below k v (stop_pos (byte_num u) k u) c)) u)
    \<and> (\<forall>k'. lookup k' (put_child k (Some (insert_below k v (stop_pos (byte_num u) k u) c)) u) = (if k' = k then Some v else lookup k' u))"
proof (rule slot_step [OF u(1) slot])
  have p: "Suc (byte_num u) \<le> 8" using u(1) art_ok_node(2) [of q y u] by (simp add: on_path_def Suc_leI)
  have c: "art_ok (Suc (byte_num u)) (first_bytes (Suc (byte_num u)) k) d \<and> stop_pos (byte_num u) k u = advance k d (Suc (byte_num u))
      \<and> (\<not> is_leaf_art d \<longrightarrow> stop_pos (byte_num u) k u \<noteq> byte_num d)" if "c = Some d" for d
    using stop_child [OF u(1) _ u(2), of d] slot that by simp
  show "art_ok (Suc (byte_num u)) (first_bytes (Suc (byte_num u)) k) d'"
    if "Some (insert_below k v (stop_pos (byte_num u) k u) c) = Some d'" for d'
    using insert_below_ok(1) [OF c p absent, of v] that by simp
  show "lookup_below k' (Some (insert_below k v (stop_pos (byte_num u) k u) c)) = (if k' = k then Some v else lookup_below k' c)" for k'
    using insert_below_ok(2) [OF c p absent] by (simp add: lookup_below_def)
qed

lemma absent_slot:
  assumes "on_path q y k u" "descend (byte_num u) k u = None" "get_child u k = Some c"
  shows "holds_key c k \<longleftrightarrow> lookup k u \<noteq> None"
proof (cases c)
  case None
  then show ?thesis using assms(3) stop_lookup(2) [OF assms(1,2)] by (simp add: holds_key_def)
next
  case (Some d)
  then show ?thesis using assms(3) stop_lookup(3,4) [OF assms(1,2), of d] by (cases "is_leaf_art d") (simp_all add: holds_key_def)
qed

lemma wf_location:
  assumes "wf_art t"
  obtains q y u where "on_path q y k u" "find_location 0 k t = (u, get_child u k, stop_pos (byte_num u) k u)"
    "descend (byte_num u) k u = None" "lookup k t = lookup k u"
  using find_location_ends [OF wf_on_path [OF assms], of k] wf_byte_num [OF assms] by metis

lemma root_has_slots:
  assumes "wf_art t" "find_location 0 k t = (u, None, pos)"
  shows "descend 0 k t \<noteq> None"
proof
  assume "descend 0 k t = None"
  then have "get_child t k = None" using assms(2) find_location_stop [of t k] wf_byte_num [OF assms(1)] by simp
  then show False using assms(1) get_byte_less [of k 0] art_ok_node(1) [of 0 0 t]
    by (auto simp: wf_art_def get_child_def full_get_child_def)
qed

lemma try_insert_spec:
  assumes wf: "wf_art t"
  shows "\<exists>r t'. try_insert k v t = Some (r, t') \<and> wf_art t' \<and> (r \<longleftrightarrow> lookup k t = None)
    \<and> (\<forall>k'. lookup k' t' = (if k' = k \<and> r then Some v else lookup k' t))"
proof -
  obtain q y u where u: "on_path q y k u" "find_location 0 k t = (u, get_child u k, stop_pos (byte_num u) k u)"
    "descend (byte_num u) k u = None" "lookup k t = lookup k u" by (rule wf_location [OF wf])
  show ?thesis
  proof (cases "get_child u k")
    case None
    let ?f = "\<lambda>p. grow p k (singleton_leaf k v)"
    have run: "try_insert k v t = Some (True, modify_parent ?f 0 k t)"
      using modify_grandparent_ok [OF wf_on_path [OF wf], of k v] root_has_slots [OF wf] u(2) None wf_byte_num [OF wf] by (simp add: try_insert_def)
    have m: "wf_art (modify_parent ?f 0 k t)" "lookup k' (modify_parent ?f 0 k t) = (if k' = k then Some v else lookup k' t)" for k'
      by (rule modify_wf [OF wf]; use grow_step u(2) None in fastforce)+
    show ?thesis using run m stop_lookup(1) [OF u(1,3) None] u(4) by auto
  next
    case slot: (Some c)
    show ?thesis
    proof (cases "holds_key c k")
      case True
      then have "try_insert k v t = Some (False, t)" "lookup k t \<noteq> None"
        using u(2,4) slot absent_slot [OF u(1,3) slot] by (simp_all add: try_insert_def)
      then show ?thesis using wf by auto
    next
      case False
      let ?f = "put_child k (Some (insert_below k v (stop_pos (byte_num u) k u) c))"
      have run: "try_insert k v t = Some (True, modify_parent ?f 0 k t)" using u(2) slot False by (simp add: try_insert_def)
      have step: "art_ok q' y' (?f u') \<and> (\<forall>k'. lookup k' (?f u') = (if k' = k then Some v else lookup k' u'))"
        if "on_path q' y' k u'" "find_location 0 k t = (u', get_child u' k, stop_pos (byte_num u') k u')" "descend (byte_num u') k u' = None" for q' y' u'
        using insert_step [OF that(1,3) _ False, of v] that(2) u(2) slot by simp
      have "lookup k t = None" using absent_slot [OF u(1,3) slot] False u(4) by simp
      moreover have "wf_art (modify_parent ?f 0 k t)" "lookup k' (modify_parent ?f 0 k t) = (if k' = k then Some v else lookup k' t)" for k'
        by (rule modify_wf [OF wf set_child_full step]; assumption)+
      ultimately show ?thesis unfolding run by auto
    qed
  qed
qed

lemma leaf_drop_step:
  assumes u: "on_path q y k u" "descend (byte_num u) k u = None" and slot: "get_child u k = Some (Some l)" and held: "holds_key (Some l) k"
  shows "art_ok q y (put_child k (if art_size l = 1 then None else Some (leaf_drop l k)) u)
    \<and> (\<forall>k'. lookup k' (put_child k (if art_size l = 1 then None else Some (leaf_drop l k)) u) = (if k' = k then None else lookup k' u))"
proof -
  obtain h n kvs where l: "l = Leaf h n kvs" using held by (cases l) (auto simp: holds_key_def)
  note c = stop_child(1) [OF u(1) slot u(2)]
  have ok: "art_leaf_ok n h kvs" using c l by (auto dest: art_ok_leaf)
  then have "map_of kvs k \<noteq> None" using held l art_leaf_find [of kvs k] by (simp add: holds_key_def art_leaf_ok_def)
  then have k: "k \<in> fst ` set kvs" by (simp add: map_of_eq_None_iff)
  show ?thesis
  proof (cases "length kvs = 1")
    case True
    then obtain w where "kvs = [(k, w)]" using k by (cases kvs) auto
    then have "lookup_below k' None = (if k' = k then None else lookup_below k' (Some l))" for k' by (simp add: lookup_below_def l)
    from slot_step [OF u(1) slot _ this] show ?thesis using True l by simp
  next
    case False
    then obtain h' n' kvs' where d: "leaf_drop (Leaf h n kvs) k = Leaf h' n' kvs'" "art_leaf_ok n' h' kvs'" "n \<le> n'" "first_bytes n h' = first_bytes n h"
      "\<And>k'. map_of kvs' k' = (if k' = k then None else map_of kvs k')" using leaf_drop_ok [OF ok k] by blast
    have "Suc (byte_num u) \<le> n" "n \<le> 8" "first_bytes (Suc (byte_num u)) h = first_bytes (Suc (byte_num u)) k" using art_ok_head [OF c] l by simp_all
    moreover from this have "first_bytes (Suc (byte_num u)) h' = first_bytes (Suc (byte_num u)) h" using d(4) by (blast intro: first_bytes_shorter)
    ultimately have "art_ok (Suc (byte_num u)) (first_bytes (Suc (byte_num u)) k) (Leaf h' n' kvs')" using d(2,3) by (simp add: art_ok.leaf)
    moreover have "lookup_below k' (Some (Leaf h' n' kvs')) = (if k' = k then None else lookup_below k' (Some l))" for k'
      using d(5) by (simp add: lookup_below_def l)
    ultimately show ?thesis using slot_step [OF u(1) slot, of "Some (Leaf h' n' kvs')" None] False l d(1) by simp
  qed
qed

lemma try_remove_spec:
  assumes wf: "wf_art t"
  shows "try_remove k t = Inl Null_Deref \<and> lookup k t = None
    \<or> (\<exists>r t'. try_remove k t = Inr (r, t') \<and> wf_art t' \<and> (r \<longleftrightarrow> lookup k t \<noteq> None) \<and> (\<forall>k'. lookup k' t' = (if k' = k then None else lookup k' t)))"
proof -
  obtain q y u where u: "on_path q y k u" "find_location 0 k t = (u, get_child u k, stop_pos (byte_num u) k u)"
    "descend (byte_num u) k u = None" "lookup k t = lookup k u" by (rule wf_location [OF wf])
  show ?thesis
  proof (cases "get_child u k")
    case None
    then show ?thesis using stop_lookup(1) [OF u(1,3)] u(2,4) by (simp add: try_remove_def)
  next
    case slot: (Some c)
    show ?thesis
    proof (cases "holds_key c k")
      case False
      then have "lookup k t = None" using absent_slot [OF u(1,3) slot] u(4) by simp
      moreover have "try_remove k t = Inr (False, t)" using u(2) slot False by (cases c) (simp_all add: try_remove_def)
      ultimately show ?thesis using wf by auto
    next
      case True
      then obtain l where c: "c = Some l" by (cases c) (simp_all add: holds_key_def)
      let ?f = "put_child k (if art_size l = 1 then None else Some (leaf_drop l k))"
      have run: "try_remove k t = Inr (True, modify_parent ?f 0 k t)" using u(2) slot True c by (simp add: try_remove_def)
      have step: "art_ok q' y' (?f u') \<and> (\<forall>k'. lookup k' (?f u') = (if k' = k then None else lookup k' u'))"
        if "on_path q' y' k u'" "find_location 0 k t = (u', get_child u' k, stop_pos (byte_num u') k u')" "descend (byte_num u') k u' = None" for q' y' u'
        using leaf_drop_step [OF that(1,3), of l] that(2) u(2) slot c True by simp
      have "lookup k t \<noteq> None" using absent_slot [OF u(1,3) slot] True u(4) by simp
      moreover have "wf_art (modify_parent ?f 0 k t)" "lookup k' (modify_parent ?f 0 k t) = (if k' = k then None else lookup k' t)" for k'
        by (rule modify_wf [OF wf set_child_full step]; assumption)+
      ultimately show ?thesis unfolding run by auto
    qed
  qed
qed

lemma find_art_spec:
  assumes wf: "wf_art t"
  shows "find_art k t = Inr (lookup k t) \<or> find_art k t = Inl Not_A_Leaf \<and> lookup k t = None"
proof -
  obtain q y u where u: "on_path q y k u" "find_location 0 k t = (u, get_child u k, stop_pos (byte_num u) k u)"
    "descend (byte_num u) k u = None" "lookup k t = lookup k u" by (rule wf_location [OF wf])
  show ?thesis using stop_lookup [OF u(1,3)] u(2,4) by (auto simp: find_art_def art_leaf_find_def split: option.splits)
qed

section \<open>All entries of a tree\<close>

primrec art_entries :: "'v art \<Rightarrow> (u64 \<times> 'v) list" where
  "art_entries (Full h n cs) = concat (map (case_option [] id) (map (map_option art_entries) cs))"
| "art_entries (Indirect h n ix ps) =
     concat (map (case_option [] (\<lambda>j. case_option [] id (map (map_option art_entries) ps ! j))) ix)"
| "art_entries (Sparse h n ks ps) = concat (map (case_option [] id) (map (map_option art_entries) ps))"
| "art_entries (Leaf h n kvs) = kvs"

definition slot_bytes :: "'v art \<Rightarrow> nat list" where
  "slot_bytes t = (case t of Sparse _ _ ks _ \<Rightarrow> ks | _ \<Rightarrow> [0..<256])"

definition slot_entries :: "'v art \<Rightarrow> nat \<Rightarrow> (u64 \<times> 'v) list" where
  "slot_entries t b = (case byte_slot b t of Some (Some c) \<Rightarrow> art_entries c | _ \<Rightarrow> [])"

lemma slot_entries_iff: "z \<in> set (slot_entries t b) \<longleftrightarrow> (\<exists>c. byte_slot b t = Some (Some c) \<and> z \<in> set (art_entries c))"
proof (cases "byte_slot b t")
  case (Some o')
  then show ?thesis by (cases o') (simp_all add: slot_entries_def)
qed (simp add: slot_entries_def)

lemma entries_by_slots:
  assumes "shape_ok t" "\<not> is_leaf_art t"
  shows "art_entries t = concat (map (slot_entries t) (slot_bytes t))" "distinct (slot_bytes t)"
    "byte_slot b t \<noteq> None \<Longrightarrow> b \<in> set (slot_bytes t)"
proof -
  show "byte_slot b t \<noteq> None \<Longrightarrow> b \<in> set (slot_bytes t)"
  proof (cases t)
    case (Sparse h n ks ps)
    assume "byte_slot b t \<noteq> None"
    then show ?thesis using assms(1) Sparse sparse_get_child_None [of ps ks b] by (auto simp: slot_bytes_def)
  qed (use get_slot_less [OF assms(1), of b] assms in \<open>simp_all add: slot_bytes_def\<close>)
  show "distinct (slot_bytes t)" using assms by (cases t) (auto simp: slot_bytes_def)
  have eq: "map f xs = map g ys" if "length xs = length ys" "\<And>i. i < length ys \<Longrightarrow> f (xs ! i) = g (ys ! i)"
    for f :: "'x \<Rightarrow> 'z" and g :: "'y \<Rightarrow> 'z" and xs ys using that by (simp add: list_eq_iff_nth_eq)
  show "art_entries t = concat (map (slot_entries t) (slot_bytes t))"
  proof (cases t)
    case (Full h n cs)
    have "map (case_option [] id) (map (map_option art_entries) cs) = map (slot_entries t) (slot_bytes t)"
      unfolding map_map by (rule eq) (use assms Full in \<open>auto simp: slot_bytes_def slot_entries_def full_get_child_def split: option.splits\<close>)
    then show ?thesis using Full by simp
  next
    case (Indirect h n ix ps)
    have "map (case_option [] (\<lambda>j. case_option [] id (map (map_option art_entries) ps ! j))) ix = map (slot_entries t) (slot_bytes t)"
      by (rule eq) (use assms Indirect in \<open>auto simp: slot_bytes_def slot_entries_def indirect_get_child_def split: option.splits\<close>)
    then show ?thesis using Indirect by simp
  next
    case (Sparse h n ks ps)
    then have ks: "length ps = length ks" "distinct ks" using assms by auto
    have "map (case_option [] id) (map (map_option art_entries) ps) = map (slot_entries t) (slot_bytes t)"
      unfolding map_map
      by (rule eq) (use Sparse ks sparse_get_child_nth [OF ks(2,1)] in \<open>auto simp: slot_bytes_def slot_entries_def split: option.splits\<close>)
    then show ?thesis using Sparse by simp
  qed (use assms in simp)
qed

lemma slot_prefix:
  assumes ok: "art_ok p x t" "\<not> is_leaf_art t" and b: "byte_slot b t = Some (Some c)" and k: "lookup k c = Some v"
  shows "get_byte k (byte_num t) = b"
proof -
  note c = art_ok_node(3) [OF ok b]
  have "first_bytes (Suc (byte_num t)) k = first_bytes (Suc (byte_num t)) (hkey c)"
    using lookup_prefix [OF c k] art_ok_head [OF c] by (blast intro: first_bytes_shorter)
  then have "256 * first_bytes (byte_num t) k + get_byte k (byte_num t) = 256 * first_bytes (byte_num t) (hkey t) + b"
    using art_ok_head [OF c] art_ok_node(2) [OF ok] by (simp add: first_bytes_Suc)
  moreover have "b < 256" by (rule get_slot_less [OF art_ok_node(1) [OF ok]]) (simp add: b)
  ultimately show ?thesis using bytes_decompose [of "first_bytes (byte_num t) k"] by simp
qed

lemma entries_lookup: "art_ok p x t \<Longrightarrow> (k, v) \<in> set (art_entries t) \<longleftrightarrow> lookup k t = Some v"
proof (induction arbitrary: k v rule: art_ok.induct)
  case (leaf n h kvs p x)
  then show ?case using sorted_map_of_iff [of kvs k v] by (simp add: art_leaf_ok_def)
next
  case (node t p x)
  have ok: "art_ok p x t" by (rule art_ok.node) (use node in auto)
  have "(k, v) \<in> set (art_entries t) \<longleftrightarrow> (\<exists>b c. byte_slot b t = Some (Some c) \<and> lookup k c = Some v)"
  proof
    assume "(k, v) \<in> set (art_entries t)"
    then obtain b where "(k, v) \<in> set (slot_entries t b)" unfolding entries_by_slots(1) [OF node.hyps(2,1)] by auto
    then show "\<exists>b c. byte_slot b t = Some (Some c) \<and> lookup k c = Some v" using node.IH unfolding slot_entries_iff by blast
  next
    assume "\<exists>b c. byte_slot b t = Some (Some c) \<and> lookup k c = Some v"
    then obtain b c where b: "byte_slot b t = Some (Some c)" "lookup k c = Some v" by blast
    then have "(k, v) \<in> set (slot_entries t b)" using node.IH unfolding slot_entries_iff by blast
    moreover have "b \<in> set (slot_bytes t)" by (rule entries_by_slots(3) [OF node.hyps(2,1)]) (simp add: b(1))
    ultimately show "(k, v) \<in> set (art_entries t)" unfolding entries_by_slots(1) [OF node.hyps(2,1)] by auto
  qed
  also have "\<dots> \<longleftrightarrow> lookup k t = Some v"
    using lookup_Some [OF node.hyps(1), of k v] slot_prefix [OF ok node.hyps(1)] by (auto simp: get_child_def)
  finally show ?case .
qed

lemma distinct_concat_map:
  assumes "distinct L" "\<And>b. b \<in> set L \<Longrightarrow> distinct (G b)" "\<And>b b' z. b \<in> set L \<Longrightarrow> b' \<in> set L \<Longrightarrow> z \<in> set (G b) \<Longrightarrow> z \<in> set (G b') \<Longrightarrow> b = b'"
  shows "distinct (concat (map G L))"
  using assms
proof (induction L)
  case (Cons a L)
  have "distinct (concat (map G L))" by (rule Cons.IH) (use Cons.prems in auto)
  moreover have "z \<notin> set (G a)" if in_rest: "z \<in> set (concat (map G L))" for z
  proof
    assume z: "z \<in> set (G a)"
    obtain b where "b \<in> set L" "z \<in> set (G b)" using in_rest by auto
    then show False using Cons.prems(1) Cons.prems(3) [of a b z] z by auto
  qed
  ultimately show ?case using Cons.prems(2) [of a] by auto
qed simp

lemma entries_distinct: "art_ok p x t \<Longrightarrow> distinct (map fst (art_entries t))"
proof (induction rule: art_ok.induct)
  case (leaf n h kvs p x)
  then show ?case using strict_sorted_iff by (auto simp: art_leaf_ok_def)
next
  case (node t p x)
  have ok: "art_ok p x t" by (rule art_ok.node) (use node in auto)
  have byte: "get_byte z (byte_num t) = b" if here: "z \<in> set (map fst (slot_entries t b))" for z b
  proof -
    obtain v where "(z, v) \<in> set (slot_entries t b)" using here by auto
    then obtain c where "byte_slot b t = Some (Some c)" "(z, v) \<in> set (art_entries c)" unfolding slot_entries_iff by blast
    then show ?thesis using slot_prefix [OF ok node.hyps(1)] entries_lookup [OF node.hyps(6)] by blast
  qed
  have "distinct (concat (map (\<lambda>b. map fst (slot_entries t b)) (slot_bytes t)))"
  proof (rule distinct_concat_map)
    show "distinct (slot_bytes t)" by (rule entries_by_slots(2) [OF node.hyps(2,1)])
    show "distinct (map fst (slot_entries t b))" for b using node.IH by (auto simp: slot_entries_def split: option.splits)
    show "b = b'" if "z \<in> set (map fst (slot_entries t b))" "z \<in> set (map fst (slot_entries t b'))" for b b' z
      using byte [OF that(1)] byte [OF that(2)] by simp
  qed
  then show ?case unfolding entries_by_slots(1) [OF node.hyps(2,1)] by (simp add: map_concat comp_def)
qed

definition art_abs :: "'v art \<Rightarrow> u64 \<rightharpoonup> 'v" where
  "art_abs t = map_of (art_entries t)"

lemma art_abs_lookup: "wf_art t \<Longrightarrow> art_abs t k = lookup k t"
  unfolding art_abs_def
  by (rule option_ext) (use entries_lookup [of 0 0 t k] entries_distinct [of 0 0 t] in \<open>simp add: wf_art_def\<close>)

section \<open>Range queries\<close>

definition in_bounds :: "u64 option \<Rightarrow> u64 option \<Rightarrow> u64 \<Rightarrow> bool" where
  "in_bounds start end_key k \<longleftrightarrow> (\<forall>s. start = Some s \<longrightarrow> s \<le> k) \<and> (\<forall>e. end_key = Some e \<longrightarrow> k \<le> e)"

lemma skip_low_spec:
  "skip_low k kvs j = Some s \<Longrightarrow> j \<le> s \<and> s < length kvs \<and> (\<forall>i. j \<le> i \<and> i < s \<longrightarrow> fst (kvs ! i) < k) \<and> k \<le> fst (kvs ! s)"
proof (induction k kvs j rule: skip_low.induct)
  case (1 k kvs j)
  show ?case
  proof (cases "fst (kvs ! j) < k")
    case True
    then have "\<not> length kvs \<le> j" "skip_low k kvs (Suc j) = Some s" using "1.prems" by (subst (asm) skip_low.simps; simp split: if_splits)+
    from "1.IH" [OF this(1) True this(2)] show ?thesis using True by (metis Suc_leI Suc_le_lessD le_neq_implies_less less_imp_le)
  next
    case False
    then show ?thesis using "1.prems" by (subst (asm) skip_low.simps) (auto split: if_splits)
  qed
qed

lemma skip_high_spec:
  "skip_high k kvs j = Some e \<Longrightarrow> 0 < e \<and> e \<le> j \<and> (\<forall>i. e \<le> i \<and> i < j \<longrightarrow> k < fst (kvs ! i)) \<and> fst (kvs ! (e - 1)) \<le> k"
  by (induction k kvs j rule: skip_high.induct) (auto simp: less_Suc_eq split: if_splits)

lemma low_bound:
  assumes so: "sorted_wrt (<) (map fst kvs)" and s: "(case start of None \<Rightarrow> Some 0 | Some k \<Rightarrow> skip_low k kvs 0) = Some s" and i: "i < length kvs"
  shows "(\<forall>k. start = Some k \<longrightarrow> k \<le> fst (kvs ! i)) \<longleftrightarrow> s \<le> i"
proof (cases start)
  case (Some k)
  then have sp: "s < length kvs" "\<forall>i. i < s \<longrightarrow> fst (kvs ! i) < k" "k \<le> fst (kvs ! s)" using skip_low_spec [of k kvs 0 s] s by simp_all
  show ?thesis
  proof (cases "s \<le> i")
    case True
    then have "fst (kvs ! s) \<le> fst (kvs ! i)" using so i by (cases "s = i") (auto simp: sorted_wrt_iff_nth_less intro: less_imp_le)
    then show ?thesis using True Some sp(3) by (auto intro: order_trans)
  next
    case False
    then show ?thesis using Some sp(2) by (auto simp: not_le)
  qed
qed (use s in simp)

lemma high_bound:
  assumes so: "sorted_wrt (<) (map fst kvs)" and e: "(case end_key of None \<Rightarrow> Some (length kvs) | Some k \<Rightarrow> skip_high k kvs (length kvs)) = Some e"
    and i: "i < length kvs"
  shows "(\<forall>k. end_key = Some k \<longrightarrow> fst (kvs ! i) \<le> k) \<longleftrightarrow> i < e"
proof (cases end_key)
  case (Some k)
  then have sp: "0 < e" "e \<le> length kvs" "\<forall>i. e \<le> i \<and> i < length kvs \<longrightarrow> k < fst (kvs ! i)" "fst (kvs ! (e - 1)) \<le> k"
    using skip_high_spec [of k kvs "length kvs" e] e by simp_all
  show ?thesis
  proof (cases "i < e")
    case True
    then have "fst (kvs ! i) \<le> fst (kvs ! (e - 1))" using so sp(1,2) by (cases "i = e - 1") (auto simp: sorted_wrt_iff_nth_less intro: less_imp_le)
    then show ?thesis using True Some sp(4) by (auto intro: order_trans)
  next
    case False
    then have "k < fst (kvs ! i)" using sp(3) i by simp
    then show ?thesis using False Some by (simp add: not_le)
  qed
qed (use e i in simp)

lemma range_leaf_spec:
  assumes so: "sorted_wrt (<) (map fst kvs)" and r: "range_leaf kvs start end_key = Some es"
  shows "set es = {kv \<in> set kvs. in_bounds start end_key (fst kv)}"
proof -
  obtain s e where s: "(case start of None \<Rightarrow> Some 0 | Some k \<Rightarrow> skip_low k kvs 0) = Some s"
    and e: "(case end_key of None \<Rightarrow> Some (length kvs) | Some k \<Rightarrow> skip_high k kvs (length kvs)) = Some e" and es: "es = map (\<lambda>i. kvs ! i) [s..<e]"
    using r unfolding range_leaf_def by (auto split: option.splits)
  have le: "e \<le> length kvs" using e skip_high_spec [of _ kvs "length kvs" e] by (cases end_key) auto
  have iff: "in_bounds start end_key (fst (kvs ! i)) \<longleftrightarrow> s \<le> i \<and> i < e" if "i < length kvs" for i
    using low_bound [OF so s that] high_bound [OF so e that] by (simp add: in_bounds_def)
  show ?thesis
  proof (intro set_eqI iffI)
    fix kv assume "kv \<in> set es"
    then obtain i where i: "kv = kvs ! i" "s \<le> i" "i < e" unfolding es by auto
    then show "kv \<in> {kv \<in> set kvs. in_bounds start end_key (fst kv)}" using iff [of i] le by simp
  next
    fix kv assume "kv \<in> {kv \<in> set kvs. in_bounds start end_key (fst kv)}"
    then obtain i where "kv = kvs ! i" "i < length kvs" "in_bounds start end_key (fst (kvs ! i))" by (auto simp: in_set_conv_nth)
    then show "kv \<in> set es" using iff [of i] unfolding es by auto
  qed
qed

text \<open>A bound that is still there agrees with all keys below the node on the bytes before \<open>i\<close>.\<close>

definition tight :: "nat \<Rightarrow> u64 \<Rightarrow> u64 option \<Rightarrow> bool" where
  "tight i h bound \<longleftrightarrow> (\<forall>b. bound = Some b \<longrightarrow> first_bytes i b = first_bytes i h)"

lemma tight_None [simp]: "tight i h None"
  by (simp add: tight_def)

lemma narrow_low:
  assumes "tight i h start" "i < 8" "first_bytes (Suc i) k = first_bytes (Suc i) h" "\<not> (\<exists>b \<in> set_option start. get_byte h i < get_byte b i)"
  defines "start' \<equiv> case start of Some b \<Rightarrow> if get_byte b i < get_byte h i then None else start | None \<Rightarrow> None"
  shows "tight (Suc i) h start'" "(\<forall>b. start = Some b \<longrightarrow> b \<le> k) \<longleftrightarrow> (\<forall>b. start' = Some b \<longrightarrow> b \<le> k)"
proof -
  have k: "first_bytes i k = first_bytes i h" "get_byte k i = get_byte h i" using assms(2,3) by (simp_all add: first_bytes_Suc_eq)
  have less: "b < k" if "start = Some b" "get_byte b i < get_byte h i" for b
    using byte_less [of i b k] assms(1,2) k that by (simp add: tight_def)
  show "tight (Suc i) h start'" "(\<forall>b. start = Some b \<longrightarrow> b \<le> k) \<longleftrightarrow> (\<forall>b. start' = Some b \<longrightarrow> b \<le> k)"
  proof (atomize(full), cases start)
    case (Some b)
    have b: "first_bytes i b = first_bytes i h" using assms(1) Some by (simp add: tight_def)
    show "tight (Suc i) h start' \<and> ((\<forall>b. start = Some b \<longrightarrow> b \<le> k) \<longleftrightarrow> (\<forall>b. start' = Some b \<longrightarrow> b \<le> k))"
    proof (cases "get_byte b i < get_byte h i")
      case True
      then show ?thesis using Some less [OF Some True] by (simp add: start'_def less_imp_le)
    next
      case False
      then have "get_byte b i = get_byte h i" using assms(4) Some by simp
      then show ?thesis using Some False b assms(2) by (simp add: start'_def tight_def first_bytes_Suc)
    qed
  qed (simp add: start'_def)
qed

lemma narrow_high:
  assumes "tight i h end_key" "i < 8" "first_bytes (Suc i) k = first_bytes (Suc i) h" "\<not> (\<exists>b \<in> set_option end_key. get_byte b i < get_byte h i)"
  defines "end' \<equiv> case end_key of Some b \<Rightarrow> if get_byte h i < get_byte b i then None else end_key | None \<Rightarrow> None"
  shows "tight (Suc i) h end'" "(\<forall>b. end_key = Some b \<longrightarrow> k \<le> b) \<longleftrightarrow> (\<forall>b. end' = Some b \<longrightarrow> k \<le> b)"
proof -
  have k: "first_bytes i k = first_bytes i h" "get_byte k i = get_byte h i" using assms(2,3) by (simp_all add: first_bytes_Suc_eq)
  have less: "k < b" if "end_key = Some b" "get_byte h i < get_byte b i" for b
    using byte_less [of i k b] assms(1,2) k that by (simp add: tight_def)
  show "tight (Suc i) h end'" "(\<forall>b. end_key = Some b \<longrightarrow> k \<le> b) \<longleftrightarrow> (\<forall>b. end' = Some b \<longrightarrow> k \<le> b)"
  proof (atomize(full), cases end_key)
    case (Some b)
    have b: "first_bytes i b = first_bytes i h" using assms(1) Some by (simp add: tight_def)
    show "tight (Suc i) h end' \<and> ((\<forall>b. end_key = Some b \<longrightarrow> k \<le> b) \<longleftrightarrow> (\<forall>b. end' = Some b \<longrightarrow> k \<le> b))"
    proof (cases "get_byte h i < get_byte b i")
      case True
      then show ?thesis using Some less [OF Some True] by (simp add: end'_def less_imp_le)
    next
      case False
      then have "get_byte b i = get_byte h i" using assms(4) Some by simp
      then show ?thesis using Some False b assms(2) by (simp add: end'_def tight_def first_bytes_Suc)
    qed
  qed (simp add: end'_def)
qed

lemma outside:
  assumes "tight i h start" "tight i h end_key" "i < 8" "first_bytes (Suc i) k = first_bytes (Suc i) h"
    and "(\<exists>b \<in> set_option start. get_byte h i < get_byte b i) \<or> (\<exists>b \<in> set_option end_key. get_byte b i < get_byte h i)"
  shows "\<not> in_bounds start end_key k"
proof -
  have k: "first_bytes i k = first_bytes i h" "get_byte k i = get_byte h i" using assms(3,4) by (simp_all add: first_bytes_Suc_eq)
  have "k < b" if "start = Some b" "get_byte h i < get_byte b i" for b
    using byte_less [of i k b] assms(1,3) k that by (simp add: tight_def)
  moreover have "b < k" if "end_key = Some b" "get_byte b i < get_byte h i" for b
    using byte_less [of i b k] assms(2,3) k that by (simp add: tight_def)
  ultimately show ?thesis using assms(5) by (auto simp: in_bounds_def not_le)
qed

lemma narrow_spec:
  assumes "tight i (hkey a) start" "tight i (hkey a) end_key" "i \<le> byte_num a" "byte_num a \<le> 8"
  shows "case narrow i a start end_key of
       None \<Rightarrow> \<forall>k. first_bytes (byte_num a) k = first_bytes (byte_num a) (hkey a) \<longrightarrow> \<not> in_bounds start end_key k
     | Some (start', end') \<Rightarrow> tight (byte_num a) (hkey a) start' \<and> tight (byte_num a) (hkey a) end'
         \<and> (\<forall>k. first_bytes (byte_num a) k = first_bytes (byte_num a) (hkey a) \<longrightarrow> in_bounds start end_key k = in_bounds start' end' k)"
  using assms
proof (induction i a start end_key rule: narrow.induct)
  case (1 i a start end_key)
  have short: "first_bytes (Suc i) k = first_bytes (Suc i) (hkey a)" if "first_bytes (byte_num a) k = first_bytes (byte_num a) (hkey a)" "i < byte_num a" for k
    using that "1.prems"(4) by (auto intro: first_bytes_shorter)
  show ?case
  proof (cases "byte_num a \<le> i \<or> start = None \<and> end_key = None")
    case True
    then have "narrow i a start end_key = Some (start, end_key)" by (subst narrow.simps) simp
    then show ?thesis using True "1.prems"(1-3) by auto
  next
    case go: False
    let ?out = "(\<exists>k \<in> set_option start. get_byte (hkey a) i < get_byte k i) \<or> (\<exists>k \<in> set_option end_key. get_byte k i < get_byte (hkey a) i)"
    show ?thesis
    proof (cases ?out)
      case True
      then have "narrow i a start end_key = None" using go by (subst narrow.simps) simp
      moreover have "\<not> in_bounds start end_key k" if "first_bytes (byte_num a) k = first_bytes (byte_num a) (hkey a)" for k
        by (rule outside [OF "1.prems"(1,2) _ short True]) (use that go "1.prems"(4) in auto)
      ultimately show ?thesis by simp
    next
      case False
      let ?s = "case start of Some k \<Rightarrow> if get_byte k i < get_byte (hkey a) i then None else start | None \<Rightarrow> None"
      let ?e = "case end_key of Some k \<Rightarrow> if get_byte (hkey a) i < get_byte k i then None else end_key | None \<Rightarrow> None"
      have i: "i < 8" "i < byte_num a" using go "1.prems"(4) by auto
      have n: "narrow i a start end_key = narrow (Suc i) a ?s ?e" using go False by (subst narrow.simps) auto
      have t: "tight (Suc i) (hkey a) ?s" "tight (Suc i) (hkey a) ?e"
        using narrow_low(1) [OF "1.prems"(1) i(1) refl] narrow_high(1) [OF "1.prems"(2) i(1) refl] False by simp_all
      have eq: "in_bounds start end_key k = in_bounds ?s ?e k" if "first_bytes (byte_num a) k = first_bytes (byte_num a) (hkey a)" for k
        using narrow_low(2) [OF "1.prems"(1) i(1) short [OF that i(2)]] narrow_high(2) [OF "1.prems"(2) i(1) short [OF that i(2)]] False
        unfolding in_bounds_def by simp
      define S where "S = ?s"
      define E where "E = ?e"
      note eqs = n [folded S_def E_def] eq [folded S_def E_def]
      note I = "1.IH" [OF go False t Suc_leI [OF i(2)] "1.prems"(4), folded S_def E_def]
      show ?thesis
      proof (cases "narrow (Suc i) a S E")
        case None
        then show ?thesis using I eqs by simp
      next
        case (Some se)
        then show ?thesis using I eqs by (cases se) simp
      qed
    qed
  qed
qed

lemma collect_Some:
  "collect xs = Some es \<Longrightarrow> (\<forall>x \<in> set xs. x \<noteq> None) \<and> set es = (\<Union>x \<in> set xs. set (the x))"
  by (induction xs arbitrary: es rule: collect.induct) auto

lemma visited_byte:
  assumes "shape_ok a" "\<not> is_leaf_art a" "byte_slot b a \<noteq> None" "sb \<le> b" "b \<le> eb"
  shows "b \<in> set (visited a sb eb)"
  using entries_by_slots(3) [OF assms(1-3)] assms(2,4,5) by (cases a) (auto simp: visited_def slot_bytes_def)

lemma byte_bounds:
  assumes "tight (byte_num a) (hkey a) start" "tight (byte_num a) (hkey a) end_key" "byte_num a < 8"
    "first_bytes (byte_num a) k = first_bytes (byte_num a) (hkey a)" "in_bounds start end_key k"
  shows "start_byte a start \<le> get_byte k (byte_num a)" "get_byte k (byte_num a) \<le> end_byte a end_key"
proof -
  show "start_byte a start \<le> get_byte k (byte_num a)"
  proof (cases start)
    case (Some s)
    have "s \<le> k" "first_bytes (byte_num a) s = first_bytes (byte_num a) k" using assms(1,4,5) Some by (simp_all add: tight_def in_bounds_def)
    then have "\<not> get_byte k (byte_num a) < get_byte s (byte_num a)" using byte_less [of "byte_num a" k s] assms(3) by auto
    then show ?thesis using Some by (simp add: start_byte_def)
  qed (simp add: start_byte_def)
  show "get_byte k (byte_num a) \<le> end_byte a end_key"
  proof (cases end_key)
    case (Some e)
    have "k \<le> e" "first_bytes (byte_num a) e = first_bytes (byte_num a) k" using assms(2,4,5) Some by (simp_all add: tight_def in_bounds_def)
    then have "\<not> get_byte e (byte_num a) < get_byte k (byte_num a)" using byte_less [of "byte_num a" e k] assms(3) by auto
    then show ?thesis using Some by (simp add: end_byte_def)
  next
    case None
    have "get_byte k (byte_num a) < 256" by simp
    then have "get_byte k (byte_num a) \<le> 255" by linarith
    then show ?thesis using None by (simp add: end_byte_def)
  qed
qed

lemma child_key:
  assumes "art_ok p x a" "\<not> is_leaf_art a" "byte_slot b a = Some (Some c)"
  shows "first_bytes (byte_num a) (hkey c) = first_bytes (byte_num a) (hkey a)" "Suc (byte_num a) \<le> byte_num c"
proof -
  note c = art_ok_node(3) [OF assms] and n = art_ok_node(2) [OF assms(1,2)]
  have "b < 256" by (rule get_slot_less [OF art_ok_node(1) [OF assms(1,2)]]) (simp add: assms(3))
  moreover have "256 * first_bytes (byte_num a) (hkey c) + get_byte (hkey c) (byte_num a) = 256 * first_bytes (byte_num a) (hkey a) + b"
    using art_ok_head [OF c] n by (simp add: first_bytes_Suc)
  ultimately show "first_bytes (byte_num a) (hkey c) = first_bytes (byte_num a) (hkey a)" using bytes_decompose [OF _ get_byte_less] by blast
  show "Suc (byte_num a) \<le> byte_num c" using art_ok_head [OF c] by simp
qed

text \<open>The children of an inner node, each of which reports its entries in the range.\<close>

lemma range_children:
  assumes ok: "art_ok p x a" and inner: "\<not> is_leaf_art a" and t: "tight (byte_num a) (hkey a) start" "tight (byte_num a) (hkey a) end_key"
    and es: "collect (map F (visited a (start_byte a start) (end_byte a end_key))) = Some es"
    and none: "\<And>b. \<not> (\<exists>c. byte_slot b a = Some (Some c)) \<Longrightarrow> F b = Some []"
    and step: "\<And>b c ys. byte_slot b a = Some (Some c) \<Longrightarrow> F b = Some ys \<Longrightarrow> (k, v) \<in> set ys \<longleftrightarrow> lookup k c = Some v \<and> in_bounds start end_key k"
  shows "(k, v) \<in> set es \<longleftrightarrow> lookup k a = Some v \<and> in_bounds start end_key k"
proof
  let ?V = "visited a (start_byte a start) (end_byte a end_key)"
  have col: "\<And>b. b \<in> set ?V \<Longrightarrow> \<exists>ys. F b = Some ys" and mem: "(k, v) \<in> set es \<longleftrightarrow> (\<exists>b \<in> set ?V. (k, v) \<in> set (the (F b)))"
    using collect_Some [OF es] by auto
  { assume "(k, v) \<in> set es"
    then obtain b where b: "b \<in> set ?V" "(k, v) \<in> set (the (F b))" using mem by blast
    then obtain ys where ys: "F b = Some ys" using col by blast
    have "\<exists>c. byte_slot b a = Some (Some c)"
    proof (rule ccontr)
      assume "\<not> (\<exists>c. byte_slot b a = Some (Some c))"
      then show False using none [of b] b(2) by simp
    qed
    then obtain c where c: "byte_slot b a = Some (Some c)" by blast
    have k: "lookup k c = Some v" "in_bounds start end_key k" using step [OF c ys] b(2) ys by auto
    then show "lookup k a = Some v \<and> in_bounds start end_key k"
      using lookup_Some [OF inner, of k v] slot_prefix [OF ok inner c k(1)] c by (simp add: get_child_def) }
  assume A: "lookup k a = Some v \<and> in_bounds start end_key k"
  then have pre: "first_bytes (byte_num a) k = first_bytes (byte_num a) (hkey a)" using lookup_prefix [OF ok] by blast
  obtain c where c: "byte_slot (get_byte k (byte_num a)) a = Some (Some c)" "lookup k c = Some v"
    using A lookup_Some [OF inner, of k v] by (auto simp: get_child_def)
  have vis: "get_byte k (byte_num a) \<in> set ?V"
    by (rule visited_byte [OF art_ok_node(1) [OF ok inner] inner])
      (use c byte_bounds [OF t art_ok_node(2) [OF ok inner] pre conjunct2 [OF A]] in simp_all)
  then obtain ys where ys: "F (get_byte k (byte_num a)) = Some ys" using col by blast
  then have "(k, v) \<in> set (the (F (get_byte k (byte_num a))))" using step [OF c(1) ys] c(2) A by simp
  then show "(k, v) \<in> set es" using mem vis by blast
qed

lemma range_internal_spec:
  assumes "art_ok p x a" "tight pos (hkey a) start" "tight pos (hkey a) end_key" "pos \<le> byte_num a" "art_range_internal a start end_key pos = Some es"
  shows "(k, v) \<in> set es \<longleftrightarrow> lookup k a = Some v \<and> in_bounds start end_key k"
  using assms
proof (induction "size a" arbitrary: p x a pos start end_key es rule: less_induct)
  case less
  note ok = less.prems(1)
  show ?case
  proof (cases "is_leaf_art a")
    case True
    then obtain h n kvs where l: "a = Leaf h n kvs" by (cases a) auto
    then have so: "sorted_wrt (<) (map fst kvs)" using ok art_ok_leaf [of p x h n kvs] by (simp add: art_leaf_ok_def)
    have "range_leaf kvs start end_key = Some es" using less.prems(5) l by (subst (asm) art_range_internal.simps) simp
    then show ?thesis using range_leaf_spec [OF so] sorted_map_of_iff [OF so, of k v] l by auto
  next
    case inner: False
    have "byte_num a \<le> 8" using art_ok_head [OF ok] by simp
    note N = narrow_spec [OF less.prems(2-4) this]
    show ?thesis
    proof (cases "narrow pos a start end_key")
      case None
      then have "es = []" using less.prems(5) inner by (subst (asm) art_range_internal.simps) simp
      then show ?thesis using N None lookup_prefix [OF ok] by auto
    next
      case (Some se)
      obtain S E where se: "se = (S, E)" by fastforce
      have t: "tight (byte_num a) (hkey a) S" "tight (byte_num a) (hkey a) E"
        and eq: "\<And>k. first_bytes (byte_num a) k = first_bytes (byte_num a) (hkey a) \<Longrightarrow> in_bounds start end_key k = in_bounds S E k" using N Some se by auto
      define F where "F = (\<lambda>b. case byte_slot b a of Some (Some c) \<Rightarrow> art_range_internal c S E (byte_num a) | _ \<Rightarrow> Some [])"
      have "(k, v) \<in> set es \<longleftrightarrow> lookup k a = Some v \<and> in_bounds S E k"
      proof (rule range_children [OF ok inner t])
        show "collect (map F (visited a (start_byte a S) (end_byte a E))) = Some es"
          using less.prems(5) inner Some se by (subst (asm) art_range_internal.simps) (simp add: F_def)
        show "F b = Some []" if "\<not> (\<exists>c. byte_slot b a = Some (Some c))" for b using that by (auto simp: F_def split: option.splits)
        show "(k, v) \<in> set ys \<longleftrightarrow> lookup k c = Some v \<and> in_bounds S E k" if "byte_slot b a = Some (Some c)" "F b = Some ys" for b c ys
          by (rule less.hyps [OF get_slot_size [OF that(1)] art_ok_node(3) [OF ok inner that(1)]])
            (use t child_key [OF ok inner that(1)] that in \<open>simp_all add: tight_def F_def\<close>)
      qed
      then show ?thesis using eq lookup_prefix [OF ok] by blast
    qed
  qed
qed

section \<open>Searching a leaf with cmp\<close>

lemma cmp_loop_spec:
  assumes "i \<le> 8" "first_bytes i a = first_bytes i b"
  shows "cmp_loop a b i \<le> 8 \<and> first_bytes (cmp_loop a b i) a = first_bytes (cmp_loop a b i) b
    \<and> (cmp_loop a b i < 8 \<longrightarrow> get_byte a (cmp_loop a b i) \<noteq> get_byte b (cmp_loop a b i))"
  using assms
proof (induction a b i rule: cmp_loop.induct)
  case (1 a b i)
  show ?case
  proof (cases "i < 8 \<and> get_byte a i = get_byte b i")
    case True
    then have "first_bytes (Suc i) a = first_bytes (Suc i) b" using "1.prems" by (simp add: first_bytes_Suc)
    then show ?thesis using "1.IH" [OF True] True cmp_loop.simps [of a b i] by simp
  next
    case False
    then show ?thesis using "1.prems" cmp_loop.simps [of a b i] by auto
  qed
qed

lemma cmp_order:
  assumes "i \<le> 8" "first_bytes i a = first_bytes i b"
  shows "cmp a b i = (if a < b then - 1 else if a = b then 0 else 1)"
proof -
  let ?r = "cmp_loop a b i"
  have r: "?r \<le> 8" "first_bytes ?r a = first_bytes ?r b" "?r < 8 \<longrightarrow> get_byte a ?r \<noteq> get_byte b ?r" using cmp_loop_spec [OF assms] by simp_all
  show ?thesis
  proof (cases "?r = 8")
    case True
    then have "a = b" using r(2) by (simp add: first_bytes_all)
    then show ?thesis using True by (simp add: cmp_def Let_def)
  next
    case False
    then have r8: "?r < 8" using r(1) by simp
    show ?thesis
    proof (cases "get_byte a ?r < get_byte b ?r")
      case True
      then show ?thesis using False byte_less [OF r(2) True r8] by (simp add: cmp_def Let_def)
    next
      case False
      then have "get_byte b ?r < get_byte a ?r" using r(3) r8 by simp
      then have "b < a" using byte_less [OF r(2) [symmetric]] r8 by simp
      then show ?thesis using False r8 by (auto simp: cmp_def Let_def)
    qed
  qed
qed

lemma leaf_scan_cmp_eq:
  assumes "pos \<le> 8" "\<And>a. a \<in> fst ` set kvs \<Longrightarrow> first_bytes pos a = first_bytes pos k"
  shows "leaf_scan_cmp kvs k pos = leaf_search kvs k"
  using assms(2)
proof (induction kvs)
  case (Cons av kvs)
  obtain a v where av: "av = (a, v)" by fastforce
  have "cmp a k pos = (if a < k then - 1 else if a = k then 0 else 1)" by (rule cmp_order [OF assms(1)]) (rule Cons.prems, simp add: av)
  moreover have "leaf_scan_cmp kvs k pos = leaf_search kvs k" by (rule Cons.IH) (rule Cons.prems, simp)
  ultimately show ?case by (auto simp: av Let_def not_less)
qed simp

lemma leaf_find_cmp_eq:
  assumes ok: "art_leaf_ok n h kvs" and pos: "pos \<le> n" "first_bytes pos k = first_bytes pos h" "pos < n \<longrightarrow> get_byte k pos \<noteq> get_byte h pos"
  shows "leaf_find_cmp n kvs k pos = leaf_search kvs k"
proof -
  have n: "n \<le> 8" and pre: "\<And>a. a \<in> fst ` set kvs \<Longrightarrow> first_bytes n a = first_bytes n h" and so: "sorted_wrt (<) (map fst kvs)"
    using ok by (auto simp: art_leaf_ok_def)
  show ?thesis
  proof (cases "pos < n")
    case True
    have "k \<notin> fst ` set kvs"
    proof
      assume "k \<in> fst ` set kvs"
      then have "get_byte k pos = get_byte h pos" by (rule first_bytes_byte [OF pre True n])
      then show False using pos(3) True by simp
    qed
    then have "map_of kvs k = None" by (simp add: map_of_eq_None_iff)
    then show ?thesis using True art_leaf_find [OF so, of k] by (simp add: leaf_find_cmp_def)
  next
    case False
    then have "pos = n" using pos(1) by simp
    then have "leaf_scan_cmp kvs k pos = leaf_search kvs k"
    proof -
      have "first_bytes pos a = first_bytes pos k" if "a \<in> fst ` set kvs" for a using pre [OF that] pos(2) \<open>pos = n\<close> by simp
      then show ?thesis using leaf_scan_cmp_eq [of pos kvs k] n \<open>pos = n\<close> by blast
    qed
    then show ?thesis using False by (simp add: leaf_find_cmp_def)
  qed
qed

section \<open>The self check\<close>

lemma sum_counts_eq: "(\<And>x. x \<in> set xs \<Longrightarrow> f x = Some (g x)) \<Longrightarrow> sum_counts (map f xs) = Some (sum_list (map g xs))"
  by (induction xs) auto

lemma crec_slots:
  assumes sh: "shape_ok t" "\<not> is_leaf_art t" and kids: "\<And>b c. byte_slot b t = Some (Some c) \<Longrightarrow> art_crec c = Some (length (art_entries c))"
  shows "art_crec t = Some (length (art_entries t))"
proof (cases t)
  case (Full h n cs)
  have "art_crec c = Some (length (art_entries c))" if in_cs: "Some c \<in> set cs" for c
  proof -
    obtain b where "b < length cs" "cs ! b = Some c" using in_cs by (auto simp: in_set_conv_nth)
    then show ?thesis using kids [of b c] Full by (simp add: full_get_child_def)
  qed
  then have "(case_option (Some 0) id \<circ> map_option art_crec) x = Some (length (case_option [] id (map_option art_entries x)))" if "x \<in> set cs" for x
    using that by (cases x) auto
  then show ?thesis using Full sum_counts_eq [of cs "case_option (Some 0) id \<circ> map_option art_crec"] by (simp add: length_concat comp_def)
next
  case (Indirect h n ix ps)
  have ix: "length ix = 256" "\<And>b i. b < 256 \<Longrightarrow> ix ! b = Some i \<Longrightarrow> i < length ps" using sh Indirect by auto
  have "art_crec c = Some (length (art_entries c))" if in_ix: "Some j \<in> set ix" "ps ! j = Some c" for c j
  proof -
    obtain b where b: "b < 256" "ix ! b = Some j" using in_ix(1) ix(1) by (auto simp: in_set_conv_nth)
    then show ?thesis using kids [of b c] ix(2) [OF b] in_ix(2) ix(1) Indirect by (simp add: indirect_get_child_def)
  qed
  moreover have "j < length ps" if in_ix: "Some j \<in> set ix" for j
  proof -
    obtain b where b: "b < 256" "ix ! b = Some j" using in_ix ix(1) by (auto simp: in_set_conv_nth)
    then show ?thesis by (rule ix(2))
  qed
  ultimately have "case_option (Some 0) (\<lambda>j. case_option (Some 0) id (map (map_option art_crec) ps ! j)) x =
      Some (length (case_option [] (\<lambda>j. case_option [] id (map (map_option art_entries) ps ! j)) x))" if "x \<in> set ix" for x
    using that by (cases x) (auto split: option.splits)
  then show ?thesis using Indirect sum_counts_eq [of ix "case_option (Some 0) (\<lambda>j. case_option (Some 0) id (map (map_option art_crec) ps ! j))"]
    by (simp add: length_concat comp_def)
next
  case (Sparse h n ks ps)
  then have ks: "length ps = length ks" "distinct ks" using sh by auto
  have "art_crec c = Some (length (art_entries c))" if in_ps: "Some c \<in> set ps" for c
  proof -
    obtain i where i: "i < length ks" "ps ! i = Some c" using in_ps ks(1) by (auto simp: in_set_conv_nth)
    then show ?thesis using kids [of "ks ! i" c] Sparse sparse_get_child_nth [OF ks(2,1) i(1)] by simp
  qed
  then have "(case_option (Some 0) id \<circ> map_option art_crec) x = Some (length (case_option [] id (map_option art_entries x)))" if "x \<in> set ps" for x
    using that by (cases x) auto
  then show ?thesis using Sparse sum_counts_eq [of ps "case_option (Some 0) id \<circ> map_option art_crec"] by (simp add: length_concat comp_def)
qed (use sh in simp)

lemma crec_count: "art_ok p x t \<Longrightarrow> art_crec t = Some (length (art_entries t))"
proof (induction rule: art_ok.induct)
  case (leaf n h kvs p x)
  then show ?case by (auto simp: art_leaf_ok_def list_all_iff sorted_wrt_iff_nth_less)
next
  case (node t p x)
  then show ?case using crec_slots by blast
qed

lemma crec_card: "wf_art t \<Longrightarrow> art_crec t = Some (card (dom (art_abs t)))"
  using crec_count [of 0 0 t] entries_distinct [of 0 0 t]
  by (auto simp: wf_art_def art_abs_def dom_map_of_conv_image_fst card_image distinct_map distinct_card)

section \<open>The properties\<close>

lemma empty_art_wf: "wf_art (empty_art any)"
proof -
  have "art_ok 0 0 (empty_art any)"
    by (rule art_ok.node) (auto simp: empty_art_def full_get_child_def split: if_splits)
  then show ?thesis by (simp add: wf_art_def empty_art_def)
qed

lemma art_insert_abs:
  assumes wf: "wf_art t"
  shows "\<exists>r t'. try_insert k v t = Some (r, t') \<and> wf_art t' \<and> (r \<longleftrightarrow> art_abs t k = None)
    \<and> art_abs t' = (if r then (art_abs t)(k \<mapsto> v) else art_abs t)"
proof -
  obtain r t' where i: "try_insert k v t = Some (r, t')" "wf_art t'" "r \<longleftrightarrow> lookup k t = None"
    "\<And>k'. lookup k' t' = (if k' = k \<and> r then Some v else lookup k' t)" using try_insert_spec [OF wf, of k v] by blast
  have "art_abs t' = (if r then (art_abs t)(k \<mapsto> v) else art_abs t)" by (rule ext) (simp add: art_abs_lookup i(2,4) wf)
  then show ?thesis using i(1-3) art_abs_lookup [OF wf, of k] by auto
qed

lemma art_remove_abs:
  assumes wf: "wf_art t"
  shows "try_remove k t = Inl Null_Deref \<and> art_abs t k = None
    \<or> (\<exists>r t'. try_remove k t = Inr (r, t') \<and> wf_art t' \<and> (r \<longleftrightarrow> art_abs t k \<noteq> None) \<and> art_abs t' = (art_abs t)(k := None))"
  using try_remove_spec [OF wf, of k]
proof
  assume "\<exists>r t'. try_remove k t = Inr (r, t') \<and> wf_art t' \<and> (r \<longleftrightarrow> lookup k t \<noteq> None) \<and> (\<forall>k'. lookup k' t' = (if k' = k then None else lookup k' t))"
  then obtain r t' where i: "try_remove k t = Inr (r, t')" "wf_art t'" "r \<longleftrightarrow> lookup k t \<noteq> None"
    "\<And>k'. lookup k' t' = (if k' = k then None else lookup k' t)" by blast
  have "art_abs t' = (art_abs t)(k := None)" by (rule ext) (simp add: art_abs_lookup i(2,4) wf)
  then show ?thesis using i(1-3) art_abs_lookup [OF wf, of k] by auto
qed (simp add: art_abs_lookup [OF wf])

text \<open>Maps built by insertions.\<close>

definition insert_keys :: "u64 list \<Rightarrow> unit art" where
  "insert_keys ks = fold (\<lambda>k t. case try_insert k () t of Some (_, t') \<Rightarrow> t' | None \<Rightarrow> t) ks (empty_art 0)"

lemma insert_keys_wf: "wf_art (insert_keys ks)"
proof -
  have "wf_art (fold (\<lambda>k t. case try_insert k () t of Some (_, t') \<Rightarrow> t' | None \<Rightarrow> t) ks t)" if "wf_art t" for t :: "unit art"
    using that
  proof (induction ks arbitrary: t)
    case (Cons k ks)
    obtain r t' where "try_insert k () t = Some (r, t')" "wf_art t'" using art_insert_abs [OF Cons.prems, of k "()"] by blast
    then show ?case using Cons.IH by simp
  qed simp
  then show ?thesis by (simp add: insert_keys_def empty_art_wf)
qed

definition fifteen_keys :: "u64 list" where
  "fifteen_keys = [256, 257, 258, 259, 260, 261, 262, 263, 264, 265, 266, 267, 268, 269, 270]"

text \<open>C35: An insertion into the radix tree returns in its first round on every well-formed tree, keeps it well formed and is the
  insertion into the map: it reports whether the key was absent and adds it in this case. The cases are an
  empty pointer, a leaf with room, a full leaf that is broken up by a byte, an internal node that is cut
  off below a new one, and a node that grows from sparse to indirect to full.\<close>

theorem art_insert_refines:
  assumes "wf_art t"
  shows "\<exists>r t'. insert_art (Suc fuel) k v t = Some (r, t') \<and> wf_art t' \<and> (r \<longleftrightarrow> art_abs t k = None)
    \<and> art_abs t' = (if r then (art_abs t)(k \<mapsto> v) else art_abs t)"
  using art_insert_abs [OF assms, of k v] by (auto simp: insert_art_def intro: try_loop_first)

theorem art_insert_refines_witness:
  "\<exists>r t'. insert_art 1 271 () (insert_keys fifteen_keys) = Some (r, t') \<and> wf_art t' \<and> (r \<longleftrightarrow> art_abs (insert_keys fifteen_keys) 271 = None)
    \<and> art_abs t' = (if r then (art_abs (insert_keys fifteen_keys))(271 \<mapsto> ()) else art_abs (insert_keys fifteen_keys))"
  using art_insert_refines [OF insert_keys_wf, of 0 271 "()" fifteen_keys] by simp

text \<open>C36: A removal from the radix tree takes exactly the key out of the map and reports whether it was there,
  unless it follows a null pointer, which happens only for a key that is not in the map.\<close>

theorem art_remove_outcome:
  assumes "wf_art t"
  shows "try_remove k t = Inl Null_Deref \<and> art_abs t k = None
    \<or> (\<exists>r t'. try_remove k t = Inr (r, t') \<and> wf_art t' \<and> (r \<longleftrightarrow> art_abs t k \<noteq> None) \<and> art_abs t' = (art_abs t)(k := None))"
  by (rule art_remove_abs [OF assms])

theorem art_remove_outcome_witness:
  "try_remove 5 (insert_keys [5, 6]) = Inl Null_Deref \<and> art_abs (insert_keys [5, 6]) 5 = None
    \<or> (\<exists>r t'. try_remove 5 (insert_keys [5, 6]) = Inr (r, t') \<and> wf_art t' \<and> (r \<longleftrightarrow> art_abs (insert_keys [5, 6]) 5 \<noteq> None)
        \<and> art_abs t' = (art_abs (insert_keys [5, 6]))(5 := None))"
  by (rule art_remove_outcome [OF insert_keys_wf])

text \<open>C37: A lookup in the radix tree returns what the map has, and for a key of the map always its value; for an absent key it may
  also read an internal node as if it were a leaf.\<close>

theorem art_find_outcome:
  assumes "wf_art t"
  shows "find_art k t = Inr (art_abs t k) \<or> find_art k t = Inl Not_A_Leaf \<and> art_abs t k = None"
  using find_art_spec [OF assms, of k] by (simp add: art_abs_lookup [OF assms])

theorem art_find_outcome_witness:
  "find_art 5 (insert_keys [5, 6]) = Inr (art_abs (insert_keys [5, 6]) 5)
    \<or> find_art 5 (insert_keys [5, 6]) = Inl Not_A_Leaf \<and> art_abs (insert_keys [5, 6]) 5 = None"
  by (rule art_find_outcome [OF insert_keys_wf])

text \<open>The wrong accesses do happen. After the insertion of the fifteen keys \<open>256, \<dots>, 270\<close> a lookup of \<open>0\<close> reads a
  sparse node as a leaf and a removal of \<open>271\<close> follows a null pointer; in the map with the one key \<open>5\<close> the range query
  from \<open>7\<close> to \<open>9\<close> reads behind the last entry of the leaf.\<close>

theorem art_wrong_accesses:
  "find_art 0 (insert_keys fifteen_keys) = Inl Not_A_Leaf \<and> try_remove 271 (insert_keys fifteen_keys) = Inl Null_Deref
    \<and> range_art 7 9 (insert_keys [5]) = None"
proof (intro conjI)
  show "find_art 0 (insert_keys fifteen_keys) = Inl Not_A_Leaf" by code_simp
  show "try_remove 271 (insert_keys fifteen_keys) = Inl Null_Deref" by code_simp
  show "range_art 7 9 (insert_keys [5]) = None" by code_simp
qed

text \<open>C38: A range query on the radix tree that stays within the leaves reports exactly the entries of the map with
  keys between the bounds, although it compares whole keys only in the leaves and skips subtrees by single bytes.\<close>

theorem art_range_exact:
  assumes "wf_art t" "range_art start end_key t = Some es"
  shows "set es = {(k, v). art_abs t k = Some v \<and> start \<le> k \<and> k \<le> end_key}"
proof -
  have "(k, v) \<in> set es \<longleftrightarrow> art_abs t k = Some v \<and> start \<le> k \<and> k \<le> end_key" for k v
    using range_internal_spec [of 0 0 t 0 "Some start" "Some end_key" es k v] assms
    by (auto simp: art_abs_lookup wf_art_def range_art_def tight_def in_bounds_def)
  then show ?thesis by auto
qed

theorem art_range_exact_witness: "set [(5::u64, ())] = {(k, v). art_abs (insert_keys [5]) k = Some v \<and> 3 \<le> k \<and> k \<le> 9}"
proof (rule art_range_exact [OF insert_keys_wf])
  show "range_art 3 9 (insert_keys [5]) = Some [(5, ())]" by code_simp
qed

text \<open>C39: The two searches of a leaf agree: the one for integers, which compares keys with \<open><\<close>, and the one for strings, which
  compares bytes from the one where the descent stopped and gives up when that is before the first byte that differs in the leaf.\<close>

theorem leaf_searches_agree:
  assumes "art_leaf_ok n h kvs" "first_bytes p k = first_bytes p h" "p \<le> n"
  shows "leaf_find_cmp n kvs k (advance k (Leaf h n kvs) p) = leaf_search kvs k"
proof -
  have "n \<le> 8" using assms(1) by (simp add: art_leaf_ok_def)
  then show ?thesis using advance_spec [of p "Leaf h n kvs" k] assms by (intro leaf_find_cmp_eq) auto
qed

theorem leaf_searches_agree_witness:
  "leaf_find_cmp 7 [(5, ()), (6, ())] 6 (advance 6 (Leaf 5 7 [(5, ()), (6, ())]) 0) = leaf_search [(5, ()), (6, ())] 6"
proof (rule leaf_searches_agree)
  show "art_leaf_ok 7 5 [(5, ()), (6, ())]" by (auto simp: art_leaf_ok_def max_big_leaf_size_def first_bytes_def get_byte_def)
qed simp_all

text \<open>The self check of a well-formed tree does not abort and returns the number of keys.\<close>

theorem art_check_counts:
  assumes "wf_art t"
  shows "art_crec t = Some (card (dom (art_abs t)))"
  by (rule crec_card [OF assms])

end
