(* ===== verification/Spec2Isabelle.thy ===== *)
theory Spec2Isabelle
  imports Flock_Types Flock_Spin_Lock Flock_Lf_Lock Verlib_Indirect Verlib_Hybrid Verlib_Recorded_Once List_Map Leaf_Tree Hash_Block B_Tree List_Onelock DList_Map Hash_Set Block_Leaf_Tree Radix_Tree_Map
begin

text \<open>
  \<^bold>\<open>Verlib\<close> is a C++ library of concurrent ordered and unordered maps whose pointers are
  versioned, so that a query can read a consistent snapshot of a structure while updates go on.
  This development models its layers and proves what each promises to the next.

  \<^bold>\<open>The parts of the program and how they interact.\<close>
  The lowest layer is \<^emph>\<open>flock\<close> (\<^verbatim>\<open>include/flock\<close>). Its locks are taken with \<open>try_lock\<close> and a thunk.
  In the lock-free lock a thread installs a descriptor of its thunk, and a thread that finds the lock
  taken runs the thunk of the owner itself. So that many helpers have the effect of one
  run, everything a thunk does goes through an idempotence log: the first helper commits the result of
  each access and the others take it over. Words that are changed under a lock carry tags, so that
  a late compare-and-swap fails. Memory is given back by epochs: a retired object
  is freed when every operation that could have seen it has ended.
  On top of it \<^emph>\<open>verlib\<close> (\<^verbatim>\<open>include/verlib\<close>) has the global clocks that hand out read and write stamps, and
  three kinds of versioned pointers that keep a chain of stamped versions. The \<^emph>\<open>structures\<close>
  (\<^verbatim>\<open>structures/*/ordered_map.h\<close>, \<open>unordered_map.h\<close>, \<open>set.h\<close>) use both: an operation searches without
  locks, takes one or two locks, validates what it saw and changes a few pointers.

  \<^bold>\<open>Theories.\<close>
  \<^item> \<open>VL_Prelude\<close>: base types (64-bit words, addresses as natural numbers), shared lemmas, the
    locale \<open>monotone_shared\<close>.
  \<^item> \<open>Flock_Log\<close> (\<^verbatim>\<open>flock/lf_log.h\<close>): chained log arrays, the thread's position, \<open>commit_value\<close>, \<open>skip_if_done\<close>,
    \<open>with_log\<close>. Helpers of one thunk see the same values whatever the order of their commits, and a helper that
    skips arrives where the others did.
  \<^item> \<open>Flock_Tagged\<close> (\<^verbatim>\<open>flock/tagged.h\<close>, \<^verbatim>\<open>no_tagged.h\<close>): the layout of tag and value in a word, the choice of the
    next tag among the announced ones, and the compare-and-swap that takes effect at most once among helpers.
  \<^item> \<open>Flock_Epoch\<close> (\<^verbatim>\<open>flock/epoch.h\<close>, \<^verbatim>\<open>acquired_pool.h\<close>): announcements, epoch updates, lists of retired
    objects; an inductive step relation of all workers, with the invariants that give safe reclamation, and
    the statement that a retired object is freed two epochs later and not before.
  \<^item> \<open>Flock_Types\<close> (\<^verbatim>\<open>flock/lf_types.h\<close>, \<^verbatim>\<open>lock_types.h\<close>): \<open>atomic\<close>, \<open>atomic_double\<close>, \<open>atomic_aba_free\<close>,
    \<open>atomic_write_once\<close>, memory pools and results in the log.
  \<^item> \<open>Flock_Spin_Lock\<close> (\<^verbatim>\<open>flock/spin_lock.h\<close>): the blocking lock, mutual exclusion by rule induction over the steps
    of contending threads for fewer than \<open>2\<^sup>3\<^sup>1\<close> acquisitions, and the outcome of \<open>try_lock\<close>.
  \<^item> \<open>Flock_Lf_Lock\<close> (\<^verbatim>\<open>flock/lf_lock.h\<close>): descriptors, helping, \<open>try_lock\<close> and \<open>with_lock\<close>, with every run of a thunk
    executed again on its log; all runs of a thunk return the result that the owner returns, the thunk of a descriptor that never got the
    lock is not run, and a holder that has stopped does not block the others.
  \<^item> \<open>Verlib_Timestamps\<close> (\<^verbatim>\<open>verlib/timestamps.h\<close>): the clocks, the locale \<open>stamp_clock\<close> of what versioned pointers need of
    a clock, interpreted for those clocks that have it, and \<open>with_snapshot\<close>; for the default clock it is
    shown when a write gets the stamp of an earlier snapshot.
  \<^item> \<open>Verlib_Indirect\<close>, \<open>Verlib_Hybrid\<close>, \<open>Verlib_Recorded_Once\<close> (\<^verbatim>\<open>verlib/versioned_*.h\<close>): version chains, set-stamp, snapshot
    reads, store, compare-and-swap. The first is proved inside \<open>stamp_clock\<close>, for every clock; the store of the second among readers
    that take out links and stamp versions (\<open>readers\<close>), its compare-and-swap and the third for operations that run alone.
  \<^item> \<open>Map_ADT\<close> (\<^verbatim>\<open>flock/flock.h\<close> for \<open>try_loop\<close>): the retry loop and the locales \<open>map_updates\<close> and \<open>map_adt\<close>, the contract of a map.
  \<^item> \<open>List_Map\<close>, \<open>DList_Map\<close>, \<open>List_Onelock\<close>, \<open>Leaf_Tree\<close>, \<open>Hash_Block\<close>, \<open>Hash_Set\<close>, \<open>B_Tree\<close>, \<open>Block_Leaf_Tree\<close>: the structures of
    \<^verbatim>\<open>structures/list\<close>, \<open>dlist\<close>, \<open>list_onelock\<close>, \<open>leaftree\<close>, \<open>hash_block\<close>, \<open>hash\<close>, \<open>btree\<close> and \<open>blockleaftree\<close>.
  \<^item> \<open>Radix_Tree\<close>, \<open>Radix_Tree_Map\<close> (\<^verbatim>\<open>structures/arttree\<close>): the adaptive radix tree for keys of 64 bits and its proofs. Insertions are
    those of a map. Removals, lookups and range queries are as far as they do not make one of three wrong accesses, which are values
    of the model (\<open>art_error\<close>, \<open>None\<close>) and are shown to happen; the radix tree is therefore not an interpretation of \<open>map_adt\<close>.

  \<^bold>\<open>State and operations.\<close>
  A C++ struct is a record or, where the code distinguishes node kinds by a flag, a datatype. The heap of a structure is a
  map from addresses to nodes with the set of addresses in use; allocation is an argument that must
  return a fresh address. An operation on shared memory is a function that passes the
  state along; what the other threads do before its \<open>i\<close>-th access is its argument \<open>env\<close> (or \<open>e\<close> for the
  moment between search and lock). The theorems hold for every such argument that respects \<open>monotone_shared.rely\<close>: it
  may only move the state up in the component's preorder and keeps its invariant, which is what the
  operations of the component are shown to guarantee themselves. \<open>None\<close> as the result of an attempt is
  the empty optional with which the code asks for a retry; \<open>None\<close> as the result of a loop
  is a loop that has not ended; errors (assertions, \<open>abort\<close>, a null dereference) are values.
  The trees of \<open>B_Tree\<close>, \<open>Block_Leaf_Tree\<close> and \<open>Radix_Tree\<close> are immutable values instead of a heap, for
  operations that run alone.

  \<^bold>\<open>What the groups of lemmas show.\<close>
  Each theory has an invariant (\<open>wf_\<dots>\<close>), that every operation keeps it, what each operation does on each branch, and the
  refinement of its contract. For the structures these are two: an attempt that succeeds acts at one moment, that of the
  validation under the lock, on the abstract map (\<open>\<dots>_atomic\<close>); and operations one after the other
  are those of a map (the interpretations of \<open>map_adt\<close>). The theorem of this theory puts the interpretations together.

  \<^bold>\<open>Bounds and fuel.\<close>
  Searches take the number of nodes (\<open>card (nodes s)\<close>) as fuel where they run alone: a path visits no node twice.
  Under interference no bound exists, and the theorems speak about a search that has ended.
  The loops of the radix tree end since they go up in the eight bytes of a key or down in the tree.
  The descent of the B-tree with its fixes takes \<open>rounds_left\<close> rounds, a measure that each fix lowers. The version number of a
  hash slot and the tags are kept at their width: the theorems state how many updates may fall
  into one operation (\<open>2\<^sup>3\<^sup>2 - 1\<close>), or that the announced tags are avoided; for the spin lock they state how often
  it was taken.

  \<^bold>\<open>Not modelled.\<close>
  \<^item> \<^verbatim>\<open>structures/arttree2\<close> and \<open>oldarttree\<close>, older radix trees; \<^verbatim>\<open>blockleaftree/rebalance.h\<close>,
    whose inclusion is commented out; the \<open>new_\<dots>\<close> variants, which repeat the modelled files with another
    interface (of the hash table the choice of the pool is modelled);
    \<^verbatim>\<open>structures/*/set.h\<close> of the maps, which only rename the operations.
  \<^item> \<^verbatim>\<open>verlib/atomic_val.h\<close>, which nothing includes, and \<^verbatim>\<open>verlib/verlib.h\<close>, a selection of implementations by macros.
  \<^item> \<^verbatim>\<open>include/parlay\<close> (a vendored library; \<open>log2_up\<close> is the only function of it that is modelled), \<^verbatim>\<open>setbench\<close> and
    \<^verbatim>\<open>rqsize_benchmark\<close> (vendored benchmarks with structures of other authors), \<^verbatim>\<open>benchmark\<close> (drivers and timing) and the scripts.
  \<^item> Printing, statistics of the pools, back-off delays, and the weaker memory orders: every access is atomic and
    all threads see one order of accesses.
\<close>

section \<open>The structures are interchangeable\<close>

text \<open>C34: Every history of find, insert and remove gets the same answers from the singly and the doubly linked
  list, the one-lock list, the leaf tree, the B-tree, the block leaf tree and the chained hash
  table when each starts empty, namely those of the abstract map: the benchmarks may
  exchange one structure for another.\<close>

theorem maps_interchangeable:
  assumes addr: "p \<noteq> q" "p \<noteq> nullptr" "q \<noteq> nullptr"
    and blocks: "wf_blocks b" "1 \<le> n" and size: "m < 2 ^ 62"
  shows "fst (list_map.impl_run xs (empty_lmap p q (k::'k::linorder) v)) = fst (spec_run xs Map.empty)
    \<and> fst (one_list.impl_run xs (one_empty p q k v)) = fst (spec_run xs Map.empty)
    \<and> fst (dlist.impl_run xs (dinit p q k v)) = fst (spec_run xs Map.empty)
    \<and> fst (leaf_tree.impl_run xs (empty_ltree p q k v)) = fst (spec_run xs Map.empty)
    \<and> fst (btree.impl_run b xs (empty_btree b)) = fst (spec_run xs Map.empty)
    \<and> fst (block_tree.impl_run n xs empty_blt) = fst (spec_run xs Map.empty)
    \<and> fst (chained.impl_run Hash xs (set_empty m junk)) = fst (spec_run xs Map.empty)"
proof (intro conjI)
  have qp: "q \<noteq> p" using addr(1) by simp
  show "fst (list_map.impl_run xs (empty_lmap p q k v)) = fst (spec_run xs Map.empty)"
    by (rule list_map.impl_run_answers [OF wf_empty_lmap empty_lmap_abs]) (rule addr(1))+
  show "fst (one_list.impl_run xs (one_empty p q k v)) = fst (spec_run xs Map.empty)"
    unfolding one_empty_eq by (rule one_list.impl_run_answers [OF wf_empty_lmap empty_lmap_abs]) (rule qp)+
  show "fst (dlist.impl_run xs (dinit p q k v)) = fst (spec_run xs Map.empty)"
    by (rule dlist.impl_run_answers [OF dinit_inv [OF qp addr(3,2)]])
  show "fst (leaf_tree.impl_run xs (empty_ltree p q k v)) = fst (spec_run xs Map.empty)"
    by (rule leaf_tree.impl_run_answers [OF wf_empty_ltree empty_ltree_abs]) (rule addr)+
  show "fst (btree.impl_run b xs (empty_btree b)) = fst (spec_run xs Map.empty)"
    by (rule btree.impl_run_answers [OF empty_btree_wf [OF blocks(1)] empty_btree_abs])
  show "fst (block_tree.impl_run n xs empty_blt) = fst (spec_run xs Map.empty)"
    by (rule block_tree.impl_run_answers [OF empty_blt_wf [OF blocks(2)] empty_blt_abs])
  show "fst (chained.impl_run Hash xs (set_empty m junk)) = fst (spec_run xs Map.empty)"
    by (rule chained.impl_run_answers [OF set_empty_wf [OF size]])
qed

text \<open>The same history on a list and on a B-tree.\<close>

definition some_history :: "(nat, nat) map_op list" where
  "some_history = [Insert 3 30, Insert 7 70, Insert 3 31, Find 3, Remove 3, Find 3]"

theorem maps_interchangeable_witness:
  "fst (list_map.impl_run some_history (empty_lmap 1 2 0 0)) = fst (btree.impl_run (block_sizes 32 8 8 16) some_history (empty_btree (block_sizes 32 8 8 16)))
    \<and> fst (list_map.impl_run some_history (empty_lmap 1 2 0 0)) = [Inserted True, Inserted True, Inserted False, Found (Some 30), Removed_key True, Found None]"
proof -
  have "fst (list_map.impl_run some_history (empty_lmap 1 2 0 0)) = fst (spec_run some_history Map.empty)"
    "fst (btree.impl_run (block_sizes 32 8 8 16) some_history (empty_btree (block_sizes 32 8 8 16))) = fst (spec_run some_history Map.empty)"
    using maps_interchangeable [of 1 2 "block_sizes 32 8 8 16" 1 0 some_history] by (simp_all add: block_sizes_wf)
  moreover have "fst (spec_run some_history Map.empty) = [Inserted True, Inserted True, Inserted False, Found (Some 30), Removed_key True, Found None]"
    by (simp add: some_history_def)
  ultimately show ?thesis by simp
qed

end
